(* ===== verification/Prelude.thy ===== *)
theory Prelude
  imports Main "HOL-Library.Word" "HOL-Library.Monad_Syntax"
begin

text \<open>
  Shared vocabulary of the development: the machine types of the 64-bit build, the collections of
  lemmas the component theories fill, and the generic facts on words and lists they share.

  Machine integers are \<open>64 word\<close> (the C types \<open>aint\<close>, \<open>auint\<close>, \<open>ptrt\<close> and
  \<open>size_t\<close> of \<open>runtime/runtime_common.h\<close> on an LP64 target); signed readings go
  through \<open>sint\<close>. Addresses are \<open>nat\<close>: a machine word that the code uses as a pointer
  is read with \<open>unat\<close>, and a pointer stored in memory is written with \<open>of_nat\<close>.
\<close>

unbundle bit_operations_syntax

type_synonym byte = "8 word"
type_synonym u64 = "64 word"
type_synonym addr = nat

named_theorems mem_simps \<open>reading memory after a write\<close>
named_theorems obj_simps \<open>layout of heap objects\<close>
named_theorems res_simps \<open>inversion of a successful result\<close>

section \<open>Results\<close>

text \<open>
  The ways a run of the runtime stops before it returns: \<open>failure\<close> (\<open>exit(255)\<close> after a
  message), \<open>exit(1)\<close>, a failed \<open>assert\<close>, a signal, and an operation whose behaviour C leaves
  undefined (a write outside an object, a division by zero).
\<close>

datatype stop = Failure string | Exit nat | AssertFailed | Killed | Undefined

type_synonym 'a res = "stop + 'a"

definition bindR :: "'a res \<Rightarrow> ('a \<Rightarrow> 'b res) \<Rightarrow> 'b res" where
  "bindR r f = (case r of Inl e \<Rightarrow> Inl e | Inr x \<Rightarrow> f x)"

lemma bindR_Inl [simp]: "bindR (Inl e) f = Inl e"
  and bindR_Inr [simp]: "bindR (Inr x) f = f x"
  by (simp_all add: bindR_def)

lemma bindR_eq_Inr [res_simps]: "bindR r f = Inr y \<longleftrightarrow> (\<exists>x. r = Inr x \<and> f x = Inr y)"
  by (cases r) auto

lemma bindR_eq_Inl [res_simps]:
  "bindR r f = Inl e \<longleftrightarrow> r = Inl e \<or> (\<exists>x. r = Inr x \<and> f x = Inl e)"
  by (cases r) auto

section \<open>Words\<close>

lemma unat_of_nat_u64: "n < 2 ^ 64 \<Longrightarrow> unat (of_nat n :: u64) = n"
  by (simp add: unat_of_nat)

lemma of_nat_unat_u64 [simp]: "(of_nat (unat (x :: u64)) :: u64) = x"
  by simp

lemma unat_u64_less [simp]: "unat (x :: u64) < 2 ^ 64"
  using unsigned_less [of x] by simp

lemma bit_one_u64 [simp]: "bit (1 :: u64) n \<longleftrightarrow> n = 0"
  by (auto simp: bit_1_iff)

lemma u64_and_1_cases: "(x :: u64) AND 1 = 0 \<or> x AND 1 = 1"
  by (simp add: and_one_eq mod_2_eq_odd)

lemma u64_and_1_eq_0_iff: "(x :: u64) AND 1 = 0 \<longleftrightarrow> even x"
  by (simp add: and_one_eq mod_2_eq_odd)

lemma even_u64_iff: "even (x :: u64) \<longleftrightarrow> even (unat x)"
proof -
  have "bit (unat x) 0 = bit x 0" by (simp add: bit_unsigned_iff)
  then show ?thesis by (simp add: bit_0)
qed

section \<open>Lists\<close>

lemma nth_butlast_snoc: "i < length xs \<Longrightarrow> (xs @ [y]) ! i = xs ! i"
  by (simp add: nth_append)

lemma distinct_subset_length:
  "distinct xs \<Longrightarrow> set xs \<subseteq> set ys \<Longrightarrow> length xs \<le> length ys"
  by (metis List.finite_set card_length card_mono distinct_card le_trans)

end
