(* ===== verification/Memory.thy ===== *)
theory Memory
  imports Prelude
begin

text \<open>
  The byte-addressed memory the C runtime works on: little-endian 64-bit loads and stores
  (RISC-V, \<open>sizeof(size_t) = 8\<close>), \<open>memset\<close>, \<open>memcpy\<close>/\<open>memmove\<close> and C strings.
  Memory is total: reading an unmapped address, which the hardware would trap, is not a
  behaviour of the model, and each theorem says which addresses it is about.
\<close>

type_synonym mem = "addr \<Rightarrow> byte"

fun ldn :: "mem \<Rightarrow> addr \<Rightarrow> nat \<Rightarrow> u64" where
  "ldn m a 0 = 0"
| "ldn m a (Suc k) = ucast (m a) OR push_bit 8 (ldn m (Suc a) k)"

definition ld64 :: "mem \<Rightarrow> addr \<Rightarrow> u64" where
  "ld64 m a = ldn m a 8"

definition st64 :: "mem \<Rightarrow> addr \<Rightarrow> u64 \<Rightarrow> mem" where
  "st64 m a v = (\<lambda>x. if a \<le> x \<and> x < a + 8 then ucast (drop_bit (8 * (x - a)) v) else m x)"

definition memset :: "mem \<Rightarrow> addr \<Rightarrow> byte \<Rightarrow> nat \<Rightarrow> mem" where
  "memset m a v n = (\<lambda>x. if a \<le> x \<and> x < a + n then v else m x)"

text \<open>\<open>memmove\<close> reads the whole source before it writes; \<open>memcpy\<close> is the same on ranges
  that do not overlap, the only ones it is defined on.\<close>

definition memmove :: "mem \<Rightarrow> addr \<Rightarrow> addr \<Rightarrow> nat \<Rightarrow> mem" where
  "memmove m d s n = (\<lambda>x. if d \<le> x \<and> x < d + n then m (s + (x - d)) else m x)"

section \<open>Loads and stores\<close>

lemma bit_ldn:
  "bit (ldn m a k) n \<longleftrightarrow> n < 8 * k \<and> n < 64 \<and> bit (m (a + n div 8)) (n mod 8)"
proof (induction k arbitrary: a n)
  case 0
  then show ?case by simp
next
  case (Suc k)
  show ?case
  proof (cases "n < 8")
    case True
    then show ?thesis by (auto simp: bit_or_iff bit_push_bit_iff bit_ucast_iff)
  next
    case False
    then have "n div 8 = Suc ((n - 8) div 8)" and "n mod 8 = (n - 8) mod 8"
      by (simp_all add: le_div_geq le_mod_geq)
    moreover have "\<not> bit (m a) n"
      using False bit_imp_le_length [of "m a" n] by (auto dest: bit_imp_le_length)
    ultimately show ?thesis
      using False by (auto simp: bit_or_iff bit_push_bit_iff bit_ucast_iff Suc.IH)
  qed
qed

lemma bit_ld64: "bit (ld64 m a) n \<longleftrightarrow> n < 64 \<and> bit (m (a + n div 8)) (n mod 8)"
  by (auto simp: ld64_def bit_ldn)

lemma ld64_cong:
  assumes "\<And>i. i < 8 \<Longrightarrow> m (a + i) = m' (b + i)"
  shows "ld64 m a = ld64 m' b"
proof (rule bit_word_eqI)
  fix n assume "n < LENGTH(64)"
  then have "n div 8 < 8" by simp
  then show "bit (ld64 m a) n \<longleftrightarrow> bit (ld64 m' b) n"
    by (simp add: bit_ld64 assms)
qed

lemma st64_apply: "st64 m a v x = (if a \<le> x \<and> x < a + 8 then ucast (drop_bit (8 * (x - a)) v) else m x)"
  by (simp add: st64_def)

lemma ld64_st64_same [mem_simps, simp]: "ld64 (st64 m a v) a = v"
proof (rule bit_word_eqI)
  fix n assume "n < LENGTH(64)"
  then have "n div 8 < 8" by simp
  then show "bit (ld64 (st64 m a v) a) n \<longleftrightarrow> bit v n"
    using \<open>n < LENGTH(64)\<close>
    by (simp add: bit_ld64 st64_apply bit_ucast_iff bit_drop_bit_eq)
qed

lemma st64_ld64 [simp]: "st64 m a (ld64 m a) = m"
proof
  fix x
  show "st64 m a (ld64 m a) x = m x"
  proof (cases "a \<le> x \<and> x < a + 8")
    case True
    have "ucast (drop_bit (8 * (x - a)) (ld64 m a)) = m x"
    proof (rule bit_word_eqI)
      fix n assume n: "n < LENGTH(8)"
      then have "(8 * (x - a) + n) div 8 = x - a" "(8 * (x - a) + n) mod 8 = n" by auto
      moreover have "8 * (x - a) + n < 64" using True n by auto
      ultimately show "bit (ucast (drop_bit (8 * (x - a)) (ld64 m a)) :: byte) n \<longleftrightarrow> bit (m x) n"
        using True n by (simp add: bit_ucast_iff bit_drop_bit_eq bit_ld64)
    qed
    then show ?thesis using True by (simp add: st64_apply)
  qed (auto simp: st64_apply)
qed

lemma ld64_st64_other [mem_simps]:
  assumes "b + 8 \<le> a \<or> a + 8 \<le> b"
  shows "ld64 (st64 m a v) b = ld64 m b"
  using assms by (intro ld64_cong) (auto simp: st64_apply)

lemma ld64_memset_other [mem_simps]:
  assumes "b + 8 \<le> a \<or> a + n \<le> b"
  shows "ld64 (memset m a v n) b = ld64 m b"
  using assms by (intro ld64_cong) (auto simp: memset_def)

lemma ld64_memset_0 [mem_simps]:
  assumes "a \<le> b" "b + 8 \<le> a + n"
  shows "ld64 (memset m a 0 n) b = 0"
  using assms by (intro bit_word_eqI) (auto simp: bit_ld64 memset_def)

lemma ld64_memmove_in [mem_simps]:
  assumes "d \<le> b" "b + 8 \<le> d + n"
  shows "ld64 (memmove m d s n) b = ld64 m (s + (b - d))"
proof (rule ld64_cong)
  fix i :: nat assume "i < 8"
  then have "b + i - d = (b - d) + i" and "d \<le> b + i" and "b + i < d + n"
    using assms by linarith+
  then show "memmove m d s n (b + i) = m (s + (b - d) + i)"
    by (simp only: memmove_def add.assoc simp_thms if_True)
qed

lemma ld64_memmove_out [mem_simps]:
  assumes "b + 8 \<le> d \<or> d + n \<le> b"
  shows "ld64 (memmove m d s n) b = ld64 m b"
  using assms by (intro ld64_cong) (auto simp: memmove_def)

lemma memmove_in: "d \<le> x \<Longrightarrow> x < d + n \<Longrightarrow> memmove m d s n x = m (s + (x - d))"
  and memmove_out: "x < d \<or> d + n \<le> x \<Longrightarrow> memmove m d s n x = m x"
  by (auto simp: memmove_def)

section \<open>Arrays of words\<close>

fun st_words :: "mem \<Rightarrow> addr \<Rightarrow> u64 list \<Rightarrow> mem" where
  "st_words m a [] = m"
| "st_words m a (v # vs) = st_words (st64 m a v) (a + 8) vs"

fun ld_words :: "mem \<Rightarrow> addr \<Rightarrow> nat \<Rightarrow> u64 list" where
  "ld_words m a 0 = []"
| "ld_words m a (Suc n) = ld64 m a # ld_words m (a + 8) n"

lemma st_words_out: "x < a \<or> a + 8 * length vs \<le> x \<Longrightarrow> st_words m a vs x = m x"
  by (induction vs arbitrary: m a) (auto simp: st64_apply)

lemma ld64_st_words_out [mem_simps]:
  "b + 8 \<le> a \<or> a + 8 * length vs \<le> b \<Longrightarrow> ld64 (st_words m a vs) b = ld64 m b"
  by (intro ld64_cong st_words_out) auto

lemma ld64_st_words_in [mem_simps]:
  "i < length vs \<Longrightarrow> ld64 (st_words m a vs) (a + 8 * i) = vs ! i"
proof (induction vs arbitrary: m a i)
  case Nil
  then show ?case by simp
next
  case (Cons v vs)
  show ?case
  proof (cases i)
    case 0
    then show ?thesis by (simp add: ld64_st_words_out)
  next
    case (Suc j)
    have "ld64 (st_words (st64 m a v) (a + 8) vs) (a + 8 + 8 * j) = vs ! j"
      using Cons.prems Suc by (intro Cons.IH) simp
    then show ?thesis using Suc by (simp add: add.assoc)
  qed
qed

lemma length_ld_words [simp]: "length (ld_words m a n) = n"
  by (induction n arbitrary: a) auto

lemma nth_ld_words [mem_simps]: "i < n \<Longrightarrow> ld_words m a n ! i = ld64 m (a + 8 * i)"
proof (induction n arbitrary: a i)
  case 0
  then show ?case by simp
next
  case (Suc n)
  then show ?case by (cases i) (simp_all add: add.assoc)
qed

lemma ld_words_st_words [mem_simps]: "ld_words (st_words m a vs) a (length vs) = vs"
  by (rule nth_equalityI) (simp_all add: mem_simps)

section \<open>C strings\<close>

text \<open>The bytes before the terminating NUL, if there is one in the first \<open>n\<close> bytes.\<close>

fun cstr :: "mem \<Rightarrow> addr \<Rightarrow> nat \<Rightarrow> byte list" where
  "cstr m a 0 = []"
| "cstr m a (Suc n) = (if m a = 0 then [] else m a # cstr m (Suc a) n)"

fun st_bytes :: "mem \<Rightarrow> addr \<Rightarrow> byte list \<Rightarrow> mem" where
  "st_bytes m a [] = m"
| "st_bytes m a (b # bs) = st_bytes (m(a := b)) (Suc a) bs"

lemma st_bytes_out: "x < a \<or> a + length bs \<le> x \<Longrightarrow> st_bytes m a bs x = m x"
  by (induction bs arbitrary: m a) auto

lemma st_bytes_in: "i < length bs \<Longrightarrow> st_bytes m a bs (a + i) = bs ! i"
proof (induction bs arbitrary: m a i)
  case Nil
  then show ?case by simp
next
  case (Cons b bs)
  then show ?case
  proof (cases i)
    case 0
    then show ?thesis by (simp add: st_bytes_out)
  next
    case (Suc j)
    have "st_bytes (m(a := b)) (Suc a) bs (Suc a + j) = bs ! j"
      using Cons.prems Suc by (intro Cons.IH) simp
    then show ?thesis using Suc by simp
  qed
qed

end
