(* ===== verification/Values.thy ===== *)
theory Values
  imports Memory
begin

text \<open>
  The value representation of \<open>runtime/runtime_common.h\<close>: a Lama value is a machine word,
  an unboxed integer when its low bit is set and a pointer to the contents of a heap object
  otherwise; the word before the contents' predecessor is the object's header, with the kind of
  the object in the low three bits and its length in the others.
\<close>

definition STRING_TAG :: u64 where "STRING_TAG = 1"
definition ARRAY_TAG :: u64 where "ARRAY_TAG = 3"
definition SEXP_TAG :: u64 where "SEXP_TAG = 5"
definition CLOSURE_TAG :: u64 where "CLOSURE_TAG = 7"
definition UNBOXED_TAG :: u64 where "UNBOXED_TAG = 9"

lemmas tag_defs = STRING_TAG_def ARRAY_TAG_def SEXP_TAG_def CLOSURE_TAG_def UNBOXED_TAG_def

definition LEN_MASK :: u64 where "LEN_MASK = (- 1) XOR 7"

definition LEN :: "u64 \<Rightarrow> u64" where "LEN x = drop_bit 3 (x AND LEN_MASK)"
definition TAG :: "u64 \<Rightarrow> u64" where "TAG x = x AND 7"

text \<open>Without \<open>DEBUG_VERSION\<close> an object header is the data header and the forward address.\<close>

definition DATA_HEADER_SZ :: nat where "DATA_HEADER_SZ = 8 + 8"
definition MEMBER_SIZE :: nat where "MEMBER_SIZE = 8"

lemma DATA_HEADER_SZ_eq [simp]: "DATA_HEADER_SZ = 16"
  and MEMBER_SIZE_eq [simp]: "MEMBER_SIZE = 8"
  by (simp_all add: DATA_HEADER_SZ_def MEMBER_SIZE_def)

definition TO_DATA :: "addr \<Rightarrow> addr" where "TO_DATA x = x - DATA_HEADER_SZ"
definition TO_SEXP :: "addr \<Rightarrow> addr" where "TO_SEXP x = x - DATA_HEADER_SZ"

definition UNBOXED :: "u64 \<Rightarrow> u64" where "UNBOXED x = x AND 1"
definition UNBOX :: "u64 \<Rightarrow> u64" where "UNBOX x = signed_drop_bit 1 x"
definition BOX :: "u64 \<Rightarrow> u64" where "BOX x = push_bit 1 x OR 1"

abbreviation unboxed :: "u64 \<Rightarrow> bool" where "unboxed x \<equiv> UNBOXED x \<noteq> 0"

definition BYTES_TO_WORDS :: "u64 \<Rightarrow> u64" where "BYTES_TO_WORDS bytes = (bytes - 1) div 8 + 1"
definition WORDS_TO_BYTES :: "u64 \<Rightarrow> u64" where "WORDS_TO_BYTES words = words * 8"

section \<open>Boxing\<close>

lemma unboxed_iff: "unboxed x \<longleftrightarrow> odd x"
  by (simp add: UNBOXED_def u64_and_1_eq_0_iff)

lemma unboxed_bit: "unboxed x \<longleftrightarrow> bit x 0"
  by (simp add: unboxed_iff bit_0)

lemma unboxed_BOX [simp]: "unboxed (BOX x)"
  by (simp add: unboxed_bit BOX_def bit_or_iff)

lemma bit_UNBOX: "bit (UNBOX x) n \<longleftrightarrow> n < 64 \<and> bit x (if n = 63 then 63 else Suc n)"
  by (auto simp: UNBOX_def bit_signed_drop_bit_iff dest: bit_imp_le_length)

lemma BOX_eq: "BOX x = 2 * x + 1"
proof -
  have "even (2 * x)" by simp
  then have "2 * x OR 1 = 2 * x + 1"
    by (metis even_or_iff odd_one or.commute one_or_eq of_bool_def)
  then show ?thesis by (simp add: BOX_def push_bit_eq_mult mult.commute)
qed

lemma bit_BOX: "bit (BOX x) n \<longleftrightarrow> n < 64 \<and> (n = 0 \<or> bit x (n - 1))"
  unfolding BOX_def bit_or_iff bit_push_bit_iff by (auto dest: bit_imp_le_length)

lemma BOX_UNBOX: "unboxed x \<Longrightarrow> BOX (UNBOX x) = x"
proof (rule bit_word_eqI)
  fix n assume "unboxed x" "n < LENGTH(64)"
  then show "bit (BOX (UNBOX x)) n \<longleftrightarrow> bit x n"
    by (cases n) (auto simp: unboxed_bit bit_BOX bit_UNBOX)
qed

lemma sint_UNBOX: "sint (UNBOX x) = sint x div 2"
  by (simp add: UNBOX_def sint_signed_drop_bit_eq drop_bit_eq_div)

definition fits63 :: "int \<Rightarrow> bool" where
  "fits63 i \<longleftrightarrow> - (2 ^ 62) \<le> i \<and> i < 2 ^ 62"

lemma fits63_UNBOX: "fits63 (sint (UNBOX x))"
  using sint_greater_eq [of x] sint_lt [of x] by (auto simp: fits63_def sint_UNBOX)

lemma sint_BOX: "fits63 (sint x) \<Longrightarrow> sint (BOX x) = 2 * sint x + 1"
  unfolding BOX_eq fits63_def
  by (simp add: sint_word_add sint_word_mult signed_take_bit_int_eq_self)

lemma UNBOX_BOX: "fits63 (sint x) \<Longrightarrow> UNBOX (BOX x) = x"
proof -
  assume "fits63 (sint x)"
  then have "sint (UNBOX (BOX x)) = sint x" by (simp add: sint_UNBOX sint_BOX)
  then show ?thesis by (rule signed_word_eqI)
qed

lemma BOX_inject: "fits63 (sint x) \<Longrightarrow> fits63 (sint y) \<Longrightarrow> BOX x = BOX y \<longleftrightarrow> x = y"
  by (metis UNBOX_BOX)

section \<open>Headers\<close>

definition mk_header :: "u64 \<Rightarrow> u64 \<Rightarrow> u64" where
  "mk_header t len = t OR push_bit 3 len"

lemma bit_7_u64: "bit (7 :: u64) n \<longleftrightarrow> n < 3"
proof -
  have "(7 :: u64) = mask 3" by (simp add: mask_eq_exp_minus_1)
  then show ?thesis by (simp only: bit_mask_iff) auto
qed

lemma bit_TAG: "bit (TAG x) n \<longleftrightarrow> n < 3 \<and> bit x n"
  unfolding TAG_def bit_and_iff bit_7_u64 by auto

lemma LEN_eq: "LEN x = drop_bit 3 x"
proof (rule bit_word_eqI)
  fix n assume "n < LENGTH(64)"
  have "bit LEN_MASK k \<longleftrightarrow> k < 64 \<and> 3 \<le> k" for k
    unfolding LEN_MASK_def bit_xor_iff bit_7_u64 by (auto simp: bit_minus_1_iff)
  then show "bit (LEN x) n \<longleftrightarrow> bit (drop_bit 3 x) n"
    using bit_imp_le_length [of x "3 + n"]
    unfolding LEN_def bit_drop_bit_eq bit_and_iff o_def by simp blast
qed

lemma bit_small_u64: "unat (t :: u64) < 2 ^ k \<Longrightarrow> k \<le> n \<Longrightarrow> \<not> bit t n"
proof -
  assume t: "unat t < 2 ^ k" "k \<le> n"
  then have "take_bit k (unat t) = unat t" by (simp add: take_bit_nat_eq_self)
  then have "\<not> bit (unat t) n" using t(2) by (metis bit_take_bit_iff linorder_not_le)
  then show ?thesis by (auto simp: bit_unsigned_iff dest: bit_imp_le_length)
qed

lemma LEN_header [obj_simps]:
  assumes "unat t < 8" "unat len < 2 ^ 61"
  shows "LEN (mk_header t len) = len"
proof (rule bit_word_eqI)
  fix n assume "n < LENGTH(64)"
  have "\<not> bit t (3 + n)" using bit_small_u64 [of t 3] assms(1) by simp
  moreover have "bit len n \<Longrightarrow> n < 61" using bit_small_u64 [of len 61 n] assms(2) by force
  ultimately show "bit (LEN (mk_header t len)) n \<longleftrightarrow> bit len n"
    by (auto simp: LEN_eq mk_header_def bit_drop_bit_eq bit_or_iff bit_push_bit_iff)
qed

lemma TAG_header [obj_simps]:
  assumes "unat t < 8"
  shows "TAG (mk_header t len) = t"
proof (rule bit_word_eqI)
  fix n assume "n < LENGTH(64)"
  show "bit (TAG (mk_header t len)) n \<longleftrightarrow> bit t n"
    using bit_small_u64 [of t 3 n] assms
    by (cases "n < 3") (simp_all add: bit_TAG mk_header_def bit_or_iff bit_push_bit_iff)
qed

section \<open>Word counts\<close>

lemma unat_BYTES_TO_WORDS:
  assumes "0 < unat b"
  shows "unat (BYTES_TO_WORDS b) = (unat b + 7) div 8"
proof -
  have b: "unat (b - 1) = unat b - 1"
    using assms by (intro unat_minus_one) auto
  have "(unat b - 1) div 8 \<le> unat b - 1" by (rule div_le_dividend)
  then have "(unat b - 1) div 8 + 1 < 2 ^ 64"
    using unat_u64_less [of b] assms by linarith
  then have "unat (BYTES_TO_WORDS b) = (unat b - 1) div 8 + 1"
    unfolding BYTES_TO_WORDS_def
    by (subst unat_add_lem [THEN iffD1]) (simp_all add: unat_div b)
  then show ?thesis using assms by linarith
qed

end
