(* ===== verification/Objects.thy ===== *)
theory Objects
  imports Values
begin

text \<open>
  The object layer of \<open>runtime/gc.c\<close>: the kind and the size of the object behind a header, the
  forward-address word with its mark and enqueued bits, the iterator over the objects of the heap
  and the iterator over the pointer fields of one object. An unknown header kills the process
  (\<open>kill(getpid(), SIGSEGV)\<close>), which is the value \<open>None\<close>; so is a loop that never ends.

  The lemmas characterise both iterators by lists: the heap by the list of its headers
  (\<open>heap_seg\<close>), an object by the list of its slots (\<open>slots\<close>), of which the pointer
  iterator visits the even-valued ones (\<open>ptr_slots\<close>).
\<close>

section \<open>Kinds and sizes\<close>

datatype lama_type = ARRAY | CLOSURE | STRING | SEXP

definition get_type_header_ptr :: "mem \<Rightarrow> addr \<Rightarrow> lama_type option" where
  "get_type_header_ptr m p =
     (let t = TAG (ld64 m p) in
      if t = ARRAY_TAG then Some ARRAY
      else if t = STRING_TAG then Some STRING
      else if t = CLOSURE_TAG then Some CLOSURE
      else if t = SEXP_TAG then Some SEXP
      else None)"

definition get_type_row_ptr :: "mem \<Rightarrow> addr \<Rightarrow> lama_type option" where
  "get_type_row_ptr m p = get_type_header_ptr m (TO_DATA p)"

fun get_header_size :: "lama_type \<Rightarrow> u64" where
  "get_header_size STRING = of_nat DATA_HEADER_SZ"
| "get_header_size CLOSURE = of_nat DATA_HEADER_SZ"
| "get_header_size ARRAY = of_nat DATA_HEADER_SZ"
| "get_header_size SEXP = of_nat DATA_HEADER_SZ"

definition array_size :: "u64 \<Rightarrow> u64" where
  "array_size sz = get_header_size ARRAY + of_nat MEMBER_SIZE * sz"

definition string_size :: "u64 \<Rightarrow> u64" where
  "string_size len = get_header_size STRING + len + 1"

definition closure_size :: "u64 \<Rightarrow> u64" where
  "closure_size sz = get_header_size CLOSURE + of_nat MEMBER_SIZE * sz"

definition sexp_size :: "u64 \<Rightarrow> u64" where
  "sexp_size members = get_header_size SEXP + of_nat MEMBER_SIZE * (members + 1)"

lemmas size_defs = array_size_def string_size_def closure_size_def sexp_size_def

definition obj_size_header_ptr :: "mem \<Rightarrow> addr \<Rightarrow> u64 option" where
  "obj_size_header_ptr m p = do {
     let len = LEN (ld64 m p);
     t \<leftarrow> get_type_header_ptr m p;
     Some (case t of ARRAY \<Rightarrow> array_size len | STRING \<Rightarrow> string_size len
             | CLOSURE \<Rightarrow> closure_size len | SEXP \<Rightarrow> sexp_size len)
   }"

definition obj_size_row_ptr :: "mem \<Rightarrow> addr \<Rightarrow> u64 option" where
  "obj_size_row_ptr m p = obj_size_header_ptr m (TO_DATA p)"

definition get_obj_header_ptr :: "mem \<Rightarrow> addr \<Rightarrow> addr option" where
  "get_obj_header_ptr m p = do {
     t \<leftarrow> get_type_row_ptr m p;
     Some (p - unat (get_header_size t))
   }"

definition get_object_content_ptr :: "mem \<Rightarrow> addr \<Rightarrow> addr option" where
  "get_object_content_ptr m h = do {
     t \<leftarrow> get_type_header_ptr m h;
     Some (h + unat (get_header_size t))
   }"

definition get_end_of_obj :: "mem \<Rightarrow> addr \<Rightarrow> addr option" where
  "get_end_of_obj m h = do {
     s \<leftarrow> obj_size_header_ptr m h;
     Some (h + unat s)
   }"

section \<open>The forward-address word\<close>

definition GET_MARK_BIT :: "u64 \<Rightarrow> u64" where "GET_MARK_BIT x = x AND 1"
definition SET_MARK_BIT :: "u64 \<Rightarrow> u64" where "SET_MARK_BIT x = x OR 1"
definition IS_ENQUEUED :: "u64 \<Rightarrow> u64" where "IS_ENQUEUED x = x AND 2"
definition MAKE_ENQUEUED :: "u64 \<Rightarrow> u64" where "MAKE_ENQUEUED x = x OR 2"
definition MAKE_DEQUEUED :: "u64 \<Rightarrow> u64" where "MAKE_DEQUEUED x = x AND NOT 2"
definition RESET_MARK_BIT :: "u64 \<Rightarrow> u64" where "RESET_MARK_BIT x = x AND NOT 1"
definition GET_FORWARD_ADDRESS :: "u64 \<Rightarrow> u64" where "GET_FORWARD_ADDRESS x = x AND NOT 3"
definition SET_FORWARD_ADDRESS :: "u64 \<Rightarrow> u64 \<Rightarrow> u64" where
  "SET_FORWARD_ADDRESS x a = (x AND 3) OR a"

lemmas fwd_defs = GET_MARK_BIT_def SET_MARK_BIT_def IS_ENQUEUED_def MAKE_ENQUEUED_def
  MAKE_DEQUEUED_def RESET_MARK_BIT_def GET_FORWARD_ADDRESS_def SET_FORWARD_ADDRESS_def

definition fwd_at :: "addr \<Rightarrow> addr" where
  "fwd_at obj = TO_DATA obj + 8"

definition get_forward_address :: "mem \<Rightarrow> addr \<Rightarrow> addr" where
  "get_forward_address m obj = unat (GET_FORWARD_ADDRESS (ld64 m (fwd_at obj)))"

definition set_forward_address :: "mem \<Rightarrow> addr \<Rightarrow> addr \<Rightarrow> mem" where
  "set_forward_address m obj a =
     st64 m (fwd_at obj) (SET_FORWARD_ADDRESS (ld64 m (fwd_at obj)) (of_nat a))"

definition is_marked :: "mem \<Rightarrow> addr \<Rightarrow> bool" where
  "is_marked m obj \<longleftrightarrow> GET_MARK_BIT (ld64 m (fwd_at obj)) \<noteq> 0"

definition mark_object :: "mem \<Rightarrow> addr \<Rightarrow> mem" where
  "mark_object m obj = st64 m (fwd_at obj) (SET_MARK_BIT (ld64 m (fwd_at obj)))"

definition unmark_object :: "mem \<Rightarrow> addr \<Rightarrow> mem" where
  "unmark_object m obj = st64 m (fwd_at obj) (RESET_MARK_BIT (ld64 m (fwd_at obj)))"

definition is_enqueued :: "mem \<Rightarrow> addr \<Rightarrow> bool" where
  "is_enqueued m obj \<longleftrightarrow> IS_ENQUEUED (ld64 m (fwd_at obj)) \<noteq> 0"

definition make_enqueued :: "mem \<Rightarrow> addr \<Rightarrow> mem" where
  "make_enqueued m obj = st64 m (fwd_at obj) (MAKE_ENQUEUED (ld64 m (fwd_at obj)))"

definition make_dequeued :: "mem \<Rightarrow> addr \<Rightarrow> mem" where
  "make_dequeued m obj = st64 m (fwd_at obj) (MAKE_DEQUEUED (ld64 m (fwd_at obj)))"

section \<open>The heap and its object iterator\<close>

record memory_chunk =
  c_begin :: addr
  c_end :: addr
  c_current :: addr
  c_size :: nat

definition is_valid_heap_pointer :: "memory_chunk \<Rightarrow> u64 \<Rightarrow> bool" where
  "is_valid_heap_pointer hp p \<longleftrightarrow> \<not> unboxed p \<and> c_begin hp \<le> unat p \<and> unat p \<le> c_current hp"

definition is_valid_pointer :: "u64 \<Rightarrow> bool" where
  "is_valid_pointer p \<longleftrightarrow> \<not> unboxed p"

definition heap_begin_iterator :: "memory_chunk \<Rightarrow> addr" where
  "heap_begin_iterator hp = c_begin hp"

definition heap_next_obj_iterator :: "mem \<Rightarrow> addr \<Rightarrow> addr option" where
  "heap_next_obj_iterator m it = do {
     obj_size \<leftarrow> obj_size_header_ptr m it;
     let obj_size = BYTES_TO_WORDS obj_size;
     Some (it + 8 * unat obj_size)
   }"

definition heap_is_done_iterator :: "memory_chunk \<Rightarrow> addr \<Rightarrow> bool" where
  "heap_is_done_iterator hp it \<longleftrightarrow> c_current hp \<le> it"

section \<open>The field iterators\<close>

record obj_field_iterator =
  type_of_it :: lama_type
  obj_ptr :: addr
  cur_field :: addr

definition field_begin_iterator :: "mem \<Rightarrow> addr \<Rightarrow> obj_field_iterator option" where
  "field_begin_iterator m obj = do {
     type \<leftarrow> get_type_header_ptr m obj;
     c \<leftarrow> get_object_content_ptr m obj;
     let it = \<lparr>type_of_it = type, obj_ptr = obj, cur_field = c\<rparr>;
     (case type of
        STRING \<Rightarrow> do { e \<leftarrow> get_end_of_obj m (obj_ptr it); Some (it\<lparr>cur_field := e\<rparr>) }
      | CLOSURE \<Rightarrow> Some (it\<lparr>cur_field := cur_field it + MEMBER_SIZE\<rparr>)
      | SEXP \<Rightarrow> Some (it\<lparr>cur_field := cur_field it + MEMBER_SIZE\<rparr>)
      | ARRAY \<Rightarrow> Some it)
   }"

definition obj_next_field_iterator :: "obj_field_iterator \<Rightarrow> obj_field_iterator" where
  "obj_next_field_iterator it = it\<lparr>cur_field := cur_field it + MEMBER_SIZE\<rparr>"

definition field_is_done_iterator :: "mem \<Rightarrow> obj_field_iterator \<Rightarrow> bool option" where
  "field_is_done_iterator m it = do {
     e \<leftarrow> get_end_of_obj m (obj_ptr it);
     Some (e \<le> cur_field it)
   }"

partial_function (option) obj_next_ptr_field_iterator ::
    "mem \<Rightarrow> obj_field_iterator \<Rightarrow> obj_field_iterator option" where
  "obj_next_ptr_field_iterator m it = do {
     let it = obj_next_field_iterator it;
     d \<leftarrow> field_is_done_iterator m it;
     if \<not> d \<and> \<not> is_valid_pointer (ld64 m (cur_field it))
     then obj_next_ptr_field_iterator m it
     else Some it
   }"

definition ptr_field_begin_iterator :: "mem \<Rightarrow> addr \<Rightarrow> obj_field_iterator option" where
  "ptr_field_begin_iterator m obj = do {
     it \<leftarrow> field_begin_iterator m obj;
     d \<leftarrow> field_is_done_iterator m it;
     if d then Some it
     else if is_valid_pointer (ld64 m (cur_field it)) then Some it
     else obj_next_ptr_field_iterator m it
   }"

section \<open>Object layout\<close>

text \<open>An object whose size computation does not wrap around.\<close>

definition obj_ok :: "mem \<Rightarrow> addr \<Rightarrow> bool" where
  "obj_ok m h \<longleftrightarrow> get_type_header_ptr m h \<noteq> None \<and> unat (LEN (ld64 m h)) < 2 ^ 60"

definition obj_type :: "mem \<Rightarrow> addr \<Rightarrow> lama_type" where
  "obj_type m h = (case get_type_header_ptr m h of Some t \<Rightarrow> t | None \<Rightarrow> STRING)"

definition obj_len :: "mem \<Rightarrow> addr \<Rightarrow> nat" where
  "obj_len m h = unat (LEN (ld64 m h))"

fun type_size :: "lama_type \<Rightarrow> nat \<Rightarrow> nat" where
  "type_size ARRAY n = 16 + 8 * n"
| "type_size STRING n = 17 + n"
| "type_size CLOSURE n = 16 + 8 * n"
| "type_size SEXP n = 24 + 8 * n"

definition obj_bytes :: "mem \<Rightarrow> addr \<Rightarrow> nat" where
  "obj_bytes m h = type_size (obj_type m h) (obj_len m h)"

definition obj_words :: "mem \<Rightarrow> addr \<Rightarrow> nat" where
  "obj_words m h = (obj_bytes m h + 7) div 8"

lemma get_header_size_eq [simp]: "get_header_size t = 16"
  by (cases t) auto

lemma obj_ok_type: "obj_ok m h \<Longrightarrow> get_type_header_ptr m h = Some (obj_type m h)"
  by (auto simp: obj_ok_def obj_type_def)

lemma unat_word_sum_u64:
  "unat (a :: u64) + unat b < 2 ^ 64 \<Longrightarrow> unat (a + b) = unat a + unat b"
  by (simp add: unat_word_ariths)

lemma type_size_word:
  assumes "unat len < 2 ^ 60"
  shows "unat (case t of ARRAY \<Rightarrow> array_size len | STRING \<Rightarrow> string_size len
             | CLOSURE \<Rightarrow> closure_size len | SEXP \<Rightarrow> sexp_size len) = type_size t (unat len)"
  using assms
  by (cases t) (simp_all add: size_defs unat_word_ariths)

lemma obj_size_header_ptr_ok:
  assumes "obj_ok m h"
  shows "\<exists>s. obj_size_header_ptr m h = Some s \<and> unat s = obj_bytes m h"
  using assms obj_ok_type [OF assms] type_size_word [of "LEN (ld64 m h)" "obj_type m h"]
  by (simp add: obj_size_header_ptr_def obj_ok_def obj_bytes_def obj_len_def Let_def)

lemma obj_bytes_bounds:
  assumes "obj_ok m h"
  shows "16 \<le> obj_bytes m h" "obj_bytes m h < 2 ^ 63 + 24"
  using assms by (cases "obj_type m h"; simp add: obj_bytes_def obj_ok_def obj_len_def)+

lemma obj_words_ge_2: "obj_ok m h \<Longrightarrow> 2 \<le> obj_words m h"
  using obj_bytes_bounds [of m h] by (simp add: obj_words_def)

lemma obj_bytes_le_words: "obj_bytes m h \<le> 8 * obj_words m h"
  by (simp add: obj_words_def)

lemma heap_next_obj_iterator_ok:
  assumes "obj_ok m h"
  shows "heap_next_obj_iterator m h = Some (h + 8 * obj_words m h)"
proof -
  obtain s where s: "obj_size_header_ptr m h = Some s" "unat s = obj_bytes m h"
    using obj_size_header_ptr_ok [OF assms] by blast
  then have "0 < unat s" using obj_bytes_bounds [OF assms] by simp
  then show ?thesis
    using s by (simp add: heap_next_obj_iterator_def unat_BYTES_TO_WORDS obj_words_def)
qed

lemma get_object_content_ptr_ok [simp]:
  "obj_ok m h \<Longrightarrow> get_object_content_ptr m h = Some (h + 16)"
  by (simp add: get_object_content_ptr_def obj_ok_type)

lemma get_end_of_obj_ok: "obj_ok m h \<Longrightarrow> get_end_of_obj m h = Some (h + obj_bytes m h)"
  using obj_size_header_ptr_ok [of m h] by (auto simp: get_end_of_obj_def)

lemma get_obj_header_ptr_ok [simp]:
  "obj_ok m h \<Longrightarrow> get_obj_header_ptr m (h + 16) = Some h"
  by (simp add: get_obj_header_ptr_def get_type_row_ptr_def TO_DATA_def obj_ok_type)

text \<open>Only the data header decides the layout.\<close>

lemma obj_header_cong:
  assumes "ld64 m h = ld64 m' h'"
  shows "obj_ok m h = obj_ok m' h'" "obj_type m h = obj_type m' h'" "obj_len m h = obj_len m' h'"
    "obj_bytes m h = obj_bytes m' h'" "obj_words m h = obj_words m' h'"
    "get_type_header_ptr m h = get_type_header_ptr m' h'"
    "obj_size_header_ptr m h = obj_size_header_ptr m' h'"
  using assms
  by (simp_all add: obj_ok_def obj_type_def obj_len_def obj_bytes_def obj_words_def
      get_type_header_ptr_def obj_size_header_ptr_def)

section \<open>The heap as a list of headers\<close>

fun heap_seg :: "mem \<Rightarrow> addr \<Rightarrow> addr list \<Rightarrow> addr \<Rightarrow> bool" where
  "heap_seg m a [] e \<longleftrightarrow> a = e"
| "heap_seg m a (h # hs) e \<longleftrightarrow> h = a \<and> obj_ok m h \<and> heap_seg m (h + 8 * obj_words m h) hs e"

lemma heap_seg_le: "heap_seg m a hs e \<Longrightarrow> a \<le> e"
  by (induction hs arbitrary: a) force+

lemma heap_seg_append:
  "heap_seg m a (hs @ ks) e \<longleftrightarrow> (\<exists>b. heap_seg m a hs b \<and> heap_seg m b ks e)"
  by (induction hs arbitrary: a) auto

lemma heap_seg_ok: "heap_seg m a hs e \<Longrightarrow> h \<in> set hs \<Longrightarrow> obj_ok m h"
  by (induction hs arbitrary: a) auto

lemma heap_seg_in:
  "heap_seg m a hs e \<Longrightarrow> h \<in> set hs \<Longrightarrow> a \<le> h \<and> h + 8 * obj_words m h \<le> e"
proof (induction hs arbitrary: a)
  case (Cons k ks)
  then show ?case
    using heap_seg_le [of m "k + 8 * obj_words m k" ks e] by fastforce
qed simp

lemma heap_seg_header_bound:
  assumes "heap_seg m a hs e" "h \<in> set hs"
  shows "h + 16 \<le> e"
  using heap_seg_in [OF assms] obj_words_ge_2 [OF heap_seg_ok [OF assms]] by linarith

lemma heap_seg_disjoint:
  "heap_seg m a hs e \<Longrightarrow> h \<in> set hs \<Longrightarrow> k \<in> set hs \<Longrightarrow> h \<noteq> k \<Longrightarrow>
     h + 8 * obj_words m h \<le> k \<or> k + 8 * obj_words m k \<le> h"
proof (induction hs arbitrary: a)
  case (Cons l ls)
  then show ?case
    using heap_seg_in [of m "l + 8 * obj_words m l" ls e] by (auto simp del: heap_seg.simps(1))
qed simp

lemma heap_seg_sep:
  assumes "heap_seg m a hs e" "h \<in> set hs" "k \<in> set hs" "h \<noteq> k"
  shows "h + 16 \<le> k \<or> k + 16 \<le> h"
  using heap_seg_disjoint [OF assms] obj_words_ge_2 [OF heap_seg_ok [OF assms(1,2)]]
    obj_words_ge_2 [OF heap_seg_ok [OF assms(1,3)]] by linarith

lemma heap_seg_distinct: "heap_seg m a hs e \<Longrightarrow> distinct hs"
proof (induction hs arbitrary: a)
  case (Cons h hs)
  then have "obj_ok m h" and seg: "heap_seg m (h + 8 * obj_words m h) hs e" by auto
  then have "h < h + 8 * obj_words m h" using obj_words_ge_2 [of m h] by simp
  then have "h \<notin> set hs" using heap_seg_in [OF seg, of h] by fastforce
  then show ?case using Cons.IH [OF seg] by simp
qed simp

lemma heap_seg_sorted: "heap_seg m a hs e \<Longrightarrow> sorted hs"
proof (induction hs arbitrary: a)
  case (Cons h hs)
  then show ?case using heap_seg_in [of m "h + 8 * obj_words m h" hs e] by fastforce
qed simp

lemma heap_seg_cong:
  assumes "heap_seg m a hs e" "\<And>h. h \<in> set hs \<Longrightarrow> ld64 m' h = ld64 m h"
  shows "heap_seg m' a hs e"
  using assms
proof (induction hs arbitrary: a)
  case (Cons h hs)
  have "ld64 m' h = ld64 m h" using Cons.prems(2) by simp
  note hc = obj_header_cong [OF this]
  have "heap_seg m (h + 8 * obj_words m h) hs e" using Cons.prems(1) by auto
  then have "heap_seg m' (h + 8 * obj_words m h) hs e"
    using Cons.prems(2) by (rule Cons.IH) simp
  then show ?case using Cons.prems(1) unfolding heap_seg.simps hc by auto
qed simp

text \<open>Iterating over the heap visits exactly its headers.\<close>

lemma heap_seg_next:
  "heap_seg m a (h # hs) e \<Longrightarrow>
     a = h \<and> h < e \<and> obj_ok m h \<and> (\<exists>a'. heap_next_obj_iterator m h = Some a' \<and> heap_seg m a' hs e)"
  using heap_next_obj_iterator_ok [of m h] heap_seg_header_bound [of m a "h # hs" e h] by force

section \<open>Reading and writing the forward-address word\<close>

text \<open>For an object with header \<open>h\<close> and content pointer \<open>h + 16\<close> the word is at \<open>h + 8\<close>.\<close>

definition marked :: "mem \<Rightarrow> addr \<Rightarrow> bool" where
  "marked m h \<longleftrightarrow> bit (ld64 m (h + 8)) 0"

definition enqd :: "mem \<Rightarrow> addr \<Rightarrow> bool" where
  "enqd m h \<longleftrightarrow> bit (ld64 m (h + 8)) 1"

definition fwd :: "mem \<Rightarrow> addr \<Rightarrow> addr" where
  "fwd m h = get_forward_address m (h + 16)"

lemma fwd_at_eq [simp]: "fwd_at (h + 16) = h + 8"
  by (simp add: fwd_at_def TO_DATA_def)

lemma bit_2_u64: "bit (2 :: u64) n \<longleftrightarrow> n = 1"
proof -
  have "(2 :: u64) = push_bit 1 1" by simp
  then show ?thesis by (simp only: bit_push_bit_iff bit_one_u64) auto
qed

lemma and_2_eq_0_iff: "(x :: u64) AND 2 = 0 \<longleftrightarrow> \<not> bit x 1"
proof -
  have "bit (x AND 2) n \<longleftrightarrow> n = 1 \<and> bit x 1" for n
    unfolding bit_and_iff bit_2_u64 by auto
  then show ?thesis by (metis bit_0_eq bot_apply bot_bool_def bit_eq_iff)
qed

lemma is_marked_iff [simp]: "is_marked m (h + 16) \<longleftrightarrow> marked m h"
  by (simp add: is_marked_def marked_def GET_MARK_BIT_def u64_and_1_eq_0_iff bit_0)

lemma is_enqueued_iff [simp]: "is_enqueued m (h + 16) \<longleftrightarrow> enqd m h"
  by (simp add: is_enqueued_def enqd_def IS_ENQUEUED_def and_2_eq_0_iff)

lemma bit_3_u64: "bit (3 :: u64) n \<longleftrightarrow> n < 2"
proof -
  have "(3 :: u64) = mask 2" by (simp add: mask_eq_exp_minus_1)
  then show ?thesis by (simp only: bit_mask_iff) auto
qed

lemma aligned4_bits:
  assumes "a mod 4 = 0"
  shows "\<not> bit (of_nat a :: u64) 0" "\<not> bit (of_nat a :: u64) 1"
proof -
  have "take_bit 2 a = 0" using assms by (simp add: take_bit_eq_mod)
  then have "\<not> bit a n" if "n < 2" for n using that by (metis bit_0_eq bit_take_bit_iff bot_apply bot_bool_def)
  then show "\<not> bit (of_nat a :: u64) 0" "\<not> bit (of_nat a :: u64) 1"
    by (simp_all add: bit_of_nat_iff)
qed

lemma fwd_word_bits:
  "bit (SET_MARK_BIT x) n \<longleftrightarrow> n = 0 \<or> bit x n"
  "bit (RESET_MARK_BIT x) n \<longleftrightarrow> n \<noteq> 0 \<and> bit x n"
  "bit (MAKE_ENQUEUED x) n \<longleftrightarrow> n = 1 \<or> bit x n"
  "bit (MAKE_DEQUEUED x) n \<longleftrightarrow> n \<noteq> 1 \<and> bit x n"
  "bit (GET_FORWARD_ADDRESS x) n \<longleftrightarrow> 2 \<le> n \<and> bit x n"
  "bit (SET_FORWARD_ADDRESS x a) n \<longleftrightarrow> n < 2 \<and> bit x n \<or> bit a n"
  unfolding fwd_defs bit_or_iff bit_and_iff bit_not_iff bit_2_u64 bit_3_u64 bit_one_u64
  by (auto dest: bit_imp_possible_bit)

lemma marked_iff_word: "marked m h = bit (ld64 m (h + 8)) 0" by (simp add: marked_def)

text \<open>Each operation on the word at \<open>h + 8\<close>, read back at the same object.\<close>

lemma marked_ops [simp]:
  "marked (mark_object m (h + 16)) h"
  "\<not> marked (unmark_object m (h + 16)) h"
  "marked (make_enqueued m (h + 16)) h = marked m h"
  "marked (make_dequeued m (h + 16)) h = marked m h"
  "a mod 4 = 0 \<Longrightarrow> marked (set_forward_address m (h + 16) a) h = marked m h"
  by (simp_all add: marked_def mark_object_def unmark_object_def make_enqueued_def make_dequeued_def
      set_forward_address_def fwd_word_bits aligned4_bits aligned4_bits [unfolded One_nat_def])

lemma enqd_ops [simp]:
  "enqd (mark_object m (h + 16)) h = enqd m h"
  "enqd (unmark_object m (h + 16)) h = enqd m h"
  "enqd (make_enqueued m (h + 16)) h"
  "\<not> enqd (make_dequeued m (h + 16)) h"
  "a mod 4 = 0 \<Longrightarrow> enqd (set_forward_address m (h + 16) a) h = enqd m h"
  by (simp_all add: enqd_def mark_object_def unmark_object_def make_enqueued_def make_dequeued_def
      set_forward_address_def fwd_word_bits aligned4_bits aligned4_bits [unfolded One_nat_def])

lemma get_forward_word_ops:
  "GET_FORWARD_ADDRESS (SET_MARK_BIT x) = GET_FORWARD_ADDRESS x"
  "GET_FORWARD_ADDRESS (RESET_MARK_BIT x) = GET_FORWARD_ADDRESS x"
  "GET_FORWARD_ADDRESS (MAKE_ENQUEUED x) = GET_FORWARD_ADDRESS x"
  "GET_FORWARD_ADDRESS (MAKE_DEQUEUED x) = GET_FORWARD_ADDRESS x"
  by (rule bit_word_eqI; auto simp: fwd_word_bits)+

lemma get_set_forward_word:
  assumes "a mod 4 = 0" "a < 2 ^ 64"
  shows "unat (GET_FORWARD_ADDRESS (SET_FORWARD_ADDRESS x (of_nat a))) = a"
proof -
  have "GET_FORWARD_ADDRESS (SET_FORWARD_ADDRESS x (of_nat a)) = of_nat a"
  proof (rule bit_word_eqI)
    fix n
    show "bit (GET_FORWARD_ADDRESS (SET_FORWARD_ADDRESS x (of_nat a))) n = bit (of_nat a :: u64) n"
      using aligned4_bits [OF assms(1)] by (cases n; cases "n - 1") (auto simp: fwd_word_bits)
  qed
  then show ?thesis using assms(2) by (simp only: unat_of_nat_u64)
qed

lemma fwd_ops [simp]:
  "fwd (mark_object m (h + 16)) h = fwd m h"
  "fwd (unmark_object m (h + 16)) h = fwd m h"
  "fwd (make_enqueued m (h + 16)) h = fwd m h"
  "fwd (make_dequeued m (h + 16)) h = fwd m h"
  "a mod 4 = 0 \<Longrightarrow> a < 2 ^ 64 \<Longrightarrow> fwd (set_forward_address m (h + 16) a) h = a"
  by (simp_all add: fwd_def get_forward_address_def mark_object_def unmark_object_def
      make_enqueued_def make_dequeued_def set_forward_address_def get_forward_word_ops
      get_set_forward_word)

text \<open>They write nothing but that word.\<close>

lemma fwd_ops_frame:
  assumes "x < h + 8 \<or> h + 16 \<le> x"
  shows "mark_object m (h + 16) x = m x" "unmark_object m (h + 16) x = m x"
    "make_enqueued m (h + 16) x = m x" "make_dequeued m (h + 16) x = m x"
    "set_forward_address m (h + 16) a x = m x"
  using assms
  by (auto simp: mark_object_def unmark_object_def make_enqueued_def make_dequeued_def
      set_forward_address_def st64_apply)

lemma ld64_fwd_ops:
  assumes "x + 8 \<le> h + 8 \<or> h + 16 \<le> x"
  shows "ld64 (mark_object m (h + 16)) x = ld64 m x"
    "ld64 (unmark_object m (h + 16)) x = ld64 m x"
    "ld64 (make_enqueued m (h + 16)) x = ld64 m x"
    "ld64 (make_dequeued m (h + 16)) x = ld64 m x"
    "ld64 (set_forward_address m (h + 16) a) x = ld64 m x"
  using assms by (auto intro!: ld64_cong fwd_ops_frame)

lemma fwd_word_cong:
  assumes "ld64 m (h + 8) = ld64 m' (k + 8)"
  shows "marked m h = marked m' k" "enqd m h = enqd m' k" "fwd m h = fwd m' k"
  using assms by (simp_all add: marked_def enqd_def fwd_def get_forward_address_def)

section \<open>Slots\<close>

text \<open>
  The slots of an object are the words the field iterator walks: all members of an array, the
  captured values of a closure (not its code pointer), the members of an S-expression (not its
  tag word), nothing of a string.
\<close>

definition slot0 :: "mem \<Rightarrow> addr \<Rightarrow> addr" where
  "slot0 m h = (case obj_type m h of ARRAY \<Rightarrow> h + 16 | CLOSURE \<Rightarrow> h + 24 | SEXP \<Rightarrow> h + 24
                | STRING \<Rightarrow> h + obj_bytes m h)"

definition nslots :: "mem \<Rightarrow> addr \<Rightarrow> nat" where
  "nslots m h = (case obj_type m h of ARRAY \<Rightarrow> obj_len m h | CLOSURE \<Rightarrow> obj_len m h - 1
                 | SEXP \<Rightarrow> obj_len m h | STRING \<Rightarrow> 0)"

definition slots :: "mem \<Rightarrow> addr \<Rightarrow> addr list" where
  "slots m h = map (\<lambda>i. slot0 m h + 8 * i) [0..<nslots m h]"

definition ptr_slots :: "mem \<Rightarrow> addr \<Rightarrow> addr list" where
  "ptr_slots m h = filter (\<lambda>a. is_valid_pointer (ld64 m a)) (slots m h)"

lemma slots_header_cong:
  "ld64 m' h = ld64 m h \<Longrightarrow> slot0 m' h = slot0 m h"
  "ld64 m' h = ld64 m h \<Longrightarrow> nslots m' h = nslots m h"
  "ld64 m' h = ld64 m h \<Longrightarrow> slots m' h = slots m h"
  by (simp_all only: slot0_def nslots_def slots_def obj_header_cong [of m' h m h])

lemma slot_bounds:
  assumes "a \<in> set (slots m h)"
  shows "h + 16 \<le> a" "a + 8 \<le> h + obj_bytes m h"
  using assms
  by (auto simp: slots_def slot0_def nslots_def obj_bytes_def split: lama_type.splits)

lemma slots_distinct: "distinct (slots m h)"
  by (auto simp: slots_def distinct_map inj_on_def)

lemma slot_end_iff:
  "h + obj_bytes m h \<le> slot0 m h + 8 * k \<longleftrightarrow> nslots m h \<le> k"
  by (auto simp: slot0_def nslots_def obj_bytes_def split: lama_type.splits)

text \<open>
  Where a field iterator stands: on the \<open>k\<close>-th slot, with the even-valued slots from there on
  still to be visited, the current one first.
\<close>

definition slots_from :: "mem \<Rightarrow> addr \<Rightarrow> nat \<Rightarrow> addr list" where
  "slots_from m h k = filter (\<lambda>a. is_valid_pointer (ld64 m a)) (map (\<lambda>i. slot0 m h + 8 * i) [k..<nslots m h])"

definition it_at :: "mem \<Rightarrow> addr \<Rightarrow> obj_field_iterator \<Rightarrow> addr list \<Rightarrow> bool" where
  "it_at m h it xs \<longleftrightarrow> obj_ptr it = h \<and>
     (\<exists>k. cur_field it = slot0 m h + 8 * k \<and> xs = slots_from m h k \<and>
          (k < nslots m h \<longrightarrow> is_valid_pointer (ld64 m (cur_field it))))"

lemma slots_from_0: "slots_from m h 0 = ptr_slots m h"
  by (simp add: slots_from_def ptr_slots_def slots_def)

lemma slots_from_step:
  "slots_from m h k =
     (if k < nslots m h
      then (if is_valid_pointer (ld64 m (slot0 m h + 8 * k)) then [slot0 m h + 8 * k] else [])
           @ slots_from m h (Suc k)
      else [])"
  by (simp add: slots_from_def upt_conv_Cons)

lemma field_is_done_iterator_at:
  "obj_ok m h \<Longrightarrow> obj_ptr it = h \<Longrightarrow> cur_field it = slot0 m h + 8 * k \<Longrightarrow>
     field_is_done_iterator m it = Some (nslots m h \<le> k)"
  by (simp add: field_is_done_iterator_def get_end_of_obj_ok slot_end_iff)

lemma it_at_done:
  assumes "obj_ok m h" "it_at m h it xs"
  shows "field_is_done_iterator m it = Some (xs = [])"
proof -
  obtain k where k: "obj_ptr it = h" "cur_field it = slot0 m h + 8 * k" "xs = slots_from m h k"
    "k < nslots m h \<longrightarrow> is_valid_pointer (ld64 m (cur_field it))"
    using assms(2) by (auto simp: it_at_def)
  have "xs = [] \<longleftrightarrow> nslots m h \<le> k"
    using k(2-4) slots_from_step [of m h k] by auto
  then show ?thesis using field_is_done_iterator_at [OF assms(1) k(1,2)] by simp
qed

lemma it_at_cur:
  assumes "it_at m h it (x # xs)"
  shows "cur_field it = x" "x \<in> set (slots m h)" "is_valid_pointer (ld64 m x)"
proof -
  obtain k where k: "cur_field it = slot0 m h + 8 * k" "x # xs = slots_from m h k"
    "k < nslots m h \<longrightarrow> is_valid_pointer (ld64 m (cur_field it))"
    using assms by (auto simp: it_at_def)
  then have "k < nslots m h" using slots_from_step [of m h k] by (auto split: if_splits)
  then show "cur_field it = x" "x \<in> set (slots m h)" "is_valid_pointer (ld64 m x)"
    using k slots_from_step [of m h k] by (auto simp: slots_def)
qed

lemma obj_next_ptr_field_from:
  assumes "obj_ok m h" "obj_ptr it = h" "cur_field it = slot0 m h + 8 * k"
  shows "\<exists>it'. obj_next_ptr_field_iterator m it = Some it' \<and> it_at m h it' (slots_from m h (Suc k))"
  using assms
proof (induction "nslots m h - k" arbitrary: it k rule: less_induct)
  case less
  let ?it = "obj_next_field_iterator it"
  have cur: "obj_ptr ?it = h" "cur_field ?it = slot0 m h + 8 * Suc k"
    using less.prems by (simp_all add: obj_next_field_iterator_def)
  have dn: "field_is_done_iterator m ?it = Some (nslots m h \<le> Suc k)"
    by (rule field_is_done_iterator_at [OF less.prems(1) cur])
  show ?case
  proof (cases "Suc k < nslots m h \<and> \<not> is_valid_pointer (ld64 m (cur_field ?it))")
    case True
    then have eq: "obj_next_ptr_field_iterator m it = obj_next_ptr_field_iterator m ?it"
      by (subst obj_next_ptr_field_iterator.simps) (simp add: dn)
    have "slots_from m h (Suc k) = slots_from m h (Suc (Suc k))"
      using True cur slots_from_step [of m h "Suc k"] by simp
    then show ?thesis using less.hyps [OF _ less.prems(1) cur] True eq by auto
  next
    case False
    then have "obj_next_ptr_field_iterator m it = Some ?it"
      by (subst obj_next_ptr_field_iterator.simps) (auto simp: dn)
    moreover have "it_at m h ?it (slots_from m h (Suc k))"
      using cur False unfolding it_at_def by blast
    ultimately show ?thesis by blast
  qed
qed

lemma it_at_next:
  assumes "obj_ok m h" "it_at m h it (x # xs)"
  shows "\<exists>it'. obj_next_ptr_field_iterator m it = Some it' \<and> it_at m h it' xs"
proof -
  obtain k where k: "obj_ptr it = h" "cur_field it = slot0 m h + 8 * k" "x # xs = slots_from m h k"
    using assms(2) by (auto simp: it_at_def)
  then have "xs = slots_from m h (Suc k)"
    using it_at_cur [OF assms(2)] slots_from_step [of m h k] by (auto split: if_splits)
  then show ?thesis using obj_next_ptr_field_from [OF assms(1) k(1,2)] by simp
qed

lemma ptr_field_begin_iterator_at:
  assumes "obj_ok m h"
  shows "\<exists>it. ptr_field_begin_iterator m h = Some it \<and> it_at m h it (ptr_slots m h)"
proof -
  obtain it where it: "field_begin_iterator m h = Some it" "obj_ptr it = h" "cur_field it = slot0 m h + 8 * 0"
    using assms that
    by (cases "obj_type m h")
      (auto simp: field_begin_iterator_def obj_ok_type get_end_of_obj_ok slot0_def Let_def)
  note dn = field_is_done_iterator_at [OF assms it(2,3)]
  show ?thesis
  proof (cases "0 < nslots m h \<and> \<not> is_valid_pointer (ld64 m (cur_field it))")
    case True
    then have "ptr_field_begin_iterator m h = obj_next_ptr_field_iterator m it"
      by (simp add: ptr_field_begin_iterator_def it(1) dn)
    moreover have "ptr_slots m h = slots_from m h (Suc 0)"
      using True it(3) slots_from_step [of m h 0] by (simp add: slots_from_0)
    ultimately show ?thesis using obj_next_ptr_field_from [OF assms it(2,3)] by simp
  next
    case False
    then have "ptr_field_begin_iterator m h = Some it"
      by (auto simp: ptr_field_begin_iterator_def it(1) dn)
    moreover have "it_at m h it (ptr_slots m h)"
      using it False slots_from_0 [of m h] unfolding it_at_def by (metis mult_0_right)
    ultimately show ?thesis by blast
  qed
qed

text \<open>
  The iterator survives changes of memory that keep the header, keep the other slots and leave an
  even value in the slot it stands on.
\<close>

lemma it_at_cong:
  assumes "it_at m h it (x # xs)" "ld64 m' h = ld64 m h"
    "\<And>a. a \<in> set (slots m h) \<Longrightarrow> a \<noteq> x \<Longrightarrow> ld64 m' a = ld64 m a"
    "is_valid_pointer (ld64 m' x)"
  shows "it_at m' h it (x # xs)"
proof -
  obtain k where k: "obj_ptr it = h" "cur_field it = slot0 m h + 8 * k" "x # xs = slots_from m h k"
    using assms(1) by (auto simp: it_at_def)
  note cur = it_at_cur [OF assms(1)]
  have hd: "slot0 m' h = slot0 m h" "nslots m' h = nslots m h"
    using slots_header_cong [OF assms(2)] by auto
  have "is_valid_pointer (ld64 m' (slot0 m h + 8 * i)) = is_valid_pointer (ld64 m (slot0 m h + 8 * i))"
    if "i < nslots m h" for i
  proof (cases "slot0 m h + 8 * i = x")
    case True
    then show ?thesis using assms(4) cur(3) by simp
  next
    case False
    moreover have "slot0 m h + 8 * i \<in> set (slots m h)" using that by (auto simp: slots_def)
    ultimately show ?thesis using assms(3) by simp
  qed
  then have "slots_from m' h k = slots_from m h k"
    unfolding slots_from_def hd by (auto intro!: filter_cong)
  then show ?thesis using k cur(1) assms(4) unfolding it_at_def hd by metis
qed

lemma it_at_cong_nil:
  assumes "it_at m h it []" "ld64 m' h = ld64 m h"
  shows "it_at m' h it []"
proof -
  obtain k where k: "obj_ptr it = h" "cur_field it = slot0 m h + 8 * k" "slots_from m h k = []"
    "k < nslots m h \<longrightarrow> is_valid_pointer (ld64 m (cur_field it))"
    using assms(1) by (auto simp: it_at_def)
  then have "nslots m h \<le> k"
    using slots_from_step [of m h k] by (cases "k < nslots m h") auto
  then have "nslots m' h \<le> k" "cur_field it = slot0 m' h + 8 * k" "slots_from m' h k = []"
    using k(2) slots_header_cong [OF assms(2)] slots_from_step [of m' h k] by simp_all
  then show ?thesis using k(1) unfolding it_at_def by auto
qed

end
