(* ===== verification/Mark.thy ===== *)
theory Mark
  imports Objects
begin

text \<open>
  The mark phase of \<open>runtime/gc.c\<close>: breadth-first marking whose queue lives in the
  forward-address words of the heap itself. The \<open>i\<close>-th object of the heap (in address order)
  holds the \<open>i\<close>-th element ever enqueued by one call of \<open>mark\<close>; the two iterators
  \<open>q_head_iter\<close> and \<open>q_tail_iter\<close> delimit the queue.

  The theorem of this theory is that \<open>mark\<close> returns, marks exactly the objects reachable from
  its argument beside those marked before, and writes nothing but forward-address words; in
  particular the queue never runs past the last object.
\<close>

section \<open>The queue\<close>

definition queue_enqueue :: "mem \<Rightarrow> addr \<Rightarrow> addr \<Rightarrow> (mem \<times> addr) option" where
  "queue_enqueue m tail_iter obj = do {
     tail_content \<leftarrow> get_object_content_ptr m tail_iter;
     let m = set_forward_address m tail_content obj;
     let m = make_enqueued m obj;
     tail_iter \<leftarrow> heap_next_obj_iterator m tail_iter;
     Some (m, tail_iter)
   }"

definition queue_dequeue :: "mem \<Rightarrow> addr \<Rightarrow> (mem \<times> addr \<times> addr) option" where
  "queue_dequeue m head_iter = do {
     head_content \<leftarrow> get_object_content_ptr m head_iter;
     let value = get_forward_address m head_content;
     let m = make_dequeued m value;
     head_iter \<leftarrow> heap_next_obj_iterator m head_iter;
     Some (m, head_iter, value)
   }"

section \<open>Marking from one pointer\<close>

partial_function (option) mark_fields ::
    "memory_chunk \<Rightarrow> mem \<Rightarrow> obj_field_iterator \<Rightarrow> addr \<Rightarrow> (mem \<times> addr) option" where
  "mark_fields hp m it q_tail = do {
     d \<leftarrow> field_is_done_iterator m it;
     if d then Some (m, q_tail)
     else do {
       let field_value = ld64 m (cur_field it);
       (m, q_tail) \<leftarrow>
         (if \<not> is_valid_heap_pointer hp field_value \<or> is_marked m (unat field_value)
             \<or> is_enqueued m (unat field_value)
          then Some (m, q_tail)
          else queue_enqueue m q_tail (unat field_value));
       it \<leftarrow> obj_next_ptr_field_iterator m it;
       mark_fields hp m it q_tail
     }
   }"

partial_function (option) mark_loop :: "memory_chunk \<Rightarrow> mem \<Rightarrow> addr \<Rightarrow> addr \<Rightarrow> mem option" where
  "mark_loop hp m q_head q_tail =
     (if q_head = q_tail then Some m
      else do {
        (m, q_head, cur_obj) \<leftarrow> queue_dequeue m q_head;
        let m = mark_object m cur_obj;
        header_ptr \<leftarrow> get_obj_header_ptr m cur_obj;
        it \<leftarrow> ptr_field_begin_iterator m header_ptr;
        (m, q_tail) \<leftarrow> mark_fields hp m it q_tail;
        mark_loop hp m q_head q_tail
      })"

definition mark :: "memory_chunk \<Rightarrow> mem \<Rightarrow> u64 \<Rightarrow> mem option" where
  "mark hp m obj =
     (if \<not> is_valid_heap_pointer hp obj \<or> is_marked m (unat obj) then Some m
      else do {
        let q_head_iter = heap_begin_iterator hp;
        let q_tail_iter = q_head_iter;
        (m, q_tail_iter) \<leftarrow> queue_enqueue m q_tail_iter (unat obj);
        mark_loop hp m q_head_iter q_tail_iter
      })"

section \<open>The object graph\<close>

definition points_to :: "memory_chunk \<Rightarrow> u64 \<Rightarrow> addr \<Rightarrow> bool" where
  "points_to hp v h \<longleftrightarrow> is_valid_heap_pointer hp v \<and> unat v = h + 16"

definition edge :: "memory_chunk \<Rightarrow> mem \<Rightarrow> addr \<Rightarrow> addr \<Rightarrow> bool" where
  "edge hp m h k \<longleftrightarrow> (\<exists>a \<in> set (slots m h). points_to hp (ld64 m a) k)"

text \<open>A word is harmless when, read as a heap pointer, it points to the contents of an object.\<close>

definition val_ok :: "memory_chunk \<Rightarrow> addr list \<Rightarrow> u64 \<Rightarrow> bool" where
  "val_ok hp os v \<longleftrightarrow> (is_valid_heap_pointer hp v \<longrightarrow> (\<exists>h \<in> set os. unat v = h + 16))"

definition heap_ok :: "memory_chunk \<Rightarrow> mem \<Rightarrow> addr list \<Rightarrow> bool" where
  "heap_ok hp m os \<longleftrightarrow>
     heap_seg m (c_begin hp) os (c_current hp) \<and> c_begin hp mod 8 = 0 \<and> c_current hp < 2 ^ 64 \<and>
     (\<forall>h \<in> set os. \<forall>a \<in> set (slots m h). val_ok hp os (ld64 m a))"

lemma heap_okD:
  assumes "heap_ok hp m os"
  shows "heap_seg m (c_begin hp) os (c_current hp)" "c_begin hp mod 8 = 0" "c_current hp < 2 ^ 64"
    "\<And>h a. h \<in> set os \<Longrightarrow> a \<in> set (slots m h) \<Longrightarrow> val_ok hp os (ld64 m a)"
    "\<And>h. h \<in> set os \<Longrightarrow> obj_ok m h"
  using assms by (auto simp: heap_ok_def intro: heap_seg_ok)

lemma heap_seg_aligned: "heap_seg m a os e \<Longrightarrow> a mod 8 = 0 \<Longrightarrow> h \<in> set os \<Longrightarrow> h mod 8 = 0"
proof (induction os arbitrary: a)
  case (Cons k ks)
  have "(k + 8 * obj_words m k) mod 8 = 0" using Cons.prems by auto
  then show ?case using Cons.IH [of "k + 8 * obj_words m k"] Cons.prems by auto
qed simp

lemma heap_ok_content:
  assumes "heap_ok hp m os" "h \<in> set os"
  shows "(h + 16) mod 4 = 0" "h + 16 < 2 ^ 64"
proof -
  have "h mod 8 = 0"
    using heap_okD(1,2) [OF assms(1)] assms(2) by (rule heap_seg_aligned)
  then show "(h + 16) mod 4 = 0" by presburger
  show "h + 16 < 2 ^ 64"
    using heap_seg_header_bound [OF heap_okD(1) [OF assms(1)] assms(2)] heap_okD(3) [OF assms(1)]
    by linarith
qed

section \<open>Memories that differ in forward-address words only\<close>

definition fwd_frame :: "addr list \<Rightarrow> mem \<Rightarrow> mem \<Rightarrow> bool" where
  "fwd_frame os m m' \<longleftrightarrow> (\<forall>x. (\<forall>h \<in> set os. x < h + 8 \<or> h + 16 \<le> x) \<longrightarrow> m' x = m x)"

lemma fwd_frame_refl [simp]: "fwd_frame os m m"
  by (simp add: fwd_frame_def)

lemma fwd_frame_trans: "fwd_frame os m m' \<Longrightarrow> fwd_frame os m' m'' \<Longrightarrow> fwd_frame os m m''"
  by (simp add: fwd_frame_def)

lemma fwd_frame_ops [simp]:
  assumes "h \<in> set os"
  shows "fwd_frame os m (mark_object m (h + 16))" "fwd_frame os m (unmark_object m (h + 16))"
    "fwd_frame os m (make_enqueued m (h + 16))" "fwd_frame os m (make_dequeued m (h + 16))"
    "fwd_frame os m (set_forward_address m (h + 16) a)"
  using assms by (auto simp: fwd_frame_def fwd_ops_frame)

lemma fwd_frame_ld64:
  assumes "fwd_frame os m m'" "\<And>h. h \<in> set os \<Longrightarrow> a + 8 \<le> h + 8 \<or> h + 16 \<le> a"
  shows "ld64 m' a = ld64 m a"
proof (rule ld64_cong)
  fix i :: nat assume "i < 8"
  then have "a + i < h + 8 \<or> h + 16 \<le> a + i" if "h \<in> set os" for h
    using assms(2) [OF that] by linarith
  then show "m' (a + i) = m (a + i)" using assms(1) by (simp add: fwd_frame_def)
qed

lemma fwd_frame_header:
  assumes "fwd_frame os m m'" "heap_seg m a os e" "h \<in> set os"
  shows "ld64 m' h = ld64 m h"
  using assms(1)
proof (rule fwd_frame_ld64)
  fix k assume "k \<in> set os"
  then show "h + 8 \<le> k + 8 \<or> k + 16 \<le> h"
    using heap_seg_sep [OF assms(2,3)] by (cases "h = k") fastforce+
qed

lemma slot_in_object:
  assumes "a \<in> set (slots m h)"
  shows "h + 16 \<le> a" "a + 8 \<le> h + 8 * obj_words m h"
  using slot_bounds [OF assms] obj_bytes_le_words [of m h] by linarith+

lemma fwd_frame_slot:
  assumes "fwd_frame os m m'" "heap_seg m b os e" "h \<in> set os" "a \<in> set (slots m h)"
  shows "ld64 m' a = ld64 m a"
  using assms(1)
proof (rule fwd_frame_ld64)
  fix k assume "k \<in> set os"
  then show "a + 8 \<le> k + 8 \<or> k + 16 \<le> a"
    using heap_seg_disjoint [OF assms(2,3), of k] slot_in_object [OF assms(4)]
      obj_words_ge_2 [OF heap_seg_ok [OF assms(2)], of k] by (cases "h = k") fastforce+
qed

lemma fwd_frame_heap:
  assumes "fwd_frame os m m'" "heap_seg m b os e"
  shows "heap_seg m' b os e"
    and "h \<in> set os \<Longrightarrow> obj_words m' h = obj_words m h"
    and "h \<in> set os \<Longrightarrow> slots m' h = slots m h"
    and "h \<in> set os \<Longrightarrow> ptr_slots m' h = ptr_slots m h"
    and "h \<in> set os \<Longrightarrow> edge hp m' h = edge hp m h"
proof -
  note hd = fwd_frame_header [OF assms]
  show "heap_seg m' b os e" using assms(2) hd by (rule heap_seg_cong)
  show "obj_words m' h = obj_words m h" if "h \<in> set os"
    using hd [OF that] by (rule obj_header_cong)
  have sl: "slots m' h = slots m h" if "h \<in> set os" for h
    using hd [OF that] by (rule slots_header_cong)
  have v: "ld64 m' a = ld64 m a" if "h \<in> set os" "a \<in> set (slots m h)" for h a
    using assms that by (rule fwd_frame_slot)
  show "slots m' h = slots m h" if "h \<in> set os" by (rule sl [OF that])
  show "ptr_slots m' h = ptr_slots m h" if "h \<in> set os"
    unfolding ptr_slots_def sl [OF that] using v [OF that] by (auto intro: filter_cong)
  show "edge hp m' h = edge hp m h" if "h \<in> set os"
    unfolding edge_def fun_eq_iff sl [OF that] using v [OF that] by auto
qed

lemma fwd_frame_heap_ok:
  assumes "fwd_frame os m m'" "heap_ok hp m os"
  shows "heap_ok hp m' os"
  using assms(2) fwd_frame_heap(1,3) [OF assms(1) heap_okD(1) [OF assms(2)]]
    fwd_frame_slot [OF assms(1) heap_okD(1) [OF assms(2)]]
  by (auto simp: heap_ok_def)

text \<open>The forward word of one object is out of reach of the operations on another.\<close>

lemma fwd_ops_other:
  assumes "heap_seg m0 b os e" "h \<in> set os" "k \<in> set os" "h \<noteq> k"
  shows "ld64 (mark_object m (k + 16)) (h + 8) = ld64 m (h + 8)"
    "ld64 (make_enqueued m (k + 16)) (h + 8) = ld64 m (h + 8)"
    "ld64 (make_dequeued m (k + 16)) (h + 8) = ld64 m (h + 8)"
    "ld64 (unmark_object m (k + 16)) (h + 8) = ld64 m (h + 8)"
    "ld64 (set_forward_address m (k + 16) a) (h + 8) = ld64 m (h + 8)"
  using heap_seg_sep [OF assms] by (auto intro!: ld64_fwd_ops)

section \<open>Positions in the heap\<close>

text \<open>The address a heap iterator has after \<open>i\<close> steps.\<close>

definition pos :: "memory_chunk \<Rightarrow> addr list \<Rightarrow> nat \<Rightarrow> addr" where
  "pos hp os i = (if i < length os then os ! i else c_current hp)"

lemma heap_seg_nth_next:
  assumes "heap_seg m a os e" "i < length os"
  shows "os ! i + 8 * obj_words m (os ! i) = (if Suc i < length os then os ! Suc i else e)"
  using assms
proof (induction os arbitrary: a i)
  case (Cons h hs)
  then have seg: "heap_seg m (h + 8 * obj_words m h) hs e" by auto
  show ?case
  proof (cases i)
    case 0
    then show ?thesis using seg by (cases hs) auto
  next
    case (Suc j)
    then show ?thesis using Cons.IH [OF seg, of j] Cons.prems(2) by simp
  qed
qed simp

lemma pos_0: "heap_seg m (c_begin hp) os (c_current hp) \<Longrightarrow> pos hp os 0 = c_begin hp"
  by (cases os) (auto simp: pos_def)

lemma pos_next:
  assumes "heap_seg m (c_begin hp) os (c_current hp)" "i < length os"
  shows "heap_next_obj_iterator m (os ! i) = Some (pos hp os (Suc i))"
  using heap_next_obj_iterator_ok [OF heap_seg_ok [OF assms(1) nth_mem [OF assms(2)]]]
    heap_seg_nth_next [OF assms] by (simp add: pos_def)

lemma pos_eq_iff:
  assumes "heap_seg m (c_begin hp) os (c_current hp)" "i \<le> length os" "j \<le> length os"
  shows "pos hp os i = pos hp os j \<longleftrightarrow> i = j"
proof -
  have "os ! k \<noteq> c_current hp" if "k < length os" for k
    using heap_seg_header_bound [OF assms(1) nth_mem [OF that]] by simp
  then show ?thesis
    using assms(2,3) heap_seg_distinct [OF assms(1)]
    by (auto simp: pos_def nth_eq_iff_index_eq dest: sym)
qed

section \<open>The queue invariant\<close>

text \<open>
  \<open>D\<close> are the headers dequeued by this call of \<open>mark\<close>, \<open>Q\<close> those still in the queue,
  both in order; \<open>m0\<close> is the memory the call started from.
\<close>

definition queue_inv :: "addr list \<Rightarrow> mem \<Rightarrow> mem \<Rightarrow> addr list \<Rightarrow> addr list \<Rightarrow> bool" where
  "queue_inv os m0 m D Q \<longleftrightarrow>
     fwd_frame os m0 m \<and> distinct (D @ Q) \<and> set (D @ Q) \<subseteq> set os \<and>
     (\<forall>i < length (D @ Q). fwd m (os ! i) = (D @ Q) ! i + 16) \<and>
     (\<forall>h \<in> set os. marked m h \<longleftrightarrow> marked m0 h \<or> h \<in> set D) \<and>
     (\<forall>h \<in> set os. enqd m h \<longleftrightarrow> h \<in> set Q) \<and>
     (\<forall>h \<in> set (D @ Q). \<not> marked m0 h)"

lemma queue_invD:
  assumes "queue_inv os m0 m D Q"
  shows "fwd_frame os m0 m" "distinct (D @ Q)" "set (D @ Q) \<subseteq> set os"
    "\<And>i. i < length (D @ Q) \<Longrightarrow> fwd m (os ! i) = (D @ Q) ! i + 16"
    "\<And>h. h \<in> set os \<Longrightarrow> marked m h \<longleftrightarrow> marked m0 h \<or> h \<in> set D"
    "\<And>h. h \<in> set os \<Longrightarrow> enqd m h \<longleftrightarrow> h \<in> set Q"
    "\<And>h. h \<in> set (D @ Q) \<Longrightarrow> \<not> marked m0 h"
  using assms unfolding queue_inv_def by blast+

lemma queue_inv_start:
  assumes "\<forall>h \<in> set os. \<not> enqd m h"
  shows "queue_inv os m m [] []"
  using assms by (simp add: queue_inv_def)

lemma queue_inv_room:
  assumes "queue_inv os m0 m D Q" "k \<in> set os" "k \<notin> set (D @ Q)"
  shows "length (D @ Q) < length os"
proof -
  have "length (k # D @ Q) \<le> length os"
    using assms queue_invD(2,3) [OF assms(1)] by (intro distinct_subset_length) auto
  then show ?thesis by simp
qed

text \<open>Enqueueing an unmarked object that is not in the queue.\<close>

text \<open>What the two writes of an enqueue do to the forward words: \<open>t\<close> is the new tail, \<open>k\<close> the object.\<close>

definition enqueued_mem :: "mem \<Rightarrow> addr \<Rightarrow> addr \<Rightarrow> mem" where
  "enqueued_mem m t k = make_enqueued (set_forward_address m (t + 16) (k + 16)) (k + 16)"

lemma enqueued_mem_bits:
  assumes seg: "heap_seg m0 a os e" and t: "t \<in> set os" and k: "k \<in> set os"
    and al: "(k + 16) mod 4 = 0" "k + 16 < 2 ^ 64" and h: "h \<in> set os"
  shows "marked (enqueued_mem m t k) h = marked m h" "enqd (enqueued_mem m t k) h \<longleftrightarrow> enqd m h \<or> h = k"
    "fwd (enqueued_mem m t k) h = (if h = t then k + 16 else fwd m h)"
proof -
  let ?m1 = "set_forward_address m (t + 16) (k + 16)"
  have w1: "ld64 ?m1 (h + 8) = ld64 m (h + 8)" if "h \<noteq> t"
    using fwd_ops_other(5) [OF seg h t that] .
  have w2: "ld64 (enqueued_mem m t k) (h + 8) = ld64 ?m1 (h + 8)" if "h \<noteq> k"
    unfolding enqueued_mem_def using fwd_ops_other(2) [OF seg h k that] .
  have b1: "marked ?m1 h = marked m h" "enqd ?m1 h = enqd m h" "fwd ?m1 h = (if h = t then k + 16 else fwd m h)"
    using fwd_word_cong [OF w1] al by (cases "h = t"; simp)+
  have b2: "marked (enqueued_mem m t k) h = marked ?m1 h" "enqd (enqueued_mem m t k) h \<longleftrightarrow> enqd ?m1 h \<or> h = k"
    "fwd (enqueued_mem m t k) h = fwd ?m1 h"
    using fwd_word_cong [OF w2] by (cases "h = k"; simp add: enqueued_mem_def)+
  show "marked (enqueued_mem m t k) h = marked m h" "enqd (enqueued_mem m t k) h \<longleftrightarrow> enqd m h \<or> h = k"
    "fwd (enqueued_mem m t k) h = (if h = t then k + 16 else fwd m h)"
    using b1 b2 by simp_all
qed

lemma queue_enqueue_inv:
  assumes ok: "heap_ok hp m0 os" and inv: "queue_inv os m0 m D Q"
    and k: "k \<in> set os" "\<not> marked m k" "\<not> enqd m k"
  shows "\<exists>m'. queue_enqueue m (pos hp os (length (D @ Q))) (k + 16)
              = Some (m', pos hp os (length (D @ Q @ [k]))) \<and> queue_inv os m0 m' D (Q @ [k])"
proof -
  note I = queue_invD [OF inv]
  note seg0 = heap_okD(1) [OF ok]
  have kDQ: "k \<notin> set (D @ Q)" using k I(5,6) by auto
  let ?n = "length (D @ Q)"
  have n: "?n < length os" using queue_inv_room [OF inv k(1) kDQ] .
  define t where "t = os ! ?n"
  have t: "t \<in> set os" "pos hp os ?n = t" using n by (auto simp: t_def pos_def)
  have seg: "heap_seg m (c_begin hp) os (c_current hp)" by (rule fwd_frame_heap(1) [OF I(1) seg0])
  let ?m = "enqueued_mem m t k"
  have fr: "fwd_frame os m ?m"
    unfolding enqueued_mem_def
    by (rule fwd_frame_trans [OF fwd_frame_ops(5) [OF t(1)] fwd_frame_ops(3) [OF k(1)]])
  have seg2: "heap_seg ?m (c_begin hp) os (c_current hp)" by (rule fwd_frame_heap(1) [OF fr seg])
  have run: "queue_enqueue m (pos hp os ?n) (k + 16) = Some (?m, pos hp os (Suc ?n))"
    unfolding queue_enqueue_def t(2)
    using pos_next [OF seg2 n, folded t_def] heap_seg_ok [OF seg t(1)]
    by (simp add: enqueued_mem_def Let_def)
  have al: "(k + 16) mod 4 = 0" "k + 16 < 2 ^ 64" using heap_ok_content [OF ok k(1)] by auto
  note B = enqueued_mem_bits [OF seg0 t(1) k(1) al, where m = m]
  have fw: "fwd ?m (os ! i) = (D @ Q @ [k]) ! i + 16" if "i < Suc ?n" for i
  proof (cases "i = ?n")
    case True
    then have "os ! i = t" "(D @ Q @ [k]) ! i = k" by (simp_all add: t_def nth_append)
    then show ?thesis using B(3) t(1) by simp
  next
    case False
    then have i: "i < ?n" "i < length os" using that n by auto
    then have "os ! i \<noteq> t" using heap_seg_distinct [OF seg0] n by (simp add: t_def nth_eq_iff_index_eq)
    then show ?thesis using B(3) [of "os ! i"] i I(4) [OF i(1)] nth_butlast_snoc [of i "D @ Q" k] by simp
  qed
  have "queue_inv os m0 ?m D (Q @ [k])"
    unfolding queue_inv_def using I k kDQ fw B fwd_frame_trans [OF I(1) fr] by auto
  then show ?thesis using run by auto
qed

text \<open>Dequeueing and marking the head.\<close>

lemma queue_dequeue_inv:
  assumes ok: "heap_ok hp m0 os" and inv: "queue_inv os m0 m D (k # Q)"
  shows "\<exists>m'. queue_dequeue m (pos hp os (length D)) = Some (m', pos hp os (Suc (length D)), k + 16)
              \<and> queue_inv os m0 (mark_object m' (k + 16)) (D @ [k]) Q"
proof -
  note I = queue_invD [OF inv]
  note seg0 = heap_okD(1) [OF ok]
  have k: "k \<in> set os" using I(3) by auto
  have kn: "k \<notin> set D" "k \<notin> set Q" using I(2) by auto
  have n: "length D < length os"
    using distinct_subset_length [OF I(2,3)] by simp
  define t where "t = os ! length D"
  have t: "t \<in> set os" "pos hp os (length D) = t" using n by (auto simp: t_def pos_def)
  have seg: "heap_seg m (c_begin hp) os (c_current hp)" by (rule fwd_frame_heap(1) [OF I(1) seg0])
  define m1 where "m1 = make_dequeued m (k + 16)"
  define m2 where "m2 = mark_object m1 (k + 16)"
  have fr1: "fwd_frame os m m1" unfolding m1_def by (rule fwd_frame_ops(4) [OF k])
  have fr2: "fwd_frame os m m2"
    unfolding m2_def using fr1 fwd_frame_ops(1) [OF k] by (rule fwd_frame_trans)
  have seg1: "heap_seg m1 (c_begin hp) os (c_current hp)" by (rule fwd_frame_heap(1) [OF fr1 seg])
  have val: "get_forward_address m (t + 16) = k + 16"
    using I(4) [of "length D"] by (simp add: t_def fwd_def nth_append)
  have run: "queue_dequeue m (pos hp os (length D)) = Some (m1, pos hp os (Suc (length D)), k + 16)"
    using pos_next [OF seg1 n] heap_seg_ok [OF seg t(1)]
    by (simp add: queue_dequeue_def t val m1_def t_def [symmetric] Let_def)
  have w: "ld64 m2 (h + 8) = ld64 m (h + 8)" if "h \<in> set os" "h \<noteq> k" for h
    unfolding m2_def m1_def using fwd_ops_other(1,3) [OF seg0 that(1) k that(2)] by simp
  have mk: "marked m2 h \<longleftrightarrow> marked m h \<or> h = k" if "h \<in> set os" for h
    using fwd_word_cong(1) [OF w [OF that]] by (cases "h = k") (simp_all add: m2_def)
  have en: "enqd m2 h \<longleftrightarrow> enqd m h \<and> h \<noteq> k" if "h \<in> set os" for h
    using fwd_word_cong(2) [OF w [OF that]] by (cases "h = k") (simp_all add: m2_def m1_def)
  have fw: "fwd m2 h = fwd m h" if "h \<in> set os" for h
    using fwd_word_cong(3) [OF w [OF that]] by (cases "h = k") (simp_all add: m2_def m1_def)
  have "fwd m2 (os ! i) = (D @ k # Q) ! i + 16" if "i < length (D @ k # Q)" for i
    using fw [of "os ! i"] I(4) [OF that] distinct_subset_length [OF I(2,3)] that by simp
  then have "queue_inv os m0 m2 (D @ [k]) Q"
    unfolding queue_inv_def using I mk en kn fwd_frame_trans [OF I(1) fr2] by auto
  then show ?thesis using run by (auto simp: m2_def)
qed

section \<open>Correctness of \<open>mark\<close>\<close>

lemma points_to_unique: "points_to hp v h \<Longrightarrow> points_to hp v k \<Longrightarrow> h = k"
  by (simp add: points_to_def)

lemma val_okE:
  assumes "val_ok hp os v" "is_valid_heap_pointer hp v"
  obtains k where "k \<in> set os" "unat v = k + 16" "points_to hp v k"
  using assms by (auto simp: val_ok_def points_to_def)

text \<open>The loop over the pointer fields of one object enqueues its unvisited successors.\<close>

text \<open>One field: it is skipped, or what it points to is enqueued.\<close>

lemma mark_field_step:
  assumes ok: "heap_ok hp m0 os" and h: "h \<in> set os" and x: "x \<in> set (slots m0 h)" "v = ld64 m0 x"
    and inv: "queue_inv os m0 m D Q"
  shows "\<exists>m1 Q1. (if \<not> is_valid_heap_pointer hp v \<or> is_marked m (unat v) \<or> is_enqueued m (unat v)
                    then Some (m, pos hp os (length (D @ Q)))
                    else queue_enqueue m (pos hp os (length (D @ Q))) (unat v))
                  = Some (m1, pos hp os (length (D @ Q @ Q1)))
            \<and> queue_inv os m0 m1 D (Q @ Q1) \<and> (\<forall>k \<in> set Q1. edge hp m0 h k)
            \<and> (\<forall>k. points_to hp v k \<longrightarrow> marked m0 k \<or> k \<in> set (D @ Q @ Q1)) \<and> fwd_frame os m m1"
    (is "\<exists>m1 Q1. (if ?skip then _ else _) = _ \<and> _")
proof (cases ?skip)
  case True
  have "marked m0 k \<or> k \<in> set (D @ Q)" if p: "points_to hp v k" for k
  proof -
    have val: "is_valid_heap_pointer hp v" "unat v = k + 16" using p by (auto simp: points_to_def)
    then have "k \<in> set os" using heap_okD(4) [OF ok h x(1)] x(2) by (auto simp: val_ok_def)
    then show ?thesis using True val queue_invD(5,6) [OF inv] by auto
  qed
  then show ?thesis using True inv by (intro exI [of _ m] exI [of _ "[]"]) simp
next
  case False
  then obtain k where k: "k \<in> set os" "unat v = k + 16" "points_to hp v k"
    using heap_okD(4) [OF ok h x(1)] x(2) by (blast elim: val_okE)
  then have "\<not> marked m k" "\<not> enqd m k" using False by auto
  then obtain m1 where m1: "queue_enqueue m (pos hp os (length (D @ Q))) (k + 16)
        = Some (m1, pos hp os (length (D @ Q @ [k])))" "queue_inv os m0 m1 D (Q @ [k])"
    using queue_enqueue_inv [OF ok inv k(1)] by blast
  have "edge hp m0 h k" using x k(3) by (auto simp: edge_def)
  moreover have "fwd_frame os m m1"
    using queue_invD(1) [OF inv] queue_invD(1) [OF m1(2)] by (simp add: fwd_frame_def)
  moreover have "points_to hp v j \<Longrightarrow> j = k" for j using k(3) points_to_unique by blast
  ultimately show ?thesis using False k(2) m1 by (intro exI [of _ m1] exI [of _ "[k]"]) auto
qed

lemma mark_fields_inv:
  assumes ok: "heap_ok hp m0 os" and h: "h \<in> set os"
    and inv: "queue_inv os m0 m D Q" and it: "it_at m h it xs"
  shows "\<exists>m' Q'. mark_fields hp m it (pos hp os (length (D @ Q))) = Some (m', pos hp os (length (D @ Q @ Q')))
           \<and> queue_inv os m0 m' D (Q @ Q') \<and> (\<forall>k \<in> set Q'. edge hp m0 h k)
           \<and> (\<forall>x \<in> set xs. \<forall>k. points_to hp (ld64 m0 x) k \<longrightarrow> marked m0 k \<or> k \<in> set (D @ Q @ Q'))"
  using inv it
proof (induction xs arbitrary: m Q it)
  case Nil
  note seg = fwd_frame_heap(1) [OF queue_invD(1) [OF Nil.prems(1)] heap_okD(1) [OF ok]]
  have "mark_fields hp m it (pos hp os (length (D @ Q))) = Some (m, pos hp os (length (D @ Q)))"
    using it_at_done [OF heap_seg_ok [OF seg h] Nil.prems(2)] by (subst mark_fields.simps) simp
  then show ?case using Nil.prems(1) by (intro exI [of _ m] exI [of _ "[]"]) simp
next
  case (Cons x xs)
  note seg0 = heap_okD(1) [OF ok]
  note fr = queue_invD(1) [OF Cons.prems(1)]
  note seg = fwd_frame_heap(1) [OF fr seg0]
  note okm = heap_seg_ok [OF seg h]
  note cur = it_at_cur [OF Cons.prems(2)]
  have xs0: "x \<in> set (slots m0 h)" using cur(2) fwd_frame_heap(3) [OF fr seg0 h] by simp
  define v where "v = ld64 m x"
  have v0: "v = ld64 m0 x" using fwd_frame_slot [OF fr seg0 h xs0] by (simp add: v_def)
  have dn: "field_is_done_iterator m it = Some False"
    using it_at_done [OF okm Cons.prems(2)] by simp
  obtain m1 Q1 where s1: "(if \<not> is_valid_heap_pointer hp v \<or> is_marked m (unat v) \<or> is_enqueued m (unat v)
                         then Some (m, pos hp os (length (D @ Q)))
                         else queue_enqueue m (pos hp os (length (D @ Q))) (unat v))
                      = Some (m1, pos hp os (length (D @ Q @ Q1)))"
    and inv1: "queue_inv os m0 m1 D (Q @ Q1)" and e1: "\<forall>k \<in> set Q1. edge hp m0 h k"
    and p1: "\<forall>k. points_to hp v k \<longrightarrow> marked m0 k \<or> k \<in> set (D @ Q @ Q1)" and f1: "fwd_frame os m m1"
    using mark_field_step [OF ok h xs0 v0 Cons.prems(1)] by blast
  have it1: "it_at m1 h it (x # xs)"
    using Cons.prems(2) fwd_frame_header [OF f1 seg h]
    by (rule it_at_cong) (use fwd_frame_slot [OF f1 seg h] cur in auto)
  obtain it' where it': "obj_next_ptr_field_iterator m1 it = Some it'" "it_at m1 h it' xs"
    using it_at_next [OF heap_seg_ok [OF fwd_frame_heap(1) [OF f1 seg] h] it1] by blast
  obtain m' Q' where r: "mark_fields hp m1 it' (pos hp os (length (D @ Q @ Q1)))
        = Some (m', pos hp os (length (D @ (Q @ Q1) @ Q')))"
    "queue_inv os m0 m' D ((Q @ Q1) @ Q')" "\<forall>k \<in> set Q'. edge hp m0 h k"
    "\<forall>x \<in> set xs. \<forall>k. points_to hp (ld64 m0 x) k \<longrightarrow> marked m0 k \<or> k \<in> set (D @ (Q @ Q1) @ Q')"
    using Cons.IH [OF inv1 it'(2)] by auto
  have "mark_fields hp m it (pos hp os (length (D @ Q)))
      = mark_fields hp m1 it' (pos hp os (length (D @ Q @ Q1)))"
    using s1 it'(1) by (subst mark_fields.simps) (simp add: dn cur(1) Let_def flip: v_def)
  then show ?case using r e1 p1 v0
    by (intro exI [of _ m'] exI [of _ "Q1 @ Q'"]) auto
qed

text \<open>The breadth-first loop.\<close>

definition closed_marks :: "memory_chunk \<Rightarrow> mem \<Rightarrow> addr list \<Rightarrow> bool" where
  "closed_marks hp m os \<longleftrightarrow>
     (\<forall>h \<in> set os. \<forall>k. marked m h \<longrightarrow> edge hp m h k \<longrightarrow> marked m k)"

lemma edge_in_heap:
  assumes "heap_ok hp m os" "h \<in> set os" "edge hp m h k"
  shows "k \<in> set os"
  using assms heap_okD(4) [OF assms(1,2)]
  by (fastforce simp: edge_def val_ok_def points_to_def)

lemma reach_in_heap:
  assumes "(edge hp m)\<^sup>*\<^sup>* r k" "heap_ok hp m os" "r \<in> set os"
  shows "k \<in> set os"
  using assms(1,3) by (induction rule: rtranclp_induct) (auto intro: edge_in_heap [OF assms(2)])

text \<open>One round of the loop: the object at the head is marked and its fields are enqueued.\<close>

lemma mark_loop_round:
  assumes ok: "heap_ok hp m0 os" and inv: "queue_inv os m0 m D (k # Q)"
  shows "\<exists>m' Q'. mark_loop hp m (pos hp os (length D)) (pos hp os (length (D @ k # Q)))
             = mark_loop hp m' (pos hp os (length (D @ [k]))) (pos hp os (length ((D @ [k]) @ Q @ Q')))
           \<and> queue_inv os m0 m' (D @ [k]) (Q @ Q') \<and> (\<forall>j \<in> set Q'. edge hp m0 k j)
           \<and> (\<forall>j. edge hp m0 k j \<longrightarrow> marked m0 j \<or> j \<in> set ((D @ [k]) @ Q @ Q'))"
proof -
  note I = queue_invD [OF inv]
  note seg0 = heap_okD(1) [OF ok]
  have len: "length (D @ k # Q) \<le> length os" by (rule distinct_subset_length [OF I(2,3)])
  then have ne: "pos hp os (length D) \<noteq> pos hp os (length (D @ k # Q))"
    using pos_eq_iff [OF seg0, of "length D" "length (D @ k # Q)"] by simp
  obtain m1 where m1: "queue_dequeue m (pos hp os (length D)) = Some (m1, pos hp os (Suc (length D)), k + 16)"
    and inv1: "queue_inv os m0 (mark_object m1 (k + 16)) (D @ [k]) Q"
    using queue_dequeue_inv [OF ok inv] by blast
  let ?m2 = "mark_object m1 (k + 16)"
  have k: "k \<in> set os" using I(3) by auto
  note seg2 = fwd_frame_heap(1) [OF queue_invD(1) [OF inv1] seg0]
  obtain it where it: "ptr_field_begin_iterator ?m2 k = Some it" "it_at ?m2 k it (ptr_slots ?m2 k)"
    using ptr_field_begin_iterator_at [OF heap_seg_ok [OF seg2 k]] by blast
  obtain m3 Q2 where f: "mark_fields hp ?m2 it (pos hp os (length ((D @ [k]) @ Q)))
        = Some (m3, pos hp os (length ((D @ [k]) @ Q @ Q2)))"
    and inv3: "queue_inv os m0 m3 (D @ [k]) (Q @ Q2)"
    and e3: "\<forall>j \<in> set Q2. edge hp m0 k j"
    and p3: "\<forall>x \<in> set (ptr_slots ?m2 k). \<forall>j. points_to hp (ld64 m0 x) j \<longrightarrow>
               marked m0 j \<or> j \<in> set ((D @ [k]) @ Q @ Q2)"
    using mark_fields_inv [OF ok k inv1 it(2)] by blast
  have ps: "ptr_slots ?m2 k = ptr_slots m0 k"
    by (rule fwd_frame_heap(4) [OF queue_invD(1) [OF inv1] seg0 k])
  have kc: "marked m0 j \<or> j \<in> set ((D @ [k]) @ Q @ Q2)" if e: "edge hp m0 k j" for j
  proof -
    obtain a where a: "a \<in> set (slots m0 k)" "points_to hp (ld64 m0 a) j"
      using e by (auto simp: edge_def)
    then have "a \<in> set (ptr_slots m0 k)"
      by (auto simp: ptr_slots_def points_to_def is_valid_heap_pointer_def is_valid_pointer_def)
    then show ?thesis using p3 a(2) ps by auto
  qed
  have "mark_loop hp m (pos hp os (length D)) (pos hp os (length (D @ k # Q)))
      = mark_loop hp m3 (pos hp os (length (D @ [k]))) (pos hp os (length ((D @ [k]) @ Q @ Q2)))"
    using m1 f it(1) ne heap_seg_ok [OF seg2 k] by (subst mark_loop.simps) (simp add: Let_def)
  then show ?thesis using inv3 e3 kc by blast
qed

lemma mark_loop_inv:
  assumes ok: "heap_ok hp m0 os"
    and inv: "queue_inv os m0 m D Q"
    and done_closed: "\<forall>h \<in> set D. \<forall>k. edge hp m0 h k \<longrightarrow> marked m0 k \<or> k \<in> set (D @ Q)"
    and reach: "\<forall>k \<in> set (D @ Q). (edge hp m0)\<^sup>*\<^sup>* r k"
  shows "\<exists>m' E. mark_loop hp m (pos hp os (length D)) (pos hp os (length (D @ Q))) = Some m'
           \<and> queue_inv os m0 m' E [] \<and> set (D @ Q) \<subseteq> set E
           \<and> (\<forall>h \<in> set E. \<forall>k. edge hp m0 h k \<longrightarrow> marked m0 k \<or> k \<in> set E)
           \<and> (\<forall>k \<in> set E. (edge hp m0)\<^sup>*\<^sup>* r k)"
  using inv done_closed reach
proof (induction "length os - length D" arbitrary: m D Q rule: less_induct)
  case less
  show ?case
  proof (cases Q)
    case Nil
    then show ?thesis
      using less.prems by (subst mark_loop.simps) auto
  next
    case (Cons k Q')
    obtain m' Q2 where run: "mark_loop hp m (pos hp os (length D)) (pos hp os (length (D @ k # Q')))
        = mark_loop hp m' (pos hp os (length (D @ [k]))) (pos hp os (length ((D @ [k]) @ Q' @ Q2)))"
      and inv': "queue_inv os m0 m' (D @ [k]) (Q' @ Q2)" and e: "\<forall>j \<in> set Q2. edge hp m0 k j"
      and kc: "\<forall>j. edge hp m0 k j \<longrightarrow> marked m0 j \<or> j \<in> set ((D @ [k]) @ Q' @ Q2)"
      using mark_loop_round [OF ok less.prems(1) [unfolded Cons]] by blast
    have "(edge hp m0)\<^sup>*\<^sup>* r k" using less.prems(3) Cons by simp
    then have r': "\<forall>j \<in> set ((D @ [k]) @ Q' @ Q2). (edge hp m0)\<^sup>*\<^sup>* r j"
      using less.prems(3) Cons e by (auto intro: rtranclp.rtrancl_into_rtrancl)
    have c': "\<forall>h \<in> set (D @ [k]). \<forall>j. edge hp m0 h j \<longrightarrow> marked m0 j \<or> j \<in> set ((D @ [k]) @ Q' @ Q2)"
      using less.prems(2) Cons kc by auto
    have "length (D @ Q) \<le> length os"
      using queue_invD(2,3) [OF less.prems(1)] by (rule distinct_subset_length)
    then have "length os - length (D @ [k]) < length os - length D" using Cons by simp
    from less.hyps [OF this inv' c' r']
    show ?thesis unfolding Cons run by auto
  qed
qed

text \<open>What one call of \<open>mark\<close> does.\<close>

definition no_enqueued :: "mem \<Rightarrow> addr list \<Rightarrow> bool" where
  "no_enqueued m os \<longleftrightarrow> (\<forall>h \<in> set os. \<not> enqd m h)"

definition root_reach :: "memory_chunk \<Rightarrow> mem \<Rightarrow> u64 \<Rightarrow> addr \<Rightarrow> bool" where
  "root_reach hp m v h \<longleftrightarrow> (\<exists>r. points_to hp v r \<and> (edge hp m)\<^sup>*\<^sup>* r h)"

lemma edge_frame_rtranclp:
  assumes "fwd_frame os m m'" "heap_ok hp m os" "r \<in> set os"
  shows "(edge hp m')\<^sup>*\<^sup>* r h \<longleftrightarrow> (edge hp m)\<^sup>*\<^sup>* r h"
proof -
  note eq = fwd_frame_heap(5) [OF assms(1) heap_okD(1) [OF assms(2)]]
  have "(edge hp m)\<^sup>*\<^sup>* r h \<Longrightarrow> (edge hp m')\<^sup>*\<^sup>* r h"
  proof (induction rule: rtranclp_induct)
    case (step y z)
    then have "y \<in> set os" using reach_in_heap assms(2,3) by blast
    then show ?case using step eq by (metis rtranclp.rtrancl_into_rtrancl)
  qed simp
  moreover have "(edge hp m')\<^sup>*\<^sup>* r h \<Longrightarrow> (edge hp m)\<^sup>*\<^sup>* r h"
  proof (induction rule: rtranclp_induct)
    case (step y z)
    then have "y \<in> set os" using reach_in_heap assms(2,3) by blast
    then show ?case using step eq by (metis rtranclp.rtrancl_into_rtrancl)
  qed simp
  ultimately show ?thesis by blast
qed

lemma closed_reach_marked:
  assumes "closed_marks hp m os" "heap_ok hp m os" "r \<in> set os" "marked m r" "(edge hp m)\<^sup>*\<^sup>* r h"
  shows "marked m h"
  using assms(5)
proof (induction rule: rtranclp_induct)
  case base
  show ?case by (rule assms(4))
next
  case (step y z)
  then have "y \<in> set os" using reach_in_heap assms(2,3) by blast
  then show ?case using step assms(1) by (auto simp: closed_marks_def)
qed

lemma closed_set_covers:
  assumes "heap_ok hp m os" "closed_marks hp m os" "r \<in> set os" "r \<in> set E"
    and "\<forall>h \<in> set E. \<forall>k. edge hp m h k \<longrightarrow> marked m k \<or> k \<in> set E" and "(edge hp m)\<^sup>*\<^sup>* r h"
  shows "marked m h \<or> h \<in> set E"
  using assms(6)
proof (induction rule: rtranclp_induct)
  case base
  show ?case using assms(4) by simp
next
  case (step y z)
  then have "y \<in> set os" using reach_in_heap assms(1,3) by blast
  then show ?case using step assms(2,5) by (auto simp: closed_marks_def)
qed

lemma mark_correct_aux:
  assumes ok: "heap_ok hp m os" and ne: "no_enqueued m os" and cl: "closed_marks hp m os"
    and v: "val_ok hp os v"
  shows "\<exists>m'. mark hp m v = Some m' \<and> fwd_frame os m m' \<and> no_enqueued m' os
           \<and> (\<forall>h \<in> set os. marked m' h \<longleftrightarrow> marked m h \<or> root_reach hp m v h)"
proof (cases "is_valid_heap_pointer hp v")
  case False
  then show ?thesis using ne by (simp add: mark_def root_reach_def points_to_def)
next
  case True
  then obtain r where r: "r \<in> set os" "unat v = r + 16" "points_to hp v r"
    using v by (blast elim: val_okE)
  have rr: "root_reach hp m v h \<longleftrightarrow> (edge hp m)\<^sup>*\<^sup>* r h" for h
    using r(3) points_to_unique by (auto simp: root_reach_def)
  show ?thesis
  proof (cases "marked m r")
    case m: True
    then have "mark hp m v = Some m" using r(2) by (simp add: mark_def)
    then show ?thesis using ne closed_reach_marked [OF cl ok r(1) m] rr by auto
  next
    case False
    note seg = heap_okD(1) [OF ok]
    have inv0: "queue_inv os m m [] []" using ne by (intro queue_inv_start) (simp add: no_enqueued_def)
    have "\<not> enqd m r" using ne r(1) by (simp add: no_enqueued_def)
    then obtain m1 where m1: "queue_enqueue m (pos hp os 0) (r + 16) = Some (m1, pos hp os 1)"
      and inv1: "queue_inv os m m1 [] [r]"
      using queue_enqueue_inv [OF ok inv0 r(1) False] by auto
    obtain m' E where m': "mark_loop hp m1 (pos hp os 0) (pos hp os 1) = Some m'"
      "queue_inv os m m' E []" "r \<in> set E"
      "\<forall>h \<in> set E. \<forall>k. edge hp m h k \<longrightarrow> marked m k \<or> k \<in> set E"
      "\<forall>k \<in> set E. (edge hp m)\<^sup>*\<^sup>* r k"
      using mark_loop_inv [OF ok inv1, of r] by auto
    note I = queue_invD [OF m'(2)]
    have run: "mark hp m v = Some m'"
      using True False r(2) m1 m'(1) pos_0 [OF seg]
      by (simp add: mark_def heap_begin_iterator_def Let_def)
    note cov = closed_set_covers [OF ok cl r(1) m'(3,4)]
    have "\<forall>h \<in> set os. marked m' h \<longleftrightarrow> marked m h \<or> root_reach hp m v h"
      using I(5) cov m'(5) rr by auto
    then show ?thesis using run I(1,6) by (auto simp: no_enqueued_def)
  qed
qed

end
