(* ===== verification/Roots.thy ===== *)
theory Roots
  imports Mark
begin

text \<open>
  The state of the collector (\<open>heap\<close>, \<open>extra_roots\<close>, the bounds of the Lama stack, the
  bounds of the \<open>custom_data\<close> section) and its three kinds of roots, from \<open>runtime/gc.c\<close> and
  \<open>runtime/gc.h\<close>: the pool of extra roots as a LIFO behind an interface (\<open>lifo\<close>), and
  \<open>mark_phase\<close>, which marks from the stack, the extra roots and the global area.
\<close>

section \<open>State\<close>

definition MAX_EXTRA_ROOTS_NUMBER :: nat where "MAX_EXTRA_ROOTS_NUMBER = 32"

record extra_roots_pool =
  current_free :: nat
  roots :: "addr list"

record gc_state =
  memory :: mem
  heap :: memory_chunk
  extra_roots :: extra_roots_pool
  gc_stack_top :: addr
  gc_stack_bottom :: addr
  start_custom_data :: addr
  stop_custom_data :: addr

section \<open>The pool of extra roots\<close>

definition clear_extra_roots :: "gc_state \<Rightarrow> gc_state" where
  "clear_extra_roots s = s\<lparr>extra_roots := (extra_roots s)\<lparr>current_free := 0\<rparr>\<rparr>"

definition push_extra_root :: "addr \<Rightarrow> gc_state \<Rightarrow> gc_state res" where
  "push_extra_root p s =
     (let r = extra_roots s in
      if MAX_EXTRA_ROOTS_NUMBER \<le> current_free r then Inl (Exit 1)
      else if \<not> (gc_stack_top s \<le> p \<or> p < gc_stack_bottom s) then Inl AssertFailed
      else Inr (s\<lparr>extra_roots := r\<lparr>current_free := current_free r + 1,
                                    roots := (roots r)[current_free r := p]\<rparr>\<rparr>))"

definition pop_extra_root :: "addr \<Rightarrow> gc_state \<Rightarrow> gc_state res" where
  "pop_extra_root p s =
     (let r = extra_roots s in
      if current_free r = 0 then Inl (Exit 1)
      else if roots r ! (current_free r - 1) \<noteq> p then Inl (Exit 1)
      else Inr (s\<lparr>extra_roots := r\<lparr>current_free := current_free r - 1\<rparr>\<rparr>))"

text \<open>The contents of the pool, oldest first, and the state beside the pool.\<close>

definition pool :: "gc_state \<Rightarrow> addr list" where
  "pool s = take (current_free (extra_roots s)) (roots (extra_roots s))"

definition pool_ok :: "gc_state \<Rightarrow> bool" where
  "pool_ok s \<longleftrightarrow> length (roots (extra_roots s)) = MAX_EXTRA_ROOTS_NUMBER
                \<and> current_free (extra_roots s) \<le> MAX_EXTRA_ROOTS_NUMBER
                \<and> gc_stack_top s \<le> gc_stack_bottom s"

definition sans_pool :: "gc_state \<Rightarrow> gc_state" where
  "sans_pool s = s\<lparr>extra_roots := \<lparr>current_free = 0, roots = []\<rparr>\<rparr>"

text \<open>A loop of calls that stops at the first call that does not return.\<close>

fun for_each :: "('a \<Rightarrow> 's \<Rightarrow> 's res) \<Rightarrow> 'a list \<Rightarrow> 's \<Rightarrow> 's res" where
  "for_each f [] s = Inr s"
| "for_each f (x # xs) s = bindR (f x s) (for_each f xs)"

lemma for_each_append: "for_each f (xs @ ys) s = bindR (for_each f xs s) (for_each f ys)"
  by (induction xs arbitrary: s) (auto simp: bindR_def split: sum.splits)

subsection \<open>The interface\<close>

text \<open>
  What the constructors of the runtime need from the pool: a bounded LIFO whose \<open>pop\<close> checks
  that it removes the element it is given, and which leaves the rest of the state alone.
\<close>

locale lifo =
  fixes push :: "'a \<Rightarrow> 's \<Rightarrow> 's res"
    and pop :: "'a \<Rightarrow> 's \<Rightarrow> 's res"
    and contents :: "'s \<Rightarrow> 'a list"
    and good :: "'s \<Rightarrow> bool"
    and cap :: nat
    and others :: "'s \<Rightarrow> 'r"
  assumes push_room: "good s \<Longrightarrow> length (contents s) < cap \<Longrightarrow>
      \<exists>s'. push p s = Inr s' \<and> good s' \<and> contents s' = contents s @ [p] \<and> others s' = others s"
    and push_full: "good s \<Longrightarrow> cap \<le> length (contents s) \<Longrightarrow> push p s = Inl (Exit 1)"
    and pop_last: "good s \<Longrightarrow> contents s = xs @ [p] \<Longrightarrow>
      \<exists>s'. pop p s = Inr s' \<and> good s' \<and> contents s' = xs \<and> others s' = others s"
    and pop_wrong: "good s \<Longrightarrow> contents s = xs @ [q] \<Longrightarrow> q \<noteq> p \<Longrightarrow> pop p s = Inl (Exit 1)"
    and pop_empty: "good s \<Longrightarrow> contents s = [] \<Longrightarrow> pop p s = Inl (Exit 1)"
begin

lemma push_all:
  "good s \<Longrightarrow> length (contents s) + length ps \<le> cap \<Longrightarrow>
     \<exists>s'. for_each push ps s = Inr s' \<and> good s' \<and> contents s' = contents s @ ps \<and> others s' = others s"
proof (induction ps arbitrary: s)
  case (Cons p ps)
  then obtain s1 where "push p s = Inr s1" "good s1" "contents s1 = contents s @ [p]" "others s1 = others s"
    using push_room [of s p] by auto
  then show ?case using Cons.IH [of s1] Cons.prems by auto
qed simp

lemma push_all_overflow:
  "good s \<Longrightarrow> cap < length (contents s) + length ps \<Longrightarrow> length (contents s) \<le> cap \<Longrightarrow>
     for_each push ps s = Inl (Exit 1)"
proof (induction ps arbitrary: s)
  case (Cons p ps)
  show ?case
  proof (cases "length (contents s) < cap")
    case True
    then obtain s1 where "push p s = Inr s1" "good s1" "contents s1 = contents s @ [p]"
      using push_room [OF Cons.prems(1)] by blast
    then show ?thesis using Cons.IH [of s1] Cons.prems True by auto
  next
    case False
    then show ?thesis using push_full [OF Cons.prems(1)] by simp
  qed
qed simp

lemma pop_all:
  "good s \<Longrightarrow> contents s = xs @ ps \<Longrightarrow>
     \<exists>s'. for_each pop (rev ps) s = Inr s' \<and> good s' \<and> contents s' = xs \<and> others s' = others s"
proof (induction ps arbitrary: s rule: rev_induct)
  case (snoc p ps)
  then obtain s1 where "pop p s = Inr s1" "good s1" "contents s1 = xs @ ps" "others s1 = others s"
    using pop_last [of s "xs @ ps" p] by auto
  then show ?case using snoc.IH [of s1] by auto
qed simp

text \<open>Work between pushes and pops, if it leaves the contents alone.\<close>

lemma bracket:
  assumes "good s" "length (contents s) + length ps \<le> cap"
    and "\<And>s1. for_each push ps s = Inr s1 \<Longrightarrow> good s1 \<Longrightarrow> contents s1 = contents s @ ps \<Longrightarrow> others s1 = others s \<Longrightarrow>
      good (f s1) \<and> contents (f s1) = contents s1"
  shows "\<exists>s1 s2. for_each push ps s = Inr s1 \<and> contents s1 = contents s @ ps \<and> others s1 = others s \<and>
    for_each pop (rev ps) (f s1) = Inr s2 \<and> good s2 \<and> contents s2 = contents s \<and> others s2 = others (f s1)"
proof -
  obtain s1 where s1: "for_each push ps s = Inr s1" "good s1" "contents s1 = contents s @ ps" "others s1 = others s"
    using push_all [OF assms(1,2)] by blast
  then have "good (f s1)" "contents (f s1) = contents s @ ps" using assms(3) by simp_all
  then show ?thesis using pop_all [of "f s1" "contents s" ps] s1 by blast
qed

text \<open>Popping in the order of the pushes, not the reverse, is caught.\<close>

lemma pop_unbalanced:
  assumes "good s" "contents s = xs @ [p, q]" "p \<noteq> q"
  shows "for_each pop [p, q] s = Inl (Exit 1)"
  using pop_wrong [of s "xs @ [p]" q p] assms by simp

end

lemma length_pool [simp]: "pool_ok s \<Longrightarrow> length (pool s) = current_free (extra_roots s)"
  by (simp add: pool_def pool_ok_def)

interpretation extra: lifo push_extra_root pop_extra_root pool pool_ok MAX_EXTRA_ROOTS_NUMBER sans_pool
proof
  fix s p assume s: "pool_ok s" "length (pool s) < MAX_EXTRA_ROOTS_NUMBER"
  let ?r = "extra_roots s"
  have "take (Suc (current_free ?r)) ((roots ?r)[current_free ?r := p]) = take (current_free ?r) (roots ?r) @ [p]"
    using s by (simp add: take_Suc_conv_app_nth pool_ok_def take_update_cancel)
  then show "\<exists>s'. push_extra_root p s = Inr s' \<and> pool_ok s' \<and> pool s' = pool s @ [p] \<and> sans_pool s' = sans_pool s"
    using s by (auto simp: push_extra_root_def pool_ok_def pool_def sans_pool_def Let_def)
next
  fix s p assume "pool_ok s" "MAX_EXTRA_ROOTS_NUMBER \<le> length (pool s)"
  then show "push_extra_root p s = Inl (Exit 1)" by (simp add: push_extra_root_def)
next
  fix s xs p assume s: "pool_ok s" "pool s = xs @ [p]"
  let ?r = "extra_roots s"
  have n: "current_free ?r = Suc (length xs)" using length_pool [OF s(1)] s(2) by simp
  then have "roots ?r ! length xs = p" "take (length xs) (roots ?r) = xs"
    using s n by (auto simp: pool_def take_Suc_conv_app_nth pool_ok_def)
  then show "\<exists>s'. pop_extra_root p s = Inr s' \<and> pool_ok s' \<and> pool s' = xs \<and> sans_pool s' = sans_pool s"
    using s n by (auto simp: pop_extra_root_def pool_ok_def pool_def sans_pool_def Let_def)
next
  fix s xs and q p :: addr assume s: "pool_ok s" "pool s = xs @ [q]" "q \<noteq> p"
  let ?r = "extra_roots s"
  have n: "current_free ?r = Suc (length xs)" using length_pool [OF s(1)] s(2) by simp
  then have "roots ?r ! length xs = q"
    using s n by (auto simp: pool_def take_Suc_conv_app_nth pool_ok_def)
  then show "pop_extra_root p s = Inl (Exit 1)" using s n by (simp add: pop_extra_root_def)
next
  fix s and p :: addr assume "pool_ok s" "pool s = []"
  then have "current_free (extra_roots s) = 0" using length_pool [of s] by simp
  then show "pop_extra_root p s = Inl (Exit 1)" by (simp add: pop_extra_root_def)
qed

section \<open>The mark phase\<close>

function mark_region :: "memory_chunk \<Rightarrow> mem \<Rightarrow> addr \<Rightarrow> addr \<Rightarrow> mem option" where
  "mark_region hp m p e =
     (if p < e then do { m \<leftarrow> mark hp m (ld64 m p); mark_region hp m (p + 8) e } else Some m)"
  by pat_completeness auto
termination
  by (relation "measure (\<lambda>(hp, m, p, e). e - p)") auto

declare mark_region.simps [simp del]

definition gc_root_scan_stack :: "gc_state \<Rightarrow> gc_state option" where
  "gc_root_scan_stack s = do {
     m \<leftarrow> mark_region (heap s) (memory s) (gc_stack_top s + 8) (gc_stack_bottom s);
     Some (s\<lparr>memory := m\<rparr>)
   }"

fun mark_roots :: "memory_chunk \<Rightarrow> mem \<Rightarrow> addr list \<Rightarrow> mem option" where
  "mark_roots hp m [] = Some m"
| "mark_roots hp m (r # rs) = do { m \<leftarrow> mark hp m (ld64 m r); mark_roots hp m rs }"

definition scan_extra_roots :: "gc_state \<Rightarrow> gc_state option" where
  "scan_extra_roots s = do {
     m \<leftarrow> mark_roots (heap s) (memory s) (take (current_free (extra_roots s)) (roots (extra_roots s)));
     Some (s\<lparr>memory := m\<rparr>)
   }"

definition scan_global_area :: "gc_state \<Rightarrow> gc_state option" where
  "scan_global_area s = do {
     m \<leftarrow> mark_region (heap s) (memory s) (start_custom_data s) (stop_custom_data s);
     Some (s\<lparr>memory := m\<rparr>)
   }"

definition mark_phase :: "gc_state \<Rightarrow> gc_state option" where
  "mark_phase s = do {
     s \<leftarrow> gc_root_scan_stack s;
     s \<leftarrow> scan_extra_roots s;
     scan_global_area s
   }"

text \<open>The word addresses a region loop visits.\<close>

definition words_between :: "addr \<Rightarrow> addr \<Rightarrow> addr list" where
  "words_between p e = map (\<lambda>i. p + 8 * i) [0..<(e - p + 7) div 8]"

lemma words_between_step:
  "words_between p e = (if p < e then p # words_between (p + 8) e else [])"
proof (cases "p < e")
  case True
  then have "(e - p + 7) div 8 = Suc ((e - (p + 8) + 7) div 8)"
    by (cases "p + 8 \<le> e") (auto simp: div_if [of "e - p + 7" 8])
  then show ?thesis
    using True by (auto simp: words_between_def upt_conv_Cons map_Suc_upt [symmetric] simp del: upt_Suc)
qed (simp add: words_between_def)

lemma mark_region_eq: "mark_region hp m p e = mark_roots hp m (words_between p e)"
proof (induction hp m p e rule: mark_region.induct)
  case (1 hp m p e)
  show ?case
  proof (cases "p < e")
    case True
    then have w: "words_between p e = p # words_between (p + 8) e" by (subst words_between_step) simp
    show ?thesis
      using 1 True unfolding w
      by (subst mark_region.simps) (cases "mark hp m (ld64 m p)"; simp)
  next
    case False
    then show ?thesis by (subst mark_region.simps) (simp add: words_between_step [of p e])
  qed
qed

definition root_addrs :: "gc_state \<Rightarrow> addr list" where
  "root_addrs s = words_between (gc_stack_top s + 8) (gc_stack_bottom s) @ pool s
                  @ words_between (start_custom_data s) (stop_custom_data s)"

lemma mark_roots_append:
  "mark_roots hp m (xs @ ys) = do { m \<leftarrow> mark_roots hp m xs; mark_roots hp m ys }"
  by (induction xs arbitrary: m) auto

lemma mark_phase_eq:
  "mark_phase s = do { m \<leftarrow> mark_roots (heap s) (memory s) (root_addrs s); Some (s\<lparr>memory := m\<rparr>) }"
  by (simp add: mark_phase_def gc_root_scan_stack_def scan_extra_roots_def scan_global_area_def
      mark_region_eq root_addrs_def mark_roots_append pool_def bind_assoc)

definition off_heap :: "memory_chunk \<Rightarrow> addr \<Rightarrow> bool" where
  "off_heap hp a \<longleftrightarrow> a + 8 \<le> c_begin hp \<or> c_end hp \<le> a"

definition roots_ok :: "gc_state \<Rightarrow> addr list \<Rightarrow> bool" where
  "roots_ok s os \<longleftrightarrow> c_current (heap s) \<le> c_end (heap s) \<and>
     (\<forall>a \<in> set (root_addrs s). off_heap (heap s) a \<and> val_ok (heap s) os (ld64 (memory s) a))"

lemma fwd_frame_off_heap:
  assumes "fwd_frame os m m'" "heap_ok hp m os" "off_heap hp a" "c_current hp \<le> c_end hp"
  shows "ld64 m' a = ld64 m a"
  using assms(1)
proof (rule fwd_frame_ld64)
  fix h assume "h \<in> set os"
  then show "a + 8 \<le> h + 8 \<or> h + 16 \<le> a"
    using heap_seg_in [OF heap_okD(1) [OF assms(2)]] heap_seg_header_bound [OF heap_okD(1) [OF assms(2)]]
      assms(3,4) by (fastforce simp: off_heap_def)
qed

lemma closed_marks_step:
  assumes ok: "heap_ok hp m os" and cl: "closed_marks hp m os" and fr: "fwd_frame os m m'"
    and mk: "\<forall>h \<in> set os. marked m' h \<longleftrightarrow> marked m h \<or> root_reach hp m v h"
  shows "closed_marks hp m' os"
  unfolding closed_marks_def
proof (intro ballI allI impI)
  fix h k assume h: "h \<in> set os" "marked m' h" and "edge hp m' h k"
  then have e: "edge hp m h k" using fwd_frame_heap(5) [OF fr heap_okD(1) [OF ok]] by simp
  then have k: "k \<in> set os" using edge_in_heap [OF ok h(1)] by simp
  from h(2) mk h(1) consider "marked m h" | "root_reach hp m v h" by blast
  then show "marked m' k"
  proof cases
    case 1
    then have "marked m k" using cl h(1) e unfolding closed_marks_def by blast
    then show ?thesis using mk k by blast
  next
    case 2
    then have "root_reach hp m v k"
      unfolding root_reach_def using e by (meson rtranclp.rtrancl_into_rtrancl)
    then show ?thesis using mk k by blast
  qed
qed

lemma root_reach_frame:
  assumes "fwd_frame os m m'" "heap_ok hp m os" "val_ok hp os v"
  shows "root_reach hp m' v h \<longleftrightarrow> root_reach hp m v h"
proof -
  have "points_to hp v r \<Longrightarrow> r \<in> set os" for r
    using assms(3) by (auto simp: val_ok_def points_to_def)
  then show ?thesis
    using edge_frame_rtranclp [OF assms(1,2)] by (auto simp: root_reach_def)
qed

lemma mark_roots_inv:
  assumes "heap_ok hp m os" "no_enqueued m os" "closed_marks hp m os" "c_current hp \<le> c_end hp"
    "\<forall>a \<in> set as. off_heap hp a \<and> val_ok hp os (ld64 m a)"
  shows "\<exists>m'. mark_roots hp m as = Some m' \<and> fwd_frame os m m' \<and> no_enqueued m' os
           \<and> (\<forall>h \<in> set os. marked m' h \<longleftrightarrow> marked m h \<or> (\<exists>a \<in> set as. root_reach hp m (ld64 m a) h))"
  using assms
proof (induction as arbitrary: m)
  case (Cons a as)
  have a: "off_heap hp a" "val_ok hp os (ld64 m a)" using Cons.prems(5) by auto
  obtain m1 where m1: "mark hp m (ld64 m a) = Some m1" "fwd_frame os m m1" "no_enqueued m1 os"
    "\<forall>h \<in> set os. marked m1 h \<longleftrightarrow> marked m h \<or> root_reach hp m (ld64 m a) h"
    using mark_correct_aux [OF Cons.prems(1-3) a(2)] by blast
  have ld: "ld64 m1 b = ld64 m b" if "b \<in> set as" for b
    using fwd_frame_off_heap [OF m1(2) Cons.prems(1) _ Cons.prems(4)] Cons.prems(5) that by simp
  have "heap_ok hp m1 os" by (rule fwd_frame_heap_ok [OF m1(2) Cons.prems(1)])
  moreover have "closed_marks hp m1 os"
    by (rule closed_marks_step [OF Cons.prems(1,3) m1(2,4)])
  moreover have "\<forall>b \<in> set as. off_heap hp b \<and> val_ok hp os (ld64 m1 b)"
    using Cons.prems(5) ld by simp
  ultimately obtain m' where m': "mark_roots hp m1 as = Some m'" "fwd_frame os m1 m'" "no_enqueued m' os"
    "\<forall>h \<in> set os. marked m' h \<longleftrightarrow> marked m1 h \<or> (\<exists>b \<in> set as. root_reach hp m1 (ld64 m1 b) h)"
    using Cons.IH [of m1] m1(3) Cons.prems(4) by blast
  have "root_reach hp m1 (ld64 m1 b) h = root_reach hp m (ld64 m b) h" if "b \<in> set as" for b h
    using root_reach_frame [OF m1(2) Cons.prems(1)] Cons.prems(5) ld [OF that] that by simp
  then have "\<forall>h \<in> set os. marked m' h \<longleftrightarrow> marked m h \<or> (\<exists>b \<in> set (a # as). root_reach hp m (ld64 m b) h)"
    using m'(4) m1(4) by auto
  then show ?case using m1(1,2) m'(1-3) fwd_frame_trans by auto
qed simp

definition live :: "gc_state \<Rightarrow> addr \<Rightarrow> bool" where
  "live s h \<longleftrightarrow> (\<exists>a \<in> set (root_addrs s). root_reach (heap s) (memory s) (ld64 (memory s) a) h)"

definition unmarked_heap :: "mem \<Rightarrow> addr list \<Rightarrow> bool" where
  "unmarked_heap m os \<longleftrightarrow> (\<forall>h \<in> set os. \<not> marked m h \<and> \<not> enqd m h)"

lemma mark_phase_inv:
  assumes "heap_ok (heap s) (memory s) os" "unmarked_heap (memory s) os" "roots_ok s os"
  shows "\<exists>m'. mark_phase s = Some (s\<lparr>memory := m'\<rparr>) \<and> fwd_frame os (memory s) m'
           \<and> no_enqueued m' os \<and> (\<forall>h \<in> set os. marked m' h \<longleftrightarrow> live s h)"
proof -
  have ne: "no_enqueued (memory s) os" and cl: "closed_marks (heap s) (memory s) os"
    using assms(2) by (auto simp: no_enqueued_def unmarked_heap_def closed_marks_def)
  have r: "c_current (heap s) \<le> c_end (heap s)"
    "\<forall>a \<in> set (root_addrs s). off_heap (heap s) a \<and> val_ok (heap s) os (ld64 (memory s) a)"
    using assms(3) by (auto simp: roots_ok_def)
  show ?thesis
    using mark_roots_inv [OF assms(1) ne cl r] assms(2)
    by (auto simp: mark_phase_eq live_def unmarked_heap_def)
qed

end
