(* ===== verification/Compact.thy ===== *)
theory Compact
  imports Roots
begin

text \<open>
  The compaction of \<open>runtime/gc.c\<close> (LISP2): \<open>compute_locations\<close> writes into every marked
  object the address its header slides to, \<open>compact_phase\<close> maps a new heap and copies the old one
  into it, \<open>update_references\<close> redirects the fields of the marked objects, the stack, the extra
  roots and the global area, and \<open>physically_relocate\<close> moves the objects and clears their marks.

  Where the code subtracts one pointer from another and adds the difference to a third, the model
  does so on integers (\<open>rebase\<close>). The system calls are parameters: \<open>mmap\<close> may depend on the
  state and may fail; a new anonymous mapping reads as zero. When \<open>mmap\<close> fails the code copies
  into \<open>MAP_FAILED\<close> before it tests for it, so the process is killed: the value \<open>None\<close>.
\<close>

definition EXTRA_ROOM_HEAP_COEFFICIENT :: nat where "EXTRA_ROOM_HEAP_COEFFICIENT = 2"
definition MINIMUM_HEAP_CAPACITY :: nat where "MINIMUM_HEAP_CAPACITY = 64"

section \<open>Computing the new locations\<close>

partial_function (option) compute_loop :: "memory_chunk \<Rightarrow> mem \<Rightarrow> addr \<Rightarrow> addr \<Rightarrow> (mem \<times> addr) option" where
  "compute_loop hp m free_ptr it =
     (if heap_is_done_iterator hp it then Some (m, free_ptr)
      else do {
        obj_content \<leftarrow> get_object_content_ptr m it;
        (m, free_ptr) \<leftarrow>
          (if is_marked m obj_content
           then do {
             sz \<leftarrow> obj_size_header_ptr m it;
             let sz = BYTES_TO_WORDS sz;
             Some (set_forward_address m obj_content free_ptr, free_ptr + 8 * unat sz)
           }
           else Some (m, free_ptr));
        it \<leftarrow> heap_next_obj_iterator m it;
        compute_loop hp m free_ptr it
      })"

definition compute_locations :: "memory_chunk \<Rightarrow> mem \<Rightarrow> (mem \<times> nat) option" where
  "compute_locations hp m = do {
     (m, free_ptr) \<leftarrow> compute_loop hp m (c_begin hp) (heap_begin_iterator hp);
     Some (m, (free_ptr - c_begin hp) div 8)
   }"

section \<open>Updating the references\<close>

definition rebase :: "memory_chunk \<Rightarrow> memory_chunk \<Rightarrow> addr \<Rightarrow> addr" where
  "rebase hp old p = nat (int (c_begin hp) + (int p - int (c_begin old)))"

definition new_content :: "memory_chunk \<Rightarrow> memory_chunk \<Rightarrow> mem \<Rightarrow> addr \<Rightarrow> addr option" where
  "new_content hp old m value = do {
     let obj_ptr = rebase hp old value;
     let new_addr = rebase hp old (get_forward_address m obj_ptr);
     t \<leftarrow> get_type_row_ptr m obj_ptr;
     let content_offset = unat (get_header_size t);
     Some (new_addr + content_offset)
   }"

partial_function (option) update_fields ::
    "memory_chunk \<Rightarrow> memory_chunk \<Rightarrow> mem \<Rightarrow> obj_field_iterator \<Rightarrow> mem option" where
  "update_fields hp old m it = do {
     d \<leftarrow> field_is_done_iterator m it;
     if d then Some m
     else do {
       let field_value = unat (ld64 m (cur_field it));
       m \<leftarrow> (if field_value < c_begin old \<or> c_current old < field_value then Some m
             else do {
               c \<leftarrow> new_content hp old m field_value;
               Some (st64 m (cur_field it) (of_nat c))
             });
       it \<leftarrow> obj_next_ptr_field_iterator m it;
       update_fields hp old m it
     }
   }"

partial_function (option) update_objects ::
    "memory_chunk \<Rightarrow> memory_chunk \<Rightarrow> mem \<Rightarrow> addr \<Rightarrow> mem option" where
  "update_objects hp old m it =
     (if heap_is_done_iterator hp it then Some m
      else do {
        obj \<leftarrow> get_object_content_ptr m it;
        m \<leftarrow> (if is_marked m obj
              then do { field_iter \<leftarrow> ptr_field_begin_iterator m it; update_fields hp old m field_iter }
              else Some m);
        it \<leftarrow> heap_next_obj_iterator m it;
        update_objects hp old m it
      })"

definition fix_word :: "memory_chunk \<Rightarrow> memory_chunk \<Rightarrow> mem \<Rightarrow> addr \<Rightarrow> mem option" where
  "fix_word hp old m ptr =
     (let ptr_value = ld64 m ptr in
      if is_valid_pointer ptr_value \<and> c_begin old \<le> unat ptr_value \<and> unat ptr_value \<le> c_current old
      then do {
        c \<leftarrow> new_content hp old m (unat ptr_value);
        Some (st64 m ptr (of_nat c))
      }
      else Some m)"

function scan_and_fix_region ::
    "memory_chunk \<Rightarrow> memory_chunk \<Rightarrow> mem \<Rightarrow> addr \<Rightarrow> addr \<Rightarrow> mem option" where
  "scan_and_fix_region hp old m ptr e =
     (if ptr < e then do { m \<leftarrow> fix_word hp old m ptr; scan_and_fix_region hp old m (ptr + 8) e }
      else Some m)"
  by pat_completeness auto
termination
  by (relation "measure (\<lambda>(hp, old, m, p, e). e - p)") auto

declare scan_and_fix_region.simps [simp del]

text \<open>An extra root on the Lama stack or in the global area is left to the region scans.\<close>

definition in_scanned_region :: "gc_state \<Rightarrow> addr \<Rightarrow> bool" where
  "in_scanned_region s r \<longleftrightarrow>
     (gc_stack_top s \<le> r \<and> r < gc_stack_bottom s) \<or> (r \<le> stop_custom_data s \<and> start_custom_data s \<le> r)"

fun scan_and_fix_region_roots ::
    "gc_state \<Rightarrow> memory_chunk \<Rightarrow> memory_chunk \<Rightarrow> mem \<Rightarrow> addr list \<Rightarrow> mem option" where
  "scan_and_fix_region_roots s hp old m [] = Some m"
| "scan_and_fix_region_roots s hp old m (r # rs) = do {
     m \<leftarrow> (if \<not> is_valid_pointer (ld64 m r) \<or> in_scanned_region s r then Some m
           else fix_word hp old m r);
     scan_and_fix_region_roots s hp old m rs
   }"

definition update_references :: "gc_state \<Rightarrow> memory_chunk \<Rightarrow> gc_state option" where
  "update_references s old = do {
     let hp = heap s;
     m \<leftarrow> update_objects hp old (memory s) (heap_begin_iterator hp);
     m \<leftarrow> scan_and_fix_region hp old m (gc_stack_top s + 8) (gc_stack_bottom s + 8);
     m \<leftarrow> scan_and_fix_region_roots s hp old m (pool s);
     m \<leftarrow> (if start_custom_data s \<le> stop_custom_data s
           then scan_and_fix_region hp old m (start_custom_data s) (stop_custom_data s)
           else None);
     Some (s\<lparr>memory := m\<rparr>)
   }"

section \<open>Moving the objects\<close>

partial_function (option) relocate_loop ::
    "memory_chunk \<Rightarrow> memory_chunk \<Rightarrow> mem \<Rightarrow> addr \<Rightarrow> mem option" where
  "relocate_loop hp old m from_iter =
     (if heap_is_done_iterator hp from_iter then Some m
      else do {
        obj \<leftarrow> get_object_content_ptr m from_iter;
        next_iter \<leftarrow> heap_next_obj_iterator m from_iter;
        m \<leftarrow> (if is_marked m obj
              then do {
                let to = rebase hp old (get_forward_address m obj);
                sz \<leftarrow> obj_size_header_ptr m from_iter;
                let m = memmove m to from_iter (unat sz);
                c \<leftarrow> get_object_content_ptr m to;
                Some (unmark_object m c)
              }
              else Some m);
        relocate_loop hp old m next_iter
      })"

definition physically_relocate :: "gc_state \<Rightarrow> memory_chunk \<Rightarrow> gc_state option" where
  "physically_relocate s old = do {
     m \<leftarrow> relocate_loop (heap s) old (memory s) (heap_begin_iterator (heap s));
     Some (s\<lparr>memory := m\<rparr>)
   }"

section \<open>The compaction phase\<close>

type_synonym mmap_fun = "gc_state \<Rightarrow> nat \<Rightarrow> addr option"

definition next_heap_words :: "nat \<Rightarrow> nat \<Rightarrow> nat \<Rightarrow> nat" where
  "next_heap_words live_size additional_size old_size =
     (let next_heap_size = max (live_size * EXTRA_ROOM_HEAP_COEFFICIENT + additional_size) MINIMUM_HEAP_CAPACITY
      in max next_heap_size old_size)"

definition compact_phase :: "mmap_fun \<Rightarrow> gc_state \<Rightarrow> nat \<Rightarrow> gc_state option" where
  "compact_phase mmap s additional_size = do {
     (m, live_size) \<leftarrow> compute_locations (heap s) (memory s);
     let n = next_heap_words live_size additional_size (c_size (heap s));
     let old_heap = heap s;
     b \<leftarrow> mmap s (unat (WORDS_TO_BYTES (of_nat n)));
     let m = memset m b 0 (unat (WORDS_TO_BYTES (of_nat n)));
     let m = memmove m b (c_begin old_heap) (8 * c_size old_heap);
     let hp = \<lparr>c_begin = b, c_end = b + 8 * n,
               c_current = b + (c_current old_heap - c_begin old_heap), c_size = n\<rparr>;
     s \<leftarrow> update_references (s\<lparr>memory := m, heap := hp\<rparr>) old_heap;
     s \<leftarrow> physically_relocate s old_heap;
     Some (s\<lparr>heap := (heap s)\<lparr>c_current := c_begin (heap s) + 8 * live_size\<rparr>\<rparr>)
   }"

section \<open>The new locations\<close>

text \<open>The words of the marked objects among \<open>hs\<close>, and the offset of one of them in the new heap.\<close>

fun live_words :: "mem \<Rightarrow> addr list \<Rightarrow> nat" where
  "live_words m [] = 0"
| "live_words m (h # hs) = (if marked m h then obj_words m h else 0) + live_words m hs"

definition offset_of :: "mem \<Rightarrow> addr list \<Rightarrow> addr \<Rightarrow> nat" where
  "offset_of m os h = live_words m (takeWhile (\<lambda>k. k \<noteq> h) os)"

lemma live_words_append [simp]: "live_words m (xs @ ys) = live_words m xs + live_words m ys"
  by (induction xs) auto

lemma live_words_cong:
  "(\<And>h. h \<in> set hs \<Longrightarrow> marked m' h = marked m h \<and> (marked m h \<longrightarrow> obj_words m' h = obj_words m h)) \<Longrightarrow>
     live_words m' hs = live_words m hs"
  by (induction hs) auto

lemma offset_of_split: "h \<notin> set xs \<Longrightarrow> offset_of m (xs @ h # ys) h = live_words m xs"
  by (simp add: offset_of_def takeWhile_tail)
    (metis (mono_tags, lifting) takeWhile_eq_all_conv)

lemma live_words_le:
  "heap_seg m a hs e \<Longrightarrow> a + 8 * live_words m hs \<le> e"
proof (induction hs arbitrary: a)
  case (Cons h hs)
  then have "h + 8 * obj_words m h + 8 * live_words m hs \<le> e" by auto
  then show ?case using Cons.prems by auto
qed simp

lemma offset_of_bound:
  assumes "h \<in> set hs" "marked m h"
  shows "offset_of m hs h + obj_words m h \<le> live_words m hs"
proof -
  obtain xs ys where hs: "hs = xs @ h # ys" "h \<notin> set xs"
    using split_list_first [OF assms(1)] by blast
  then show ?thesis using assms(2) by (simp add: offset_of_split)
qed

text \<open>An object only moves down.\<close>

lemma offset_of_le:
  assumes "heap_seg m a hs e" "h \<in> set hs"
  shows "a + 8 * offset_of m hs h \<le> h"
proof -
  obtain xs ys where hs: "hs = xs @ h # ys" "h \<notin> set xs"
    using split_list_first [OF assms(2)] by blast
  then obtain b where "heap_seg m a xs b" "heap_seg m b (h # ys) e"
    using assms(1) by (auto simp: heap_seg_append)
  then show ?thesis using live_words_le [of m a xs b] hs by (auto simp: offset_of_split)
qed

text \<open>The memory after the forward word of one object has been written.\<close>

definition forwarded_one :: "mem \<Rightarrow> addr \<Rightarrow> addr \<Rightarrow> mem" where
  "forwarded_one m h free = (if marked m h then set_forward_address m (h + 16) free else m)"

lemma forwarded_one_ld64: "x \<le> h \<or> h + 16 \<le> x \<Longrightarrow> ld64 (forwarded_one m h free) x = ld64 m x"
  by (auto simp: forwarded_one_def ld64_fwd_ops)

lemma forwarded_one_head:
  assumes "free mod 8 = 0" "free < 2 ^ 64"
  shows "marked (forwarded_one m h free) h = marked m h" "enqd (forwarded_one m h free) h = enqd m h"
    "marked m h \<Longrightarrow> fwd (forwarded_one m h free) h = free"
proof -
  have "free mod 4 = 0" using assms(1) by presburger
  then show "marked (forwarded_one m h free) h = marked m h" "enqd (forwarded_one m h free) h = enqd m h"
    "marked m h \<Longrightarrow> fwd (forwarded_one m h free) h = free"
    using assms(2) by (auto simp: forwarded_one_def)
qed

lemma forwarded_one_tail:
  assumes "obj_ok m h" "heap_seg m (h + 8 * obj_words m h) hs e"
  shows "heap_seg (forwarded_one m h free) (h + 8 * obj_words m h) hs e"
    and "\<And>k. k \<in> set hs \<Longrightarrow> marked (forwarded_one m h free) k = marked m k \<and> enqd (forwarded_one m h free) k = enqd m k"
    and "\<And>xs. set xs \<subseteq> set hs \<Longrightarrow> live_words (forwarded_one m h free) xs = live_words m xs"
    and "\<And>k. offset_of (forwarded_one m h free) hs k = offset_of m hs k"
proof -
  have hd1: "ld64 (forwarded_one m h free) k = ld64 m k"
    and fw1: "ld64 (forwarded_one m h free) (k + 8) = ld64 m (k + 8)" if "k \<in> set hs" for k
    using heap_seg_in [OF assms(2) that] obj_words_ge_2 [OF assms(1)] by (simp_all add: forwarded_one_ld64)
  show "heap_seg (forwarded_one m h free) (h + 8 * obj_words m h) hs e"
    using assms(2) hd1 by (rule heap_seg_cong)
  show bits: "marked (forwarded_one m h free) k = marked m k \<and> enqd (forwarded_one m h free) k = enqd m k"
    if "k \<in> set hs" for k
    using fwd_word_cong [OF fw1 [OF that]] by auto
  show lw: "live_words (forwarded_one m h free) xs = live_words m xs" if "set xs \<subseteq> set hs" for xs
    using that bits hd1 obj_header_cong(5) by (intro live_words_cong) blast
  show "offset_of (forwarded_one m h free) hs k = offset_of m hs k" for k
    unfolding offset_of_def by (rule lw) (auto dest: set_takeWhileD)
qed

lemma compute_loop_step:
  assumes "obj_ok m h" "h < c_current hp"
  shows "compute_loop hp m free h = compute_loop hp (forwarded_one m h free)
    (if marked m h then free + 8 * obj_words m h else free) (h + 8 * obj_words m h)"
proof -
  obtain s where s: "obj_size_header_ptr m h = Some s" "unat s = obj_bytes m h"
    using obj_size_header_ptr_ok [OF assms(1)] by blast
  then have bw: "unat (BYTES_TO_WORDS s) = obj_words m h"
    using obj_bytes_bounds [OF assms(1)] by (simp add: unat_BYTES_TO_WORDS obj_words_def)
  have "heap_next_obj_iterator (forwarded_one m h free) h = Some (h + 8 * obj_words m h)"
    using heap_next_obj_iterator_ok [of "forwarded_one m h free" h] assms(1)
      obj_header_cong [OF forwarded_one_ld64 [of h h m free]] by simp
  then show ?thesis
    using assms s(1) bw
    by (subst compute_loop.simps)
      (simp add: heap_is_done_iterator_def forwarded_one_def Let_def split: if_splits)
qed

lemma compute_loop_inv:
  assumes "heap_seg m it hs (c_current hp)" "free mod 8 = 0" "free \<le> it" "c_current hp < 2 ^ 64"
  shows "\<exists>m'. compute_loop hp m free it = Some (m', free + 8 * live_words m hs)
          \<and> fwd_frame hs m m' \<and> (\<forall>h \<in> set hs. marked m' h = marked m h \<and> enqd m' h = enqd m h)
          \<and> (\<forall>h \<in> set hs. marked m h \<longrightarrow> fwd m' h = free + 8 * offset_of m hs h)"
  using assms
proof (induction hs arbitrary: m it free)
  case Nil
  then show ?case by (subst compute_loop.simps) (simp add: heap_is_done_iterator_def)
next
  case (Cons h hs)
  have it: "it = h" and okh: "obj_ok m h" and seg: "heap_seg m (h + 8 * obj_words m h) hs (c_current hp)"
    using Cons.prems(1) by auto
  have lt: "h < c_current hp" using heap_seg_next [OF Cons.prems(1)] by simp
  define free1 where "free1 = (if marked m h then free + 8 * obj_words m h else free)"
  let ?m1 = "forwarded_one m h free"
  have f1: "free1 mod 8 = 0" "free1 \<le> h + 8 * obj_words m h"
    using Cons.prems(2,3) it by (auto simp: free1_def)
  note T = forwarded_one_tail [OF okh seg, where free = free]
  obtain m' where m': "compute_loop hp ?m1 free1 (h + 8 * obj_words m h) = Some (m', free1 + 8 * live_words ?m1 hs)"
    "fwd_frame hs ?m1 m'" "\<forall>k \<in> set hs. marked m' k = marked ?m1 k \<and> enqd m' k = enqd ?m1 k"
    "\<forall>k \<in> set hs. marked ?m1 k \<longrightarrow> fwd m' k = free1 + 8 * offset_of ?m1 hs k"
    using Cons.IH [OF T(1) f1 Cons.prems(4)] by blast
  note run = compute_loop_step [OF okh lt, where free = free, folded free1_def]
  have "free < 2 ^ 64" using Cons.prems(3,4) it lt by linarith
  note bh = forwarded_one_head [OF Cons.prems(2) this, where m = m and h = h]
  have fwh: "ld64 m' (h + 8) = ld64 ?m1 (h + 8)"
    using m'(2)
  proof (rule fwd_frame_ld64)
    fix k assume "k \<in> set hs"
    then show "h + 8 + 8 \<le> k + 8 \<or> k + 16 \<le> h + 8"
      using heap_seg_in [OF seg] obj_words_ge_2 [OF okh] by fastforce
  qed
  have "h \<notin> set hs" using heap_seg_distinct [OF Cons.prems(1)] by simp
  then have ofs: "offset_of m (h # hs) k = (if marked m h then obj_words m h else 0) + offset_of m hs k"
    if "k \<in> set hs" for k using that by (auto simp: offset_of_def)
  have "marked m' k = marked m k \<and> enqd m' k = enqd m k \<and>
        (marked m k \<longrightarrow> fwd m' k = free + 8 * offset_of m (h # hs) k)" if k: "k \<in> set (h # hs)" for k
  proof (cases "k = h")
    case True
    then show ?thesis using fwd_word_cong [OF fwh] bh by (simp add: offset_of_def)
  next
    case False
    then show ?thesis using k m'(3,4) T(2,4) ofs by (auto simp: free1_def)
  qed
  moreover have "fwd_frame (h # hs) m m'"
    using m'(2) fwd_frame_ops(5) [of h "h # hs" m free] by (auto simp: fwd_frame_def forwarded_one_def)
  moreover have "free1 + 8 * live_words ?m1 hs = free + 8 * live_words m (h # hs)"
    using T(3) [of hs] by (simp add: free1_def)
  ultimately show ?case using run m'(1) by (auto simp: it)
qed

end
