(* ===== verification/Compact_Correct.thy ===== *)
theory Compact_Correct
  imports Compact
begin

text \<open>
  Correctness of the compaction: the three passes over the copied heap are folds of one update of
  a word (\<open>fixw\<close>) and of one move of an object, which are then read off.
\<close>

section \<open>Redirecting words\<close>

definition fixw :: "(u64 \<Rightarrow> u64) \<Rightarrow> addr \<Rightarrow> mem \<Rightarrow> mem" where
  "fixw f p m = st64 m p (f (ld64 m p))"

lemma fixw_out: "x < p \<or> p + 8 \<le> x \<Longrightarrow> fixw f p m x = m x"
  by (auto simp: fixw_def st64_apply)

lemma fold_fixw_out: "(\<And>p. p \<in> set ps \<Longrightarrow> x < p \<or> p + 8 \<le> x) \<Longrightarrow> fold (fixw f) ps m x = m x"
  by (induction ps arbitrary: m) (auto simp: fixw_out)

lemma ld64_fold_fixw_out:
  assumes "\<And>p. p \<in> set ps \<Longrightarrow> q + 8 \<le> p \<or> p + 8 \<le> q"
  shows "ld64 (fold (fixw f) ps m) q = ld64 m q"
  using assms by (intro ld64_cong fold_fixw_out) fastforce

lemma aligned_disjoint: "p mod 8 = 0 \<Longrightarrow> q mod 8 = 0 \<Longrightarrow> p \<noteq> q \<Longrightarrow> p + 8 \<le> q \<or> q + 8 \<le> (p :: nat)"
  by presburger

lemma ld64_fold_fixw:
  assumes "\<forall>p \<in> set ps. p mod 8 = 0" "q mod 8 = 0" "f (f (ld64 m q)) = f (ld64 m q)"
  shows "ld64 (fold (fixw f) ps m) q = (if q \<in> set ps then f (ld64 m q) else ld64 m q)"
  using assms
proof (induction ps arbitrary: m)
  case (Cons p ps)
  have "ld64 (fixw f p m) q = (if p = q then f (ld64 m q) else ld64 m q)"
    using aligned_disjoint [of p q] Cons.prems by (auto simp: fixw_def ld64_st64_other)
  then show ?case using Cons.IH [of "fixw f p m"] Cons.prems by (auto split: if_splits)
qed simp

text \<open>Where a word of the old program points after the move.\<close>

definition new_addr :: "addr \<Rightarrow> mem \<Rightarrow> addr list \<Rightarrow> addr \<Rightarrow> addr" where
  "new_addr b m os h = b + 8 * offset_of m os h"

definition reloc :: "addr \<Rightarrow> memory_chunk \<Rightarrow> mem \<Rightarrow> addr list \<Rightarrow> u64 \<Rightarrow> u64" where
  "reloc b old m os v =
     (if is_valid_heap_pointer old v then of_nat (new_addr b m os (unat v - 16) + 16) else v)"

lemma rebase_eq: "c_begin old \<le> p \<Longrightarrow> rebase hp old p = c_begin hp + (p - c_begin old)"
  by (simp add: rebase_def of_nat_diff nat_add_distrib flip: of_nat_diff)

lemma rebase_add: "c_begin old \<le> p \<Longrightarrow> rebase hp old (p + n) = rebase hp old p + n"
  by (simp add: rebase_eq)

text \<open>
  The headers and forward words of the copied heap are those computed before the copy, and the
  copied heap is laid out like the old one.
\<close>

definition copied :: "memory_chunk \<Rightarrow> memory_chunk \<Rightarrow> mem \<Rightarrow> addr list \<Rightarrow> mem \<Rightarrow> bool" where
  "copied hp old m1 os m \<longleftrightarrow>
     (\<forall>k \<in> set os. ld64 m (rebase hp old k) = ld64 m1 k \<and> ld64 m (rebase hp old k + 8) = ld64 m1 (k + 8))"

definition located :: "memory_chunk \<Rightarrow> mem \<Rightarrow> addr list \<Rightarrow> bool" where
  "located old m os \<longleftrightarrow> (\<forall>k \<in> set os. marked m k \<longrightarrow> fwd m k = c_begin old + 8 * offset_of m os k)"

text \<open>A word that, if it points into the old heap, points to a marked object.\<close>

definition live_val :: "memory_chunk \<Rightarrow> mem \<Rightarrow> addr list \<Rightarrow> u64 \<Rightarrow> bool" where
  "live_val old m os v \<longleftrightarrow>
     (is_valid_heap_pointer old v \<longrightarrow> (\<exists>k \<in> set os. marked m k \<and> unat v = k + 16))"

lemma new_content_ok:
  assumes "heap_ok old m1 os" "copied hp old m1 os m" "located old m1 os"
    and k: "k \<in> set os" "marked m1 k"
  shows "new_content hp old m (k + 16) = Some (new_addr (c_begin hp) m1 os k + 16)"
proof -
  have kb: "c_begin old \<le> k" using heap_seg_in [OF heap_okD(1) [OF assms(1)] k(1)] by simp
  let ?k = "rebase hp old k"
  have w: "ld64 m ?k = ld64 m1 k" "ld64 m (?k + 8) = ld64 m1 (k + 8)"
    using assms(2) k(1) by (auto simp: copied_def)
  have "get_type_row_ptr m (?k + 16) = Some (obj_type m1 k)"
    using obj_header_cong(6) [OF w(1)] obj_ok_type [OF heap_okD(5) [OF assms(1) k(1)]]
    by (simp add: get_type_row_ptr_def TO_DATA_def)
  moreover have "get_forward_address m (?k + 16) = c_begin old + 8 * offset_of m1 os k"
    using fwd_word_cong(3) [OF w(2)] assms(3) k by (simp add: located_def fwd_def)
  ultimately show ?thesis
    by (simp add: new_content_def rebase_add [OF kb] rebase_eq new_addr_def Let_def)
qed

lemma fix_word_ok:
  assumes "heap_ok old m1 os" "copied hp old m1 os m" "located old m1 os"
    and "live_val old m1 os (ld64 m p)"
  shows "fix_word hp old m p = Some (fixw (reloc (c_begin hp) old m1 os) p m)"
proof (cases "is_valid_heap_pointer old (ld64 m p)")
  case True
  then obtain k where k: "k \<in> set os" "marked m1 k" "unat (ld64 m p) = k + 16"
    using assms(4) by (auto simp: live_val_def)
  then show ?thesis
    using True new_content_ok [OF assms(1-3) k(1,2)]
    by (simp add: fix_word_def fixw_def reloc_def is_valid_heap_pointer_def is_valid_pointer_def Let_def)
next
  case False
  then have "fixw (reloc (c_begin hp) old m1 os) p m = m" by (simp add: fixw_def reloc_def)
  moreover have "fix_word hp old m p = Some m"
    using False by (auto simp: fix_word_def is_valid_heap_pointer_def is_valid_pointer_def Let_def)
  ultimately show ?thesis by simp
qed

text \<open>An address off the headers of the copied heap, and the words that may be rewritten.\<close>

definition off_headers :: "memory_chunk \<Rightarrow> memory_chunk \<Rightarrow> addr list \<Rightarrow> addr \<Rightarrow> bool" where
  "off_headers hp old os p \<longleftrightarrow> (\<forall>k \<in> set os. p + 8 \<le> rebase hp old k \<or> rebase hp old k + 16 \<le> p)"

lemma copied_fixw:
  assumes "copied hp old m1 os m" "off_headers hp old os p"
  shows "copied hp old m1 os (fixw f p m)"
proof -
  have "ld64 (fixw f p m) (rebase hp old k) = ld64 m (rebase hp old k)"
    "ld64 (fixw f p m) (rebase hp old k + 8) = ld64 m (rebase hp old k + 8)" if "k \<in> set os" for k
    using assms(2) that by (auto simp: fixw_def off_headers_def intro!: ld64_st64_other)
  then show ?thesis using assms(1) by (simp add: copied_def)
qed

lemma copied_fold_fixw:
  "copied hp old m1 os m \<Longrightarrow> (\<forall>p \<in> set ps. off_headers hp old os p) \<Longrightarrow>
     copied hp old m1 os (fold (fixw f) ps m)"
  by (induction ps arbitrary: m) (auto simp: copied_fixw)

text \<open>Pointers into the new heap are not taken for pointers into the old one.\<close>

definition fresh_target :: "addr \<Rightarrow> memory_chunk \<Rightarrow> mem \<Rightarrow> addr list \<Rightarrow> bool" where
  "fresh_target b old m os \<longleftrightarrow>
     b mod 8 = 0 \<and> b + 8 * live_words m os < 2 ^ 64 \<and>
     (c_current old \<le> b \<or> b + 8 * live_words m os < c_begin old)"

lemma new_addr_bounds:
  assumes "heap_ok old m os" "k \<in> set os" "marked m k"
  shows "b \<le> new_addr b m os k" "new_addr b m os k + 16 \<le> b + 8 * live_words m os"
  using offset_of_bound [OF assms(2,3)] obj_words_ge_2 [OF heap_okD(5) [OF assms(1,2)]]
  by (simp_all add: new_addr_def)

lemma unat_reloc:
  assumes "heap_ok old m os" "fresh_target b old m os" "is_valid_heap_pointer old v"
    "k \<in> set os" "marked m k" "unat v = k + 16"
  shows "unat (reloc b old m os v) = new_addr b m os k + 16"
proof -
  have "reloc b old m os v = of_nat (new_addr b m os k + 16)"
    using assms(3,6) by (simp add: reloc_def)
  moreover have "new_addr b m os k + 16 < 2 ^ 64"
    using new_addr_bounds(2) [OF assms(1,4,5), of b] assms(2) by (simp add: fresh_target_def)
  ultimately show ?thesis by (simp only: unat_of_nat_u64)
qed

lemma reloc_not_old:
  assumes "heap_ok old m os" "fresh_target b old m os" "live_val old m os v"
  shows "\<not> is_valid_heap_pointer old (reloc b old m os v)"
proof (cases "is_valid_heap_pointer old v")
  case True
  then obtain k where k: "k \<in> set os" "marked m k" "unat v = k + 16"
    using assms(3) by (auto simp: live_val_def)
  note bd = new_addr_bounds [OF assms(1) k(1,2), of b]
  have "unat (reloc b old m os v) = new_addr b m os k + 16"
    using assms(1,2) True k by (rule unat_reloc)
  then show ?thesis using bd assms(2) by (auto simp: is_valid_heap_pointer_def fresh_target_def)
qed (simp add: reloc_def)

lemma reloc_idem:
  assumes "heap_ok old m os" "fresh_target b old m os" "live_val old m os v"
  shows "reloc b old m os (reloc b old m os v) = reloc b old m os v"
  using reloc_not_old [OF assms] by (simp add: reloc_def)

lemma live_val_reloc:
  "heap_ok old m os \<Longrightarrow> fresh_target b old m os \<Longrightarrow> live_val old m os v \<Longrightarrow>
     live_val old m os (reloc b old m os v)"
  using reloc_not_old by (simp add: live_val_def)

lemma reloc_even:
  assumes "heap_ok old m os" "fresh_target b old m os" "live_val old m os v" "is_valid_pointer v"
  shows "is_valid_pointer (reloc b old m os v)"
proof (cases "is_valid_heap_pointer old v")
  case True
  then obtain k where k: "k \<in> set os" "marked m k" "unat v = k + 16"
    using assms(3) by (auto simp: live_val_def)
  note bd = new_addr_bounds [OF assms(1) k(1,2), of b]
  have "unat (reloc b old m os v) = new_addr b m os k + 16"
    using assms(1,2) True k by (rule unat_reloc)
  moreover have "even (new_addr b m os k + 16)"
    using assms(2) by (simp add: new_addr_def fresh_target_def) presburger
  ultimately show ?thesis by (simp add: is_valid_pointer_def unboxed_iff even_u64_iff)
qed (simp add: reloc_def assms(4))

text \<open>A list of words, each off the headers, is redirected word by word.\<close>

lemma live_val_fixw:
  assumes "heap_ok old m1 os" "fresh_target b old m1 os"
    "live_val old m1 os (ld64 m p)" "live_val old m1 os (ld64 m q)" "p mod 8 = 0" "q mod 8 = 0"
  shows "live_val old m1 os (ld64 (fixw (reloc b old m1 os) p m) q)"
  using assms aligned_disjoint [of p q] live_val_reloc [OF assms(1,2)]
  by (cases "p = q") (auto simp: fixw_def ld64_st64_other)

definition fixable :: "memory_chunk \<Rightarrow> memory_chunk \<Rightarrow> mem \<Rightarrow> addr list \<Rightarrow> mem \<Rightarrow> addr \<Rightarrow> bool" where
  "fixable hp old m1 os m p \<longleftrightarrow>
     p mod 8 = 0 \<and> off_headers hp old os p \<and> live_val old m1 os (ld64 m p)"

lemma fixable_fixw:
  assumes "heap_ok old m1 os" "fresh_target (c_begin hp) old m1 os"
    "fixable hp old m1 os m p" "fixable hp old m1 os m q"
  shows "fixable hp old m1 os (fixw (reloc (c_begin hp) old m1 os) p m) q"
  using live_val_fixw [OF assms(1,2)] assms(3,4) by (simp add: fixable_def)

lemma fixable_fold:
  assumes "heap_ok old m1 os" "fresh_target (c_begin hp) old m1 os"
    "\<forall>p \<in> set ps. fixable hp old m1 os m p" "fixable hp old m1 os m q"
  shows "fixable hp old m1 os (fold (fixw (reloc (c_begin hp) old m1 os)) ps m) q"
  using assms(3,4)
proof (induction ps arbitrary: m)
  case (Cons p ps)
  then show ?case using fixable_fixw [OF assms(1,2), of m p] by simp
qed simp

text \<open>The three kinds of loops over words: a region, the extra roots, the fields of one object.\<close>

fun fix_list :: "memory_chunk \<Rightarrow> memory_chunk \<Rightarrow> mem \<Rightarrow> addr list \<Rightarrow> mem option" where
  "fix_list hp old m [] = Some m"
| "fix_list hp old m (p # ps) = do { m \<leftarrow> fix_word hp old m p; fix_list hp old m ps }"

lemma fix_list_ok:
  assumes "heap_ok old m1 os" "located old m1 os" "fresh_target (c_begin hp) old m1 os"
    and "copied hp old m1 os m" "\<forall>p \<in> set ps. fixable hp old m1 os m p"
  shows "fix_list hp old m ps = Some (fold (fixw (reloc (c_begin hp) old m1 os)) ps m)"
  using assms(4,5)
proof (induction ps arbitrary: m)
  case (Cons p ps)
  have p: "fixable hp old m1 os m p" using Cons.prems(2) by simp
  have "fix_word hp old m p = Some (fixw (reloc (c_begin hp) old m1 os) p m)"
    using fix_word_ok [OF assms(1) Cons.prems(1) assms(2)] p by (simp add: fixable_def)
  moreover have "copied hp old m1 os (fixw (reloc (c_begin hp) old m1 os) p m)"
    using copied_fixw [OF Cons.prems(1)] p by (simp add: fixable_def)
  moreover have "\<forall>q \<in> set ps. fixable hp old m1 os (fixw (reloc (c_begin hp) old m1 os) p m) q"
    using fixable_fixw [OF assms(1,3) p] Cons.prems(2) by simp
  ultimately show ?case using Cons.IH by simp
qed simp

lemma scan_and_fix_region_eq: "scan_and_fix_region hp old m p e = fix_list hp old m (words_between p e)"
proof (induction hp old m p e rule: scan_and_fix_region.induct)
  case (1 hp old m p e)
  show ?case
  proof (cases "p < e")
    case True
    then have "words_between p e = p # words_between (p + 8) e" by (subst words_between_step) simp
    then show ?thesis
      using 1 True by (subst scan_and_fix_region.simps) (cases "fix_word hp old m p"; simp)
  next
    case False
    then show ?thesis by (subst scan_and_fix_region.simps) (simp add: words_between_step [of p e])
  qed
qed

lemma scan_and_fix_region_roots_eq:
  "scan_and_fix_region_roots s hp old m rs
     = fix_list hp old m (filter (\<lambda>r. \<not> in_scanned_region s r) rs)"
proof (induction rs arbitrary: m)
  case (Cons r rs)
  have "\<not> is_valid_pointer (ld64 m r) \<Longrightarrow> fix_word hp old m r = Some m"
    by (simp add: fix_word_def)
  then show ?case using Cons.IH by (cases "is_valid_pointer (ld64 m r)") auto
qed simp

lemma update_fields_ok:
  assumes H: "heap_ok old m1 os" "located old m1 os" "fresh_target (c_begin hp) old m1 os"
    and "copied hp old m1 os m" "obj_ok m h" "it_at m h it xs" "distinct xs"
    and "\<forall>p \<in> set xs. fixable hp old m1 os m p"
  shows "update_fields hp old m it = Some (fold (fixw (reloc (c_begin hp) old m1 os)) xs m)"
  using assms(4-8)
proof (induction xs arbitrary: m it)
  case Nil
  then show ?case using it_at_done [OF Nil.prems(2,3)] by (subst update_fields.simps) simp
next
  case (Cons x xs)
  note cur = it_at_cur [OF Cons.prems(3)]
  have dn: "field_is_done_iterator m it = Some False"
    using it_at_done [OF Cons.prems(2,3)] by simp
  have x: "fixable hp old m1 os m x" using Cons.prems(5) by simp
  let ?f = "reloc (c_begin hp) old m1 os"
  let ?m = "fixw ?f x m"
  have fw: "fix_word hp old m x = Some ?m"
    using fix_word_ok [OF H(1) Cons.prems(1) H(2)] x by (simp add: fixable_def)
  have body: "(if unat (ld64 m x) < c_begin old \<or> c_current old < unat (ld64 m x) then Some m
             else do { c \<leftarrow> new_content hp old m (unat (ld64 m x)); Some (st64 m x (of_nat c)) }) = Some ?m"
    using fw cur(3) by (auto simp: fix_word_def Let_def split: if_splits)
  have x8: "x mod 8 = 0" using x by (simp add: fixable_def)
  have hx: "h + 16 \<le> x" using slot_in_object(1) [OF cur(2)] .
  have hd: "ld64 ?m h = ld64 m h" using hx by (simp add: fixw_def ld64_st64_other)
  have it1: "it_at ?m h it (x # xs)"
    using Cons.prems(3) hd
  proof (rule it_at_cong)
    fix a assume a: "a \<in> set (slots m h)" "a \<noteq> x"
    then have "a + 8 \<le> x \<or> x + 8 \<le> a" using cur(2) by (auto simp: slots_def)
    then show "ld64 ?m a = ld64 m a" by (auto simp: fixw_def ld64_st64_other)
  next
    show "is_valid_pointer (ld64 ?m x)"
      using reloc_even [OF H(1,3)] x cur(3) by (simp add: fixw_def fixable_def)
  qed
  have okm: "obj_ok ?m h" using obj_header_cong(1) [OF hd] Cons.prems(2) by simp
  obtain it' where it': "obj_next_ptr_field_iterator ?m it = Some it'" "it_at ?m h it' xs"
    using it_at_next [OF okm it1] by blast
  have "copied hp old m1 os ?m"
    using copied_fixw [OF Cons.prems(1)] x by (simp add: fixable_def)
  moreover have "\<forall>q \<in> set xs. fixable hp old m1 os ?m q"
    using fixable_fixw [OF H(1,3) x] Cons.prems(5) by simp
  ultimately have "update_fields hp old ?m it' = Some (fold (fixw ?f) xs ?m)"
    using Cons.IH [OF _ okm it'(2)] Cons.prems(4) by simp
  then show ?case
    by (subst update_fields.simps)
      (simp only: dn cur(1) Let_def body it'(1) bind.bind_lunit if_False fold_simps)
qed

section \<open>Updating the fields of the marked objects\<close>

definition new_heap :: "memory_chunk \<Rightarrow> memory_chunk \<Rightarrow> addr list \<Rightarrow> mem \<Rightarrow> bool" where
  "new_heap hp old os m \<longleftrightarrow> heap_seg m (c_begin hp) (map (rebase hp old) os) (c_current hp)"

definition field_slots :: "memory_chunk \<Rightarrow> memory_chunk \<Rightarrow> mem \<Rightarrow> mem \<Rightarrow> addr list \<Rightarrow> addr list" where
  "field_slots hp old m1 m ks =
     concat (map (\<lambda>k. if marked m1 k then ptr_slots m (rebase hp old k) else []) ks)"

lemma slot_off_headers:
  assumes "new_heap hp old os m" "k \<in> set os" "p \<in> set (slots m (rebase hp old k))"
  shows "off_headers hp old os p"
  unfolding off_headers_def
proof
  fix j assume j: "j \<in> set os"
  let ?os = "map (rebase hp old) os"
  have seg: "heap_seg m (c_begin hp) ?os (c_current hp)" using assms(1) by (simp add: new_heap_def)
  have kj: "rebase hp old k \<in> set ?os" "rebase hp old j \<in> set ?os" using assms(2) j by auto
  show "p + 8 \<le> rebase hp old j \<or> rebase hp old j + 16 \<le> p"
    using heap_seg_disjoint [OF seg kj] slot_in_object [OF assms(3)]
      obj_words_ge_2 [OF heap_seg_ok [OF seg kj(2)]]
    by (cases "rebase hp old k = rebase hp old j") fastforce+
qed

lemma slot_aligned: "h mod 8 = 0 \<Longrightarrow> p \<in> set (slots m h) \<Longrightarrow> p mod 8 = 0"
  by (auto simp: slots_def slot0_def nslots_def split: lama_type.splits)

lemma fixw_other_object:
  assumes "new_heap hp old os m" "k \<in> set os" "j \<in> set os" "rebase hp old k \<noteq> rebase hp old j"
    and "\<forall>p \<in> set ps. p \<in> set (slots m (rebase hp old k))"
    and "q \<in> set (slots m (rebase hp old j)) \<or> q = rebase hp old j \<or> q = rebase hp old j + 8"
  shows "ld64 (fold (fixw f) ps m) q = ld64 m q"
proof (rule ld64_fold_fixw_out)
  fix p assume "p \<in> set ps"
  then have p: "p \<in> set (slots m (rebase hp old k))" using assms(5) by blast
  have seg: "heap_seg m (c_begin hp) (map (rebase hp old) os) (c_current hp)"
    using assms(1) by (simp add: new_heap_def)
  have kj: "rebase hp old k \<in> set (map (rebase hp old) os)" "rebase hp old j \<in> set (map (rebase hp old) os)"
    using assms(2,3) by auto
  note b = heap_seg_disjoint [OF seg kj assms(4)] slot_in_object [OF p]
    obj_words_ge_2 [OF heap_seg_ok [OF seg kj(2)]] obj_words_ge_2 [OF heap_seg_ok [OF seg kj(1)]]
  from assms(6) show "q + 8 \<le> p \<or> p + 8 \<le> q"
  proof (elim disjE)
    assume "q \<in> set (slots m (rebase hp old j))"
    then show ?thesis using slot_in_object b by fastforce
  qed (use b in linarith)+
qed

lemma new_heap_fold:
  assumes "copied hp old m1 os m" "new_heap hp old os m" "\<forall>p \<in> set ps. off_headers hp old os p"
  shows "new_heap hp old os (fold (fixw f) ps m)"
proof -
  have "ld64 (fold (fixw f) ps m) h = ld64 m h" if h: "h \<in> set (map (rebase hp old) os)" for h
  proof (rule ld64_fold_fixw_out)
    fix p assume "p \<in> set ps"
    then show "h + 8 \<le> p \<or> p + 8 \<le> h" using assms(3) h by (fastforce simp: off_headers_def)
  qed
  with assms(2) show ?thesis unfolding new_heap_def by (rule heap_seg_cong)
qed

text \<open>Redirecting the slots of one object leaves the later objects as they are.\<close>

lemma fix_object_others:
  assumes nh: "new_heap hp old os m" and k: "k \<in> set os" and ks: "set ks \<subseteq> set os"
    and seg: "heap_seg m it (rebase hp old k # map (rebase hp old) ks) (c_current hp)"
    and ps: "\<forall>p \<in> set ps. p \<in> set (slots m (rebase hp old k))"
    and m': "m' = fold (fixw f) ps m"
  shows "heap_seg m' (rebase hp old k + 8 * obj_words m (rebase hp old k)) (map (rebase hp old) ks) (c_current hp)"
    and "\<And>j. j \<in> set ks \<Longrightarrow> ptr_slots m' (rebase hp old j) = ptr_slots m (rebase hp old j)"
proof -
  have same: "ld64 m' q = ld64 m q"
    if j: "j \<in> set ks" and q: "q \<in> set (slots m (rebase hp old j)) \<or> q = rebase hp old j \<or> q = rebase hp old j + 8" for j q
  proof -
    have "j \<in> set os" "rebase hp old k \<noteq> rebase hp old j" using ks heap_seg_distinct [OF seg] j by auto
    then show ?thesis unfolding m' using fixw_other_object [OF nh k _ _ ps q] by simp
  qed
  show "heap_seg m' (rebase hp old k + 8 * obj_words m (rebase hp old k)) (map (rebase hp old) ks) (c_current hp)"
  proof (rule heap_seg_cong)
    show "heap_seg m (rebase hp old k + 8 * obj_words m (rebase hp old k)) (map (rebase hp old) ks) (c_current hp)"
      using seg unfolding heap_seg.simps by blast
  next
    fix h assume "h \<in> set (map (rebase hp old) ks)"
    then obtain j where "j \<in> set ks" "h = rebase hp old j" by auto
    then show "ld64 m' h = ld64 m h" using same by blast
  qed
  show "ptr_slots m' (rebase hp old j) = ptr_slots m (rebase hp old j)" if j: "j \<in> set ks" for j
    unfolding ptr_slots_def slots_header_cong(3) [of m' "rebase hp old j" m, OF same [OF j disjI2 [OF disjI1 [OF refl]]]]
    using same [OF j] by (intro filter_cong) auto
qed

text \<open>One round of the loop.\<close>

lemma update_objects_step:
  assumes H: "heap_ok old m1 os" "located old m1 os" "fresh_target (c_begin hp) old m1 os"
    and cp: "copied hp old m1 os m" and k: "k \<in> set os"
    and ok: "obj_ok m (rebase hp old k)" "rebase hp old k < c_current hp"
    and ps: "ps = (if marked m1 k then ptr_slots m (rebase hp old k) else [])"
    and m': "m' = fold (fixw (reloc (c_begin hp) old m1 os)) ps m"
    and fx: "\<forall>p \<in> set ps. fixable hp old m1 os m p" and cp': "copied hp old m1 os m'"
  shows "update_objects hp old m (rebase hp old k)
    = update_objects hp old m' (rebase hp old k + 8 * obj_words m (rebase hp old k))"
proof -
  let ?k = "rebase hp old k"
  have w: "ld64 m ?k = ld64 m1 k" "ld64 m (?k + 8) = ld64 m1 (k + 8)" using cp k by (auto simp: copied_def)
  have mk: "marked m ?k = marked m1 k" using fwd_word_cong(1) [OF w(2)] .
  have dps: "distinct ps" using slots_distinct [of m ?k] by (simp add: ps ptr_slots_def)
  have body: "(if marked m1 k then do { field_iter \<leftarrow> ptr_field_begin_iterator m ?k; update_fields hp old m field_iter }
               else Some m) = Some m'"
  proof (cases "marked m1 k")
    case True
    then obtain fi where fi: "ptr_field_begin_iterator m ?k = Some fi" "it_at m ?k fi ps"
      using ptr_field_begin_iterator_at [OF ok(1)] by (auto simp: ps)
    then show ?thesis using update_fields_ok [OF H cp ok(1) fi(2) dps fx] True by (simp add: m')
  qed (simp add: m' ps)
  have hdk: "ld64 m' ?k = ld64 m ?k" using cp' w k by (simp add: copied_def)
  have next': "heap_next_obj_iterator m' ?k = Some (?k + 8 * obj_words m ?k)"
    using heap_next_obj_iterator_ok [of m' ?k] obj_header_cong [OF hdk] ok(1) by simp
  have dn: "heap_is_done_iterator hp ?k = False" using ok(2) by (simp add: heap_is_done_iterator_def)
  show ?thesis
    by (subst update_objects.simps)
      (simp only: dn if_False get_object_content_ptr_ok [OF ok(1)] bind.bind_lunit is_marked_iff mk body next')
qed

lemma update_objects_ok:
  assumes H: "heap_ok old m1 os" "located old m1 os" "fresh_target (c_begin hp) old m1 os"
    and "copied hp old m1 os m" "new_heap hp old os m" "os = js @ ks"
    and "heap_seg m it (map (rebase hp old) ks) (c_current hp)"
    and "\<forall>k \<in> set ks. marked m1 k \<longrightarrow> (\<forall>p \<in> set (ptr_slots m (rebase hp old k)). fixable hp old m1 os m p)"
    and inj: "inj_on (rebase hp old) (set os)"
  shows "update_objects hp old m it
           = Some (fold (fixw (reloc (c_begin hp) old m1 os)) (field_slots hp old m1 m ks) m)"
  using assms(4-8)
proof (induction ks arbitrary: m js it)
  case Nil
  then show ?case by (subst update_objects.simps) (simp add: heap_is_done_iterator_def field_slots_def)
next
  case (Cons k ks)
  let ?f = "reloc (c_begin hp) old m1 os" and ?k = "rebase hp old k"
  have k: "k \<in> set os" "set ks \<subseteq> set os" using Cons.prems(3) by auto
  have seg: "heap_seg m it (?k # map (rebase hp old) ks) (c_current hp)"
    using Cons.prems(4) by (simp only: list.map)
  have okm: "obj_ok m ?k" "?k < c_current hp" and it: "it = ?k" using heap_seg_next [OF seg] by auto
  define ps where "ps = (if marked m1 k then ptr_slots m ?k else [])"
  define m' where "m' = fold (fixw ?f) ps m"
  have psl: "\<forall>p \<in> set ps. p \<in> set (slots m ?k)" by (simp add: ps_def ptr_slots_def)
  have off: "\<forall>p \<in> set ps. off_headers hp old os p"
    using slot_off_headers [OF Cons.prems(2) k(1)] psl by blast
  have fx: "\<forall>p \<in> set ps. fixable hp old m1 os m p" using Cons.prems(5) by (simp add: ps_def)
  have cp': "copied hp old m1 os m'" unfolding m'_def by (rule copied_fold_fixw [OF Cons.prems(1) off])
  have nh': "new_heap hp old os m'" unfolding m'_def by (rule new_heap_fold [OF Cons.prems(1,2) off])
  note others = fix_object_others [OF Cons.prems(2) k seg psl m'_def]
  have fx': "\<forall>j \<in> set ks. marked m1 j \<longrightarrow> (\<forall>p \<in> set (ptr_slots m' (rebase hp old j)). fixable hp old m1 os m' p)"
  proof (intro ballI impI)
    fix j p assume j: "j \<in> set ks" "marked m1 j" and p: "p \<in> set (ptr_slots m' (rebase hp old j))"
    then have "fixable hp old m1 os m p" using Cons.prems(5) others(2) by simp
    then show "fixable hp old m1 os m' p"
      unfolding m'_def using fixable_fold [OF H(1,3) fx] by blast
  qed
  have os': "os = (js @ [k]) @ ks" using Cons.prems(3) by simp
  note IH = Cons.IH [OF cp' nh' os' others(1) fx']
  have fs: "field_slots hp old m1 m' ks = field_slots hp old m1 m ks"
    unfolding field_slots_def using others(2) by (intro arg_cong [where f = concat]) auto
  have fsk: "field_slots hp old m1 m (k # ks) = ps @ field_slots hp old m1 m ks"
    by (simp add: field_slots_def ps_def)
  show ?case
    unfolding fsk fold_append it update_objects_step [OF H Cons.prems(1) k(1) okm ps_def m'_def fx cp'] IH fs
    by (simp add: m'_def)
qed

section \<open>Sliding the objects down\<close>

text \<open>
  What became of an object: at \<open>k\<close> in \<open>m'\<close> there is the object that was at \<open>h\<close> in
  \<open>m\<close>, unmarked; nothing is said of the stale forward address.
\<close>

definition same_object :: "mem \<Rightarrow> addr \<Rightarrow> mem \<Rightarrow> addr \<Rightarrow> bool" where
  "same_object m h m' k \<longleftrightarrow>
     ld64 m' k = ld64 m h \<and> \<not> marked m' k \<and> enqd m' k = enqd m h \<and>
     (\<forall>j. 16 \<le> j \<longrightarrow> j < obj_bytes m h \<longrightarrow> m' (k + j) = m (h + j))"

lemma same_object_cong:
  assumes "same_object m h m' k" "obj_ok m h"
    and "\<And>x. k \<le> x \<Longrightarrow> x < k + obj_bytes m h \<Longrightarrow> m'' x = m' x"
  shows "same_object m h m'' k"
proof -
  note b = obj_bytes_bounds(1) [OF assms(2)]
  have "ld64 m'' k = ld64 m' k" "ld64 m'' (k + 8) = ld64 m' (k + 8)"
    using assms(3) b by (auto intro!: ld64_cong)
  then show ?thesis
    using assms(1,3) b fwd_word_cong [of m'' k m' k] by (simp add: same_object_def)
qed

lemma move_object:
  assumes "obj_ok m h" "d \<le> h"
  shows "same_object m h (unmark_object (memmove m d h (obj_bytes m h)) (d + 16)) d"
    and "x < d \<or> d + obj_bytes m h \<le> x \<Longrightarrow>
           unmark_object (memmove m d h (obj_bytes m h)) (d + 16) x = m x"
proof -
  note b = obj_bytes_bounds(1) [OF assms(1)]
  let ?m1 = "memmove m d h (obj_bytes m h)"
  have w: "ld64 ?m1 d = ld64 m h" "ld64 ?m1 (d + 8) = ld64 m (h + 8)"
    using b by (auto simp: ld64_memmove_in)
  have bits: "enqd ?m1 d = enqd m h" using fwd_word_cong(2) [OF w(2)] .
  show "same_object m h (unmark_object ?m1 (d + 16)) d"
    unfolding same_object_def
  proof (intro conjI allI impI)
    show "ld64 (unmark_object ?m1 (d + 16)) d = ld64 m h" using w(1) ld64_fwd_ops(2) by simp
    fix j assume "16 \<le> j" "j < obj_bytes m h"
    then show "unmark_object ?m1 (d + 16) (d + j) = m (h + j)"
      using fwd_ops_frame(2) by (simp add: memmove_in)
  qed (use bits in simp_all)
  show "unmark_object ?m1 (d + 16) x = m x" if "x < d \<or> d + obj_bytes m h \<le> x"
    using that b fwd_ops_frame(2) [of x d] by (auto simp: memmove_out)
qed

text \<open>
  The loop: \<open>hs\<close> are the headers still to visit, \<open>d\<close> is where the next marked one goes. The
  forward address of the \<open>i\<close>-th marked one is the sum of the sizes of the marked ones before it.
\<close>

text \<open>The memory after one object has been moved to \<open>d\<close>, or skipped.\<close>

definition relocated_one :: "mem \<Rightarrow> addr \<Rightarrow> addr \<Rightarrow> mem" where
  "relocated_one m h d = (if marked m h then unmark_object (memmove m d h (obj_bytes m h)) (d + 16) else m)"

lemma relocated_one_tail:
  assumes "obj_ok m h" "d \<le> h" "heap_seg m (h + 8 * obj_words m h) hs e"
  shows "\<And>x. x < d \<or> h + 8 * obj_words m h \<le> x \<Longrightarrow> relocated_one m h d x = m x"
    and "\<And>k. k \<in> set hs \<Longrightarrow> ld64 (relocated_one m h d) k = ld64 m k"
    and "\<And>k. k \<in> set hs \<Longrightarrow> ld64 (relocated_one m h d) (k + 8) = ld64 m (k + 8)"
    and "heap_seg (relocated_one m h d) (h + 8 * obj_words m h) hs e"
    and "\<And>k. offset_of (relocated_one m h d) hs k = offset_of m hs k"
proof -
  show out: "relocated_one m h d x = m x" if "x < d \<or> h + 8 * obj_words m h \<le> x" for x
  proof (rule disjE [OF that])
    assume "h + 8 * obj_words m h \<le> x"
    then have "d + obj_bytes m h \<le> x" using assms(2) obj_bytes_le_words [of m h] by linarith
    then show ?thesis using move_object(2) [OF assms(1,2)] by (simp add: relocated_one_def)
  qed (use move_object(2) [OF assms(1,2)] in \<open>simp add: relocated_one_def\<close>)
  have kt: "h + 8 * obj_words m h \<le> k" if "k \<in> set hs" for k using heap_seg_in [OF assms(3) that] by simp
  show hd1: "ld64 (relocated_one m h d) k = ld64 m k"
    and hd2: "ld64 (relocated_one m h d) (k + 8) = ld64 m (k + 8)" if "k \<in> set hs" for k
    using kt [OF that] by (auto intro!: ld64_cong out)
  show "heap_seg (relocated_one m h d) (h + 8 * obj_words m h) hs e"
    using assms(3) hd1 by (rule heap_seg_cong)
  have mk: "marked (relocated_one m h d) k = marked m k" if "k \<in> set hs" for k
    using fwd_word_cong [OF hd2 [OF that]] by auto
  show "offset_of (relocated_one m h d) hs k = offset_of m hs k" for k
    unfolding offset_of_def
    using mk obj_header_cong(5) [OF hd1] by (intro live_words_cong) (blast dest: set_takeWhileD)
qed

lemma relocate_loop_step:
  assumes "obj_ok m h" "h < c_current hp"
    and "marked m h \<Longrightarrow> rebase hp old (get_forward_address m (h + 16)) = d"
  shows "relocate_loop hp old m h = relocate_loop hp old (relocated_one m h d) (h + 8 * obj_words m h)"
proof (cases "marked m h")
  case True
  obtain sz where sz: "obj_size_header_ptr m h = Some sz" "unat sz = obj_bytes m h"
    using obj_size_header_ptr_ok [OF assms(1)] by blast
  have hdm: "ld64 (memmove m d h (obj_bytes m h)) d = ld64 m h"
    using obj_bytes_bounds(1) [OF assms(1)] by (simp add: ld64_memmove_in)
  have "get_object_content_ptr (memmove m d h (obj_bytes m h)) d = Some (d + 16)"
    using obj_header_cong(1) [OF hdm] assms(1) by simp
  then show ?thesis
    using assms True sz heap_next_obj_iterator_ok [OF assms(1)]
    by (subst relocate_loop.simps) (simp add: heap_is_done_iterator_def relocated_one_def Let_def)
next
  case False
  then show ?thesis
    using assms heap_next_obj_iterator_ok [OF assms(1)]
    by (subst relocate_loop.simps) (simp add: heap_is_done_iterator_def relocated_one_def)
qed

lemma same_object_source:
  assumes "same_object m1 k m' d" "ld64 m1 k = ld64 m k" "ld64 m1 (k + 8) = ld64 m (k + 8)" "\<And>x. k \<le> x \<Longrightarrow> m1 x = m x"
  shows "same_object m k m' d"
  using assms obj_header_cong(4) [OF assms(2)] fwd_word_cong(2) [OF assms(3)] by (simp add: same_object_def)

lemma relocate_loop_ok:
  assumes "heap_seg m it hs (c_current hp)" "d \<le> it" "c_begin old \<le> D"
    and "d = c_begin hp + (D - c_begin old)"
    and "\<forall>h \<in> set hs. marked m h \<longrightarrow> fwd m h = D + 8 * offset_of m hs h"
  shows "\<exists>m'. relocate_loop hp old m it = Some m'
           \<and> (\<forall>h \<in> set hs. marked m h \<longrightarrow> same_object m h m' (d + 8 * offset_of m hs h))
           \<and> (\<forall>x. x < d \<or> c_current hp \<le> x \<longrightarrow> m' x = m x)"
  using assms
proof (induction hs arbitrary: m it d D)
  case Nil
  then show ?case by (subst relocate_loop.simps) (simp add: heap_is_done_iterator_def)
next
  case (Cons h hs)
  have it: "it = h" and okh: "obj_ok m h" and lt: "h < c_current hp" using heap_seg_next [OF Cons.prems(1)] by auto
  have seg: "heap_seg m (h + 8 * obj_words m h) hs (c_current hp)"
    using Cons.prems(1) unfolding heap_seg.simps by blast
  have nh: "h \<notin> set hs" using heap_seg_distinct [OF Cons.prems(1)] by simp
  let ?w = "if marked m h then obj_words m h else 0" and ?m1 = "relocated_one m h d"
  have dh: "d \<le> h" using Cons.prems(2) it by simp
  note R = relocated_one_tail [OF okh dh seg]
  have mk: "marked ?m1 k = marked m k" "fwd ?m1 k = fwd m k" if "k \<in> set hs" for k
    using fwd_word_cong [OF R(3) [OF that]] by auto
  have ofs: "offset_of m (h # hs) k = ?w + offset_of m hs k" if "k \<in> set hs" for k
    using that nh by (auto simp: offset_of_def)
  have ofs0: "offset_of m (h # hs) h = 0" by (simp add: offset_of_def)
  have "rebase hp old (get_forward_address m (h + 16)) = d" if "marked m h"
    using Cons.prems(3-5) that ofs0 by (simp add: fwd_def rebase_eq)
  note run = relocate_loop_step [OF okh lt this]
  have fw: "\<forall>k \<in> set hs. marked ?m1 k \<longrightarrow> fwd ?m1 k = D + 8 * ?w + 8 * offset_of ?m1 hs k"
    using Cons.prems(5) mk ofs R(5) by (simp add: algebra_simps)
  have to: "d + 8 * ?w \<le> h + 8 * obj_words m h" "c_begin old \<le> D + 8 * ?w"
    "d + 8 * ?w = c_begin hp + (D + 8 * ?w - c_begin old)"
    using Cons.prems(3,4) dh by auto
  obtain m' where m': "relocate_loop hp old ?m1 (h + 8 * obj_words m h) = Some m'"
    "\<forall>k \<in> set hs. marked ?m1 k \<longrightarrow> same_object ?m1 k m' (d + 8 * ?w + 8 * offset_of ?m1 hs k)"
    "\<forall>x. x < d + 8 * ?w \<or> c_current hp \<le> x \<longrightarrow> m' x = ?m1 x"
    using Cons.IH [OF R(4) to fw] by blast
  have hd: "same_object m h m' d" if m: "marked m h"
  proof (rule same_object_cong [OF _ okh])
    show "same_object m h ?m1 d" using m move_object(1) [OF okh dh] by (simp add: relocated_one_def)
    show "m' x = ?m1 x" if "d \<le> x" "x < d + obj_bytes m h" for x
      using that m'(3) m obj_bytes_le_words [of m h] by simp
  qed
  have tl: "same_object m k m' (d + 8 * offset_of m (h # hs) k)" if k: "k \<in> set hs" "marked m k" for k
  proof (rule same_object_source [OF _ R(2,3) [OF k(1)]])
    show "same_object ?m1 k m' (d + 8 * offset_of m (h # hs) k)"
      using m'(2) k mk(1) R(5) ofs by (simp add: algebra_simps)
    show "?m1 x = m x" if "k \<le> x" for x using R(1) that heap_seg_in [OF seg k(1)] by simp
  qed
  have "m' x = m x" if x: "x < d \<or> c_current hp \<le> x" for x
    using m'(3) R(1) x heap_seg_le [OF seg] by auto
  then show ?case using m'(1) run it hd tl ofs0 by auto
qed

end
