(* ===== verification/Compact_Phase.thy ===== *)
theory Compact_Phase
  imports Compact_Correct
begin

text \<open>
  The compaction phase as a whole: from a marked heap to a new heap that holds exactly the marked
  objects, contiguous, unmarked, with every pointer among them and every root redirected.
\<close>

section \<open>What the phase needs\<close>

definition chunk_ok :: "memory_chunk \<Rightarrow> bool" where
  "chunk_ok hp \<longleftrightarrow> c_begin hp \<le> c_current hp \<and> c_current hp \<le> c_end hp
                \<and> c_end hp = c_begin hp + 8 * c_size hp"

text \<open>
  The words \<open>update_references\<close> redirects beside the fields. The stack scan runs one word past
  \<open>__gc_stack_bottom\<close>, further than the mark phase looks.
\<close>

definition fix_addrs :: "gc_state \<Rightarrow> addr list" where
  "fix_addrs s = words_between (gc_stack_top s + 8) (gc_stack_bottom s + 8)
                 @ filter (\<lambda>r. \<not> in_scanned_region s r) (pool s)
                 @ words_between (start_custom_data s) (stop_custom_data s)"

text \<open>
  The new mapping: aligned, inside the address space, disjoint from the old heap and the roots, and
  not yet pointed to.
\<close>

definition fresh_region :: "gc_state \<Rightarrow> addr list \<Rightarrow> addr \<Rightarrow> nat \<Rightarrow> bool" where
  "fresh_region s os b n \<longleftrightarrow>
     b mod 8 = 0 \<and> b + 8 * n < 2 ^ 64 \<and> (c_end (heap s) \<le> b \<or> b + 8 * n \<le> c_begin (heap s)) \<and>
     (\<forall>p \<in> set (fix_addrs s). p + 8 \<le> b \<or> b + 8 * n \<le> p) \<and>
     (\<forall>h \<in> set os. \<forall>a \<in> set (slots (memory s) h).
        \<not> (is_valid_pointer (ld64 (memory s) a) \<and> b \<le> unat (ld64 (memory s) a) \<and> unat (ld64 (memory s) a) \<le> b + 8 * n))"

definition fix_addrs_ok :: "gc_state \<Rightarrow> addr list \<Rightarrow> bool" where
  "fix_addrs_ok s os \<longleftrightarrow> start_custom_data s \<le> stop_custom_data s \<and>
     (\<forall>p \<in> set (fix_addrs s). p mod 8 = 0 \<and> off_heap (heap s) p \<and> live_val (heap s) (memory s) os (ld64 (memory s) p))"

section \<open>The copy\<close>

lemma copy_in:
  assumes "c_end old \<le> b \<or> b + 8 * n \<le> c_begin old" "c_size old \<le> n" "chunk_ok old"
    and "c_begin old \<le> x" "x < c_end old"
  shows "memmove (memset m b 0 (8 * n)) b (c_begin old) (8 * c_size old) (b + (x - c_begin old)) = m x"
  using assms by (auto simp: memmove_def memset_def chunk_ok_def)

lemma copy_out:
  assumes "c_size old \<le> n" "x < b \<or> b + 8 * n \<le> x"
  shows "memmove (memset m b 0 (8 * n)) b (c_begin old) (8 * c_size old) x = m x"
  using assms by (auto simp: memmove_def memset_def)

text \<open>A copy of the old heap at \<open>c_begin hp\<close>.\<close>

definition heap_copy :: "memory_chunk \<Rightarrow> memory_chunk \<Rightarrow> mem \<Rightarrow> mem \<Rightarrow> bool" where
  "heap_copy hp old m1 m \<longleftrightarrow>
     c_current hp = c_begin hp + (c_current old - c_begin old) \<and>
     (\<forall>x. c_begin old \<le> x \<longrightarrow> x < c_current old \<longrightarrow> m (c_begin hp + (x - c_begin old)) = m1 x)"

lemma heap_copy_ld64:
  assumes "heap_copy hp old m1 m" "c_begin old \<le> x" "x + 8 \<le> c_current old"
  shows "ld64 m (rebase hp old x) = ld64 m1 x"
proof (rule ld64_cong)
  fix i :: nat assume "i < 8"
  then have "m (c_begin hp + (x + i - c_begin old)) = m1 (x + i)"
    using assms unfolding heap_copy_def by auto
  moreover have "c_begin hp + (x + i - c_begin old) = rebase hp old x + i"
    using assms(2) by (simp add: rebase_eq)
  ultimately show "m (rebase hp old x + i) = m1 (x + i)" by simp
qed

lemma heap_copy_copied:
  assumes "heap_copy hp old m1 m" "heap_seg m1 (c_begin old) os (c_current old)"
  shows "copied hp old m1 os m"
  unfolding copied_def
proof (intro ballI conjI)
  fix k assume k: "k \<in> set os"
  note b = heap_seg_in [OF assms(2) k] heap_seg_header_bound [OF assms(2) k]
  show "ld64 m (rebase hp old k) = ld64 m1 k" using assms(1) b by (intro heap_copy_ld64) auto
  have "ld64 m (rebase hp old (k + 8)) = ld64 m1 (k + 8)" using assms(1) b by (intro heap_copy_ld64) auto
  then show "ld64 m (rebase hp old k + 8) = ld64 m1 (k + 8)" using b by (simp add: rebase_add)
qed

lemma rebase_seg:
  assumes "heap_seg m1 a hs (c_current old)" "c_begin old \<le> a"
    and "c_current hp = c_begin hp + (c_current old - c_begin old)"
    and "\<And>k. k \<in> set hs \<Longrightarrow> ld64 m (rebase hp old k) = ld64 m1 k"
  shows "heap_seg m (rebase hp old a) (map (rebase hp old) hs) (c_current hp)"
  using assms
proof (induction hs arbitrary: a)
  case Nil
  then show ?case by (simp add: rebase_eq)
next
  case (Cons h hs)
  have h: "h = a" "obj_ok m1 h" "heap_seg m1 (h + 8 * obj_words m1 h) hs (c_current old)"
    using Cons.prems(1) by auto
  note hc = obj_header_cong [OF Cons.prems(4) [of h, OF list.set_intros(1)]]
  have "heap_seg m (rebase hp old (h + 8 * obj_words m1 h)) (map (rebase hp old) hs) (c_current hp)"
    using h Cons.prems by (intro Cons.IH) auto
  then show ?case using h Cons.prems(2) hc by (simp add: rebase_add)
qed

lemma rebase_inj: "inj_on (rebase hp old) {x. c_begin old \<le> x}"
  by (auto simp: inj_on_def rebase_eq)

lemma copy_slots:
  assumes "ld64 m (rebase hp old k) = ld64 m1 k" "c_begin old \<le> k"
  shows "slots m (rebase hp old k) = map (rebase hp old) (slots m1 k)"
    and "slot0 m (rebase hp old k) = rebase hp old (slot0 m1 k)"
    and "nslots m (rebase hp old k) = nslots m1 k"
proof -
  note hc = obj_header_cong [OF assms(1)]
  show n: "nslots m (rebase hp old k) = nslots m1 k"
    by (simp only: nslots_def hc)
  show s: "slot0 m (rebase hp old k) = rebase hp old (slot0 m1 k)"
    unfolding slot0_def hc(2,4) using assms(2) by (cases "obj_type m1 k") (simp_all add: rebase_add)
  have "c_begin old \<le> slot0 m1 k"
    using assms(2) by (auto simp: slot0_def split: lama_type.splits)
  then show "slots m (rebase hp old k) = map (rebase hp old) (slots m1 k)"
    by (simp add: slots_def n s rebase_add)
qed

lemma offset_of_map:
  assumes "inj_on f (set hs)" "h \<in> set hs"
    and "\<And>k. k \<in> set hs \<Longrightarrow> marked m' (f k) = marked m k"
    and "\<And>k. k \<in> set hs \<Longrightarrow> obj_words m' (f k) = obj_words m k"
  shows "offset_of m' (map f hs) (f h) = offset_of m hs h"
  using assms
proof (induction hs)
  case (Cons k ks)
  show ?case
  proof (cases "k = h")
    case True
    then show ?thesis by (simp add: offset_of_def)
  next
    case False
    then have "h \<in> set ks" "f k \<noteq> f h" using Cons.prems(1,2) by (auto simp: inj_on_def)
    then show ?thesis using Cons False by (simp add: offset_of_def)
  qed
qed simp

section \<open>The state after the copy\<close>

definition new_chunk :: "memory_chunk \<Rightarrow> addr \<Rightarrow> nat \<Rightarrow> memory_chunk" where
  "new_chunk old b n = \<lparr>c_begin = b, c_end = b + 8 * n,
                        c_current = b + (c_current old - c_begin old), c_size = n\<rparr>"

lemma new_chunk_sel [simp]:
  "c_begin (new_chunk old b n) = b" "c_end (new_chunk old b n) = b + 8 * n"
  "c_current (new_chunk old b n) = b + (c_current old - c_begin old)" "c_size (new_chunk old b n) = n"
  by (simp_all add: new_chunk_def)

definition copy_heap :: "memory_chunk \<Rightarrow> addr \<Rightarrow> nat \<Rightarrow> mem \<Rightarrow> mem" where
  "copy_heap old b n m = memmove (memset m b 0 (8 * n)) b (c_begin old) (8 * c_size old)"

definition after_copy :: "gc_state \<Rightarrow> addr list \<Rightarrow> addr \<Rightarrow> nat \<Rightarrow> mem \<Rightarrow> mem \<Rightarrow> bool" where
  "after_copy s os b n m1 m2 \<longleftrightarrow>
     heap_ok (heap s) (memory s) os \<and> closed_marks (heap s) (memory s) os \<and> chunk_ok (heap s) \<and>
     fresh_region s os b n \<and> fix_addrs_ok s os \<and>
     c_size (heap s) \<le> n \<and> live_words (memory s) os < n \<and>
     fwd_frame os (memory s) m1 \<and>
     (\<forall>h \<in> set os. marked m1 h = marked (memory s) h \<and> enqd m1 h = enqd (memory s) h) \<and>
     located (heap s) m1 os \<and> m2 = copy_heap (heap s) b n m1"

lemma after_copyD:
  assumes "after_copy s os b n m1 m2"
  shows "heap_ok (heap s) (memory s) os" "closed_marks (heap s) (memory s) os" "chunk_ok (heap s)"
    "fresh_region s os b n" "fix_addrs_ok s os" "c_size (heap s) \<le> n" "live_words (memory s) os < n"
    "fwd_frame os (memory s) m1" "\<And>h. h \<in> set os \<Longrightarrow> marked m1 h = marked (memory s) h"
    "\<And>h. h \<in> set os \<Longrightarrow> enqd m1 h = enqd (memory s) h"
    "located (heap s) m1 os" "m2 = copy_heap (heap s) b n m1"
  using assms by (simp_all add: after_copy_def)

lemma offset_frame:
  assumes "fwd_frame os m m1" "heap_seg m a os e" "\<forall>h \<in> set os. marked m1 h = marked m h"
  shows "offset_of m1 os = offset_of m os" "live_words m1 os = live_words m os"
proof -
  have w: "marked m1 k = marked m k \<and> obj_words m1 k = obj_words m k" if "k \<in> set os" for k
    using assms(3) fwd_frame_heap(2) [OF assms(1,2)] that by simp
  show "offset_of m1 os = offset_of m os"
    unfolding offset_of_def fun_eq_iff using w by (intro allI live_words_cong) (blast dest: set_takeWhileD)
  show "live_words m1 os = live_words m os" using w by (intro live_words_cong) blast
qed

lemma after_copy_heap:
  assumes A: "after_copy s os b n m1 m2"
  defines "old \<equiv> heap s" and "hp \<equiv> new_chunk (heap s) b n"
  shows "heap_ok old m1 os" "fresh_target b old m1 os" "heap_copy hp old m1 m2"
    "copied hp old m1 os m2" "new_heap hp old os m2" "reloc b old m1 os = reloc b old (memory s) os"
    "offset_of m1 os = offset_of (memory s) os"
    "\<And>k. k \<in> set os \<Longrightarrow> c_begin old \<le> k" "inj_on (rebase hp old) (set os)"
proof -
  note D = after_copyD [OF A]
  note seg0 = heap_okD(1) [OF D(1)]
  show ok1: "heap_ok old m1 os" unfolding old_def by (rule fwd_frame_heap_ok [OF D(8,1)])
  note seg1 = heap_okD(1) [OF ok1]
  show ofs: "offset_of m1 os = offset_of (memory s) os"
    using offset_frame(1) [OF D(8) seg0] D(9) by blast
  show "reloc b old m1 os = reloc b old (memory s) os"
    by (simp add: reloc_def new_addr_def ofs fun_eq_iff)
  have lw: "live_words m1 os = live_words (memory s) os"
    using offset_frame(2) [OF D(8) seg0] D(9) by blast
  show "fresh_target b old m1 os"
    using D(3,4,7) lw unfolding fresh_target_def fresh_region_def chunk_ok_def old_def by auto
  have dj: "c_end old \<le> b \<or> b + 8 * n \<le> c_begin old"
    using D(4) by (simp add: fresh_region_def old_def)
  show hc: "heap_copy hp old m1 m2"
    unfolding heap_copy_def
  proof (intro conjI allI impI)
    show "c_current hp = c_begin hp + (c_current old - c_begin old)" by (simp add: hp_def old_def)
    fix x assume "c_begin old \<le> x" "x < c_current old"
    then show "m2 (c_begin hp + (x - c_begin old)) = m1 x"
      using copy_in [OF dj _ _, of x m1] D(3,6) unfolding D(12) copy_heap_def hp_def old_def
      by (auto simp: chunk_ok_def)
  qed
  show cp: "copied hp old m1 os m2" using hc seg1 by (rule heap_copy_copied)
  have "heap_seg m2 (rebase hp old (c_begin old)) (map (rebase hp old) os) (c_current hp)"
    using seg1 by (rule rebase_seg) (use cp in \<open>auto simp: copied_def hp_def old_def\<close>)
  then show "new_heap hp old os m2" by (simp add: new_heap_def rebase_eq)
  show kb: "c_begin old \<le> k" if "k \<in> set os" for k using heap_seg_in [OF seg1 that] by simp
  show "inj_on (rebase hp old) (set os)"
    using rebase_inj by (rule inj_on_subset) (use kb in auto)
qed

section \<open>Every word to redirect is in order\<close>

definition redirected :: "gc_state \<Rightarrow> addr list \<Rightarrow> addr \<Rightarrow> nat \<Rightarrow> mem \<Rightarrow> mem \<Rightarrow> addr list" where
  "redirected s os b n m1 m2 =
     field_slots (new_chunk (heap s) b n) (heap s) m1 m2 os @ fix_addrs s"

lemma copy_slot_value:
  assumes A: "after_copy s os b n m1 m2" and k: "k \<in> set os" and a: "a \<in> set (slots (memory s) k)"
  shows "ld64 m2 (rebase (new_chunk (heap s) b n) (heap s) a) = ld64 (memory s) a"
    and "c_begin (heap s) \<le> a" "a + 8 \<le> c_current (heap s)"
proof -
  note D = after_copyD [OF A]
  note seg0 = heap_okD(1) [OF D(1)]
  show b: "c_begin (heap s) \<le> a" "a + 8 \<le> c_current (heap s)"
    using heap_seg_in [OF seg0 k] slot_in_object [OF a] by linarith+
  have "ld64 m2 (rebase (new_chunk (heap s) b n) (heap s) a) = ld64 m1 a"
    by (rule heap_copy_ld64 [OF after_copy_heap(3) [OF A] b])
  also have "\<dots> = ld64 (memory s) a" by (rule fwd_frame_slot [OF D(8) seg0 k a])
  finally show "ld64 m2 (rebase (new_chunk (heap s) b n) (heap s) a) = ld64 (memory s) a" .
qed

lemma copy_object_slots:
  assumes A: "after_copy s os b n m1 m2" and k: "k \<in> set os"
  defines "rb \<equiv> rebase (new_chunk (heap s) b n) (heap s)"
  shows "slots m2 (rb k) = map rb (slots (memory s) k)" "slot0 m2 (rb k) = rb (slot0 (memory s) k)"
    "nslots m2 (rb k) = nslots (memory s) k" "ld64 m2 (rb k) = ld64 (memory s) k"
    "rb k mod 8 = 0"
proof -
  note D = after_copyD [OF A]
  note seg0 = heap_okD(1) [OF D(1)]
  have "ld64 m2 (rb k) = ld64 m1 k"
    using after_copy_heap(4) [OF A] k by (simp add: copied_def rb_def)
  also have "\<dots> = ld64 (memory s) k" by (rule fwd_frame_header [OF D(8) seg0 k])
  finally show hd: "ld64 m2 (rb k) = ld64 (memory s) k" .
  note kb = after_copy_heap(8) [OF A k]
  show "slots m2 (rb k) = map rb (slots (memory s) k)" "slot0 m2 (rb k) = rb (slot0 (memory s) k)"
    "nslots m2 (rb k) = nslots (memory s) k"
    unfolding rb_def by (rule copy_slots [OF hd [unfolded rb_def] kb])+
  have "k mod 8 = 0" "c_begin (heap s) mod 8 = 0"
    using heap_seg_aligned [OF seg0 heap_okD(2) [OF D(1)] k] heap_okD(2) [OF D(1)] by auto
  moreover have "b mod 8 = 0" using D(4) by (simp add: fresh_region_def)
  ultimately show "rb k mod 8 = 0"
    using kb by (simp add: rb_def rebase_eq) presburger
qed

lemma field_slots_fixable:
  assumes A: "after_copy s os b n m1 m2" and k: "k \<in> set os" "marked m1 k"
    and p: "p \<in> set (slots m2 (rebase (new_chunk (heap s) b n) (heap s) k))"
  shows "fixable (new_chunk (heap s) b n) (heap s) m1 os m2 p"
proof -
  note D = after_copyD [OF A]
  obtain a where a: "a \<in> set (slots (memory s) k)" "p = rebase (new_chunk (heap s) b n) (heap s) a"
    using p copy_object_slots(1) [OF A k(1)] by auto
  have v: "ld64 m2 p = ld64 (memory s) a" using copy_slot_value(1) [OF A k(1) a(1)] a(2) by simp
  have "live_val (heap s) m1 os (ld64 (memory s) a)"
    unfolding live_val_def
  proof
    assume vp: "is_valid_heap_pointer (heap s) (ld64 (memory s) a)"
    then obtain j where j: "j \<in> set os" "unat (ld64 (memory s) a) = j + 16" "points_to (heap s) (ld64 (memory s) a) j"
      using heap_okD(4) [OF D(1) k(1) a(1)] by (blast elim: val_okE)
    then have "edge (heap s) (memory s) k j" using a(1) by (auto simp: edge_def)
    then have "marked (memory s) j" using D(2) k D(9) by (auto simp: closed_marks_def)
    then show "\<exists>j \<in> set os. marked m1 j \<and> unat (ld64 (memory s) a) = j + 16" using j D(9) by auto
  qed
  moreover have "p mod 8 = 0" using copy_object_slots(5) [OF A k(1)] p by (rule slot_aligned)
  moreover have "off_headers (new_chunk (heap s) b n) (heap s) os p"
    by (rule slot_off_headers [OF after_copy_heap(5) [OF A] k(1) p])
  ultimately show ?thesis by (simp add: fixable_def v)
qed

lemma chunk_copy_bound:
  assumes "after_copy s os b n m1 m2"
  shows "b + (c_current (heap s) - c_begin (heap s)) \<le> b + 8 * n"
  using after_copyD(3,6) [OF assms] by (auto simp: chunk_ok_def)

lemma fix_addr_off_new:
  assumes A: "after_copy s os b n m1 m2" and p: "p \<in> set (fix_addrs s)"
  shows "p + 8 \<le> b \<or> b + 8 * n \<le> p" "p mod 8 = 0"
  using after_copyD(4,5) [OF A] p by (auto simp: fresh_region_def fix_addrs_ok_def)

lemma fix_addrs_value:
  assumes A: "after_copy s os b n m1 m2" and p: "p \<in> set (fix_addrs s)"
  shows "ld64 m2 p = ld64 (memory s) p"
proof -
  note D = after_copyD [OF A]
  have "ld64 m2 p = ld64 m1 p"
    using fix_addr_off_new(1) [OF A p] D(6)
    by (intro ld64_cong) (auto simp: D(12) copy_heap_def copy_out)
  also have "\<dots> = ld64 (memory s) p"
    using D(3,5) p by (intro fwd_frame_off_heap [OF D(8,1)]) (auto simp: fix_addrs_ok_def chunk_ok_def)
  finally show ?thesis .
qed

lemma fix_addrs_fixable:
  assumes A: "after_copy s os b n m1 m2" and p: "p \<in> set (fix_addrs s)"
  shows "fixable (new_chunk (heap s) b n) (heap s) m1 os m2 p"
proof -
  note D = after_copyD [OF A]
  have "off_headers (new_chunk (heap s) b n) (heap s) os p"
    unfolding off_headers_def
  proof
    fix k assume k: "k \<in> set os"
    let ?k = "rebase (new_chunk (heap s) b n) (heap s) k"
    have "?k \<in> set (map (rebase (new_chunk (heap s) b n) (heap s)) os)" using k by simp
    then have "?k + 16 \<le> b + (c_current (heap s) - c_begin (heap s))" "b \<le> ?k"
      using heap_seg_header_bound heap_seg_in after_copy_heap(5) [OF A]
      unfolding new_heap_def new_chunk_sel by fast+
    then show "p + 8 \<le> ?k \<or> ?k + 16 \<le> p"
      using fix_addr_off_new(1) [OF A p] chunk_copy_bound [OF A] by linarith
  qed
  moreover have "live_val (heap s) m1 os (ld64 (memory s) p)"
    using D(5,9) p by (auto simp: fix_addrs_ok_def live_val_def)
  ultimately show ?thesis
    using fix_addr_off_new(2) [OF A p] fix_addrs_value [OF A p] by (simp add: fixable_def)
qed

lemma field_slots_in:
  assumes "p \<in> set (field_slots hp old m1 m2 os)"
  obtains k where "k \<in> set os" "marked m1 k" "p \<in> set (ptr_slots m2 (rebase hp old k))"
  using assms by (auto simp: field_slots_def split: if_splits)

lemma redirected_fixable:
  assumes A: "after_copy s os b n m1 m2" and p: "p \<in> set (redirected s os b n m1 m2)"
  shows "fixable (new_chunk (heap s) b n) (heap s) m1 os m2 p"
  using p fix_addrs_fixable [OF A] field_slots_fixable [OF A]
  by (auto simp: redirected_def ptr_slots_def elim!: field_slots_in)

section \<open>Redirecting everything\<close>

lemma fold_fixable:
  assumes A: "after_copy s os b n m1 m2"
    and "set ps \<subseteq> set (redirected s os b n m1 m2)" "set qs \<subseteq> set (redirected s os b n m1 m2)"
  defines "hp \<equiv> new_chunk (heap s) b n"
  defines "m \<equiv> fold (fixw (reloc b (heap s) m1 os)) ps m2"
  shows "copied hp (heap s) m1 os m" "\<forall>q \<in> set qs. fixable hp (heap s) m1 os m q"
proof -
  note H = after_copy_heap [OF A]
  have fx: "\<forall>p \<in> set ps. fixable hp (heap s) m1 os m2 p" "\<forall>p \<in> set qs. fixable hp (heap s) m1 os m2 p"
    using redirected_fixable [OF A] assms(2,3) by (auto simp: hp_def)
  show "copied hp (heap s) m1 os m"
    using H(4) fx(1) unfolding m_def hp_def by (intro copied_fold_fixw) (auto simp: fixable_def)
  show "\<forall>q \<in> set qs. fixable hp (heap s) m1 os m q"
    using fixable_fold [of "heap s" m1 os hp ps m2] H(1,2) fx unfolding m_def by (auto simp: hp_def)
qed

lemma update_references_ok:
  assumes A: "after_copy s os b n m1 m2"
  shows "update_references (s\<lparr>memory := m2, heap := new_chunk (heap s) b n\<rparr>) (heap s)
      = Some (s\<lparr>memory := fold (fixw (reloc b (heap s) m1 os)) (redirected s os b n m1 m2) m2,
                heap := new_chunk (heap s) b n\<rparr>)"
proof -
  let ?hp = "new_chunk (heap s) b n" and ?s = "s\<lparr>memory := m2, heap := new_chunk (heap s) b n\<rparr>"
  let ?f = "fixw (reloc b (heap s) m1 os)" and ?R = "set (redirected s os b n m1 m2)"
  note D = after_copyD [OF A]
  note H = after_copy_heap [OF A]
  note L = fix_list_ok [OF H(1) D(11), of ?hp, unfolded new_chunk_sel(1), OF H(2)]
  let ?F = "field_slots ?hp (heap s) m1 m2 os"
  let ?A = "words_between (gc_stack_top s + 8) (gc_stack_bottom s + 8)"
  let ?B = "filter (\<lambda>r. \<not> in_scanned_region s r) (pool s)"
  let ?C = "words_between (start_custom_data s) (stop_custom_data s)"
  have R: "redirected s os b n m1 m2 = ?F @ ?A @ ?B @ ?C"
    by (simp add: redirected_def fix_addrs_def)
  have 1: "update_objects ?hp (heap s) m2 b = Some (fold ?f ?F m2)"
  proof (rule update_objects_ok [OF H(1) D(11), of ?hp, unfolded new_chunk_sel(1), OF H(2)])
    show "heap_seg m2 b (map (rebase ?hp (heap s)) os) (c_current ?hp)"
      using H(5) by (simp add: new_heap_def)
    show "\<forall>k \<in> set os. marked m1 k \<longrightarrow>
        (\<forall>p \<in> set (ptr_slots m2 (rebase ?hp (heap s) k)). fixable ?hp (heap s) m1 os m2 p)"
      using field_slots_fixable [OF A] by (simp add: ptr_slots_def)
    show "os = [] @ os" by simp
  qed (rule H)+
  have reg: "in_scanned_region ?s = in_scanned_region s" "pool ?s = pool s"
    by (simp_all add: in_scanned_region_def pool_def fun_eq_iff)
  have sub: "set ?F \<subseteq> ?R" "set (?F @ ?A) \<subseteq> ?R" "set (?F @ ?A @ ?B) \<subseteq> ?R" "set ?A \<subseteq> ?R" "set ?B \<subseteq> ?R" "set ?C \<subseteq> ?R"
    unfolding R by auto
  have 2: "fix_list ?hp (heap s) (fold ?f ?F m2) ?A = Some (fold ?f (?F @ ?A) m2)"
    using L [OF fold_fixable(1) [OF A sub(1) sub(4)] fold_fixable(2) [OF A sub(1) sub(4)]] by simp
  have 3: "fix_list ?hp (heap s) (fold ?f (?F @ ?A) m2) ?B = Some (fold ?f (?F @ ?A @ ?B) m2)"
    using L [OF fold_fixable(1) [OF A sub(2) sub(5)] fold_fixable(2) [OF A sub(2) sub(5)]] by simp
  have 4: "fix_list ?hp (heap s) (fold ?f (?F @ ?A @ ?B) m2) ?C = Some (fold ?f (?F @ ?A @ ?B @ ?C) m2)"
    using L [OF fold_fixable(1) [OF A sub(3) sub(6)] fold_fixable(2) [OF A sub(3) sub(6)]] by simp
  have c: "start_custom_data s \<le> stop_custom_data s" using D(5) by (simp add: fix_addrs_ok_def)
  have sel: "heap ?s = ?hp" "memory ?s = m2" "gc_stack_top ?s = gc_stack_top s"
      "gc_stack_bottom ?s = gc_stack_bottom s" "start_custom_data ?s = start_custom_data s"
      "stop_custom_data ?s = stop_custom_data s" "heap_begin_iterator ?hp = b"
    by (simp_all add: heap_begin_iterator_def)
  have fin: "?s\<lparr>memory := m\<rparr> = s\<lparr>memory := m, heap := ?hp\<rparr>" for m by simp
  show ?thesis
    unfolding update_references_def R Let_def sel scan_and_fix_region_eq
      scan_and_fix_region_roots_eq reg 1 2 bind.bind_lunit 3 if_P [OF c] 4 fin by (rule refl)
qed

end
