(* ===== verification/Collect.thy ===== *)
theory Collect
  imports Compact_Phase
begin

text \<open>
  The two theorems about a collection: what \<open>compact_phase\<close> of \<open>runtime/gc.c\<close> does to a marked
  heap, and what \<open>mark_phase\<close> followed by \<open>compact_phase\<close> does to the heap the mutator left.
  Both are stated with \<open>moved\<close> (one object arrived at its new address) and \<open>compacted\<close> (the
  whole heap did).
\<close>

section \<open>One object\<close>

text \<open>
  At \<open>k\<close> in \<open>m'\<close> there is the object that was at \<open>h\<close> in \<open>m\<close>: same header word, no mark bits,
  the bytes before its slots unchanged, every slot mapped by \<open>f\<close>.
\<close>

definition moved :: "(u64 \<Rightarrow> u64) \<Rightarrow> mem \<Rightarrow> addr \<Rightarrow> mem \<Rightarrow> addr \<Rightarrow> bool" where
  "moved f m h m' k \<longleftrightarrow>
     ld64 m' k = ld64 m h \<and> \<not> marked m' k \<and> \<not> enqd m' k \<and>
     (\<forall>j. 16 \<le> j \<longrightarrow> j < obj_bytes m h \<longrightarrow> h + j < slot0 m h \<longrightarrow> m' (k + j) = m (h + j)) \<and>
     (\<forall>i < nslots m h. ld64 m' (slot0 m' k + 8 * i) = f (ld64 m (slot0 m h + 8 * i)))"

lemma slot0_shift: "ld64 m' k = ld64 m h \<Longrightarrow> slot0 m' k + h = slot0 m h + k"
  by (simp add: slot0_def obj_header_cong [of m' k m h] split: lama_type.splits)

lemma same_object_slots:
  assumes S: "same_object m h m' k" and i: "i < nslots m h"
  shows "ld64 m' (slot0 m' k + 8 * i) = ld64 m (slot0 m h + 8 * i)"
proof (rule ld64_cong)
  fix j :: nat assume j: "j < 8"
  have a: "slot0 m h + 8 * i \<in> set (slots m h)" using i by (simp add: slots_def)
  note b = slot_bounds [OF a]
  have "slot0 m' k + h = slot0 m h + k" using S by (intro slot0_shift) (simp add: same_object_def)
  then have e: "slot0 m' k + 8 * i + j = k + (slot0 m h + 8 * i + j - h)"
    "slot0 m h + 8 * i + j = h + (slot0 m h + 8 * i + j - h)" using b by linarith+
  have "16 \<le> slot0 m h + 8 * i + j - h" "slot0 m h + 8 * i + j - h < obj_bytes m h" using b j by linarith+
  then have "m' (k + (slot0 m h + 8 * i + j - h)) = m (h + (slot0 m h + 8 * i + j - h))"
    using S unfolding same_object_def by blast
  then show "m' (slot0 m' k + 8 * i + j) = m (slot0 m h + 8 * i + j)" using e by argo
qed

section \<open>The words and bytes after the redirection\<close>

lemma redirected_slot:
  assumes A: "after_copy s os b n m1 m2" and k: "k \<in> set os" "marked (memory s) k"
    and a: "a \<in> set (slots (memory s) k)"
  defines "hp \<equiv> new_chunk (heap s) b n" and "f \<equiv> reloc b (heap s) m1 os"
  shows "ld64 (fold (fixw f) (redirected s os b n m1 m2) m2) (rebase hp (heap s) a) = f (ld64 (memory s) a)"
proof -
  let ?q = "rebase hp (heap s) a"
  note H = after_copy_heap [OF A]
  have mk: "marked m1 k" using after_copyD(9) [OF A k(1)] k(2) by simp
  have q: "?q \<in> set (slots m2 (rebase hp (heap s) k))"
    using a copy_object_slots(1) [OF A k(1)] by (simp add: hp_def)
  have v: "ld64 m2 ?q = ld64 (memory s) a" using copy_slot_value(1) [OF A k(1) a] by (simp add: hp_def)
  have fx: "fixable hp (heap s) m1 os m2 ?q"
    using field_slots_fixable [OF A k(1) mk, of ?q] q by (simp add: hp_def)
  have all: "\<forall>p \<in> set (redirected s os b n m1 m2). p mod 8 = 0"
    using redirected_fixable [OF A] by (simp add: fixable_def)
  have "f (f (ld64 m2 ?q)) = f (ld64 m2 ?q)"
    using reloc_idem [OF H(1,2)] fx by (simp add: fixable_def f_def)
  moreover have "?q mod 8 = 0" using fx by (simp add: fixable_def)
  ultimately have r: "ld64 (fold (fixw f) (redirected s os b n m1 m2) m2) ?q
      = (if ?q \<in> set (redirected s os b n m1 m2) then f (ld64 m2 ?q) else ld64 m2 ?q)"
    using ld64_fold_fixw [OF all, of ?q f m2] by simp
  have "f (ld64 m2 ?q) = ld64 m2 ?q" if "?q \<notin> set (redirected s os b n m1 m2)"
  proof -
    have "?q \<notin> set (ptr_slots m2 (rebase hp (heap s) k))"
      using that k(1) mk by (auto simp: redirected_def field_slots_def hp_def)
    then have "\<not> is_valid_pointer (ld64 m2 ?q)" using q by (simp add: ptr_slots_def)
    then show ?thesis by (simp add: f_def reloc_def is_valid_heap_pointer_def is_valid_pointer_def)
  qed
  then show ?thesis using r v by auto
qed

text \<open>The words that are redirected are not among the raw bytes of an object.\<close>

lemma redirected_apart:
  assumes A: "after_copy s os b n m1 m2" and k: "k \<in> set os"
    and j: "16 \<le> j" "j < obj_bytes (memory s) k" "k + j < slot0 (memory s) k"
    and p: "p \<in> set (redirected s os b n m1 m2)" and x: "x = rebase (new_chunk (heap s) b n) (heap s) k + j"
  shows "x < p \<or> p + 8 \<le> x"
proof -
  let ?m = "memory s" and ?hp = "new_chunk (heap s) b n"
  let ?rb = "rebase ?hp (heap s)"
  note H = after_copy_heap [OF A]
  note cs = copy_object_slots [OF A k]
  have cj: "j < 8 * obj_words ?m k" using j(2) obj_bytes_le_words [of ?m k] by linarith
  have new: "heap_seg m2 b (map ?rb os) (c_current ?hp)"
    using H(5) by (simp add: new_heap_def new_chunk_def)
  have wk: "obj_words m2 (?rb k) = obj_words ?m k" using obj_header_cong(5) [OF cs(4)] .
  have rk: "?rb k \<in> set (map ?rb os)" using k by simp
  note bk = heap_seg_in [OF new rk] heap_seg_header_bound [OF new rk]
  show ?thesis
  proof (cases "p \<in> set (fix_addrs s)")
    case True
    have "c_current ?hp = b + (c_current (heap s) - c_begin (heap s))" by (simp add: new_chunk_def)
    then have "?rb k + 8 * obj_words m2 (?rb k) \<le> b + 8 * n" "b \<le> ?rb k"
      using bk chunk_copy_bound [OF A] by linarith+
    then show ?thesis using fix_addr_off_new(1) [OF A True] wk cj x by linarith
  next
    case False
    then obtain i where i: "i \<in> set os" "p \<in> set (slots m2 (?rb i))"
      using p by (auto simp: redirected_def ptr_slots_def elim!: field_slots_in)
    show ?thesis
    proof (cases "?rb i = ?rb k")
      case True
      have "slot0 m2 (?rb k) \<le> p" using i(2) unfolding True by (auto simp: slots_def)
      moreover have "slot0 m2 (?rb k) + k = slot0 ?m k + ?rb k" by (rule slot0_shift [OF cs(4)])
      ultimately show ?thesis using j x by linarith
    next
      case False
      have ri: "?rb i \<in> set (map ?rb os)" using i by simp
      note dj = heap_seg_disjoint [OF new ri rk False]
      show ?thesis using dj slot_in_object [OF i(2)] wk cj x by linarith
    qed
  qed
qed

lemma redirected_byte:
  assumes A: "after_copy s os b n m1 m2" and k: "k \<in> set os"
    and j: "16 \<le> j" "j < obj_bytes (memory s) k" "k + j < slot0 (memory s) k"
  defines "hp \<equiv> new_chunk (heap s) b n"
  shows "fold (fixw f) (redirected s os b n m1 m2) m2 (rebase hp (heap s) k + j) = memory s (k + j)"
proof -
  let ?m = "memory s" and ?rb = "rebase hp (heap s)"
  note D = after_copyD [OF A]
  note H = after_copy_heap [OF A]
  note seg = heap_okD(1) [OF D(1)]
  note cs = copy_object_slots [OF A k, folded hp_def]
  have cj: "j < 8 * obj_words ?m k" using j(2) obj_bytes_le_words [of ?m k] by linarith
  have "fold (fixw f) (redirected s os b n m1 m2) m2 (?rb k + j) = m2 (?rb k + j)"
    using redirected_apart [OF A k j] unfolding hp_def by (intro fold_fixw_out) blast
  also have "\<dots> = m1 (k + j)"
  proof -
    have "c_begin (heap s) \<le> k + j" "k + j < c_current (heap s)"
      using heap_seg_in [OF seg k] cj by linarith+
    then have "m2 (c_begin hp + (k + j - c_begin (heap s))) = m1 (k + j)"
      using H(3) by (simp add: heap_copy_def hp_def)
    moreover have "c_begin hp + (k + j - c_begin (heap s)) = ?rb k + j"
      using H(8) [OF k] by (simp add: rebase_eq)
    ultimately show ?thesis by simp
  qed
  also have "\<dots> = ?m (k + j)"
  proof -
    have "k + j < h + 8 \<or> h + 16 \<le> k + j" if h: "h \<in> set os" for h
      using heap_seg_disjoint [OF seg k h] j(1) cj obj_words_ge_2 [OF heap_seg_ok [OF seg h]]
      by (cases "h = k") fastforce+
    then show ?thesis using D(8) by (simp add: fwd_frame_def)
  qed
  finally show ?thesis .
qed

section \<open>The whole phase\<close>

definition compacted :: "gc_state \<Rightarrow> addr list \<Rightarrow> addr \<Rightarrow> nat \<Rightarrow> gc_state \<Rightarrow> bool" where
  "compacted s os b n s' \<longleftrightarrow>
     s' = s\<lparr>memory := memory s', heap := heap s'\<rparr> \<and>
     heap s' = \<lparr>c_begin = b, c_end = b + 8 * n, c_current = b + 8 * live_words (memory s) os, c_size = n\<rparr> \<and>
     (\<forall>h \<in> set os. marked (memory s) h \<longrightarrow>
        moved (reloc b (heap s) (memory s) os) (memory s) h (memory s') (new_addr b (memory s) os h)) \<and>
     (\<forall>p \<in> set (fix_addrs s). ld64 (memory s') p = reloc b (heap s) (memory s) os (ld64 (memory s) p)) \<and>
     (\<forall>x. off_heap (heap s) x \<longrightarrow> x < b \<or> b + 8 * n \<le> x \<longrightarrow>
        (\<forall>p \<in> set (fix_addrs s). x < p \<or> p + 8 \<le> x) \<longrightarrow> memory s' x = memory s x)"

lemma compactedD:
  assumes "compacted s os b n s'"
  shows "s' = s\<lparr>memory := memory s', heap := heap s'\<rparr>"
    and "heap s' = \<lparr>c_begin = b, c_end = b + 8 * n, c_current = b + 8 * live_words (memory s) os, c_size = n\<rparr>"
    and "h \<in> set os \<Longrightarrow> marked (memory s) h \<Longrightarrow>
        moved (reloc b (heap s) (memory s) os) (memory s) h (memory s') (new_addr b (memory s) os h)"
    and "p \<in> set (fix_addrs s) \<Longrightarrow> ld64 (memory s') p = reloc b (heap s) (memory s) os (ld64 (memory s) p)"
  using assms unfolding compacted_def by blast+

lemma relocated:
  assumes A: "after_copy s os b n m1 m2"
  defines "m4 \<equiv> fold (fixw (reloc b (heap s) (memory s) os)) (redirected s os b n m1 m2) m2"
  shows "\<exists>m5. relocate_loop (new_chunk (heap s) b n) (heap s) m4 b = Some m5 \<and>
      (\<forall>h \<in> set os. marked (memory s) h \<longrightarrow>
         same_object m4 (rebase (new_chunk (heap s) b n) (heap s) h) m5 (new_addr b (memory s) os h)) \<and>
      (\<forall>x. x < b \<or> b + 8 * n \<le> x \<longrightarrow> m5 x = m4 x)"
proof -
  let ?hp = "new_chunk (heap s) b n" and ?rb = "rebase (new_chunk (heap s) b n) (heap s)"
  note D = after_copyD [OF A]
  note H = after_copy_heap [OF A]
  note seg1 = heap_okD(1) [OF H(1)]
  have m4: "m4 = fold (fixw (reloc b (heap s) m1 os)) (redirected s os b n m1 m2) m2"
    by (simp add: m4_def H(6))
  have cp: "copied ?hp (heap s) m1 os m4"
    unfolding m4 using fold_fixable(1) [OF A order.refl, of "[]"] by simp
  have w: "ld64 m4 (?rb k) = ld64 m1 k" "marked m4 (?rb k) = marked m1 k" "fwd m4 (?rb k) = fwd m1 k"
    if "k \<in> set os" for k
    using cp that fwd_word_cong [of m4 "?rb k" m1 k] by (auto simp: copied_def)
  have seg4: "heap_seg m4 b (map ?rb os) (c_current ?hp)"
  proof -
    have "heap_seg m4 (?rb (c_begin (heap s))) (map ?rb os) (c_current ?hp)"
      by (rule rebase_seg [OF seg1]) (use w in simp_all)
    then show ?thesis by (simp add: rebase_eq)
  qed
  have ofs: "offset_of m4 (map ?rb os) (?rb h) = offset_of (memory s) os h" if "h \<in> set os" for h
    using offset_of_map [OF H(9) that, of m4 m1] w(2) obj_header_cong(5) [OF w(1)] H(7) by simp
  have fw: "\<forall>h \<in> set (map ?rb os). marked m4 h \<longrightarrow>
      fwd m4 h = c_begin (heap s) + 8 * offset_of m4 (map ?rb os) h"
    using w D(11) ofs H(7) by (auto simp: located_def)
  have d: "b = c_begin ?hp + (c_begin (heap s) - c_begin (heap s))" by simp
  obtain m5 where m5: "relocate_loop ?hp (heap s) m4 b = Some m5"
    "\<forall>h \<in> set (map ?rb os). marked m4 h \<longrightarrow> same_object m4 h m5 (b + 8 * offset_of m4 (map ?rb os) h)"
    "\<forall>x. x < b \<or> c_current ?hp \<le> x \<longrightarrow> m5 x = m4 x"
    using relocate_loop_ok [OF seg4 order.refl order.refl d fw] by blast
  have "same_object m4 (?rb h) m5 (new_addr b (memory s) os h)"
    if h: "h \<in> set os" "marked (memory s) h" for h
  proof -
    have "marked m4 (?rb h)" using w(2) D(9) h by simp
    then have "same_object m4 (?rb h) m5 (b + 8 * offset_of m4 (map ?rb os) (?rb h))" using m5(2) h(1) by simp
    then show ?thesis by (simp add: new_addr_def ofs [OF h(1)])
  qed
  moreover have "m5 x = m4 x" if "x < b \<or> b + 8 * n \<le> x" for x
    using that m5(3) chunk_copy_bound [OF A] by (auto simp: new_chunk_def)
  ultimately show ?thesis using m5(1) by blast
qed

lemma relocated_moved:
  assumes A: "after_copy s os b n m1 m2" and h: "h \<in> set os" "marked (memory s) h" "\<not> enqd (memory s) h"
  defines "f \<equiv> reloc b (heap s) (memory s) os"
  defines "m4 \<equiv> fold (fixw f) (redirected s os b n m1 m2) m2"
  assumes S: "same_object m4 (rebase (new_chunk (heap s) b n) (heap s) h) m5 k"
  shows "moved f (memory s) h m5 k"
proof -
  let ?rb = "rebase (new_chunk (heap s) b n) (heap s)"
  note D = after_copyD [OF A]
  note H = after_copy_heap [OF A]
  note cs = copy_object_slots [OF A h(1)]
  have f1: "f = reloc b (heap s) m1 os" by (simp add: f_def H(6))
  have cp: "copied (new_chunk (heap s) b n) (heap s) m1 os m4"
    unfolding m4_def f1 using fold_fixable(1) [OF A order.refl, of "[]"] by simp
  have w: "ld64 m4 (?rb h) = ld64 m1 h" "enqd m4 (?rb h) = enqd m1 h"
    using cp h(1) fwd_word_cong [of m4 "?rb h" m1 h] by (auto simp: copied_def)
  have hd: "ld64 m4 (?rb h) = ld64 (memory s) h"
    using w(1) fwd_frame_header [OF D(8) heap_okD(1) [OF D(1)] h(1)] by simp
  have s0: "slot0 m4 (?rb h) = ?rb (slot0 (memory s) h)"
    using cs(2) slots_header_cong(1) [of m4 "?rb h" m2] hd cs(4) by simp
  have ns: "nslots m4 (?rb h) = nslots (memory s) h" "obj_bytes m4 (?rb h) = obj_bytes (memory s) h"
    using cs(3) slots_header_cong(2) [of m4 "?rb h" m2] hd cs(4) obj_header_cong(4) [OF hd] by simp_all
  show ?thesis
    unfolding moved_def
  proof (intro conjI allI impI)
    show "ld64 m5 k = ld64 (memory s) h" "\<not> marked m5 k" "\<not> enqd m5 k"
      using S hd w(2) D(10) h by (simp_all add: same_object_def)
  next
    fix j assume j: "16 \<le> j" "j < obj_bytes (memory s) h" "h + j < slot0 (memory s) h"
    have "m4 (?rb h + j) = memory s (h + j)" unfolding m4_def by (rule redirected_byte [OF A h(1) j])
    moreover have "m5 (k + j) = m4 (?rb h + j)" using S j ns(2) by (simp add: same_object_def)
    ultimately show "m5 (k + j) = memory s (h + j)" by simp
  next
    fix i assume i: "i < nslots (memory s) h"
    let ?a = "slot0 (memory s) h + 8 * i"
    have a: "?a \<in> set (slots (memory s) h)" using i by (simp add: slots_def)
    have "c_begin (heap s) \<le> slot0 (memory s) h"
      using H(8) [OF h(1)] by (auto simp: slot0_def split: lama_type.splits)
    then have "slot0 m4 (?rb h) + 8 * i = ?rb ?a" by (simp add: s0 rebase_add)
    moreover have "ld64 m4 (?rb ?a) = f (ld64 (memory s) ?a)"
      unfolding m4_def f1 by (rule redirected_slot [OF A h(1,2) a])
    ultimately show "ld64 m5 (slot0 m5 k + 8 * i) = f (ld64 (memory s) ?a)"
      using same_object_slots [OF S, of i] i ns(1) by simp
  qed
qed

lemma redirected_out:
  assumes A: "after_copy s os b n m1 m2" and x: "off_heap (heap s) x" "x < b \<or> b + 8 * n \<le> x"
    "\<forall>p \<in> set (fix_addrs s). x < p \<or> p + 8 \<le> x"
  shows "fold (fixw f) (redirected s os b n m1 m2) m2 x = memory s x"
proof -
  let ?rb = "rebase (new_chunk (heap s) b n) (heap s)"
  note D = after_copyD [OF A]
  note seg = heap_okD(1) [OF D(1)]
  have new: "heap_seg m2 b (map ?rb os) (c_current (new_chunk (heap s) b n))"
    using after_copy_heap(5) [OF A] by (simp add: new_heap_def)
  have "x < p \<or> p + 8 \<le> x" if p: "p \<in> set (redirected s os b n m1 m2)" for p
  proof (cases "p \<in> set (fix_addrs s)")
    case False
    then obtain i where "i \<in> set os" and sl: "p \<in> set (slots m2 (?rb i))"
      using p by (auto simp: redirected_def ptr_slots_def elim!: field_slots_in)
    then have i: "?rb i \<in> set (map ?rb os)" by simp
    have "b \<le> p" "p + 8 \<le> b + 8 * n"
      using heap_seg_in [OF new i] slot_in_object [OF sl] chunk_copy_bound [OF A]
      unfolding new_chunk_sel by linarith+
    then show ?thesis using x(2) by linarith
  qed (use x(3) in blast)
  then have "fold (fixw f) (redirected s os b n m1 m2) m2 x = m2 x" by (rule fold_fixw_out)
  also have "\<dots> = m1 x" using x(2) D(6) by (simp add: D(12) copy_heap_def copy_out)
  also have "\<dots> = memory s x"
  proof -
    have "x < h + 8 \<or> h + 16 \<le> x" if "h \<in> set os" for h
      using heap_seg_in [OF seg that] heap_seg_header_bound [OF seg that] x(1) D(3)
      by (auto simp: off_heap_def chunk_ok_def)
    then show ?thesis using D(8) by (simp add: fwd_frame_def)
  qed
  finally show ?thesis .
qed

lemma compute_locations_ok:
  assumes "heap_ok (heap s) m os"
  shows "\<exists>m1. compute_locations (heap s) m = Some (m1, live_words m os) \<and> fwd_frame os m m1 \<and>
           (\<forall>h \<in> set os. marked m1 h = marked m h \<and> enqd m1 h = enqd m h) \<and> located (heap s) m1 os"
proof -
  note D = heap_okD [OF assms]
  obtain m1 where m1: "compute_loop (heap s) m (c_begin (heap s)) (c_begin (heap s))
      = Some (m1, c_begin (heap s) + 8 * live_words m os)" "fwd_frame os m m1"
    "\<forall>h \<in> set os. marked m1 h = marked m h \<and> enqd m1 h = enqd m h"
    "\<forall>h \<in> set os. marked m h \<longrightarrow> fwd m1 h = c_begin (heap s) + 8 * offset_of m os h"
    using compute_loop_inv [OF D(1,2) order.refl D(3)] by blast
  have "offset_of m1 os = offset_of m os"
    by (rule offset_frame(1) [OF m1(2) D(1)]) (use m1(3) in blast)
  then have "located (heap s) m1 os" using m1(3,4) by (simp add: located_def)
  then show ?thesis
    using m1 by (simp add: compute_locations_def heap_begin_iterator_def)
qed

lemma next_heap_words_bounds:
  "old \<le> next_heap_words lw additional old" "lw < next_heap_words lw additional old"
  "lw + additional \<le> next_heap_words lw additional old"
  by (auto simp: next_heap_words_def Let_def EXTRA_ROOM_HEAP_COEFFICIENT_def MINIMUM_HEAP_CAPACITY_def)

definition compact_pre :: "mmap_fun \<Rightarrow> gc_state \<Rightarrow> addr list \<Rightarrow> addr \<Rightarrow> nat \<Rightarrow> bool" where
  "compact_pre mmap s os b n \<longleftrightarrow>
     heap_ok (heap s) (memory s) os \<and> closed_marks (heap s) (memory s) os \<and>
     no_enqueued (memory s) os \<and> chunk_ok (heap s) \<and> fix_addrs_ok s os \<and>
     mmap s (8 * n) = Some b \<and> fresh_region s os b n"

lemma redirected_root:
  assumes A: "after_copy s os b n m1 m2" and p: "p \<in> set (fix_addrs s)"
  defines "f \<equiv> reloc b (heap s) (memory s) os"
  shows "ld64 (fold (fixw f) (redirected s os b n m1 m2) m2) p = f (ld64 (memory s) p)"
proof -
  note H = after_copy_heap [OF A]
  have all: "\<forall>q \<in> set (redirected s os b n m1 m2). q mod 8 = 0"
    using redirected_fixable [OF A] by (simp add: fixable_def)
  have "f (f (ld64 m2 p)) = f (ld64 m2 p)"
    unfolding f_def using reloc_idem [OF H(1,2)] fix_addrs_fixable [OF A p] by (simp add: fixable_def H(6))
  then have "ld64 (fold (fixw f) (redirected s os b n m1 m2) m2) p = f (ld64 m2 p)"
    using ld64_fold_fixw [OF all, of p f m2] fix_addr_off_new(2) [OF A p] p by (simp add: redirected_def)
  then show ?thesis using fix_addrs_value [OF A p] by simp
qed

lemma compact_phase_run:
  assumes P: "compact_pre mmap s os b n"
    and n: "n = next_heap_words (live_words (memory s) os) additional (c_size (heap s))"
  shows "\<exists>s'. compact_phase mmap s additional = Some s' \<and> compacted s os b n s'"
proof -
  let ?f = "reloc b (heap s) (memory s) os"
  note P = P [unfolded compact_pre_def]
  obtain m1 where m1: "compute_locations (heap s) (memory s) = Some (m1, live_words (memory s) os)"
    "fwd_frame os (memory s) m1" "\<forall>h \<in> set os. marked m1 h = marked (memory s) h \<and> enqd m1 h = enqd (memory s) h"
    "located (heap s) m1 os"
    using compute_locations_ok [of s "memory s" os] P by blast
  define m2 where "m2 = copy_heap (heap s) b n m1"
  have A: "after_copy s os b n m1 m2"
    unfolding after_copy_def using P m1 m2_def next_heap_words_bounds n by simp
  note H = after_copy_heap [OF A]
  define m4 where "m4 = fold (fixw ?f) (redirected s os b n m1 m2) m2"
  obtain m5 where m5: "relocate_loop (new_chunk (heap s) b n) (heap s) m4 b = Some m5"
    "\<forall>h \<in> set os. marked (memory s) h \<longrightarrow>
       same_object m4 (rebase (new_chunk (heap s) b n) (heap s) h) m5 (new_addr b (memory s) os h)"
    "\<forall>x. x < b \<or> b + 8 * n \<le> x \<longrightarrow> m5 x = m4 x"
    using relocated [OF A] unfolding m4_def by blast
  define s' where "s' = s\<lparr>memory := m5, heap := \<lparr>c_begin = b, c_end = b + 8 * n,
      c_current = b + 8 * live_words (memory s) os, c_size = n\<rparr>\<rparr>"
  have n64: "unat (WORDS_TO_BYTES (of_nat n)) = 8 * n"
    using P unat_of_nat_u64 [of "8 * n"] by (simp add: fresh_region_def WORDS_TO_BYTES_def mult.commute)
  have upd: "update_references (s\<lparr>memory := m2, heap := new_chunk (heap s) b n\<rparr>) (heap s)
      = Some (s\<lparr>memory := m4, heap := new_chunk (heap s) b n\<rparr>)"
    using update_references_ok [OF A] by (simp add: m4_def H(6))
  have run: "compact_phase mmap s additional = Some s'"
    using P m1(1) upd m5(1)
    unfolding compact_phase_def n [symmetric] new_chunk_def m2_def copy_heap_def
    by (simp add: Let_def n64 n [symmetric] physically_relocate_def heap_begin_iterator_def s'_def)
  have sel: "memory s' = m5" "heap s' = \<lparr>c_begin = b, c_end = b + 8 * n,
      c_current = b + 8 * live_words (memory s) os, c_size = n\<rparr>"
    by (simp_all add: s'_def)
  have mv: "moved ?f (memory s) h m5 (new_addr b (memory s) os h)" if h: "h \<in> set os" "marked (memory s) h" for h
  proof (rule relocated_moved [OF A h])
    show "\<not> enqd (memory s) h" using P h(1) by (simp add: no_enqueued_def)
    show "same_object (fold (fixw ?f) (redirected s os b n m1 m2) m2)
        (rebase (new_chunk (heap s) b n) (heap s) h) m5 (new_addr b (memory s) os h)"
      using m5(2) h unfolding m4_def by blast
  qed
  have fx: "ld64 m5 p = ?f (ld64 (memory s) p)" if p: "p \<in> set (fix_addrs s)" for p
  proof -
    have "ld64 m5 p = ld64 m4 p" using m5(3) fix_addr_off_new(1) [OF A p] by (intro ld64_cong) auto
    then show ?thesis using redirected_root [OF A p] unfolding m4_def by simp
  qed
  have out: "m5 x = memory s x"
    if x: "off_heap (heap s) x" "x < b \<or> b + 8 * n \<le> x" "\<forall>p \<in> set (fix_addrs s). x < p \<or> p + 8 \<le> x" for x
  proof -
    have "m4 x = memory s x" unfolding m4_def by (rule redirected_out [OF A x])
    moreover have "m5 x = m4 x" using m5(3) x(2) by blast
    ultimately show ?thesis by simp
  qed
  show ?thesis
    using run mv fx out unfolding compacted_def by (auto simp: s'_def)
qed

section \<open>The new heap\<close>

abbreviation survivors :: "gc_state \<Rightarrow> addr list \<Rightarrow> addr list" where
  "survivors s os \<equiv> filter (marked (memory s)) os"

lemma compacted_seg:
  assumes C: "compacted s os b n s'" and seg: "heap_seg (memory s) a ks e" and os: "os = js @ ks" "distinct os"
  shows "heap_seg (memory s') (b + 8 * live_words (memory s) js)
           (map (new_addr b (memory s) os) (survivors s ks)) (b + 8 * live_words (memory s) os)"
  using seg os(1)
proof (induction ks arbitrary: a js)
  case (Cons k ks)
  have "heap_seg (memory s) (k + 8 * obj_words (memory s) k) ks e" "obj_ok (memory s) k"
    using Cons.prems(1) by auto
  note IH = Cons.IH [OF this(1), of "js @ [k]"]
  have nk: "k \<notin> set js" using Cons.prems(2) os(2) by simp
  show ?case
  proof (cases "marked (memory s) k")
    case True
    have "moved (reloc b (heap s) (memory s) os) (memory s) k (memory s') (new_addr b (memory s) os k)"
      by (rule compactedD(3) [OF C]) (use Cons.prems(2) True in simp_all)
    then have "ld64 (memory s') (new_addr b (memory s) os k) = ld64 (memory s) k" by (simp add: moved_def)
    note hc = obj_header_cong [OF this]
    have "new_addr b (memory s) os k = b + 8 * live_words (memory s) js"
      using nk by (simp add: new_addr_def Cons.prems(2) offset_of_split)
    then show ?thesis
      using IH hc True \<open>obj_ok (memory s) k\<close> Cons.prems(2) by (simp add: algebra_simps)
  next
    case False
    then show ?thesis using IH Cons.prems(2) by simp
  qed
qed simp

lemma compacted_slots:
  assumes "moved f m h m' k"
  shows "slots m' k = map (\<lambda>i. slot0 m' k + 8 * i) [0..<nslots m h]"
    and "\<And>a'. a' \<in> set (slots m' k) \<Longrightarrow> \<exists>a \<in> set (slots m h). ld64 m' a' = f (ld64 m a)"
    and "\<And>a. a \<in> set (slots m h) \<Longrightarrow> \<exists>a' \<in> set (slots m' k). ld64 m' a' = f (ld64 m a)"
proof -
  show sl: "slots m' k = map (\<lambda>i. slot0 m' k + 8 * i) [0..<nslots m h]"
  proof -
    have "ld64 m' k = ld64 m h" using assms by (simp add: moved_def)
    note hc = obj_header_cong [OF this]
    have "nslots m' k = nslots m h" by (simp only: nslots_def hc)
    then show ?thesis by (simp add: slots_def)
  qed
  show "\<exists>a \<in> set (slots m h). ld64 m' a' = f (ld64 m a)" if "a' \<in> set (slots m' k)" for a'
    using that assms unfolding sl by (auto simp: slots_def moved_def)
  show "\<exists>a' \<in> set (slots m' k). ld64 m' a' = f (ld64 m a)" if "a \<in> set (slots m h)" for a
    using that assms unfolding sl by (auto simp: slots_def moved_def)
qed

text \<open>Where a slot of a survivor points, before and after.\<close>

lemma compacted_value:
  assumes P: "compact_pre mmap s os b n" and C: "compacted s os b n s'" and lw: "live_words (memory s) os < n"
    and h: "h \<in> set os" "marked (memory s) h" and a: "a \<in> set (slots (memory s) h)"
  shows "points_to (heap s') (reloc b (heap s) (memory s) os (ld64 (memory s) a)) k'
           \<longleftrightarrow> (\<exists>k. points_to (heap s) (ld64 (memory s) a) k \<and> k' = new_addr b (memory s) os k)"
    and "is_valid_heap_pointer (heap s') (reloc b (heap s) (memory s) os (ld64 (memory s) a))
           \<longleftrightarrow> is_valid_heap_pointer (heap s) (ld64 (memory s) a)"
proof -
  let ?v = "ld64 (memory s) a" and ?r = "reloc b (heap s) (memory s) os"
  note P = P [unfolded compact_pre_def]
  have ok: "heap_ok (heap s) (memory s) os" using P by blast
  have ft: "fresh_target b (heap s) (memory s) os"
    using P lw unfolding fresh_target_def fresh_region_def chunk_ok_def by auto
  note hp' = compactedD(2) [OF C]
  have *: "(\<exists>k. points_to (heap s) ?v k \<and> marked (memory s) k \<and> k \<in> set os
               \<and> unat (?r ?v) = new_addr b (memory s) os k + 16 \<and> is_valid_heap_pointer (heap s') (?r ?v))"
    if v: "is_valid_heap_pointer (heap s) ?v"
  proof -
    obtain k where k: "k \<in> set os" "unat ?v = k + 16" "points_to (heap s) ?v k"
      using heap_okD(4) [OF ok h(1) a] v by (blast elim: val_okE)
    then have "edge (heap s) (memory s) h k" using a by (auto simp: edge_def)
    then have mk: "marked (memory s) k" using P h by (auto simp: closed_marks_def)
    have u: "unat (?r ?v) = new_addr b (memory s) os k + 16" by (rule unat_reloc [OF ok ft v k(1) mk k(2)])
    have lv: "live_val (heap s) (memory s) os ?v" using k mk by (auto simp: live_val_def)
    have "is_valid_pointer ?v" using v by (simp add: is_valid_heap_pointer_def is_valid_pointer_def)
    then have "is_valid_pointer (?r ?v)" by (rule reloc_even [OF ok ft lv])
    then have "is_valid_heap_pointer (heap s') (?r ?v)"
      using new_addr_bounds [OF ok k(1) mk, of b] u
      by (simp add: is_valid_heap_pointer_def is_valid_pointer_def hp')
    then show ?thesis using k mk u by blast
  qed
  have n: "?r ?v = ?v \<and> \<not> is_valid_heap_pointer (heap s') ?v" if v: "\<not> is_valid_heap_pointer (heap s) ?v"
  proof -
    have "\<not> (is_valid_pointer ?v \<and> b \<le> unat ?v \<and> unat ?v \<le> b + 8 * n)"
      using P h(1) a by (auto simp: fresh_region_def)
    then have "\<not> is_valid_heap_pointer (heap s') ?v"
      using lw by (auto simp: is_valid_heap_pointer_def is_valid_pointer_def hp')
    then show ?thesis using v by (simp add: reloc_def)
  qed
  show i: "is_valid_heap_pointer (heap s') (?r ?v) \<longleftrightarrow> is_valid_heap_pointer (heap s) ?v"
    using * n by metis
  show "points_to (heap s') (?r ?v) k' \<longleftrightarrow> (\<exists>k. points_to (heap s) ?v k \<and> k' = new_addr b (memory s) os k)"
  proof (cases "is_valid_heap_pointer (heap s) ?v")
    case True
    then obtain k where k: "points_to (heap s) ?v k" "unat (?r ?v) = new_addr b (memory s) os k + 16"
      using * by blast
    then have "points_to (heap s') (?r ?v) k' \<longleftrightarrow> k' = new_addr b (memory s) os k"
      using i True by (auto simp: points_to_def)
    moreover have "points_to (heap s) ?v j \<longleftrightarrow> j = k" for j using points_to_unique k(1) by blast
    ultimately show ?thesis by simp
  next
    case False
    then show ?thesis using i by (simp add: points_to_def)
  qed
qed

lemma compacted_val_ok:
  assumes P: "compact_pre mmap s os b n" and C: "compacted s os b n s'" and lw: "live_words (memory s) os < n"
    and h: "h \<in> set os" "marked (memory s) h" and a: "a \<in> set (slots (memory s) h)"
  shows "val_ok (heap s') (map (new_addr b (memory s) os) (survivors s os)) (reloc b (heap s) (memory s) os (ld64 (memory s) a))"
  unfolding val_ok_def
proof
  let ?f = "new_addr b (memory s) os" and ?v = "ld64 (memory s) a"
  let ?w = "reloc b (heap s) (memory s) os ?v"
  have ok: "heap_ok (heap s) (memory s) os" using P by (auto simp: compact_pre_def)
  note V = compacted_value [OF P C lw h a]
  assume "is_valid_heap_pointer (heap s') ?w"
  then obtain k where k: "k \<in> set os" "points_to (heap s) ?v k"
    using V(2) heap_okD(4) [OF ok h(1) a] by (blast elim: val_okE)
  then have "edge (heap s) (memory s) h k" using a by (auto simp: edge_def)
  then have "marked (memory s) k" using P h by (auto simp: compact_pre_def closed_marks_def)
  then have "?f k \<in> set (map ?f (survivors s os))" using k(1) by simp
  moreover have "unat ?w = ?f k + 16" using V(1) k(2) by (auto simp: points_to_def)
  ultimately show "\<exists>h\<in>set (map ?f (survivors s os)). unat ?w = h + 16" by blast
qed

lemma compacted_heap:
  assumes P: "compact_pre mmap s os b n" and C: "compacted s os b n s'" and lw: "live_words (memory s) os < n"
  defines "os' \<equiv> map (new_addr b (memory s) os) (survivors s os)"
  shows "heap_ok (heap s') (memory s') os'" "unmarked_heap (memory s') os'" "chunk_ok (heap s')"
    and "inj_on (new_addr b (memory s) os) (set (survivors s os))"
    and "h \<in> set (survivors s os) \<Longrightarrow> edge (heap s') (memory s') (new_addr b (memory s) os h) k'
           \<longleftrightarrow> (\<exists>k. edge (heap s) (memory s) h k \<and> k' = new_addr b (memory s) os k)"
proof -
  let ?f = "new_addr b (memory s) os"
  have ok: "heap_ok (heap s) (memory s) os" and fr: "fresh_region s os b n" using P by (auto simp: compact_pre_def)
  note seg = heap_okD(1) [OF ok]
  note hp' = compactedD(2) [OF C]
  have mv: "moved (reloc b (heap s) (memory s) os) (memory s) h (memory s') (?f h)"
    if "h \<in> set (survivors s os)" for h
    using that by (intro compactedD(3) [OF C]) auto
  have seg': "heap_seg (memory s') b os' (b + 8 * live_words (memory s) os)"
    using compacted_seg [OF C seg, of "[]"] heap_seg_distinct [OF seg] by (simp add: os'_def)
  show "chunk_ok (heap s')" using lw by (simp add: chunk_ok_def hp')
  show "unmarked_heap (memory s') os'"
    using mv by (auto simp: unmarked_heap_def os'_def moved_def)
  have "distinct os'" using seg' by (rule heap_seg_distinct)
  then show "inj_on ?f (set (survivors s os))" by (simp add: os'_def distinct_map)
  show "heap_ok (heap s') (memory s') os'"
    unfolding heap_ok_def
  proof (intro conjI ballI)
    show "heap_seg (memory s') (c_begin (heap s')) os' (c_current (heap s'))" using seg' by (simp add: hp')
    show "c_begin (heap s') mod 8 = 0" using fr by (simp add: hp' fresh_region_def)
    show "c_current (heap s') < 2 ^ 64" using fr lw by (simp add: hp' fresh_region_def)
    fix h' a' assume "h' \<in> set os'" and a': "a' \<in> set (slots (memory s') h')"
    then obtain h where h: "h \<in> set (survivors s os)" "h' = ?f h" by (auto simp: os'_def)
    obtain a where a: "a \<in> set (slots (memory s) h)"
      "ld64 (memory s') a' = reloc b (heap s) (memory s) os (ld64 (memory s) a)"
      using compacted_slots(2) [OF mv [OF h(1)]] a' h(2) by blast
    have hm: "h \<in> set os" "marked (memory s) h" using h(1) by auto
    show "val_ok (heap s') os' (ld64 (memory s') a')"
      using compacted_val_ok [OF P C lw hm a(1)] by (simp add: a(2) os'_def)
  qed
  show "edge (heap s') (memory s') (?f h) k' \<longleftrightarrow> (\<exists>k. edge (heap s) (memory s) h k \<and> k' = ?f k)"
    if h: "h \<in> set (survivors s os)"
  proof -
    have hm: "h \<in> set os" "marked (memory s) h" using h by auto
    have "edge (heap s') (memory s') (?f h) k' \<longleftrightarrow>
        (\<exists>a \<in> set (slots (memory s) h). points_to (heap s') (reloc b (heap s) (memory s) os (ld64 (memory s) a)) k')"
      using compacted_slots(2,3) [OF mv [OF h]] unfolding edge_def by metis
    also have "\<dots> \<longleftrightarrow> (\<exists>k. edge (heap s) (memory s) h k \<and> k' = ?f k)"
      using compacted_value(1) [OF P C lw hm] unfolding edge_def by blast
    finally show ?thesis .
  qed
qed

end
