(* ===== verification/Alloc.thy ===== *)
theory Alloc
  imports Collect
begin

text \<open>
  The allocator of \<open>runtime/gc.c\<close>: the bump allocator with its fall-back to a collection, the
  four allocation functions and \<open>__init\<close>/\<open>__shutdown\<close>; and the invariant \<open>gc_ok\<close> of
  the heap between two operations of the mutator, which every allocation and every collection keeps.
\<close>

section \<open>Operations\<close>

definition INIT_HEAP_SIZE :: nat where "INIT_HEAP_SIZE = MINIMUM_HEAP_CAPACITY"

text \<open>The sum of the current pointer and the size wraps around before it is compared.\<close>

definition gc_alloc_on_existing_heap :: "u64 \<Rightarrow> gc_state \<Rightarrow> addr option \<times> gc_state" where
  "gc_alloc_on_existing_heap sz s =
     (let hp = heap s; current = (c_current hp + 8 * unat sz) mod 2 ^ 64 in
      if current \<le> c_end hp
      then (Some (c_current hp),
            s\<lparr>heap := hp\<lparr>c_current := current\<rparr>,
              memory := memset (memory s) (c_current hp) 0 (unat (sz * 8))\<rparr>)
      else (None, s))"

definition gc_alloc :: "mmap_fun \<Rightarrow> u64 \<Rightarrow> gc_state \<Rightarrow> (addr option \<times> gc_state) res" where
  "gc_alloc mmap sz s =
     (case mark_phase s of None \<Rightarrow> Inl Killed
      | Some s \<Rightarrow> case compact_phase mmap s (unat sz) of None \<Rightarrow> Inl Killed
      | Some s \<Rightarrow> Inr (gc_alloc_on_existing_heap sz s))"

definition alloc :: "mmap_fun \<Rightarrow> u64 \<Rightarrow> gc_state \<Rightarrow> (addr option \<times> gc_state) res" where
  "alloc mmap sz s =
     (let sz = BYTES_TO_WORDS sz in
      case gc_alloc_on_existing_heap sz s of
        (Some p, s) \<Rightarrow> Inr (Some p, s)
      | (None, s) \<Rightarrow> gc_alloc mmap sz s)"

definition init_object :: "u64 \<Rightarrow> addr option \<times> gc_state \<Rightarrow> (addr \<times> gc_state) res" where
  "init_object header = (\<lambda>(obj, s). case obj of None \<Rightarrow> Inl Killed
     | Some obj \<Rightarrow> Inr (obj, s\<lparr>memory := st64 (st64 (memory s) obj header) (obj + 8) 0\<rparr>))"

definition alloc_string :: "mmap_fun \<Rightarrow> u64 \<Rightarrow> gc_state \<Rightarrow> (addr \<times> gc_state) res" where
  "alloc_string mmap len s =
     bindR (alloc mmap (string_size len) s) (init_object (mk_header STRING_TAG len))"

definition alloc_array :: "mmap_fun \<Rightarrow> u64 \<Rightarrow> gc_state \<Rightarrow> (addr \<times> gc_state) res" where
  "alloc_array mmap len s =
     bindR (alloc mmap (array_size len) s) (init_object (mk_header ARRAY_TAG len))"

definition alloc_sexp :: "mmap_fun \<Rightarrow> u64 \<Rightarrow> gc_state \<Rightarrow> (addr \<times> gc_state) res" where
  "alloc_sexp mmap members s =
     bindR (alloc mmap (sexp_size members) s) (\<lambda>r.
     bindR (init_object (mk_header SEXP_TAG members) r) (\<lambda>(obj, s).
     Inr (obj, s\<lparr>memory := st64 (memory s) (obj + 16) 0\<rparr>)))"

definition alloc_closure :: "mmap_fun \<Rightarrow> u64 \<Rightarrow> gc_state \<Rightarrow> (addr \<times> gc_state) res" where
  "alloc_closure mmap captured s =
     bindR (alloc mmap (closure_size captured) s) (init_object (mk_header CLOSURE_TAG captured))"

definition init_heap :: "mmap_fun \<Rightarrow> gc_state \<Rightarrow> gc_state res" where
  "init_heap mmap s =
     (case mmap s (INIT_HEAP_SIZE * 8) of None \<Rightarrow> Inl (Exit 1)
      | Some b \<Rightarrow>
          Inr (clear_extra_roots
            (s\<lparr>memory := memset (memory s) b 0 (INIT_HEAP_SIZE * 8),
               heap := \<lparr>c_begin = b, c_end = b + 8 * INIT_HEAP_SIZE, c_current = b,
                         c_size = INIT_HEAP_SIZE\<rparr>\<rparr>)))"

definition shutdown :: "gc_state \<Rightarrow> gc_state" where
  "shutdown s = s\<lparr>heap := \<lparr>c_begin = 0, c_end = 0, c_current = 0, c_size = 0\<rparr>,
                  gc_stack_top := 0, gc_stack_bottom := 0\<rparr>"

section \<open>The invariant between two operations\<close>

text \<open>
  Every word of the heap and of the regions the collector reads that looks like a pointer into the
  heap's mapping, used or not, is the address of the contents of an object. (A word that pointed
  into the free part would become a bad pointer when the heap grows over it.) The word at the stack
  bottom, which the compaction reads and the marking does not, is no heap pointer.
\<close>

definition whole :: "memory_chunk \<Rightarrow> memory_chunk" where
  "whole hp = hp\<lparr>c_current := c_end hp\<rparr>"

definition root_word_ok :: "gc_state \<Rightarrow> addr list \<Rightarrow> addr \<Rightarrow> bool" where
  "root_word_ok s os a \<longleftrightarrow>
     a mod 8 = 0 \<and> off_heap (heap s) a \<and> val_ok (whole (heap s)) os (ld64 (memory s) a) \<and>
     (a \<in> set (root_addrs s) \<or> \<not> is_valid_heap_pointer (whole (heap s)) (ld64 (memory s) a))"

definition gc_ok :: "gc_state \<Rightarrow> addr list \<Rightarrow> bool" where
  "gc_ok s os \<longleftrightarrow>
     heap_seg (memory s) (c_begin (heap s)) os (c_current (heap s)) \<and> unmarked_heap (memory s) os \<and>
     chunk_ok (heap s) \<and> c_begin (heap s) mod 8 = 0 \<and> 0 < c_begin (heap s) \<and> c_end (heap s) < 2 ^ 64 \<and>
     (\<forall>h \<in> set os. \<forall>a \<in> set (slots (memory s) h). val_ok (whole (heap s)) os (ld64 (memory s) a)) \<and>
     start_custom_data s \<le> stop_custom_data s \<and> set (root_addrs s) \<subseteq> set (fix_addrs s) \<and>
     (\<forall>a \<in> set (fix_addrs s). root_word_ok s os a)"

lemma gc_okD:
  assumes "gc_ok s os"
  shows "heap_seg (memory s) (c_begin (heap s)) os (c_current (heap s))" "unmarked_heap (memory s) os"
    "chunk_ok (heap s)" "c_begin (heap s) mod 8 = 0" "0 < c_begin (heap s)" "c_end (heap s) < 2 ^ 64"
    "start_custom_data s \<le> stop_custom_data s" "set (root_addrs s) \<subseteq> set (fix_addrs s)"
    "\<And>h a. h \<in> set os \<Longrightarrow> a \<in> set (slots (memory s) h) \<Longrightarrow> val_ok (whole (heap s)) os (ld64 (memory s) a)"
    "\<And>a. a \<in> set (fix_addrs s) \<Longrightarrow> root_word_ok s os a"
  using assms by (auto simp: gc_ok_def)

lemma val_ok_whole: "chunk_ok hp \<Longrightarrow> val_ok (whole hp) os v \<Longrightarrow> val_ok hp os v"
  by (auto simp: val_ok_def whole_def is_valid_heap_pointer_def chunk_ok_def)

lemma gc_ok_heap_ok: "gc_ok s os \<Longrightarrow> heap_ok (heap s) (memory s) os"
  using gc_okD [of s os] val_ok_whole by (auto simp: heap_ok_def chunk_ok_def)

lemma gc_ok_roots_ok:
  assumes "gc_ok s os"
  shows "roots_ok s os"
  unfolding roots_ok_def
proof (intro conjI ballI)
  note D = gc_okD [OF assms]
  show "c_current (heap s) \<le> c_end (heap s)" using D(3) by (simp add: chunk_ok_def)
  fix a assume "a \<in> set (root_addrs s)"
  then have "root_word_ok s os a" using D(8,10) by blast
  then show "off_heap (heap s) a" "val_ok (heap s) os (ld64 (memory s) a)"
    using val_ok_whole [OF D(3)] by (auto simp: root_word_ok_def)
qed

section \<open>Allocating from the heap at hand\<close>

text \<open>A heap object of kind \<open>t\<close> and length \<open>len\<close>, every byte of it after the header zero.\<close>

definition blank_object :: "mem \<Rightarrow> addr \<Rightarrow> lama_type \<Rightarrow> nat \<Rightarrow> bool" where
  "blank_object m h t len \<longleftrightarrow>
     obj_ok m h \<and> obj_type m h = t \<and> obj_len m h = len \<and>
     (\<forall>x. h + 8 \<le> x \<longrightarrow> x < h + 8 * obj_words m h \<longrightarrow> m x = 0)"

fun tag_of :: "lama_type \<Rightarrow> u64" where
  "tag_of ARRAY = ARRAY_TAG" | "tag_of STRING = STRING_TAG"
| "tag_of CLOSURE = CLOSURE_TAG" | "tag_of SEXP = SEXP_TAG"

definition type_words :: "lama_type \<Rightarrow> nat \<Rightarrow> nat" where
  "type_words t len = (type_size t len + 7) div 8"

definition with_object :: "gc_state \<Rightarrow> lama_type \<Rightarrow> u64 \<Rightarrow> gc_state" where
  "with_object s t len =
     (let p = c_current (heap s); w = type_words t (unat len) in
      s\<lparr>heap := (heap s)\<lparr>c_current := p + 8 * w\<rparr>,
        memory := st64 (st64 (memset (memory s) p 0 (8 * w)) p (mk_header (tag_of t) len)) (p + 8) 0\<rparr>)"

lemma tag_of_small: "unat (tag_of t) < 8"
  by (cases t) (simp_all add: tag_defs)

lemma ld64_zero: "(\<And>i. i < 8 \<Longrightarrow> m (a + i) = 0) \<Longrightarrow> ld64 m a = 0"
  by (rule bit_word_eqI) (simp add: bit_ld64)

lemma same_sizes_addrs:
  "root_addrs (s\<lparr>heap := hp, memory := m\<rparr>) = root_addrs s"
  "fix_addrs (s\<lparr>heap := hp, memory := m\<rparr>) = fix_addrs s"
  by (simp_all add: root_addrs_def fix_addrs_def pool_def in_scanned_region_def)

lemma with_object_blank:
  fixes s :: gc_state and len :: u64
  assumes len: "unat len < 2 ^ 60"
  defines "p \<equiv> c_current (heap s)"
  shows "blank_object (memory (with_object s t len)) p t (unat len)"
    and "obj_words (memory (with_object s t len)) p = type_words t (unat len)"
    and "\<not> marked (memory (with_object s t len)) p" "\<not> enqd (memory (with_object s t len)) p"
    and "x < p \<or> p + 8 * type_words t (unat len) \<le> x \<Longrightarrow> memory (with_object s t len) x = memory s x"
proof -
  let ?m = "memory (with_object s t len)" and ?w = "type_words t (unat len)"
  have w: "2 \<le> ?w" by (cases t) (simp_all add: type_words_def)
  have m: "?m = st64 (st64 (memset (memory s) p 0 (8 * ?w)) p (mk_header (tag_of t) len)) (p + 8) 0"
    by (simp add: with_object_def p_def Let_def)
  have hd: "ld64 ?m p = mk_header (tag_of t) len" by (simp add: m ld64_st64_other ld64_st64_same)
  have tg: "TAG (ld64 ?m p) = tag_of t" using TAG_header tag_of_small by (simp add: hd)
  have ln: "LEN (ld64 ?m p) = len" using LEN_header tag_of_small len by (simp add: hd)
  have ty: "get_type_header_ptr ?m p = Some t"
    unfolding get_type_header_ptr_def Let_def tg by (cases t) (simp_all add: tag_defs)
  have o: "obj_ok ?m p" "obj_type ?m p = t" "obj_len ?m p = unat len"
    using len by (simp_all add: obj_ok_def obj_type_def obj_len_def ty ln)
  show ow: "obj_words ?m p = ?w" by (simp add: obj_words_def obj_bytes_def o type_words_def)
  have z: "?m x = 0" if "p + 8 \<le> x" "x < p + 8 * ?w" for x
    using that by (auto simp: m st64_def memset_def)
  show "blank_object ?m p t (unat len)" using o z ow by (simp add: blank_object_def)
  have "ld64 ?m (p + 8) = 0" by (rule ld64_zero) (use z w in simp)
  then show "\<not> marked ?m p" "\<not> enqd ?m p" by (simp_all add: marked_def enqd_def)
  show "?m x = memory s x" if "x < p \<or> p + 8 * ?w \<le> x"
    using that w by (auto simp: m st64_def memset_def)
qed

lemma val_ok_mono: "val_ok hp os v \<Longrightarrow> set os \<subseteq> set os' \<Longrightarrow> val_ok hp os' v"
  by (auto simp: val_ok_def)

lemma with_object_words:
  assumes ok: "gc_ok s os" and len: "unat len < 2 ^ 60"
  shows "\<And>a. a + 8 \<le> c_current (heap s) \<or> c_current (heap s) + 8 * type_words t (unat len) \<le> a \<Longrightarrow>
      ld64 (memory (with_object s t len)) a = ld64 (memory s) a"
    and "\<And>h. h \<in> set os \<Longrightarrow> ld64 (memory (with_object s t len)) h = ld64 (memory s) h"
    and "\<And>h. h \<in> set os \<Longrightarrow> ld64 (memory (with_object s t len)) (h + 8) = ld64 (memory s) (h + 8)"
proof -
  show ld: "ld64 (memory (with_object s t len)) a = ld64 (memory s) a"
    if "a + 8 \<le> c_current (heap s) \<or> c_current (heap s) + 8 * type_words t (unat len) \<le> a" for a
    using that with_object_blank(5) [OF len, where s = s and t = t] by (intro ld64_cong) auto
  show "ld64 (memory (with_object s t len)) h = ld64 (memory s) h"
    "ld64 (memory (with_object s t len)) (h + 8) = ld64 (memory s) (h + 8)" if "h \<in> set os" for h
    using heap_seg_in [OF gc_okD(1) [OF ok] that] heap_seg_header_bound [OF gc_okD(1) [OF ok] that] by (auto intro!: ld)
qed

text \<open>The slots of the new object are zero, those of the old ones are what they were.\<close>

lemma with_object_values:
  assumes ok: "gc_ok s os" and len: "unat len < 2 ^ 60"
    and h: "h \<in> set (os @ [c_current (heap s)])" and a: "a \<in> set (slots (memory (with_object s t len)) h)"
  shows "val_ok (whole (heap s)) (os @ [c_current (heap s)]) (ld64 (memory (with_object s t len)) a)"
proof (cases "h \<in> set os")
  case True
  note D = gc_okD [OF ok] and W = with_object_words [OF ok len, where t = t]
  have a': "a \<in> set (slots (memory s) h)" using a slots_header_cong(3) [OF W(2) [OF True]] by simp
  have "a + 8 \<le> c_current (heap s)" using slot_in_object [OF a'] heap_seg_in [OF D(1) True] by linarith
  then have "val_ok (whole (heap s)) os (ld64 (memory (with_object s t len)) a)" using D(9) [OF True a'] W(1) by simp
  then show ?thesis by (rule val_ok_mono) auto
next
  case False
  let ?m = "memory (with_object s t len)" and ?p = "c_current (heap s)"
  have hp: "h = ?p" using False h by simp
  have "ld64 ?m a = 0"
  proof (rule ld64_zero)
    fix i :: nat assume "i < 8"
    then have "?p + 8 \<le> a + i" "a + i < ?p + 8 * obj_words ?m ?p"
      using slot_bounds [OF a [unfolded hp]] obj_bytes_le_words [of ?m ?p] by linarith+
    then show "?m (a + i) = 0"
      using with_object_blank(1) [OF len, where s = s and t = t] by (simp add: blank_object_def)
  qed
  then show ?thesis using gc_okD(5) [OF ok] by (simp add: val_ok_def is_valid_heap_pointer_def) (simp add: whole_def)
qed

lemma with_object_gc_ok:
  assumes ok: "gc_ok s os" and len: "unat len < 2 ^ 60"
    and room: "c_current (heap s) + 8 * type_words t (unat len) \<le> c_end (heap s)"
  shows "gc_ok (with_object s t len) (os @ [c_current (heap s)])"
proof -
  let ?s = "with_object s t len" and ?p = "c_current (heap s)" and ?w = "type_words t (unat len)"
  note D = gc_okD [OF ok] and W = with_object_words [OF ok len, where t = t]
  note B = with_object_blank [OF len, where s = s and t = t]
  have hp: "heap ?s = (heap s)\<lparr>c_current := ?p + 8 * ?w\<rparr>" by (simp add: with_object_def Let_def)
  have wh: "whole (heap ?s) = whole (heap s)" by (simp add: hp whole_def)
  have adr: "root_addrs ?s = root_addrs s" "fix_addrs ?s = fix_addrs s"
    by (simp_all add: with_object_def Let_def same_sizes_addrs)
  have seg: "heap_seg (memory ?s) (c_begin (heap s)) os ?p" by (rule heap_seg_cong [OF D(1) W(2)])
  have seg': "heap_seg (memory ?s) (c_begin (heap ?s)) (os @ [?p]) (c_current (heap ?s))"
    using seg B(1,2) by (auto simp: heap_seg_append hp blank_object_def)
  have roots: "root_word_ok ?s (os @ [?p]) a" if "a \<in> set (fix_addrs s)" for a
  proof -
    have r: "root_word_ok s os a" using D(10) that by blast
    then have "a + 8 \<le> ?p \<or> ?p + 8 * ?w \<le> a"
      using room D(3) by (auto simp: root_word_ok_def off_heap_def chunk_ok_def)
    then have "ld64 (memory ?s) a = ld64 (memory s) a" by (rule W(1))
    moreover have "off_heap (heap ?s) a = off_heap (heap s) a" by (simp add: hp off_heap_def)
    ultimately show ?thesis
      using r val_ok_mono [of "whole (heap s)" os _ "os @ [?p]"] unfolding root_word_ok_def wh adr by auto
  qed
  have um: "unmarked_heap (memory ?s) (os @ [?p])"
    using D(2) B(3,4) fwd_word_cong(1,2) [OF W(3)] by (simp add: unmarked_heap_def)
  show ?thesis
    unfolding gc_ok_def adr wh
  proof (intro conjI ballI)
    show "chunk_ok (heap ?s)" using D(3) room by (auto simp: chunk_ok_def hp)
    show "start_custom_data ?s \<le> stop_custom_data ?s" using D(7) by (simp add: with_object_def Let_def)
    show "c_begin (heap ?s) mod 8 = 0" "0 < c_begin (heap ?s)" "c_end (heap ?s) < 2 ^ 64"
      using D(4-6) by (simp_all add: hp)
  qed (use seg' um with_object_values [OF ok len] roots D(8) in blast)+
qed

section \<open>A collection\<close>

text \<open>The words of the objects that are reachable, and where a collection moves one of them.\<close>

definition live_size :: "gc_state \<Rightarrow> addr list \<Rightarrow> nat" where
  "live_size s os = sum_list (map (obj_words (memory s)) (filter (live s) os))"

definition gc_addr :: "addr \<Rightarrow> gc_state \<Rightarrow> addr list \<Rightarrow> addr \<Rightarrow> addr" where
  "gc_addr b s os h = b + 8 * live_size s (takeWhile (\<lambda>k. k \<noteq> h) os)"

definition gc_word :: "addr \<Rightarrow> gc_state \<Rightarrow> addr list \<Rightarrow> u64 \<Rightarrow> u64" where
  "gc_word b s os v =
     (if is_valid_heap_pointer (heap s) v then of_nat (gc_addr b s os (unat v - 16) + 16) else v)"

text \<open>
  What is asked of the new mapping: it is aligned and inside the address space, it overlaps neither
  the old heap nor the words the collector redirects, and no word of the heap or of a root looks
  like a pointer into it.
\<close>

definition fresh_mapping :: "gc_state \<Rightarrow> addr list \<Rightarrow> addr \<Rightarrow> nat \<Rightarrow> bool" where
  "fresh_mapping s os b n \<longleftrightarrow> 0 < b \<and> fresh_region s os b n \<and>
     (\<forall>p \<in> set (fix_addrs s). let v = unat (ld64 (memory s) p) in
        \<not> (is_valid_pointer (ld64 (memory s) p) \<and> b \<le> v \<and> v \<le> b + 8 * n))"

lemma live_words_filter:
  "(\<And>h. h \<in> set hs \<Longrightarrow> marked m h = P h \<and> obj_words m h = f h) \<Longrightarrow>
     live_words m hs = sum_list (map f (filter P hs))"
  by (induction hs) auto

lemma live_pointer:
  assumes ok: "gc_ok s os" and p: "p \<in> set (fix_addrs s)" and v: "is_valid_heap_pointer (heap s) (ld64 (memory s) p)"
  obtains k where "k \<in> set os" "unat (ld64 (memory s) p) = k + 16" "live s k" "p \<in> set (root_addrs s)"
proof -
  note D = gc_okD [OF ok]
  have vw: "is_valid_heap_pointer (whole (heap s)) (ld64 (memory s) p)"
    using v D(3) by (auto simp: is_valid_heap_pointer_def whole_def chunk_ok_def)
  then obtain k where k: "k \<in> set os" "unat (ld64 (memory s) p) = k + 16"
    using D(10) [OF p] by (auto simp: root_word_ok_def val_ok_def)
  have pr: "p \<in> set (root_addrs s)" using D(10) [OF p] vw by (auto simp: root_word_ok_def)
  have "points_to (heap s) (ld64 (memory s) p) k" using v k(2) by (simp add: points_to_def)
  then have "live s k" using pr unfolding live_def root_reach_def by blast
  then show thesis using that k pr by blast
qed

lemma live_edge: "live s h \<Longrightarrow> edge (heap s) (memory s) h k \<Longrightarrow> live s k"
  unfolding live_def root_reach_def by (meson rtranclp.rtrancl_into_rtrancl)

text \<open>What holds after the mark phase.\<close>

lemma marked_graph:
  assumes ok: "gc_ok s os" and fr: "fwd_frame os (memory s) m"
    and mk: "\<forall>h \<in> set os. marked m h \<longleftrightarrow> live s h"
  shows "closed_marks (heap s) m os" "live_words m os = live_size s os" "new_addr b m os = gc_addr b s os"
proof -
  note hok = gc_ok_heap_ok [OF ok]
  note seg = heap_okD(1) [OF hok]
  show "closed_marks (heap s) m os"
    unfolding closed_marks_def
  proof (intro ballI allI impI)
    fix h k assume h: "h \<in> set os" "marked m h" "edge (heap s) m h k"
    then have e: "edge (heap s) (memory s) h k" using fwd_frame_heap(5) [OF fr seg h(1)] by simp
    then have "k \<in> set os" using edge_in_heap [OF hok h(1)] by blast
    then show "marked m k" using mk live_edge e h(1,2) by blast
  qed
  have lw: "live_words m hs = live_size s hs" if "set hs \<subseteq> set os" for hs
    unfolding live_size_def
    using that mk fwd_frame_heap(2) [OF fr seg] by (intro live_words_filter) auto
  show "live_words m os = live_size s os" by (rule lw) simp
  show "new_addr b m os = gc_addr b s os"
  proof
    fix h
    have "set (takeWhile (\<lambda>k. k \<noteq> h) os) \<subseteq> set os" by (auto dest: set_takeWhileD)
    then show "new_addr b m os h = gc_addr b s os h"
      using lw by (simp add: new_addr_def offset_of_def gc_addr_def)
  qed
qed

lemma marked_state:
  assumes ok: "gc_ok s os" and fr: "fwd_frame os (memory s) m"
    and mk: "\<forall>h \<in> set os. marked m h \<longleftrightarrow> live s h"
  defines "s1 \<equiv> s\<lparr>memory := m\<rparr>"
  shows "heap_ok (heap s1) m os" "closed_marks (heap s1) m os"
    and "live_words m os = live_size s os" "new_addr b m os = gc_addr b s os"
    and "reloc b (heap s1) m os = gc_word b s os" "fix_addrs s1 = fix_addrs s" "root_addrs s1 = root_addrs s"
    and "\<And>a. a \<in> set (fix_addrs s) \<Longrightarrow> ld64 m a = ld64 (memory s) a"
    and "fix_addrs_ok s1 os" "fresh_region s1 os b n = fresh_region s os b n"
proof -
  note D = gc_okD [OF ok]
  note hok = gc_ok_heap_ok [OF ok]
  note seg = heap_okD(1) [OF hok]
  show "heap_ok (heap s1) m os" by (simp add: s1_def fwd_frame_heap_ok [OF fr hok])
  show adr: "fix_addrs s1 = fix_addrs s" "root_addrs s1 = root_addrs s"
    by (simp_all add: s1_def root_addrs_def fix_addrs_def pool_def in_scanned_region_def)
  note M = marked_graph [OF ok fr mk]
  show "closed_marks (heap s1) m os" using M(1) by (simp add: s1_def)
  show "live_words m os = live_size s os" and na: "new_addr b m os = gc_addr b s os" by (rule M)+
  show "reloc b (heap s1) m os = gc_word b s os"
    by (simp add: fun_eq_iff reloc_def gc_word_def na s1_def)
  have cc: "c_current (heap s) \<le> c_end (heap s)" using D(3) by (simp add: chunk_ok_def)
  show ld: "ld64 m a = ld64 (memory s) a" if "a \<in> set (fix_addrs s)" for a
    using D(10) [OF that] fwd_frame_off_heap [OF fr hok _ cc] by (simp add: root_word_ok_def)
  show "fix_addrs_ok s1 os"
    unfolding fix_addrs_ok_def adr
  proof (intro conjI ballI)
    show "start_custom_data s1 \<le> stop_custom_data s1" using D(7) by (simp add: s1_def)
    fix p assume p: "p \<in> set (fix_addrs s)"
    note r = D(10) [OF p]
    show "p mod 8 = 0" "off_heap (heap s1) p" using r by (simp_all add: root_word_ok_def s1_def)
    show "live_val (heap s1) (memory s1) os (ld64 (memory s1) p)"
      unfolding live_val_def
    proof
      assume "is_valid_heap_pointer (heap s1) (ld64 (memory s1) p)"
      then have v: "is_valid_heap_pointer (heap s) (ld64 (memory s) p)" using ld [OF p] by (simp add: s1_def)
      then obtain k where "k \<in> set os" "unat (ld64 (memory s) p) = k + 16" "live s k"
        using live_pointer [OF ok p] by blast
      then show "\<exists>k\<in>set os. marked (memory s1) k \<and> unat (ld64 (memory s1) p) = k + 16"
        using mk ld [OF p] by (auto simp: s1_def)
    qed
  qed
  have "slots m h = slots (memory s) h" "\<And>a. a \<in> set (slots (memory s) h) \<Longrightarrow> ld64 m a = ld64 (memory s) a"
    if "h \<in> set os" for h
    using fwd_frame_heap(3) [OF fr seg that] fwd_frame_slot [OF fr seg that] by auto
  then show "fresh_region s1 os b n = fresh_region s os b n"
    unfolding fresh_region_def adr by (simp add: s1_def)
qed

text \<open>What a collection makes of the state.\<close>

definition collected :: "gc_state \<Rightarrow> addr list \<Rightarrow> addr \<Rightarrow> nat \<Rightarrow> gc_state \<Rightarrow> bool" where
  "collected s os b n s' \<longleftrightarrow>
     s' = s\<lparr>memory := memory s', heap := heap s'\<rparr> \<and>
     heap s' = \<lparr>c_begin = b, c_end = b + 8 * n, c_current = b + 8 * live_size s os, c_size = n\<rparr> \<and>
     (\<forall>h \<in> set os. live s h \<longrightarrow> moved (gc_word b s os) (memory s) h (memory s') (gc_addr b s os h)) \<and>
     (\<forall>p \<in> set (fix_addrs s). ld64 (memory s') p = gc_word b s os (ld64 (memory s) p)) \<and>
     (\<forall>x. off_heap (heap s) x \<longrightarrow> x < b \<or> b + 8 * n \<le> x \<longrightarrow>
        (\<forall>p \<in> set (fix_addrs s). x < p \<or> p + 8 \<le> x) \<longrightarrow> memory s' x = memory s x)"

text \<open>The objects that survive keep their identity, and so do the pointers between them.\<close>

definition same_graph :: "gc_state \<Rightarrow> addr list \<Rightarrow> addr \<Rightarrow> gc_state \<Rightarrow> bool" where
  "same_graph s os b s' \<longleftrightarrow>
     inj_on (gc_addr b s os) {h \<in> set os. live s h} \<and>
     (\<forall>h k'. h \<in> set os \<longrightarrow> live s h \<longrightarrow>
        edge (heap s') (memory s') (gc_addr b s os h) k'
          = (\<exists>k. edge (heap s) (memory s) h k \<and> k' = gc_addr b s os k))"

definition maps_fresh :: "mmap_fun \<Rightarrow> gc_state \<Rightarrow> addr list \<Rightarrow> addr \<Rightarrow> nat \<Rightarrow> bool" where
  "maps_fresh mmap s os b n \<longleftrightarrow>
     (\<forall>m. mmap (s\<lparr>memory := m\<rparr>) (8 * n) = Some b) \<and> fresh_mapping s os b n"

lemma moved_off_forward:
  assumes fr: "fwd_frame os m0 m" and seg: "heap_seg m0 a os e" and h: "h \<in> set os" and mv: "moved f m h m' k"
  shows "moved f m0 h m' k"
proof -
  have hd: "ld64 m h = ld64 m0 h" by (rule fwd_frame_header [OF fr seg h])
  note sl = slots_header_cong(1,2) [OF hd]
  have by_eq: "m (h + j) = m0 (h + j)" if j: "16 \<le> j" "j < obj_bytes m0 h" for j
  proof -
    have "h + j < k + 8 \<or> k + 16 \<le> h + j" if k: "k \<in> set os" for k
      using heap_seg_disjoint [OF seg h k] j obj_bytes_le_words [of m0 h] obj_words_ge_2 [OF heap_seg_ok [OF seg k]]
      by (cases "k = h") fastforce+
    then show ?thesis using fr by (simp add: fwd_frame_def)
  qed
  have "ld64 m (slot0 m0 h + 8 * i) = ld64 m0 (slot0 m0 h + 8 * i)" if "i < nslots m0 h" for i
    by (rule fwd_frame_slot [OF fr seg h]) (use that in \<open>simp add: slots_def\<close>)
  then show ?thesis
    using mv hd by_eq obj_header_cong(4) [OF hd] unfolding moved_def sl by simp
qed

lemma unat_gc_word:
  assumes "is_valid_heap_pointer (heap s) v" "unat v = k + 16" "k \<in> set os" "live s k"
    and "b + 8 * live_size s os < 2 ^ 64" "heap_seg (memory s) (c_begin (heap s)) os e"
  shows "unat (gc_word b s os v) = gc_addr b s os k + 16" "gc_addr b s os k + 16 \<le> b + 8 * live_size s os"
proof -
  obtain xs ys where os: "os = xs @ k # ys" "k \<notin> set xs" using split_list_first [OF assms(3)] by blast
  have tk: "takeWhile (\<lambda>j. j \<noteq> k) os = xs"
    unfolding os(1) using os(2) by (subst takeWhile_append2) auto
  have "obj_ok (memory s) k" using heap_seg_ok [OF assms(6,3)] .
  then have "gc_addr b s os k + 16 \<le> b + 8 * live_size s os"
    using tk os(1) assms(4) obj_words_ge_2 [of "memory s" k]
    by (simp add: gc_addr_def live_size_def)
  then show "gc_addr b s os k + 16 \<le> b + 8 * live_size s os" .
  then have "gc_addr b s os k + 16 < 2 ^ 64" using assms(5) by linarith
  then have "unat (of_nat (gc_addr b s os k + 16) :: u64) = gc_addr b s os k + 16" by (rule unat_of_nat_u64)
  then show "unat (gc_word b s os v) = gc_addr b s os k + 16"
    using assms(1,2) by (simp add: gc_word_def)
qed

lemma collected_addrs:
  assumes "collected s os b n s'"
  shows "heap s' = \<lparr>c_begin = b, c_end = b + 8 * n, c_current = b + 8 * live_size s os, c_size = n\<rparr>"
    "fix_addrs s' = fix_addrs s" "root_addrs s' = root_addrs s" "start_custom_data s' = start_custom_data s"
    "stop_custom_data s' = stop_custom_data s"
proof -
  note C = assms [unfolded collected_def]
  show "heap s' = \<lparr>c_begin = b, c_end = b + 8 * n, c_current = b + 8 * live_size s os, c_size = n\<rparr>" using C by blast
  have e: "s' = s\<lparr>memory := memory s', heap := heap s'\<rparr>" using C by blast
  show "fix_addrs s' = fix_addrs s" "root_addrs s' = root_addrs s" "start_custom_data s' = start_custom_data s"
    "stop_custom_data s' = stop_custom_data s"
    by (subst e; simp add: root_addrs_def fix_addrs_def pool_def in_scanned_region_def)+
qed

text \<open>
  A word that does not look like a pointer into the new mapping is, redirected, a pointer into it
  only if it was a heap pointer; if what it pointed to is live it is again a good word.
\<close>

lemma redirected_pointer:
  assumes "is_valid_heap_pointer (whole (heap s')) (gc_word b s os v)" "collected s os b n s'"
    and "\<not> (is_valid_pointer v \<and> b \<le> unat v \<and> unat v \<le> b + 8 * n)"
  shows "is_valid_heap_pointer (heap s) v"
  using assms(1,3)
  by (auto simp: gc_word_def is_valid_heap_pointer_def is_valid_pointer_def whole_def collected_addrs(1) [OF assms(2)]
      split: if_splits)

lemma redirected_val_ok:
  assumes ok: "gc_ok s os" and col: "collected s os b n s'" and b64: "b + 8 * live_size s os < 2 ^ 64"
    and nv: "\<not> (is_valid_pointer v \<and> b \<le> unat v \<and> unat v \<le> b + 8 * n)"
    and lv: "is_valid_heap_pointer (heap s) v \<Longrightarrow> \<exists>k \<in> set os. unat v = k + 16 \<and> live s k"
  shows "val_ok (whole (heap s')) (map (gc_addr b s os) (filter (live s) os)) (gc_word b s os v)"
  unfolding val_ok_def
proof
  assume "is_valid_heap_pointer (whole (heap s')) (gc_word b s os v)"
  then have v: "is_valid_heap_pointer (heap s) v" using col nv by (rule redirected_pointer)
  then obtain k where k: "k \<in> set os" "unat v = k + 16" "live s k" using lv by blast
  have "unat (gc_word b s os v) = gc_addr b s os k + 16"
    by (rule unat_gc_word(1) [OF v k(2,1,3) b64 gc_okD(1) [OF ok]])
  then show "\<exists>h\<in>set (map (gc_addr b s os) (filter (live s) os)). unat (gc_word b s os v) = h + 16" using k by auto
qed

lemma collected_gc_ok:
  assumes ok: "gc_ok s os" and col: "collected s os b n s'" and fm: "fresh_mapping s os b n"
    and H: "heap_ok (heap s') (memory s') (map (gc_addr b s os) (filter (live s) os))"
      "unmarked_heap (memory s') (map (gc_addr b s os) (filter (live s) os))" "chunk_ok (heap s')"
    and lw: "live_size s os < n"
  shows "gc_ok s' (map (gc_addr b s os) (filter (live s) os))"
proof -
  let ?os = "map (gc_addr b s os) (filter (live s) os)"
  note D = gc_okD [OF ok]
  note hok = gc_ok_heap_ok [OF ok]
  note C = col [unfolded collected_def]
  note hp' = collected_addrs(1) [OF col] and adr = collected_addrs(2-5) [OF col]
  have b64: "b + 8 * live_size s os < 2 ^ 64" using fm lw by (simp add: fresh_mapping_def fresh_region_def)
  note new = redirected_val_ok [OF ok col b64]
  show ?thesis
    unfolding gc_ok_def adr
  proof (intro conjI ballI)
    show "heap_seg (memory s') (c_begin (heap s')) ?os (c_current (heap s'))" by (rule heap_okD(1) [OF H(1)])
    show "c_begin (heap s') mod 8 = 0" "0 < c_begin (heap s')" "c_end (heap s') < 2 ^ 64"
      using fm by (simp_all add: hp' fresh_mapping_def fresh_region_def)
    fix h' a assume h': "h' \<in> set ?os" and a: "a \<in> set (slots (memory s') h')"
    then obtain h where h: "h \<in> set os" "live s h" "h' = gc_addr b s os h" by auto
    have "moved (gc_word b s os) (memory s) h (memory s') h'" using C h by blast
    from compacted_slots(2) [OF this a]
    obtain a0 where a0: "a0 \<in> set (slots (memory s) h)" "ld64 (memory s') a = gc_word b s os (ld64 (memory s) a0)"
      by blast
    show "val_ok (whole (heap s')) ?os (ld64 (memory s') a)"
      unfolding a0(2)
    proof (rule new)
      show "\<not> (is_valid_pointer (ld64 (memory s) a0) \<and> b \<le> unat (ld64 (memory s) a0) \<and> unat (ld64 (memory s) a0) \<le> b + 8 * n)"
        using fm h(1) a0(1) by (simp add: fresh_mapping_def fresh_region_def)
      assume "is_valid_heap_pointer (heap s) (ld64 (memory s) a0)"
      then obtain k where k: "k \<in> set os" "unat (ld64 (memory s) a0) = k + 16" "points_to (heap s) (ld64 (memory s) a0) k"
        using heap_okD(4) [OF hok h(1) a0(1)] by (blast elim: val_okE)
      then have "edge (heap s) (memory s) h k" using a0(1) by (auto simp: edge_def)
      then have "live s k" using h(2) live_edge by blast
      then show "\<exists>k \<in> set os. unat (ld64 (memory s) a0) = k + 16 \<and> live s k" using k by blast
    qed
  next
    fix p assume p: "p \<in> set (fix_addrs s)"
    have v': "ld64 (memory s') p = gc_word b s os (ld64 (memory s) p)" using C p by blast
    have nv: "\<not> (is_valid_pointer (ld64 (memory s) p) \<and> b \<le> unat (ld64 (memory s) p) \<and> unat (ld64 (memory s) p) \<le> b + 8 * n)"
      using fm p by (simp add: fresh_mapping_def Let_def)
    have "p mod 8 = 0" using D(10) [OF p] by (simp add: root_word_ok_def)
    moreover have "off_heap (heap s') p"
      using fm p by (simp add: fresh_mapping_def fresh_region_def off_heap_def hp')
    moreover have "val_ok (whole (heap s')) ?os (ld64 (memory s') p)"
      unfolding v' by (rule new [OF nv]) (use live_pointer [OF ok p] in blast)
    moreover have "p \<in> set (root_addrs s) \<or> \<not> is_valid_heap_pointer (whole (heap s')) (ld64 (memory s') p)"
      unfolding v' using redirected_pointer [OF _ col nv] live_pointer [OF ok p] by blast
    ultimately show "root_word_ok s' ?os p" by (simp add: root_word_ok_def adr)
  qed (use H D(7,8) in blast)+
qed

text \<open>The compacted state of a marked heap is the collected state of the heap before the marking.\<close>

lemma compacted_collected:
  assumes ok: "gc_ok s os" and fr: "fwd_frame os (memory s) m" and mk: "\<forall>h \<in> set os. marked m h \<longleftrightarrow> live s h"
    and P: "compact_pre mmap (s\<lparr>memory := m\<rparr>) os b n" and s': "compacted (s\<lparr>memory := m\<rparr>) os b n s'"
  shows "collected s os b n s'"
proof -
  define s1 where "s1 = s\<lparr>memory := m\<rparr>"
  note D = gc_okD [OF ok]
  note seg = D(1)
  note M = marked_state [OF ok fr mk, folded s1_def]
  have s1: "memory s1 = m" "heap s1 = heap s" by (simp_all add: s1_def)
  note C = compactedD [OF s' [folded s1_def], unfolded s1 M(3-6)]
  show ?thesis
    unfolding collected_def
  proof (intro conjI ballI allI impI)
    show "s' = s\<lparr>memory := memory s', heap := heap s'\<rparr>" using C(1) by (simp add: s1_def)
    show "heap s' = \<lparr>c_begin = b, c_end = b + 8 * n, c_current = b + 8 * live_size s os, c_size = n\<rparr>"
      by (rule C(2))
    show "moved (gc_word b s os) (memory s) h (memory s') (gc_addr b s os h)" if "h \<in> set os" "live s h" for h
      using moved_off_forward [OF fr seg that(1)] C(3) [OF that(1)] mk that M(5) s1 by metis
    show "ld64 (memory s') p = gc_word b s os (ld64 (memory s) p)" if "p \<in> set (fix_addrs s)" for p
      using C(4) [OF that] M(5) M(8) [OF that] s1 by simp
    show "memory s' x = memory s x"
      if x: "off_heap (heap s) x" "x < b \<or> b + 8 * n \<le> x" "\<forall>p\<in>set (fix_addrs s). x < p \<or> p + 8 \<le> x" for x
    proof -
      have "memory s' x = m x" using s' [folded s1_def] x unfolding compacted_def s1 M(6) by blast
      moreover have "x < h + 8 \<or> h + 16 \<le> x" if "h \<in> set os" for h
        using heap_seg_in [OF seg that] heap_seg_header_bound [OF seg that] x(1) D(3)
        by (auto simp: off_heap_def chunk_ok_def)
      ultimately show ?thesis using fr by (simp add: fwd_frame_def)
    qed
  qed
qed

lemma collect_run:
  assumes ok: "gc_ok s os" and n: "n = next_heap_words (live_size s os) sz (c_size (heap s))"
    and mf: "maps_fresh mmap s os b n"
  shows "\<exists>s1 s'. mark_phase s = Some s1 \<and> compact_phase mmap s1 sz = Some s' \<and> collected s os b n s'
           \<and> gc_ok s' (map (gc_addr b s os) (filter (live s) os)) \<and> same_graph s os b s'"
proof -
  note hok = gc_ok_heap_ok [OF ok]
  note seg = heap_okD(1) [OF hok]
  note D = gc_okD [OF ok]
  obtain m where m: "mark_phase s = Some (s\<lparr>memory := m\<rparr>)" "fwd_frame os (memory s) m"
    "no_enqueued m os" "\<forall>h \<in> set os. marked m h \<longleftrightarrow> live s h"
    using mark_phase_inv [OF hok D(2) gc_ok_roots_ok [OF ok]] by blast
  define s1 where "s1 = s\<lparr>memory := m\<rparr>"
  note M = marked_state [OF ok m(2,4), folded s1_def]
  have s1: "memory s1 = m" "heap s1 = heap s" by (simp_all add: s1_def)
  have P: "compact_pre mmap s1 os b n"
    using M(1,2,9,10) m(3) D(3) mf
    unfolding compact_pre_def maps_fresh_def fresh_mapping_def s1 by (simp add: s1_def)
  have lw: "live_words (memory s1) os < n" using next_heap_words_bounds(2) n M(3) s1 by simp
  obtain s' where s': "compact_phase mmap s1 sz = Some s'" "compacted s1 os b n s'"
    using compact_phase_run [OF P, of sz] n M(3) s1 by auto
  note H = compacted_heap [OF P s'(2) lw, unfolded s1 M(4)]
  have sv: "filter (marked m) os = filter (live s) os" using m(4) by (intro filter_cong) auto
  have col: "collected s os b n s'"
    by (rule compacted_collected [OF ok m(2,4) P [unfolded s1_def] s'(2) [unfolded s1_def]])
  have "gc_ok s' (map (gc_addr b s os) (filter (live s) os))"
    by (rule collected_gc_ok [OF ok col _ H(1,2,3) [unfolded sv]])
      (use mf lw M(3) s1 in \<open>simp_all add: maps_fresh_def\<close>)
  moreover have "same_graph s os b s'"
  proof -
    have "edge (heap s) m h = edge (heap s) (memory s) h" if "h \<in> set os" for h
      using fwd_frame_heap(5) [OF m(2) seg that] .
    moreover have "set (filter (marked m) os) = {h \<in> set os. live s h}" by (simp add: sv)
    ultimately show ?thesis using H(4,5) by (simp add: same_graph_def)
  qed
  ultimately show ?thesis using m(1) s'(1) s1_def col by blast
qed

text \<open>Nothing else is left in the heap: after a collection every object is reachable.\<close>

lemma collected_all_live:
  assumes ok: "gc_ok s os" and col: "collected s os b n s'" and g: "same_graph s os b s'"
    and lw: "live_size s os < n" "b + 8 * n < 2 ^ 64" and b: "b mod 8 = 0" and h: "h \<in> set os" "live s h"
  shows "live s' (gc_addr b s os h)"
proof -
  note D = gc_okD [OF ok]
  note C = col [unfolded collected_def]
  have hp': "heap s' = \<lparr>c_begin = b, c_end = b + 8 * n, c_current = b + 8 * live_size s os, c_size = n\<rparr>"
    and e: "s' = s\<lparr>memory := memory s', heap := heap s'\<rparr>" using C by blast+
  have ra: "root_addrs s' = root_addrs s" by (subst e) (simp add: root_addrs_def pool_def)
  obtain a r where a: "a \<in> set (root_addrs s)" "points_to (heap s) (ld64 (memory s) a) r"
    "(edge (heap s) (memory s))\<^sup>*\<^sup>* r h"
    using h(2) unfolding live_def root_reach_def by blast
  have v: "is_valid_heap_pointer (heap s) (ld64 (memory s) a)" and ur: "unat (ld64 (memory s) a) = r + 16"
    using a(2) by (simp_all add: points_to_def)
  have af: "a \<in> set (fix_addrs s)" using a(1) D(8) by blast
  obtain k where k: "k \<in> set os" "unat (ld64 (memory s) a) = k + 16" "live s k"
    using live_pointer [OF ok af v] by blast
  then have r: "r \<in> set os" "live s r" using ur by auto
  have b64: "b + 8 * live_size s os < 2 ^ 64" using lw by linarith
  note u = unat_gc_word [OF v ur r b64 D(1)]
  have "even (gc_addr b s os r + 16)" using b by (simp add: gc_addr_def) presburger
  then have "even (gc_word b s os (ld64 (memory s) a))" using u(1) by (simp add: even_u64_iff)
  then have "points_to (heap s') (gc_word b s os (ld64 (memory s) a)) (gc_addr b s os r)"
    using u by (simp add: points_to_def is_valid_heap_pointer_def hp' unboxed_iff gc_addr_def)
  moreover have "ld64 (memory s') a = gc_word b s os (ld64 (memory s) a)" using C af by blast
  moreover have "(edge (heap s') (memory s'))\<^sup>*\<^sup>* (gc_addr b s os r) (gc_addr b s os h)"
    using a(3)
  proof (induction rule: rtranclp_induct)
    case (step y z)
    have "y \<in> set os" using reach_in_heap [OF step.hyps(1) gc_ok_heap_ok [OF ok] r(1)] .
    moreover have "live s y"
      using r(2) step.hyps(1) unfolding live_def root_reach_def by (meson rtranclp_trans)
    ultimately have "edge (heap s') (memory s') (gc_addr b s os y) (gc_addr b s os z)"
      using g step.hyps(2) unfolding same_graph_def by blast
    then show ?case using step.IH by (rule rtranclp.rtrancl_into_rtrancl [rotated])
  qed simp
  ultimately show ?thesis using a(1) unfolding live_def root_reach_def ra by metis
qed

section \<open>Allocation always succeeds\<close>

fun alloc_object :: "mmap_fun \<Rightarrow> lama_type \<Rightarrow> u64 \<Rightarrow> gc_state \<Rightarrow> (addr \<times> gc_state) res" where
  "alloc_object mmap ARRAY = alloc_array mmap"
| "alloc_object mmap STRING = alloc_string mmap"
| "alloc_object mmap CLOSURE = alloc_closure mmap"
| "alloc_object mmap SEXP = alloc_sexp mmap"

fun kind_size :: "lama_type \<Rightarrow> u64 \<Rightarrow> u64" where
  "kind_size ARRAY = array_size" | "kind_size STRING = string_size"
| "kind_size CLOSURE = closure_size" | "kind_size SEXP = sexp_size"

lemma kind_words:
  assumes "unat len < 2 ^ 60"
  shows "unat (BYTES_TO_WORDS (kind_size t len)) = type_words t (unat len)"
proof -
  have "unat (kind_size t len) = type_size t (unat len)"
    using type_size_word [OF assms, of t] by (cases t) simp_all
  moreover have "0 < type_size t (unat len)" by (cases t) simp_all
  ultimately show ?thesis by (simp add: unat_BYTES_TO_WORDS type_words_def)
qed

definition raw_alloc :: "gc_state \<Rightarrow> nat \<Rightarrow> gc_state" where
  "raw_alloc s w = s\<lparr>heap := (heap s)\<lparr>c_current := c_current (heap s) + 8 * w\<rparr>,
                     memory := memset (memory s) (c_current (heap s)) 0 (8 * w)\<rparr>"

lemma gc_alloc_on_existing_heap_room:
  assumes "c_current (heap s) + 8 * unat w \<le> c_end (heap s)" "c_end (heap s) < 2 ^ 64"
  shows "gc_alloc_on_existing_heap w s = (Some (c_current (heap s)), raw_alloc s (unat w))"
proof -
  have "8 * unat w < 2 ^ 64" using assms by linarith
  then have "unat (w * 8) = 8 * unat w" by (simp add: unat_word_ariths)
  then show ?thesis using assms by (simp add: gc_alloc_on_existing_heap_def raw_alloc_def Let_def)
qed

lemma gc_alloc_on_existing_heap_full:
  assumes "c_end (heap s) < c_current (heap s) + 8 * unat w" "c_current (heap s) + 8 * unat w < 2 ^ 64"
  shows "gc_alloc_on_existing_heap w s = (None, s)"
  using assms by (simp add: gc_alloc_on_existing_heap_def Let_def)

lemma st64_zero_id: "(\<And>i. i < 8 \<Longrightarrow> m (a + i) = 0) \<Longrightarrow> st64 m a 0 = m"
proof -
  assume z: "\<And>i. i < 8 \<Longrightarrow> m (a + i) = 0"
  have "m x = 0" if "a \<le> x" "x < a + 8" for x using z [of "x - a"] that by simp
  then show ?thesis by (auto simp: st64_def fun_eq_iff)
qed

lemma alloc_object_raw:
  assumes len: "unat len < 2 ^ 60"
    and a: "alloc mmap (kind_size t len) s = Inr (Some (c_current (heap s')), raw_alloc s' (type_words t (unat len)))"
  shows "alloc_object mmap t len s = Inr (c_current (heap s'), with_object s' t len)"
proof -
  let ?p = "c_current (heap s')"
  have i: "init_object (mk_header (tag_of t) len) (Some ?p, raw_alloc s' (type_words t (unat len)))
      = Inr (?p, with_object s' t len)"
    by (simp add: init_object_def raw_alloc_def with_object_def Let_def)
  have z: "with_object s' SEXP len\<lparr>memory := st64 (memory (with_object s' SEXP len)) (?p + 16) 0\<rparr> = with_object s' SEXP len"
  proof -
    have "st64 (memory (with_object s' SEXP len)) (?p + 16) 0 = memory (with_object s' SEXP len)"
    proof (rule st64_zero_id)
      fix i :: nat assume "i < 8"
      then show "memory (with_object s' SEXP len) (?p + 16 + i) = 0"
        using with_object_blank(1,2) [OF len, of s' SEXP] by (simp add: blank_object_def type_words_def)
    qed
    then show ?thesis by simp
  qed
  show ?thesis
    using a i z
    by (cases t) (simp_all add: alloc_array_def alloc_string_def alloc_closure_def alloc_sexp_def)
qed

lemma alloc_object_room:
  assumes ok: "gc_ok s os" and len: "unat len < 2 ^ 60"
    and room: "c_current (heap s) + 8 * type_words t (unat len) \<le> c_end (heap s)"
  shows "alloc_object mmap t len s = Inr (c_current (heap s), with_object s t len)"
proof (rule alloc_object_raw [OF len])
  have "gc_alloc_on_existing_heap (BYTES_TO_WORDS (kind_size t len)) s
      = (Some (c_current (heap s)), raw_alloc s (type_words t (unat len)))"
    using gc_alloc_on_existing_heap_room [of s "BYTES_TO_WORDS (kind_size t len)"] room gc_okD(6) [OF ok]
    by (simp add: kind_words [OF len])
  then show "alloc mmap (kind_size t len) s = Inr (Some (c_current (heap s)), raw_alloc s (type_words t (unat len)))"
    by (simp add: alloc_def)
qed

lemma alloc_object_collect:
  assumes ok: "gc_ok s os" and len: "unat len < 2 ^ 60"
    and full: "c_end (heap s) < c_current (heap s) + 8 * type_words t (unat len)"
      "c_current (heap s) + 8 * type_words t (unat len) < 2 ^ 64"
    and n: "n = next_heap_words (live_size s os) (type_words t (unat len)) (c_size (heap s))"
    and mf: "maps_fresh mmap s os b n"
  shows "\<exists>s'. alloc_object mmap t len s = Inr (b + 8 * live_size s os, with_object s' t len)
           \<and> collected s os b n s' \<and> gc_ok s' (map (gc_addr b s os) (filter (live s) os))
           \<and> c_current (heap s') = b + 8 * live_size s os
           \<and> gc_ok (with_object s' t len) (map (gc_addr b s os) (filter (live s) os) @ [b + 8 * live_size s os])"
proof -
  let ?w = "type_words t (unat len)"
  obtain s1 s' where r: "mark_phase s = Some s1" "compact_phase mmap s1 ?w = Some s'"
    "collected s os b n s'" "gc_ok s' (map (gc_addr b s os) (filter (live s) os))"
    "same_graph s os b s'"
    using collect_run [OF ok n mf] by blast
  have hp': "heap s' = \<lparr>c_begin = b, c_end = b + 8 * n, c_current = b + 8 * live_size s os, c_size = n\<rparr>"
    using r(3) by (simp add: collected_def)
  have room: "c_current (heap s') + 8 * ?w \<le> c_end (heap s')"
    using next_heap_words_bounds(3) [of "live_size s os" ?w "c_size (heap s)"] by (simp add: hp' n)
  have "gc_alloc_on_existing_heap (BYTES_TO_WORDS (kind_size t len)) s = (None, s)"
    by (rule gc_alloc_on_existing_heap_full) (use full in \<open>simp_all add: kind_words [OF len]\<close>)
  moreover have "gc_alloc_on_existing_heap (BYTES_TO_WORDS (kind_size t len)) s' = (Some (c_current (heap s')), raw_alloc s' ?w)"
    using gc_alloc_on_existing_heap_room [of s' "BYTES_TO_WORDS (kind_size t len)"] room gc_okD(6) [OF r(4)]
    by (simp add: kind_words [OF len])
  ultimately have "alloc mmap (kind_size t len) s = Inr (Some (c_current (heap s')), raw_alloc s' ?w)"
    using r(1,2) by (simp add: alloc_def gc_alloc_def kind_words [OF len])
  note a = alloc_object_raw [OF len this]
  have "gc_ok (with_object s' t len) (map (gc_addr b s os) (filter (live s) os) @ [c_current (heap s')])"
    by (rule with_object_gc_ok [OF r(4) len room])
  then show ?thesis using a r(3,4) by (auto simp: hp')
qed

lemma words_between_mono: "e \<le> e' \<Longrightarrow> set (words_between p e) \<subseteq> set (words_between p e')"
  unfolding words_between_def by (auto intro!: imageI div_le_mono less_le_trans)

lemma init_heap_gc_ok:
  assumes "mmap s (INIT_HEAP_SIZE * 8) = Some b" "b mod 8 = 0" "0 < b" "b + 8 * INIT_HEAP_SIZE < 2 ^ 64"
    "start_custom_data s \<le> stop_custom_data s"
    "\<forall>a \<in> set (words_between (gc_stack_top s + 8) (gc_stack_bottom s + 8)
              @ words_between (start_custom_data s) (stop_custom_data s)).
       a mod 8 = 0 \<and> (a + 8 \<le> b \<or> b + 8 * INIT_HEAP_SIZE \<le> a) \<and>
       \<not> (is_valid_pointer (ld64 (memory s) a) \<and> b \<le> unat (ld64 (memory s) a)
          \<and> unat (ld64 (memory s) a) \<le> b + 8 * INIT_HEAP_SIZE)"
  shows "\<exists>s'. init_heap mmap s = Inr s' \<and> gc_ok s' [] \<and> pool s' = []"
proof -
  define s' where "s' = clear_extra_roots (s\<lparr>memory := memset (memory s) b 0 (INIT_HEAP_SIZE * 8),
      heap := \<lparr>c_begin = b, c_end = b + 8 * INIT_HEAP_SIZE, c_current = b, c_size = INIT_HEAP_SIZE\<rparr>\<rparr>)"
  have run: "init_heap mmap s = Inr s'" using assms(1) by (simp add: init_heap_def s'_def)
  have pl: "pool s' = []" by (simp add: s'_def pool_def clear_extra_roots_def)
  have sel: "gc_stack_top s' = gc_stack_top s" "gc_stack_bottom s' = gc_stack_bottom s"
    "start_custom_data s' = start_custom_data s" "stop_custom_data s' = stop_custom_data s"
    "memory s' = memset (memory s) b 0 (INIT_HEAP_SIZE * 8)"
    "heap s' = \<lparr>c_begin = b, c_end = b + 8 * INIT_HEAP_SIZE, c_current = b, c_size = INIT_HEAP_SIZE\<rparr>"
    by (simp_all add: s'_def clear_extra_roots_def)
  have fx: "fix_addrs s' = words_between (gc_stack_top s + 8) (gc_stack_bottom s + 8)
      @ words_between (start_custom_data s) (stop_custom_data s)"
    by (simp add: fix_addrs_def sel pl)
  have sub: "set (root_addrs s') \<subseteq> set (fix_addrs s')"
    using words_between_mono [of "gc_stack_bottom s" "gc_stack_bottom s + 8" "gc_stack_top s + 8"]
    unfolding fx by (auto simp: root_addrs_def sel pl)
  have roots: "root_word_ok s' [] a" if "a \<in> set (fix_addrs s')" for a
  proof -
    have a: "a mod 8 = 0" "a + 8 \<le> b \<or> b + 8 * INIT_HEAP_SIZE \<le> a"
      "\<not> (is_valid_pointer (ld64 (memory s) a) \<and> b \<le> unat (ld64 (memory s) a) \<and> unat (ld64 (memory s) a) \<le> b + 8 * INIT_HEAP_SIZE)"
      using assms(6) that unfolding fx by blast+
    have "ld64 (memory s') a = ld64 (memory s) a"
      using a(2) by (simp add: sel ld64_memset_other mult.commute)
    then have nv: "\<not> is_valid_heap_pointer (whole (heap s')) (ld64 (memory s') a)"
      using a(3) by (simp add: is_valid_heap_pointer_def is_valid_pointer_def whole_def sel)
    then show ?thesis using a(1,2) by (simp add: root_word_ok_def val_ok_def off_heap_def sel)
  qed
  have "gc_ok s' []"
    unfolding gc_ok_def
  proof (intro conjI ballI)
    show "chunk_ok (heap s')" by (simp add: chunk_ok_def sel)
    show "start_custom_data s' \<le> stop_custom_data s'" using assms(5) by (simp add: sel)
  qed (use assms(2-4) sub roots in \<open>simp_all add: sel unmarked_heap_def\<close>)
  then show ?thesis using run pl by blast
qed

end
