(* ===== verification/Gc_Properties.thy ===== *)
theory Gc_Properties
  imports Alloc
begin

text \<open>
  The properties of the collector and of the allocator, over a sample heap that shows each of them
  at work: at 1000 an array of one element, the string \<open>''a''\<close> it points to, and an empty array
  nobody points to; the root is a word of the Lama stack.
\<close>

section \<open>A sample heap\<close>

definition sample_mem :: mem where
  "sample_mem = st_words (st_words (\<lambda>_. 0) 1000 [11, 0, 1040, 9, 0, 97, 3, 0]) 2008 [1016, 0]"

definition sample :: gc_state where
  "sample = \<lparr>memory = sample_mem,
             heap = \<lparr>c_begin = 1000, c_end = 1512, c_current = 1064, c_size = 64\<rparr>,
             extra_roots = \<lparr>current_free = 0, roots = replicate 32 0\<rparr>,
             gc_stack_top = 2000, gc_stack_bottom = 2016,
             start_custom_data = 3000, stop_custom_data = 3000\<rparr>"

abbreviation sample_objects :: "addr list" where
  "sample_objects \<equiv> [1000, 1024, 1048]"

lemma ld64_sample [simp]:
  "ld64 sample_mem 1000 = 11" "ld64 sample_mem 1008 = 0" "ld64 sample_mem 1016 = 1040"
  "ld64 sample_mem 1024 = 9" "ld64 sample_mem 1032 = 0" "ld64 sample_mem 1040 = 97"
  "ld64 sample_mem 1048 = 3" "ld64 sample_mem 1056 = 0" "ld64 sample_mem 2008 = 1016" "ld64 sample_mem 2016 = 0"
  by (simp_all add: sample_mem_def ld64_st64_other)

lemma sample_sel [simp]:
  "memory sample = sample_mem" "c_begin (heap sample) = 1000" "c_end (heap sample) = 1512"
  "c_current (heap sample) = 1064" "c_size (heap sample) = 64"
  by (simp_all add: sample_def)

lemma sample_headers:
  "obj_ok sample_mem 1000" "obj_type sample_mem 1000 = ARRAY" "obj_len sample_mem 1000 = 1" "obj_words sample_mem 1000 = 3"
  "obj_ok sample_mem 1024" "obj_type sample_mem 1024 = STRING" "obj_len sample_mem 1024 = 1" "obj_words sample_mem 1024 = 3"
  "obj_ok sample_mem 1048" "obj_type sample_mem 1048 = ARRAY" "obj_len sample_mem 1048 = 0" "obj_words sample_mem 1048 = 2"
  by (simp_all add: obj_ok_def obj_type_def obj_len_def obj_words_def obj_bytes_def get_type_header_ptr_def
      TAG_def LEN_eq tag_defs drop_bit_eq_div)

lemma sample_slots: "slots sample_mem 1000 = [1016]" "slots sample_mem 1024 = []" "slots sample_mem 1048 = []"
  by (simp_all add: slots_def slot0_def nslots_def sample_headers)

lemma sample_words: "root_addrs sample = [2008]" "fix_addrs sample = [2008, 2016]"
  by (simp_all add: root_addrs_def fix_addrs_def words_between_def pool_def sample_def upt_rec)

lemma sample_pool: "pool_ok sample" "pool sample = []"
  by (simp_all add: pool_def sample_def pool_ok_def MAX_EXTRA_ROOTS_NUMBER_def)

lemma sample_gc_ok: "gc_ok sample sample_objects"
  by (simp add: gc_ok_def sample_headers sample_slots sample_words unmarked_heap_def marked_def enqd_def chunk_ok_def
      root_word_ok_def off_heap_def val_ok_def whole_def is_valid_heap_pointer_def unboxed_iff) (simp add: sample_def)

definition sample_mmap :: mmap_fun where "sample_mmap s bytes = Some 5000"

lemma sample_maps_fresh: "n \<le> 1000 \<Longrightarrow> maps_fresh sample_mmap sample sample_objects 5000 n"
  by (simp add: maps_fresh_def sample_mmap_def fresh_mapping_def fresh_region_def sample_words sample_slots)

lemma sample_live_size: "live_size sample sample_objects \<le> 8"
  by (simp add: live_size_def sample_headers)

section \<open>Properties\<close>

text \<open>
  C1: A whole collection cycle (\<open>mark_phase\<close> then \<open>compact_phase\<close>) of a well-formed heap
  returns, given that \<open>mmap\<close> succeeds. The new heap is well formed again and consists of exactly
  the objects that were reachable, contiguous and in the old order; each of them has its header,
  its raw bytes and its non-pointer slots unchanged and its pointer slots redirected; so are the
  words of the stack, of the extra roots and of the global area, and no other word outside the heap
  changes. Identity and pointers between the survivors are kept.
\<close>

theorem collection_correct:
  assumes "gc_ok s os" and "n = next_heap_words (live_size s os) sz (c_size (heap s))"
    and "maps_fresh mmap s os b n"
  shows "\<exists>s1 s'. mark_phase s = Some s1 \<and> compact_phase mmap s1 sz = Some s' \<and>
           collected s os b n s' \<and> same_graph s os b s' \<and>
           gc_ok s' (map (gc_addr b s os) (filter (live s) os)) \<and>
           (\<forall>h \<in> set (map (gc_addr b s os) (filter (live s) os)). live s' h)"
proof -
  obtain s1 s' where r: "mark_phase s = Some s1" "compact_phase mmap s1 sz = Some s'" "collected s os b n s'"
    "gc_ok s' (map (gc_addr b s os) (filter (live s) os))" "same_graph s os b s'"
    using collect_run [OF assms] by blast
  have lw: "live_size s os < n" "b + 8 * n < 2 ^ 64" "b mod 8 = 0"
    using assms(2,3) next_heap_words_bounds(2)
    by (simp_all add: maps_fresh_def fresh_mapping_def fresh_region_def)
  show ?thesis using r collected_all_live [OF assms(1) r(3,5) lw] by auto
qed

lemma sample_next_words: "next_heap_words (live_size sample sample_objects) 0 64 = 64"
  using sample_live_size
  by (simp add: next_heap_words_def Let_def EXTRA_ROOM_HEAP_COEFFICIENT_def MINIMUM_HEAP_CAPACITY_def)

theorem collection_correct_witness:
  "\<exists>s1 s'. mark_phase sample = Some s1 \<and> compact_phase sample_mmap s1 0 = Some s' \<and>
     collected sample sample_objects 5000 64 s'"
  using collection_correct [OF sample_gc_ok, of 64 0 sample_mmap 5000] sample_next_words sample_maps_fresh [of 64]
  by auto

text \<open>
  C2: Allocation with collection. When an object of any of the four kinds does not fit, the
  allocation still succeeds: the heap is collected as in C1 and the new object, of the requested
  kind and length, unmarked and all zero, is the one that follows the survivors.
\<close>

theorem alloc_collects:
  assumes "gc_ok s os" "unat len < 2 ^ 60"
    and "c_end (heap s) < c_current (heap s) + 8 * type_words t (unat len)"
    and "c_current (heap s) + 8 * type_words t (unat len) < 2 ^ 64"
    and "n = next_heap_words (live_size s os) (type_words t (unat len)) (c_size (heap s))"
    and "maps_fresh mmap s os b n"
  shows "\<exists>s' s''. alloc_object mmap t len s = Inr (b + 8 * live_size s os, s'') \<and>
           collected s os b n s' \<and> s'' = with_object s' t len \<and>
           blank_object (memory s'') (b + 8 * live_size s os) t (unat len) \<and>
           gc_ok s'' (map (gc_addr b s os) (filter (live s) os) @ [b + 8 * live_size s os])"
proof -
  obtain s' where r: "alloc_object mmap t len s = Inr (b + 8 * live_size s os, with_object s' t len)"
    "collected s os b n s'" "c_current (heap s') = b + 8 * live_size s os"
    "gc_ok (with_object s' t len) (map (gc_addr b s os) (filter (live s) os) @ [b + 8 * live_size s os])"
    using alloc_object_collect [OF assms] by blast
  then show ?thesis using with_object_blank(1) [OF assms(2), where s = s' and t = t] by auto
qed

theorem alloc_collects_witness:
  "\<exists>s'' n. alloc_object sample_mmap ARRAY 60 sample = Inr (5000 + 8 * live_size sample sample_objects, s'') \<and>
     gc_ok s'' (map (gc_addr 5000 sample sample_objects) (filter (live sample) sample_objects) @ [n])"
  using alloc_collects [OF sample_gc_ok, of 60 ARRAY "next_heap_words (live_size sample sample_objects) 62 64"
      sample_mmap 5000] sample_live_size
    sample_maps_fresh [of "next_heap_words (live_size sample sample_objects) 62 64"]
  by (auto simp: type_words_def next_heap_words_def Let_def EXTRA_ROOM_HEAP_COEFFICIENT_def MINIMUM_HEAP_CAPACITY_def)

text \<open>
  Allocation without collection. When the object fits, the allocation returns the old end of
  the heap, writes only there, and the heap with the new object is well formed.
\<close>

theorem alloc_fits:
  assumes "gc_ok s os" "unat len < 2 ^ 60"
    and "c_current (heap s) + 8 * type_words t (unat len) \<le> c_end (heap s)"
  shows "\<exists>s'. alloc_object mmap t len s = Inr (c_current (heap s), s') \<and>
           blank_object (memory s') (c_current (heap s)) t (unat len) \<and>
           gc_ok s' (os @ [c_current (heap s)]) \<and>
           (\<forall>x. x < c_current (heap s) \<or> c_current (heap s) + 8 * type_words t (unat len) \<le> x \<longrightarrow>
              memory s' x = memory s x)"
  using alloc_object_room [OF assms] with_object_gc_ok [OF assms] with_object_blank(1,5) [OF assms(2), where s = s and t = t]
  by blast

theorem alloc_fits_witness:
  "\<exists>s'. alloc_object sample_mmap SEXP 2 sample = Inr (1064, s') \<and> gc_ok s' [1000, 1024, 1048, 1064]"
  using alloc_fits [OF sample_gc_ok, of 2 SEXP sample_mmap] by (auto simp: type_words_def)

text \<open>
  C19: The mark phase returns and marks exactly the objects reachable from the stack, the extra
  roots and the global area; it writes forward words only and leaves no object enqueued.
\<close>

theorem mark_phase_exact:
  assumes "heap_ok (heap s) (memory s) os" "unmarked_heap (memory s) os" "roots_ok s os"
  shows "\<exists>m'. mark_phase s = Some (s\<lparr>memory := m'\<rparr>) \<and> (\<forall>h \<in> set os. marked m' h \<longleftrightarrow> live s h) \<and>
           (\<forall>h \<in> set os. \<not> enqd m' h) \<and>
           (\<forall>x. (\<forall>h \<in> set os. x < h + 8 \<or> h + 16 \<le> x) \<longrightarrow> m' x = memory s x)"
  using mark_phase_inv [OF assms] by (auto simp: fwd_frame_def no_enqueued_def)

theorem mark_phase_exact_witness:
  "\<exists>m'. mark_phase sample = Some (sample\<lparr>memory := m'\<rparr>) \<and> (marked m' 1024 \<longleftrightarrow> live sample 1024)"
  using mark_phase_exact [OF gc_ok_heap_ok [OF sample_gc_ok] _ gc_ok_roots_ok [OF sample_gc_ok]]
    gc_okD(2) [OF sample_gc_ok] by auto

text \<open>
  One call of \<open>mark\<close>: from any root, on a heap some of whose objects are already marked, the
  queue that is threaded through the forward words visits exactly the objects reachable from that
  root and terminates, whatever cycles the graph has.
\<close>

theorem mark_exact:
  assumes "heap_ok hp m os" "no_enqueued m os" "closed_marks hp m os" "val_ok hp os v"
  shows "\<exists>m'. mark hp m v = Some m' \<and> no_enqueued m' os \<and> fwd_frame os m m' \<and>
           (\<forall>h \<in> set os. marked m' h \<longleftrightarrow> marked m h \<or> root_reach hp m v h)"
  using mark_correct_aux [OF assms] by blast

theorem mark_exact_witness:
  "\<exists>m'. mark (heap sample) sample_mem 1016 = Some m' \<and> (marked m' 1024 \<longleftrightarrow> root_reach (heap sample) sample_mem 1016 1024)"
  using mark_exact [OF gc_ok_heap_ok [OF sample_gc_ok, unfolded sample_sel], of 1016]
  by (auto simp: no_enqueued_def closed_marks_def val_ok_def marked_def enqd_def)

text \<open>
  C20: The compaction phase on its own: from any marked heap whose marks are closed under the
  pointers between objects, it slides exactly the marked objects to the front of the new mapping,
  with all fields and roots redirected.
\<close>

theorem compaction_correct:
  assumes "compact_pre mmap s os b n"
    and "n = next_heap_words (live_words (memory s) os) additional (c_size (heap s))"
  shows "\<exists>s'. compact_phase mmap s additional = Some s' \<and> compacted s os b n s' \<and>
           heap_ok (heap s') (memory s') (map (new_addr b (memory s) os) (survivors s os)) \<and>
           unmarked_heap (memory s') (map (new_addr b (memory s) os) (survivors s os))"
  using compact_phase_run [OF assms] compacted_heap(1,2) [OF assms(1)] next_heap_words_bounds(2) assms(2) by blast

text \<open>The sample heap with the two reachable objects marked.\<close>

definition marked_sample :: gc_state where
  "marked_sample = sample\<lparr>memory := st64 (st64 sample_mem 1008 1) 1032 1\<rparr>"

lemma ld64_marked_sample [simp]:
  "ld64 (memory marked_sample) 1008 = 1" "ld64 (memory marked_sample) 1032 = 1"
  "a + 8 \<le> 1008 \<or> 1016 \<le> a \<and> a + 8 \<le> 1032 \<or> 1040 \<le> a \<Longrightarrow> ld64 (memory marked_sample) a = ld64 sample_mem a"
  by (auto simp: marked_sample_def ld64_st64_other)

lemma marked_sample_sel [simp]: "heap marked_sample = heap sample" "fix_addrs marked_sample = [2008, 2016]"
  by (simp_all add: marked_sample_def fix_addrs_def words_between_def pool_def sample_def upt_rec)

lemma marked_sample_pre: "compact_pre sample_mmap marked_sample sample_objects 5000 64"
proof -
  let ?m = "memory marked_sample"
  have fr: "fwd_frame sample_objects sample_mem ?m" by (auto simp: fwd_frame_def marked_sample_def st64_def)
  note seg = gc_okD(1) [OF sample_gc_ok, unfolded sample_sel]
  have sl: "slots ?m 1000 = [1016]" "slots ?m 1024 = []" "slots ?m 1048 = []"
    using slots_header_cong(3) [of ?m _ sample_mem] sample_slots by simp_all
  have "closed_marks (heap sample) ?m sample_objects"
    by (auto simp: closed_marks_def edge_def sl points_to_def marked_def)
  moreover have "fix_addrs_ok marked_sample sample_objects"
    by (simp add: fix_addrs_ok_def off_heap_def live_val_def marked_def is_valid_heap_pointer_def)
      (simp add: marked_sample_def sample_def)
  moreover have "fresh_region marked_sample sample_objects 5000 64"
    by (simp add: fresh_region_def sl)
  moreover have "heap_ok (heap sample) ?m sample_objects"
    using fwd_frame_heap_ok [OF fr] gc_ok_heap_ok [OF sample_gc_ok] by simp
  ultimately show ?thesis
    by (simp add: compact_pre_def no_enqueued_def enqd_def chunk_ok_def sample_mmap_def)
qed

lemma marked_sample_words:
  "64 = next_heap_words (live_words (memory marked_sample) sample_objects) 0 (c_size (heap marked_sample))"
proof -
  have "obj_words (memory marked_sample) h = obj_words sample_mem h" if "h \<in> set sample_objects" for h
    using that by (intro obj_header_cong(5)) auto
  then have "live_words (memory marked_sample) sample_objects \<le> 8" by (simp add: sample_headers)
  then show ?thesis
    by (simp add: next_heap_words_def Let_def EXTRA_ROOM_HEAP_COEFFICIENT_def MINIMUM_HEAP_CAPACITY_def del: live_words.simps)
qed

theorem compaction_correct_witness:
  "\<exists>s'. compact_phase sample_mmap marked_sample 0 = Some s' \<and> compacted marked_sample sample_objects 5000 64 s'"
  using compaction_correct [OF marked_sample_pre marked_sample_words] by blast

text \<open>
  C33: \<open>__init\<close> sets up an empty, well-formed heap and an empty pool, provided that the mapping is
  disjoint from the stack and the global area and that no word there looks like a pointer into it.
\<close>

theorem init_establishes_gc_ok:
  assumes "mmap s (INIT_HEAP_SIZE * 8) = Some b" "b mod 8 = 0" "0 < b" "b + 8 * INIT_HEAP_SIZE < 2 ^ 64"
    "start_custom_data s \<le> stop_custom_data s"
    "\<forall>a \<in> set (words_between (gc_stack_top s + 8) (gc_stack_bottom s + 8)
              @ words_between (start_custom_data s) (stop_custom_data s)).
       a mod 8 = 0 \<and> (a + 8 \<le> b \<or> b + 8 * INIT_HEAP_SIZE \<le> a) \<and>
       \<not> (is_valid_pointer (ld64 (memory s) a) \<and> b \<le> unat (ld64 (memory s) a)
          \<and> unat (ld64 (memory s) a) \<le> b + 8 * INIT_HEAP_SIZE)"
  shows "\<exists>s'. init_heap mmap s = Inr s' \<and> gc_ok s' [] \<and> pool s' = []"
  using assms by (rule init_heap_gc_ok)

theorem init_establishes_gc_ok_witness:
  "\<exists>s'. init_heap sample_mmap sample = Inr s' \<and> gc_ok s' [] \<and> pool s' = []"
proof (rule init_establishes_gc_ok)
  show "sample_mmap sample (INIT_HEAP_SIZE * 8) = Some 5000" by (simp add: sample_mmap_def)
qed (simp_all add: INIT_HEAP_SIZE_def MINIMUM_HEAP_CAPACITY_def sample_def words_between_def upt_rec)

text \<open>
  C34: The pool of extra roots is a stack of at most 32 entries: pushes within the bound followed by
  the pops in reverse order restore it and touch nothing else; a pop of any other address than the
  last one pushed ends the program.
\<close>

theorem extra_roots_balanced:
  assumes "pool_ok s" "length (pool s) + length ps \<le> 32"
  shows "\<exists>s1 s2. for_each push_extra_root ps s = Inr s1 \<and> pool s1 = pool s @ ps \<and>
           for_each pop_extra_root (rev ps) s1 = Inr s2 \<and> pool s2 = pool s \<and>
           sans_pool s2 = sans_pool s \<and>
           (\<forall>p xs q. pool s1 = xs @ [q] \<longrightarrow> p \<noteq> q \<longrightarrow> pop_extra_root p s1 = Inl (Exit 1))"
proof -
  obtain s1 where s1: "for_each push_extra_root ps s = Inr s1" "pool_ok s1" "pool s1 = pool s @ ps"
    "sans_pool s1 = sans_pool s"
    using extra.push_all [OF assms(1), of ps] assms(2) by (auto simp: MAX_EXTRA_ROOTS_NUMBER_def)
  then show ?thesis using extra.pop_all [OF s1(2,3)] extra.pop_wrong [OF s1(2)] by auto
qed

theorem extra_roots_balanced_witness:
  "\<exists>s1 s2. for_each push_extra_root [16, 24] sample = Inr s1 \<and> pool s1 = [16, 24] \<and>
     for_each pop_extra_root [24, 16] s1 = Inr s2 \<and> pool s2 = []"
  using extra_roots_balanced [of sample "[16, 24]"] sample_pool by (auto simp del: for_each.simps)

text \<open>
  The bound is hard: pushing more roots than fit (as the constructors of an array, an
  S-expression or a closure with more than 32 elements do) ends the program with \<open>exit(1)\<close>.
\<close>

theorem extra_roots_overflow:
  assumes "pool_ok s" "32 < length (pool s) + length ps"
  shows "for_each push_extra_root ps s = Inl (Exit 1)"
  using extra.push_all_overflow [OF assms(1), of ps] assms
  by (simp add: MAX_EXTRA_ROOTS_NUMBER_def pool_ok_def)

theorem extra_roots_overflow_witness:
  "for_each push_extra_root (replicate 33 16) sample = Inl (Exit 1)"
  using extra_roots_overflow [of sample "replicate 33 16"] sample_pool by (simp del: for_each.simps)

end
