(* ===== verification/Tag_Hash.thy ===== *)
theory Tag_Hash
  imports Values
begin

text \<open>
  The hash of S-expression tags of \<open>runtime/runtime.c\<close>: up to ten characters of an alphabet of 64
  are packed into a word, six bits each (\<open>LtagHash\<close>), and unpacked again (\<open>de_hash\<close>) to print
  a value and to check the hash. A C string is the list of its characters without the final NUL.
\<close>

section \<open>The code\<close>

definition chars :: string where
  "chars = ''_abcdefghijklmnopqrstuvwxyzABCDEFGHIJKLMNOPQRSTUVWXYZ0123456789'' @ [CHR 0x27]"

definition MAX_SEXP_TAGLEN :: nat where "MAX_SEXP_TAGLEN = 10"

text \<open>The inner loop: the position of a character, \<open>None\<close> when \<open>*q\<close> is the final NUL.\<close>

fun find_pos :: "char \<Rightarrow> string \<Rightarrow> nat \<Rightarrow> nat option" where
  "find_pos c [] pos = None"
| "find_pos c (q # qs) pos = (if q \<noteq> c then find_pos c qs (pos + 1) else Some pos)"

fun tag_hash_loop :: "string \<Rightarrow> nat \<Rightarrow> u64 \<Rightarrow> u64 res" where
  "tag_hash_loop [] limit h = Inr h"
| "tag_hash_loop (c # p) limit h =
     (if limit < MAX_SEXP_TAGLEN
      then case find_pos c chars 0 of
             Some pos \<Rightarrow> tag_hash_loop p (limit + 1) (push_bit 6 h OR of_nat pos)
           | None \<Rightarrow> Inl (Failure (''tagHash: character not found: '' @ [c]))
      else Inr h)"

text \<open>
  The loop of \<open>de_hash\<close> writes its buffer from the end; \<open>k\<close> is the room left before its start.
  The shift is arithmetic, so on a negative argument the loop would run past the buffer.
\<close>

fun de_hash_loop :: "nat \<Rightarrow> u64 \<Rightarrow> string \<Rightarrow> string option" where
  "de_hash_loop k n buf =
     (if n = 0 then Some buf
      else case k of
             0 \<Rightarrow> None
           | Suc k' \<Rightarrow> de_hash_loop k' (signed_drop_bit 6 n) (chars ! unat (n AND 63) # buf))"

declare de_hash_loop.simps [simp del]

definition de_hash :: "u64 \<Rightarrow> string option" where
  "de_hash n = de_hash_loop MAX_SEXP_TAGLEN n []"

definition strncmp_eq :: "string \<Rightarrow> string \<Rightarrow> nat \<Rightarrow> bool" where
  "strncmp_eq s t n \<longleftrightarrow> take n s = take n t"

definition LtagHash :: "string \<Rightarrow> u64 res" where
  "LtagHash s = bindR (tag_hash_loop s 0 0) (\<lambda>h.
     case de_hash h of
       None \<Rightarrow> Inl Undefined
     | Some t \<Rightarrow> if \<not> strncmp_eq s t MAX_SEXP_TAGLEN then Inl (Failure (s @ '' <-> '' @ t)) else Inr (BOX h))"

section \<open>Positions\<close>

lemma length_chars [simp]: "length chars = 64"
  by (simp add: chars_def)

lemma find_pos_Some: "find_pos c qs k = Some p \<Longrightarrow> k \<le> p \<and> p - k < length qs \<and> qs ! (p - k) = c"
proof (induction c qs k rule: find_pos.induct)
  case (2 c q qs k)
  show ?case
  proof (cases "q = c")
    case False
    then have "k + 1 \<le> p" "p - (k + 1) < length qs" "qs ! (p - (k + 1)) = c" using 2 by auto
    moreover from this have "p - k = Suc (p - (k + 1))" by simp
    ultimately show ?thesis by simp
  qed (use 2 in simp)
qed simp

lemma find_pos_None [simp]: "find_pos c qs k = None \<longleftrightarrow> c \<notin> set qs"
  by (induction c qs k rule: find_pos.induct) auto

definition char_pos :: "char \<Rightarrow> nat" where
  "char_pos c = (case find_pos c chars 0 of Some p \<Rightarrow> p | None \<Rightarrow> 0)"

lemma find_pos_chars: "c \<in> set chars \<Longrightarrow> find_pos c chars 0 = Some (char_pos c)"
  by (cases "find_pos c chars 0") (simp_all add: char_pos_def)

lemma char_pos:
  assumes "c \<in> set chars"
  shows "char_pos c < 64" "chars ! char_pos c = c"
  using find_pos_Some [OF find_pos_chars [OF assms]] by auto

lemma char_pos_eq_0:
  assumes c: "c \<in> set chars"
  shows "char_pos c = 0 \<longleftrightarrow> c = CHR ''_''"
proof
  assume "char_pos c = 0"
  then have "chars ! 0 = c" using char_pos(2) [OF c] by simp
  then show "c = CHR ''_''" by (simp add: chars_def)
next
  assume "c = CHR ''_''"
  moreover have "find_pos (CHR ''_'') (CHR ''_'' # tl chars) 0 = Some 0" by simp
  moreover have "CHR ''_'' # tl chars = chars" by (simp add: chars_def)
  ultimately show "char_pos c = 0" by (simp add: char_pos_def)
qed

lemma sint_small: "unat (h :: u64) < 2 ^ 63 \<Longrightarrow> sint h = int (unat h)"
proof -
  assume "unat h < 2 ^ 63"
  then have "int (unat h) < int (2 ^ 63)" by (simp only: of_nat_less_iff)
  then have "uint h < 2 ^ 63" by simp
  then have "signed_take_bit 63 (uint h) = uint h"
    using uint_nonnegative [of h] by (intro signed_take_bit_int_eq_self) linarith+
  then show ?thesis by (simp add: sint_uint)
qed

lemma fits63_small: "unat (h :: u64) < 2 ^ 62 \<Longrightarrow> fits63 (sint h)"
proof -
  assume h: "unat h < 2 ^ 62"
  then have "int (unat h) < int (2 ^ 62)" by (simp only: of_nat_less_iff)
  then have "int (unat h) < 2 ^ 62" by simp
  moreover have "unat h < 2 ^ 63" using h by simp
  ultimately show ?thesis unfolding fits63_def sint_small [OF \<open>unat h < 2 ^ 63\<close>] by linarith
qed

section \<open>Hashes as numbers in base 64\<close>

definition tag_num :: "string \<Rightarrow> nat" where
  "tag_num cs = foldl (\<lambda>v c. 64 * v + char_pos c) 0 cs"

lemma tag_num_snoc [simp]: "tag_num [] = 0" "tag_num (cs @ [c]) = 64 * tag_num cs + char_pos c"
  by (simp_all add: tag_num_def)

lemma tag_num_bound: "set cs \<subseteq> set chars \<Longrightarrow> tag_num cs < 64 ^ length cs"
proof (induction cs rule: rev_induct)
  case (snoc c cs)
  then have "tag_num cs + 1 \<le> 64 ^ length cs" "char_pos c < 64" using char_pos(1) by auto
  then show ?case by simp
qed simp

lemma push_6_or:
  assumes "unat (h :: u64) < 2 ^ 58" "p < 64"
  shows "unat (push_bit 6 h OR of_nat p) = 64 * unat h + p"
proof -
  have "push_bit 6 h OR of_nat p = push_bit 6 h + (of_nat p :: u64)"
  proof (rule disjunctive_add [symmetric])
    fix n
    have "bit (of_nat p :: u64) n \<Longrightarrow> n < 6"
    proof -
      assume b: "bit (of_nat p :: u64) n"
      have "take_bit 6 p = p" using assms(2) by (simp add: take_bit_nat_eq_self)
      moreover have "bit p n" using b by (simp add: bit_of_nat_iff)
      ultimately show "n < 6" by (metis bit_take_bit_iff)
    qed
    then show "\<not> bit (push_bit 6 h) n \<or> \<not> bit (of_nat p :: u64) n" by (auto simp: bit_push_bit_iff)
  qed
  moreover have "unat (push_bit 6 h) = 64 * unat h"
    using assms(1) by (simp add: push_bit_eq_mult unat_word_ariths)
  moreover have "unat (of_nat p :: u64) = p" using assms(2) by (simp add: unat_of_nat_u64)
  ultimately show ?thesis using assms by (simp add: unat_word_ariths)
qed

lemma tag_hash_loop_num:
  assumes "set (take (10 - l) cs) \<subseteq> set chars" "set pre \<subseteq> set chars" "length pre = l" "l \<le> 10" "unat h = tag_num pre"
  shows "\<exists>h'. tag_hash_loop cs l h = Inr h' \<and> unat h' = tag_num (pre @ take (10 - l) cs)"
  using assms
proof (induction cs arbitrary: l h pre)
  case (Cons c cs)
  show ?case
  proof (cases "l < 10")
    case True
    have tk: "take (10 - l) (c # cs) = c # take (10 - (l + 1)) cs" using True by (simp add: take_Cons')
    then have c: "c \<in> set chars" using Cons.prems(1) by simp
    have "tag_num pre < 64 ^ 9"
      using tag_num_bound [OF Cons.prems(2)] power_increasing [of "length pre" 9 "64 :: nat"] Cons.prems(3) True by simp
    then have u: "unat (push_bit 6 h OR of_nat (char_pos c)) = tag_num (pre @ [c])"
      using push_6_or [of h "char_pos c"] char_pos(1) [OF c] Cons.prems(5) by simp
    obtain h' where "tag_hash_loop cs (l + 1) (push_bit 6 h OR of_nat (char_pos c)) = Inr h'"
      "unat h' = tag_num ((pre @ [c]) @ take (10 - (l + 1)) cs)"
      using Cons.IH [of "l + 1" "pre @ [c]", OF _ _ _ _ u] Cons.prems True tk c by auto
    then show ?thesis using True c tk by (simp add: find_pos_chars MAX_SEXP_TAGLEN_def)
  next
    case False
    then show ?thesis using Cons.prems by (simp add: MAX_SEXP_TAGLEN_def)
  qed
qed simp

lemma tag_hash_loop_bad:
  assumes "\<not> set (take (10 - l) cs) \<subseteq> set chars" "l \<le> 10"
  shows "\<exists>c \<in> set (take (10 - l) cs). c \<notin> set chars \<and>
    tag_hash_loop cs l h = Inl (Failure (''tagHash: character not found: '' @ [c]))"
  using assms
proof (induction cs arbitrary: l h)
  case (Cons c cs)
  have l: "l < 10" using Cons.prems by (cases "l = 10") auto
  have tk: "take (10 - l) (c # cs) = c # take (10 - (l + 1)) cs" using l by (simp add: take_Cons')
  show ?case
  proof (cases "c \<in> set chars")
    case True
    then show ?thesis
      using Cons.IH [of "l + 1" "push_bit 6 h OR of_nat (char_pos c)"] Cons.prems(1) l tk
      by (auto simp: find_pos_chars MAX_SEXP_TAGLEN_def)
  next
    case False
    then have "find_pos c chars 0 = None" by simp
    then have "tag_hash_loop (c # cs) l h = Inl (Failure (''tagHash: character not found: '' @ [c]))"
      using l by (simp add: MAX_SEXP_TAGLEN_def del: find_pos_None)
    then show ?thesis using False tk by (simp del: tag_hash_loop.simps)
  qed
qed simp

lemma digit_steps:
  assumes "unat (n :: u64) = 64 * v + p" "p < 64" "unat n < 2 ^ 63"
  shows "unat (signed_drop_bit 6 n) = v" "unat (n AND 63) = p"
proof -
  have "signed_drop_bit 6 n = drop_bit 6 n"
  proof (rule bit_word_eqI)
    fix k assume "k < LENGTH(64)"
    have "\<not> bit n 63" using assms(3) bit_small_u64 [of n 63 63] by simp
    then show "bit (signed_drop_bit 6 n) k \<longleftrightarrow> bit (drop_bit 6 n) k"
      using \<open>k < LENGTH(64)\<close> bit_imp_le_length [of n "6 + k"]
      by (auto simp: bit_signed_drop_bit_iff bit_drop_bit_eq)
  qed
  then show "unat (signed_drop_bit 6 n) = v"
    using assms(1,2) by (simp add: drop_bit_eq_div unat_div)
  have "n AND 63 = take_bit 6 n"
    using take_bit_eq_mask [of 6 n] by (simp add: mask_eq_exp_minus_1)
  then show "unat (n AND 63) = p"
    using assms(1,2) by (simp add: take_bit_eq_mod unat_mod)
qed

definition tag_ok :: "string \<Rightarrow> bool" where
  "tag_ok cs \<longleftrightarrow> set cs \<subseteq> set chars \<and> (cs \<noteq> [] \<longrightarrow> hd cs \<noteq> CHR ''_'')"

lemma tag_num_pos: "tag_ok cs \<Longrightarrow> cs \<noteq> [] \<Longrightarrow> 0 < tag_num cs"
proof (induction cs rule: rev_induct)
  case (snoc c cs)
  then show ?case
  proof (cases "cs = []")
    case True
    then show ?thesis using snoc.prems char_pos_eq_0 [of c] tag_num_snoc(2) [of "[]" c] by (simp add: tag_ok_def)
  next
    case False
    then have "0 < tag_num cs" using snoc by (simp add: tag_ok_def hd_append)
    then show ?thesis by simp
  qed
qed simp

lemma de_hash_loop_num:
  assumes "tag_ok cs" "length cs \<le> k" "length cs \<le> 10" "unat n = tag_num cs"
  shows "de_hash_loop k n buf = Some (cs @ buf)"
  using assms
proof (induction cs arbitrary: k n buf rule: rev_induct)
  case Nil
  then show ?case by (subst de_hash_loop.simps) (simp add: unat_eq_zero)
next
  case (snoc c cs)
  obtain k' where k: "k = Suc k'" using snoc.prems(2) by (cases k) auto
  have c: "c \<in> set chars" using snoc.prems(1) by (simp add: tag_ok_def)
  have "0 < unat n" using snoc.prems(4) tag_num_pos [OF snoc.prems(1)] by simp
  then have n0: "n \<noteq> 0" by auto
  have "tag_num (cs @ [c]) < 64 ^ length (cs @ [c])"
    using snoc.prems(1) by (intro tag_num_bound) (simp add: tag_ok_def)
  also have "\<dots> \<le> 64 ^ 10" using snoc.prems(3) by (intro power_increasing) auto
  finally have lt: "unat n < 2 ^ 63" using snoc.prems(4) by simp
  note d = digit_steps [OF _ char_pos(1) [OF c] lt, of "tag_num cs"]
  have u: "unat (signed_drop_bit 6 n) = tag_num cs" "unat (n AND 63) = char_pos c"
    using d snoc.prems(4) by simp_all
  have "tag_ok cs" using snoc.prems(1) by (cases cs) (auto simp: tag_ok_def)
  then have "de_hash_loop k' (signed_drop_bit 6 n) (c # buf) = Some (cs @ c # buf)"
    using snoc.IH [of k' "signed_drop_bit 6 n" "c # buf"] snoc.prems u k by simp
  then show ?case using k n0 u char_pos(2) [OF c] by (subst de_hash_loop.simps) simp
qed

section \<open>The hash\<close>

lemma LtagHash_ok:
  assumes "tag_ok (take 10 s)"
  shows "\<exists>h. LtagHash s = Inr (BOX h) \<and> de_hash h = Some (take 10 s) \<and> unat h = tag_num (take 10 s) \<and> unat h < 2 ^ 60"
proof -
  obtain h where h: "tag_hash_loop s 0 0 = Inr h" "unat h = tag_num (take 10 s)"
    using tag_hash_loop_num [of 0 s "[]" 0] assms by (auto simp: tag_ok_def)
  have d: "de_hash h = Some (take 10 s)"
    unfolding de_hash_def using de_hash_loop_num [OF assms _ _ h(2), of 10 "[]"] by (simp add: MAX_SEXP_TAGLEN_def)
  have "tag_num (take 10 s) < 64 ^ length (take 10 s)"
    using assms by (intro tag_num_bound) (simp add: tag_ok_def)
  also have "\<dots> \<le> 64 ^ 10" by (intro power_increasing) auto
  finally have "unat h < 2 ^ 60" using h(2) by simp
  then show ?thesis using h d by (auto simp: LtagHash_def strncmp_eq_def MAX_SEXP_TAGLEN_def)
qed

lemma tag_num_strip: "tag_num (CHR ''_'' # cs) = tag_num cs"
  by (simp add: tag_num_def char_pos_def chars_def)

lemma tag_num_dropWhile: "tag_num (dropWhile (\<lambda>c. c = CHR ''_'') cs) = tag_num cs"
  by (induction cs) (simp_all add: tag_num_strip)

lemma tag_ok_dropWhile: "set cs \<subseteq> set chars \<Longrightarrow> tag_ok (dropWhile (\<lambda>c. c = CHR ''_'') cs)"
  using hd_dropWhile [of "\<lambda>c. c = CHR ''_''" cs] set_dropWhileD [of _ "\<lambda>c. c = CHR ''_''" cs]
  by (auto simp: tag_ok_def)

text \<open>A tag that starts with an underscore does not survive the check.\<close>

lemma LtagHash_underscore:
  assumes s: "set (take 10 s) \<subseteq> set chars" "\<not> tag_ok (take 10 s)"
  shows "\<exists>t. LtagHash s = Inl (Failure (s @ '' <-> '' @ t)) \<and> t = dropWhile (\<lambda>c. c = CHR ''_'') (take 10 s)"
proof -
  let ?t = "dropWhile (\<lambda>c. c = CHR ''_'') (take 10 s)"
  obtain h where h: "tag_hash_loop s 0 0 = Inr h" "unat h = tag_num (take 10 s)"
    using tag_hash_loop_num [of 0 s "[]" 0] s(1) by auto
  have l: "length ?t \<le> 10" using length_dropWhile_le [of _ "take 10 s"] by (rule order.trans) simp
  have d: "de_hash h = Some ?t"
    unfolding de_hash_def
    using de_hash_loop_num [OF tag_ok_dropWhile [OF s(1)] _ l, of 10 h "[]"] h(2) l
    by (simp add: MAX_SEXP_TAGLEN_def tag_num_dropWhile)
  obtain r where "take 10 s = CHR ''_'' # r" using s by (cases "take 10 s") (auto simp: tag_ok_def)
  then have "length ?t < length (take 10 s)"
    using length_dropWhile_le [of "\<lambda>c. c = CHR ''_''" r] by simp
  moreover have "take 10 ?t = ?t" using l by simp
  ultimately have "take 10 s \<noteq> take 10 ?t" by auto
  then show ?thesis using h(1) d by (simp add: LtagHash_def strncmp_eq_def MAX_SEXP_TAGLEN_def)
qed

lemma LtagHash_success_iff: "(\<exists>v. LtagHash s = Inr v) \<longleftrightarrow> tag_ok (take 10 s)"
proof
  assume "\<exists>v. LtagHash s = Inr v"
  then show "tag_ok (take 10 s)"
  proof (cases "set (take 10 s) \<subseteq> set chars")
    case True
    then show ?thesis using LtagHash_underscore [OF True] \<open>\<exists>v. LtagHash s = Inr v\<close> by force
  next
    case False
    then have "\<exists>e. LtagHash s = Inl e" using tag_hash_loop_bad [of 0 s 0] by (auto simp: LtagHash_def)
    then show ?thesis using \<open>\<exists>v. LtagHash s = Inr v\<close> by auto
  qed
qed (use LtagHash_ok in blast)

text \<open>On a negative number the loop of \<open>de_hash\<close> leaves its buffer.\<close>

lemma de_hash_loop_negative: "sint n < 0 \<Longrightarrow> de_hash_loop k n buf = None"
proof (induction k arbitrary: n buf)
  case 0
  then have "n \<noteq> 0" by auto
  then show ?case by (subst de_hash_loop.simps) simp
next
  case (Suc k)
  then have "n \<noteq> 0" by auto
  moreover have "sint (signed_drop_bit 6 n) < 0"
    using Suc.prems by (simp add: sint_signed_drop_bit_eq drop_bit_eq_div)
  ultimately show ?case using Suc.IH by (subst de_hash_loop.simps) simp
qed

section \<open>Properties\<close>

text \<open>
  C29: Round trip and domain of the tag hash: \<open>LtagHash\<close> succeeds exactly on the tags whose first
  ten characters are in the alphabet and do not start with an underscore, and then
  \<open>de_hash\<close> gives those characters back.
\<close>

theorem tag_hash_roundtrip:
  "case LtagHash s of
     Inr v \<Rightarrow> tag_ok (take 10 s) \<and> de_hash (UNBOX v) = Some (take 10 s)
   | Inl e \<Rightarrow> \<not> tag_ok (take 10 s)"
proof (cases "tag_ok (take 10 s)")
  case True
  then obtain h where h: "LtagHash s = Inr (BOX h)" "de_hash h = Some (take 10 s)" "unat h < 2 ^ 60"
    using LtagHash_ok by blast
  have "UNBOX (BOX h) = h" by (intro UNBOX_BOX fits63_small) (use h(3) in simp)
  then show ?thesis using h True by simp
next
  case False
  then obtain e where "LtagHash s = Inl e" using LtagHash_success_iff [of s] by (cases "LtagHash s") auto
  then show ?thesis using False by simp
qed

text \<open>
  The hash is injective on the first ten characters: two tags get the same hash if and only if
  they agree there.
\<close>

theorem tag_hash_injective:
  assumes "tag_ok (take 10 s)" "tag_ok (take 10 t)"
  shows "LtagHash s = LtagHash t \<longleftrightarrow> take 10 s = take 10 t"
proof
  obtain h where h: "LtagHash s = Inr (BOX h)" "de_hash h = Some (take 10 s)" "unat h = tag_num (take 10 s)" "unat h < 2 ^ 60"
    using LtagHash_ok [OF assms(1)] by blast
  obtain k where k: "LtagHash t = Inr (BOX k)" "de_hash k = Some (take 10 t)" "unat k = tag_num (take 10 t)" "unat k < 2 ^ 60"
    using LtagHash_ok [OF assms(2)] by blast
  have f: "fits63 (sint h)" "fits63 (sint k)" by (rule fits63_small; use h(4) k(4) in simp)+
  show "take 10 s = take 10 t" if "LtagHash s = LtagHash t"
    using that h k BOX_inject [OF f] by simp
  show "LtagHash s = LtagHash t" if "take 10 s = take 10 t"
    using that h k by (metis word_unat_eq_iff)
qed

theorem tag_hash_injective_witness: "LtagHash ''Leaf'' \<noteq> LtagHash ''Node''"
  using tag_hash_injective [of "''Leaf''" "''Node''"] by (simp add: tag_ok_def chars_def)

text \<open>
  \<open>de_hash\<close> of a negative number does not come to an end inside its buffer.
\<close>

theorem de_hash_negative:
  assumes "sint n < 0"
  shows "de_hash n = None"
  using de_hash_loop_negative [OF assms] by (simp add: de_hash_def)

theorem de_hash_negative_witness: "de_hash (- 1) = None"
  by (rule de_hash_negative) simp

end
