(* ===== verification/Builtins.thy ===== *)
theory Builtins
  imports Tag_Hash Text Memory "HOL-Library.Signed_Division"
begin

text \<open>
  The built-in operations of \<open>runtime/runtime.c\<close> that allocate nothing: the operators on boxed
  integers, the inspection of headers, the pattern checks, element access and assignment. A value is
  a machine word, a pointer value is the address of an object's contents. A run that fails is
  \<open>Inl\<close> with the message of \<open>failure\<close>.

  A signed multiplication that overflows is taken to wrap around, as the compiled code does; a
  division by zero is \<open>Undefined\<close>.
\<close>

section \<open>Checks\<close>

definition assert_boxed :: "string \<Rightarrow> u64 \<Rightarrow> unit res" where
  "assert_boxed memo x =
     (if unboxed x then Inl (Failure (''boxed value expected in '' @ memo @ [CHR 0x0A])) else Inr ())"

definition assert_unboxed :: "string \<Rightarrow> u64 \<Rightarrow> unit res" where
  "assert_unboxed memo x =
     (if \<not> unboxed x then Inl (Failure (''unboxed value expected in '' @ memo @ [CHR 0x0A])) else Inr ())"

definition data_header :: "mem \<Rightarrow> u64 \<Rightarrow> u64" where
  "data_header m p = ld64 m (TO_DATA (unat p))"

definition sexp_tag :: "mem \<Rightarrow> u64 \<Rightarrow> u64" where
  "sexp_tag m p = ld64 m (TO_SEXP (unat p) + 16)"

text \<open>An unboxed value passes the check for a string.\<close>

definition assert_string :: "mem \<Rightarrow> string \<Rightarrow> u64 \<Rightarrow> unit res" where
  "assert_string m memo x =
     (if \<not> unboxed x \<and> TAG (data_header m x) \<noteq> STRING_TAG
      then Inl (Failure (''string value expected in '' @ memo @ [CHR 0x0A])) else Inr ())"

definition Lassert :: "u64 \<Rightarrow> string \<Rightarrow> unit res" where
  "Lassert f s = (if UNBOX f = 0 then Inl (Failure s) else Inr ())"

section \<open>Operators\<close>

definition checked_op :: "string \<Rightarrow> (u64 \<Rightarrow> u64 \<Rightarrow> u64) \<Rightarrow> u64 \<Rightarrow> u64 \<Rightarrow> u64 res" where
  "checked_op name f p q =
     bindR (assert_unboxed (''captured '' @ name @ '':1'') p) (\<lambda>_.
     bindR (assert_unboxed (''captured '' @ name @ '':2'') q) (\<lambda>_.
     Inr (BOX (f (UNBOX p) (UNBOX q)))))"

definition Ls__Infix_3333 :: "u64 \<Rightarrow> u64 \<Rightarrow> u64 res" where
  "Ls__Infix_3333 = checked_op ''!!'' (\<lambda>x y. of_bool (x \<noteq> 0 \<or> y \<noteq> 0))"

definition Ls__Infix_3838 :: "u64 \<Rightarrow> u64 \<Rightarrow> u64 res" where
  "Ls__Infix_3838 = checked_op ''&&'' (\<lambda>x y. of_bool (x \<noteq> 0 \<and> y \<noteq> 0))"

definition Ls__Infix_6161 :: "u64 \<Rightarrow> u64 \<Rightarrow> u64 res" where
  "Ls__Infix_6161 p q = Inr (BOX (of_bool (p = q)))"

definition Ls__Infix_3361 :: "u64 \<Rightarrow> u64 \<Rightarrow> u64 res" where
  "Ls__Infix_3361 = checked_op ''!='' (\<lambda>x y. of_bool (x \<noteq> y))"

definition Ls__Infix_6061 :: "u64 \<Rightarrow> u64 \<Rightarrow> u64 res" where
  "Ls__Infix_6061 = checked_op ''<='' (\<lambda>x y. of_bool (sint x \<le> sint y))"

definition Ls__Infix_60 :: "u64 \<Rightarrow> u64 \<Rightarrow> u64 res" where
  "Ls__Infix_60 = checked_op ''<'' (\<lambda>x y. of_bool (sint x < sint y))"

definition Ls__Infix_6261 :: "u64 \<Rightarrow> u64 \<Rightarrow> u64 res" where
  "Ls__Infix_6261 = checked_op ''>='' (\<lambda>x y. of_bool (sint y \<le> sint x))"

definition Ls__Infix_62 :: "u64 \<Rightarrow> u64 \<Rightarrow> u64 res" where
  "Ls__Infix_62 = checked_op ''>'' (\<lambda>x y. of_bool (sint y < sint x))"

definition Ls__Infix_43 :: "u64 \<Rightarrow> u64 \<Rightarrow> u64 res" where
  "Ls__Infix_43 = checked_op ''+'' (+)"

definition Ls__Infix_45 :: "u64 \<Rightarrow> u64 \<Rightarrow> u64 res" where
  "Ls__Infix_45 p q =
     (if unboxed p
      then bindR (assert_unboxed ''captured -:2'' q) (\<lambda>_. Inr (BOX (UNBOX p - UNBOX q)))
      else bindR (assert_boxed ''captured -:1'' q) (\<lambda>_. Inr (BOX (p - q))))"

definition Ls__Infix_42 :: "u64 \<Rightarrow> u64 \<Rightarrow> u64 res" where
  "Ls__Infix_42 = checked_op ''*'' (*)"

definition checked_div :: "string \<Rightarrow> (int \<Rightarrow> int \<Rightarrow> int) \<Rightarrow> u64 \<Rightarrow> u64 \<Rightarrow> u64 res" where
  "checked_div name f p q =
     bindR (assert_unboxed (''captured '' @ name @ '':1'') p) (\<lambda>_.
     bindR (assert_unboxed (''captured '' @ name @ '':2'') q) (\<lambda>_.
     if UNBOX q = 0 then Inl Undefined
     else Inr (BOX (word_of_int (f (sint (UNBOX p)) (sint (UNBOX q)))))))"

definition Ls__Infix_47 :: "u64 \<Rightarrow> u64 \<Rightarrow> u64 res" where
  "Ls__Infix_47 = checked_div ''/'' (sdiv)"

definition Ls__Infix_37 :: "u64 \<Rightarrow> u64 \<Rightarrow> u64 res" where
  "Ls__Infix_37 = checked_div ''%'' (smod)"

section \<open>Looking at values\<close>

definition LkindOf :: "mem \<Rightarrow> u64 \<Rightarrow> u64" where
  "LkindOf m p = (if unboxed p then UNBOXED_TAG else TAG (data_header m p))"

definition LcompareTags :: "mem \<Rightarrow> u64 \<Rightarrow> u64 \<Rightarrow> u64 res" where
  "LcompareTags m p q =
     bindR (assert_boxed ''compareTags, 0'' p) (\<lambda>_.
     bindR (assert_boxed ''compareTags, 1'' q) (\<lambda>_.
     if TAG (data_header m p) = SEXP_TAG \<and> TAG (data_header m q) = SEXP_TAG
     then Inr (BOX (sexp_tag m p - sexp_tag m q))
     else Inl (Failure (''not a sexpr in compareTags: '' @ show_int (sint (TAG (data_header m p))) @ '', ''
                          @ show_int (sint (TAG (data_header m q))) @ [CHR 0x0A]))))"

definition Llength :: "mem \<Rightarrow> u64 \<Rightarrow> u64 res" where
  "Llength m p = bindR (assert_boxed ''.length'' p) (\<lambda>_. Inr (BOX (LEN (data_header m p))))"

text \<open>The conversion to \<open>int\<close> before the call of the \<open>ctype\<close> function, in the C locale.\<close>

definition c_toupper :: "32 word \<Rightarrow> 32 word" where
  "c_toupper c = (if 97 \<le> sint c \<and> sint c \<le> 122 then c - 32 else c)"

definition c_tolower :: "32 word \<Rightarrow> 32 word" where
  "c_tolower c = (if 65 \<le> sint c \<and> sint c \<le> 90 then c + 32 else c)"

definition Luppercase :: "u64 \<Rightarrow> u64 res" where
  "Luppercase v = bindR (assert_unboxed ''Luppercase:1'' v) (\<lambda>_. Inr (BOX (scast (c_toupper (ucast (UNBOX v))))))"

definition Llowercase :: "u64 \<Rightarrow> u64 res" where
  "Llowercase v = bindR (assert_unboxed ''Llowercase:1'' v) (\<lambda>_. Inr (BOX (scast (c_tolower (ucast (UNBOX v))))))"

text \<open>\<open>char\<close> is unsigned on RISC-V. There is no check of the index.\<close>

definition Belem :: "mem \<Rightarrow> u64 \<Rightarrow> u64 \<Rightarrow> u64 res" where
  "Belem m p i =
     bindR (assert_boxed ''.elem:1'' p) (\<lambda>_.
     bindR (assert_unboxed ''.elem:2'' i) (\<lambda>_.
     let t = TAG (data_header m p); i = UNBOX i in
     if t = STRING_TAG then Inr (BOX (ucast (m (unat (p + i)))))
     else if t = SEXP_TAG then Inr (ld64 m (unat (p + 8 + 8 * i)))
     else Inr (ld64 m (unat (p + 8 * i)))))"

definition Bsta :: "mem \<Rightarrow> u64 \<Rightarrow> u64 \<Rightarrow> u64 \<Rightarrow> (u64 \<times> mem) res" where
  "Bsta m x i v =
     (if unboxed i
      then bindR (assert_boxed ''.sta:3'' x) (\<lambda>_.
        let t = TAG (data_header m x) in
        if t = STRING_TAG then Inr (v, m(unat (x + UNBOX i) := ucast (UNBOX v)))
        else if t = SEXP_TAG then Inr (v, st64 m (unat (x + 8 + 8 * UNBOX i)) v)
        else Inr (v, st64 m (unat (x + 8 * UNBOX i)) v))
      else Inr (v, st64 m (unat x) v))"

definition Lfst :: "mem \<Rightarrow> u64 \<Rightarrow> u64 res" where "Lfst m v = Belem m v (BOX 0)"
definition Lsnd :: "mem \<Rightarrow> u64 \<Rightarrow> u64 res" where "Lsnd m v = Belem m v (BOX 1)"
definition Lhd :: "mem \<Rightarrow> u64 \<Rightarrow> u64 res" where "Lhd m v = Belem m v (BOX 0)"
definition Ltl :: "mem \<Rightarrow> u64 \<Rightarrow> u64 res" where "Ltl m v = Belem m v (BOX 1)"

section \<open>Patterns\<close>

definition boxB :: "bool \<Rightarrow> u64" where "boxB b = BOX (of_bool b)"

definition Btag :: "mem \<Rightarrow> u64 \<Rightarrow> u64 \<Rightarrow> u64 \<Rightarrow> u64" where
  "Btag m d t n =
     (if unboxed d then BOX 0
      else boxB (TAG (data_header m d) = SEXP_TAG \<and> sexp_tag m d = UNBOX t \<and> LEN (data_header m d) = UNBOX n))"

definition get_tag :: "mem \<Rightarrow> addr \<Rightarrow> u64" where "get_tag m d = TAG (ld64 m d)"
definition get_len :: "mem \<Rightarrow> addr \<Rightarrow> u64" where "get_len m d = LEN (ld64 m d)"

definition Barray_patt :: "mem \<Rightarrow> u64 \<Rightarrow> u64 \<Rightarrow> u64" where
  "Barray_patt m d n =
     (if unboxed d then BOX 0
      else let r = TO_DATA (unat d) in boxB (get_tag m r = ARRAY_TAG \<and> get_len m r = UNBOX n))"

definition Bclosure_tag_patt :: "mem \<Rightarrow> u64 \<Rightarrow> u64" where
  "Bclosure_tag_patt m x = (if unboxed x then BOX 0 else boxB (TAG (data_header m x) = CLOSURE_TAG))"

definition Bboxed_patt :: "u64 \<Rightarrow> u64" where "Bboxed_patt x = BOX (if unboxed x then 0 else 1)"
definition Bunboxed_patt :: "u64 \<Rightarrow> u64" where "Bunboxed_patt x = BOX (if unboxed x then 1 else 0)"

definition Barray_tag_patt :: "mem \<Rightarrow> u64 \<Rightarrow> u64" where
  "Barray_tag_patt m x = (if unboxed x then BOX 0 else boxB (TAG (data_header m x) = ARRAY_TAG))"

definition Bstring_tag_patt :: "mem \<Rightarrow> u64 \<Rightarrow> u64" where
  "Bstring_tag_patt m x = (if unboxed x then BOX 0 else boxB (TAG (data_header m x) = STRING_TAG))"

definition Bsexp_tag_patt :: "mem \<Rightarrow> u64 \<Rightarrow> u64" where
  "Bsexp_tag_patt m x = (if unboxed x then BOX 0 else boxB (TAG (data_header m x) = SEXP_TAG))"

definition Lbinoperror :: "u64 res" where "Lbinoperror = Inl (Exit 1)"
definition Lbinoperror2 :: "u64 res" where "Lbinoperror2 = Inl (Exit 1)"

definition LflatCompare :: "u64 \<Rightarrow> u64 \<Rightarrow> u64" where
  "LflatCompare p q =
     (if unboxed p then (if unboxed q then BOX (UNBOX p - UNBOX q) else - 1)
      else if NOT (UNBOXED q) \<noteq> 0 then BOX (p - q) else BOX 1)"

section \<open>Integers\<close>

text \<open>The value that represents an integer.\<close>

definition boxI :: "int \<Rightarrow> u64" where "boxI i = BOX (word_of_int i)"

lemma unboxed_boxI [simp]: "unboxed (boxI i)"
  by (simp add: boxI_def)

lemma sint_word_of_int_63: "fits63 i \<Longrightarrow> sint (word_of_int i :: u64) = i"
  unfolding fits63_def by (simp add: signed_of_int signed_take_bit_int_eq_self)

lemma UNBOX_boxI [simp]: "fits63 i \<Longrightarrow> UNBOX (boxI i) = word_of_int i"
  using UNBOX_BOX [of "word_of_int i"] sint_word_of_int_63 [of i] by (simp add: boxI_def)

lemma boxI_sint [simp]: "unboxed p \<Longrightarrow> boxI (sint (UNBOX p)) = p"
  by (simp add: boxI_def BOX_UNBOX)

lemma boxI_inject: "fits63 i \<Longrightarrow> fits63 j \<Longrightarrow> boxI i = boxI j \<longleftrightarrow> i = j"
  by (metis UNBOX_boxI sint_word_of_int_63)

lemma boxB_boxI: "BOX (of_bool b) = boxI (of_bool b)"
  by (simp add: boxI_def)

lemma word_of_int_eq_0_63: "fits63 i \<Longrightarrow> (word_of_int i :: u64) = 0 \<longleftrightarrow> i = 0"
  using sint_word_of_int_63 [of i] by (metis sint_0 of_int_0)

lemma word_of_int_inject_63: "fits63 i \<Longrightarrow> fits63 j \<Longrightarrow> (word_of_int i :: u64) = word_of_int j \<longleftrightarrow> i = j"
  using sint_word_of_int_63 by metis

lemma checked_op_boxI:
  "fits63 i \<Longrightarrow> fits63 j \<Longrightarrow> checked_op name f (boxI i) (boxI j) = Inr (BOX (f (word_of_int i) (word_of_int j)))"
  by (simp add: checked_op_def assert_unboxed_def)

lemma checked_div_boxI:
  "fits63 i \<Longrightarrow> fits63 j \<Longrightarrow> checked_div name f (boxI i) (boxI j) = (if j = 0 then Inl Undefined else Inr (boxI (f i j)))"
  by (simp add: checked_div_def assert_unboxed_def word_of_int_eq_0_63 sint_word_of_int_63) (simp add: boxI_def)

lemmas operator_defs = Ls__Infix_3333_def Ls__Infix_3838_def Ls__Infix_6161_def Ls__Infix_3361_def
  Ls__Infix_6061_def Ls__Infix_60_def Ls__Infix_6261_def Ls__Infix_62_def Ls__Infix_43_def Ls__Infix_45_def
  Ls__Infix_42_def Ls__Infix_47_def Ls__Infix_37_def

lemma checked_op_boxed:
  "\<not> unboxed p \<or> \<not> unboxed q \<Longrightarrow> \<exists>s. checked_op name f p q = Inl (Failure s)"
  "\<not> unboxed p \<or> \<not> unboxed q \<Longrightarrow> \<exists>s. checked_div name g p q = Inl (Failure s)"
  by (auto simp: checked_op_def checked_div_def assert_unboxed_def)

section \<open>Properties\<close>

lemma built_in_value:
  assumes "fits63 i" "fits63 j"
  shows
    "Ls__Infix_43 (boxI i) (boxI j) = Inr (boxI (i + j))"
    "Ls__Infix_45 (boxI i) (boxI j) = Inr (boxI (i - j))"
    "Ls__Infix_42 (boxI i) (boxI j) = Inr (boxI (i * j))"
    "Ls__Infix_47 (boxI i) (boxI j) = (if j = 0 then Inl Undefined else Inr (boxI (i sdiv j)))"
    "Ls__Infix_37 (boxI i) (boxI j) = (if j = 0 then Inl Undefined else Inr (boxI (i smod j)))"
    "Ls__Infix_60 (boxI i) (boxI j) = Inr (boxI (of_bool (i < j)))"
    "Ls__Infix_6061 (boxI i) (boxI j) = Inr (boxI (of_bool (i \<le> j)))"
    "Ls__Infix_62 (boxI i) (boxI j) = Inr (boxI (of_bool (j < i)))"
    "Ls__Infix_6261 (boxI i) (boxI j) = Inr (boxI (of_bool (j \<le> i)))"
    "Ls__Infix_6161 (boxI i) (boxI j) = Inr (boxI (of_bool (i = j)))"
    "Ls__Infix_3361 (boxI i) (boxI j) = Inr (boxI (of_bool (i \<noteq> j)))"
    "Ls__Infix_3838 (boxI i) (boxI j) = Inr (boxI (of_bool (i \<noteq> 0 \<and> j \<noteq> 0)))"
    "Ls__Infix_3333 (boxI i) (boxI j) = Inr (boxI (of_bool (i \<noteq> 0 \<or> j \<noteq> 0)))"
  using assms unfolding boxB_boxI [symmetric]
  by (simp_all add: operator_defs checked_op_boxI checked_div_boxI assert_unboxed_def sint_word_of_int_63 boxI_inject
      word_of_int_inject_63 word_of_int_eq_0_63) (simp_all add: boxI_def)

text \<open>
  C35: The arithmetic built-ins compute on boxed integers what their names say: sum, difference and
  product modulo 2^63, truncated quotient and remainder when the divisor is not zero.
\<close>

theorem arithmetic_correct:
  assumes "fits63 i" "fits63 j"
  shows "Ls__Infix_43 (boxI i) (boxI j) = Inr (boxI (i + j)) \<and>
         Ls__Infix_45 (boxI i) (boxI j) = Inr (boxI (i - j)) \<and>
         Ls__Infix_42 (boxI i) (boxI j) = Inr (boxI (i * j)) \<and>
         Ls__Infix_47 (boxI i) (boxI j) = (if j = 0 then Inl Undefined else Inr (boxI (i sdiv j))) \<and>
         Ls__Infix_37 (boxI i) (boxI j) = (if j = 0 then Inl Undefined else Inr (boxI (i smod j)))"
  by (simp add: built_in_value [OF assms])

theorem arithmetic_correct_witness:
  "Ls__Infix_47 (boxI (- 7)) (boxI 2) = Inr (boxI (- 3)) \<and> Ls__Infix_37 (boxI (- 7)) (boxI 2) = Inr (boxI (- 1))"
  using arithmetic_correct [of "- 7" 2] by (simp add: fits63_def signed_divide_int_def signed_modulo_int_def)

text \<open>
  The comparisons and the logical connectives give 1 when the relation holds of the integers
  and 0 otherwise; the connectives take every integer but 0 for true.
\<close>

theorem comparisons_correct:
  assumes "fits63 i" "fits63 j"
  shows "Ls__Infix_60 (boxI i) (boxI j) = Inr (boxI (of_bool (i < j))) \<and>
         Ls__Infix_6061 (boxI i) (boxI j) = Inr (boxI (of_bool (i \<le> j))) \<and>
         Ls__Infix_62 (boxI i) (boxI j) = Inr (boxI (of_bool (j < i))) \<and>
         Ls__Infix_6261 (boxI i) (boxI j) = Inr (boxI (of_bool (j \<le> i))) \<and>
         Ls__Infix_6161 (boxI i) (boxI j) = Inr (boxI (of_bool (i = j))) \<and>
         Ls__Infix_3361 (boxI i) (boxI j) = Inr (boxI (of_bool (i \<noteq> j))) \<and>
         Ls__Infix_3838 (boxI i) (boxI j) = Inr (boxI (of_bool (i \<noteq> 0 \<and> j \<noteq> 0))) \<and>
         Ls__Infix_3333 (boxI i) (boxI j) = Inr (boxI (of_bool (i \<noteq> 0 \<or> j \<noteq> 0)))"
  by (simp add: built_in_value [OF assms])

theorem comparisons_correct_witness: "Ls__Infix_60 (boxI (- 5)) (boxI 3) = Inr (boxI 1)"
  using comparisons_correct [of "- 5" 3] by (simp add: fits63_def)

text \<open>
  Every operator but equality and subtraction rejects a boxed operand with a failure, before it
  computes anything; subtraction rejects a mixture of a boxed and an unboxed operand.
\<close>

theorem operators_reject_boxed:
  assumes "\<not> unboxed p \<or> \<not> unboxed q"
    and "f \<in> {Ls__Infix_3333, Ls__Infix_3838, Ls__Infix_3361, Ls__Infix_6061, Ls__Infix_60, Ls__Infix_6261,
               Ls__Infix_62, Ls__Infix_43, Ls__Infix_42, Ls__Infix_47, Ls__Infix_37}"
  shows "(\<exists>s. f p q = Inl (Failure s)) \<and> (unboxed p \<noteq> unboxed q \<longrightarrow> (\<exists>s. Ls__Infix_45 p q = Inl (Failure s)))"
proof
  show "\<exists>s. f p q = Inl (Failure s)"
    using assms(2) checked_op_boxed [OF assms(1)] by (auto simp: operator_defs)
  show "unboxed p \<noteq> unboxed q \<longrightarrow> (\<exists>s. Ls__Infix_45 p q = Inl (Failure s))"
    by (auto simp: Ls__Infix_45_def assert_unboxed_def assert_boxed_def)
qed

theorem operators_reject_boxed_witness:
  "\<exists>s. Ls__Infix_43 16 (boxI 1) = Inl (Failure s)"
  using operators_reject_boxed [of 16 "boxI 1" Ls__Infix_43] by (simp add: unboxed_iff)

definition kind_answers :: "mem \<Rightarrow> u64 \<Rightarrow> u64 list" where
  "kind_answers m x = [Bunboxed_patt x, Bstring_tag_patt m x, Barray_tag_patt m x, Bsexp_tag_patt m x, Bclosure_tag_patt m x]"

lemmas pattern_defs = kind_answers_def Bunboxed_patt_def Bstring_tag_patt_def Barray_tag_patt_def
  Bsexp_tag_patt_def Bclosure_tag_patt_def LkindOf_def boxB_def tag_defs

text \<open>
  The pattern checks classify values: of \<open>Bunboxed_patt\<close> and the four checks of the kind of an
  object exactly one answers 1 on a value that is an integer or points to an object with a valid
  header, and it is the one \<open>LkindOf\<close> names.
\<close>

theorem kinds_exclusive:
  assumes "unboxed x \<or> TAG (data_header m x) \<in> {STRING_TAG, ARRAY_TAG, SEXP_TAG, CLOSURE_TAG}"
  shows "\<exists>k \<in> {0, 1, 2, 3, 4}. kind_answers m x = map (\<lambda>i. boxB (i = k)) [0, 1, 2, 3, 4] \<and>
           LkindOf m x = [UNBOXED_TAG, STRING_TAG, ARRAY_TAG, SEXP_TAG, CLOSURE_TAG] ! k"
proof -
  consider "unboxed x" | "\<not> unboxed x" "TAG (data_header m x) = STRING_TAG" | "\<not> unboxed x" "TAG (data_header m x) = ARRAY_TAG"
    | "\<not> unboxed x" "TAG (data_header m x) = SEXP_TAG" | "\<not> unboxed x" "TAG (data_header m x) = CLOSURE_TAG"
    using assms by auto
  then show ?thesis
  proof cases
    case 1 then show ?thesis by (intro bexI [of _ 0]) (simp_all add: pattern_defs)
  next
    case 2 then show ?thesis by (intro bexI [of _ 1]) (simp_all add: pattern_defs)
  next
    case 3 then show ?thesis by (intro bexI [of _ 2]) (simp_all add: pattern_defs)
  next
    case 4 then show ?thesis by (intro bexI [of _ 3]) (simp_all add: pattern_defs)
  next
    case 5 then show ?thesis by (intro bexI [of _ 4]) (simp_all add: pattern_defs)
  qed
qed

lemma kind_witness_header: "data_header (st64 m 0 11) 16 = 11"
  by (simp add: data_header_def TO_DATA_def)

theorem kinds_exclusive_witness:
  "\<exists>k \<in> {0, 1, 2, 3, 4 :: nat}. kind_answers (st64 (\<lambda>_. 0) 0 11) 16 = map (\<lambda>i. boxB (i = k)) [0, 1, 2, 3, 4]"
proof -
  have "TAG (data_header (st64 (\<lambda>_. 0) 0 11) 16) = ARRAY_TAG"
    unfolding kind_witness_header by (simp add: TAG_def tag_defs)
  then show ?thesis using kinds_exclusive [of 16 "st64 (\<lambda>_. 0) 0 11"] by blast
qed

definition elem_addr :: "mem \<Rightarrow> u64 \<Rightarrow> nat \<Rightarrow> addr" where
  "elem_addr m x i = unat x + (if TAG (data_header m x) = SEXP_TAG then 8 else 0) + 8 * i"

lemma elem_addr_word:
  assumes "elem_addr m x i < 2 ^ 64"
  shows "TAG (data_header m x) = SEXP_TAG \<Longrightarrow> unat (x + 8 + 8 * of_nat i) = elem_addr m x i"
    and "TAG (data_header m x) \<noteq> SEXP_TAG \<Longrightarrow> unat (x + 8 * of_nat i) = elem_addr m x i"
proof -
  assume "TAG (data_header m x) = SEXP_TAG"
  then have e: "elem_addr m x i = unat x + 8 + 8 * i" by (simp add: elem_addr_def)
  have "x + 8 + 8 * of_nat i = (of_nat (unat x + 8 + 8 * i) :: u64)" by simp
  then show "unat (x + 8 + 8 * of_nat i) = elem_addr m x i"
    using unat_of_nat_u64 [OF assms] by (simp only: e)
next
  assume "TAG (data_header m x) \<noteq> SEXP_TAG"
  then have e: "elem_addr m x i = unat x + 8 * i" by (simp add: elem_addr_def)
  have "x + 8 * of_nat i = (of_nat (unat x + 8 * i) :: u64)" by simp
  then show "unat (x + 8 * of_nat i) = elem_addr m x i"
    using unat_of_nat_u64 [OF assms] by (simp only: e)
qed

lemma UNBOX_index:
  assumes "i < 2 ^ 62"
  shows "UNBOX (boxI (int i)) = of_nat i"
proof -
  have "int i < 2 ^ 62" using assms by (metis of_nat_less_iff of_nat_numeral of_nat_power)
  then have "fits63 (int i)" unfolding fits63_def by linarith
  then show ?thesis by simp
qed

lemma Belem_index:
  assumes "\<not> unboxed x" "TAG (data_header m x) \<noteq> STRING_TAG" "i < 2 ^ 62" "elem_addr m x i < 2 ^ 64"
  shows "Belem m x (boxI (int i)) = Inr (ld64 m (elem_addr m x i))"
  using assms elem_addr_word [OF assms(4)]
  by (simp add: Belem_def assert_boxed_def assert_unboxed_def UNBOX_index Let_def)

lemma Bsta_index:
  assumes "\<not> unboxed x" "TAG (data_header m x) \<noteq> STRING_TAG" "i < 2 ^ 62" "elem_addr m x i < 2 ^ 64"
  shows "Bsta m x (boxI (int i)) v = Inr (v, st64 m (elem_addr m x i) v)"
  using assms elem_addr_word [OF assms(4)]
  by (simp add: Bsta_def assert_boxed_def UNBOX_index Let_def)

text \<open>
  An assignment to a member is read back by an access to it, and neither the header word, nor
  the mark bits, nor any other member of the object, nor anything outside it changes.
\<close>

theorem assign_then_read:
  assumes "\<not> unboxed x" "16 \<le> unat x" "TAG (data_header m x) \<noteq> STRING_TAG"
    and "i < 2 ^ 62" "j < 2 ^ 62" "elem_addr m x i < 2 ^ 64" "elem_addr m x j < 2 ^ 64"
  shows "\<exists>m'. Bsta m x (boxI (int i)) v = Inr (v, m') \<and>
           Belem m' x (boxI (int j)) = (if j = i then Inr v else Belem m x (boxI (int j))) \<and>
           data_header m' x = data_header m x \<and> ld64 m' (unat x - 8) = ld64 m (unat x - 8) \<and>
           (\<forall>a. a < elem_addr m x i \<or> elem_addr m x i + 8 \<le> a \<longrightarrow> m' a = m a)"
proof -
  let ?a = "elem_addr m x i"
  let ?m = "st64 m ?a v"
  have x: "unat x \<le> ?a" by (simp add: elem_addr_def)
  have hd: "data_header ?m x = data_header m x"
    unfolding data_header_def TO_DATA_def DATA_HEADER_SZ_eq by (rule ld64_st64_other) (use x assms(2) in linarith)
  have fw: "ld64 ?m (unat x - 8) = ld64 m (unat x - 8)"
    by (rule ld64_st64_other) (use x assms(2) in linarith)
  have ea: "elem_addr ?m x k = elem_addr m x k" for k
    by (simp only: elem_addr_def [of ?m] elem_addr_def [of m x k] hd)
  have "ld64 ?m (elem_addr m x j) = (if j = i then v else ld64 m (elem_addr m x j))"
    by (cases "i < j") (auto simp: elem_addr_def ld64_st64_same intro!: ld64_st64_other)
  moreover have "Belem ?m x (boxI (int j)) = Inr (ld64 ?m (elem_addr ?m x j))"
    by (rule Belem_index) (use assms hd ea in simp_all)
  ultimately have "Belem ?m x (boxI (int j)) = (if j = i then Inr v else Belem m x (boxI (int j)))"
    using Belem_index [OF assms(1,3,5,7)] ea by simp
  moreover have "\<forall>a. a < ?a \<or> ?a + 8 \<le> a \<longrightarrow> ?m a = m a" by (auto simp: st64_apply)
  ultimately show ?thesis using Bsta_index [OF assms(1,3,4,6)] hd fw by blast
qed

theorem assign_then_read_witness:
  "\<exists>m'. Bsta (st64 (\<lambda>_. 0) 0 27) 16 (boxI 2) 7 = Inr (7, m') \<and> Belem m' 16 (boxI 2) = Inr 7"
  using assign_then_read [of 16 "st64 (\<lambda>_. 0) 0 27" 2 2 7]
  by (auto simp: unboxed_iff data_header_def TO_DATA_def elem_addr_def TAG_def tag_defs)

text \<open>
  \<open>LflatCompare\<close> orders two integers by their difference and puts integers before boxed
  values, but it never puts a boxed value after an integer: its complement of a 0/1 value is true in
  both cases, so it answers the difference of the two words.
\<close>

theorem flat_compare_asymmetric:
  assumes "fits63 i" "fits63 j" "\<not> unboxed p"
  shows "LflatCompare (boxI i) (boxI j) = boxI (i - j) \<and> LflatCompare (boxI i) p = boxI (- 1) \<and>
         LflatCompare p (boxI i) = BOX (p - boxI i)"
proof -
  have "NOT (UNBOXED x) \<noteq> 0" for x
  proof -
    have "UNBOXED x = of_bool (odd x)" by (simp add: UNBOXED_def and_one_eq mod2_eq_if)
    then show ?thesis by (cases "odd x") (simp_all add: not_one_eq)
  qed
  moreover have "boxI (- 1) = - 1" by (simp add: boxI_def BOX_eq)
  moreover have "BOX (word_of_int i - word_of_int j) = boxI (i - j)" by (simp add: boxI_def)
  ultimately show ?thesis using assms by (simp add: LflatCompare_def)
qed

theorem flat_compare_asymmetric_witness:
  "LflatCompare 16 (boxI 3) = BOX (16 - boxI 3) \<and> LflatCompare 16 (boxI 3) \<noteq> boxI 1"
proof -
  have "LflatCompare 16 (boxI 3) = BOX (16 - boxI 3)"
    using flat_compare_asymmetric [of 3 3 16] by (simp add: fits63_def unboxed_iff)
  then show ?thesis by (simp add: boxI_def BOX_eq)
qed

end
