(* ===== verification/Trees.thy ===== *)
theory Trees
  imports Alloc Builtins
begin

text \<open>
  The abstract view of a Lama value: the tree it unfolds to. \<open>denotes s t v\<close> says that the word
  \<open>v\<close> unfolds to the tree \<open>t\<close> in the state \<open>s\<close>. The structural built-ins (comparison, hash,
  printing) are functions of the tree, and a collection keeps the tree of every value the program
  can reach. A cyclic value has no tree.
\<close>

section \<open>C strings in memory\<close>

text \<open>The bytes before the first NUL; \<open>None\<close> when there is none.\<close>

partial_function (option) cstring :: "mem \<Rightarrow> addr \<Rightarrow> byte list option" where
  "cstring m a = (if m a = 0 then Some [] else do { bs \<leftarrow> cstring m (a + 1); Some (m a # bs) })"

lemma cstring_SomeD:
  "cstring m a = Some bs \<Longrightarrow> 0 \<notin> set bs \<and> m (a + length bs) = 0 \<and> (\<forall>i < length bs. m (a + i) = bs ! i)"
proof (induction bs arbitrary: a)
  case Nil
  then show ?case by (subst (asm) cstring.simps) (auto split: if_splits bind_splits)
next
  case (Cons b bs)
  have "m a \<noteq> 0 \<and> m a = b \<and> cstring m (a + 1) = Some bs"
    using Cons.prems by (subst (asm) cstring.simps) (auto split: if_splits bind_splits)
  moreover from this have "0 \<notin> set bs \<and> m (a + 1 + length bs) = 0 \<and> (\<forall>i < length bs. m (a + 1 + i) = bs ! i)"
    using Cons.IH by blast
  ultimately show ?case by (auto simp: nth_Cons split: nat.splits)
qed

lemma cstring_SomeI:
  "0 \<notin> set bs \<Longrightarrow> m (a + length bs) = 0 \<Longrightarrow> (\<And>i. i < length bs \<Longrightarrow> m (a + i) = bs ! i) \<Longrightarrow> cstring m a = Some bs"
proof (induction bs arbitrary: a)
  case Nil
  then show ?case by (subst cstring.simps) simp
next
  case (Cons b bs)
  have "m a = b" using Cons.prems(3) [of 0] by simp
  moreover have "cstring m (a + 1) = Some bs"
  proof (rule Cons.IH)
    fix i assume "i < length bs"
    then show "m (a + 1 + i) = bs ! i" using Cons.prems(3) [of "Suc i"] by simp
  qed (use Cons.prems in simp_all)
  ultimately show ?case using Cons.prems(1) by (subst cstring.simps) auto
qed

lemma cstring_cong:
  assumes "cstring m a = Some bs" "\<And>i. i \<le> length bs \<Longrightarrow> m' (a' + i) = m (a + i)"
  shows "cstring m' a' = Some bs"
  using cstring_SomeD [OF assms(1)] assms(2) by (intro cstring_SomeI) auto

section \<open>Trees\<close>

datatype vtree = VInt u64 | VRaw u64 | VStr u64 "byte list" | VArr "vtree list"
  | VSexp u64 "vtree list" | VClo u64 "vtree list"

definition is_obj :: "gc_state \<Rightarrow> u64 \<Rightarrow> u64 \<Rightarrow> u64 \<Rightarrow> bool" where
  "is_obj s v tag len \<longleftrightarrow> is_valid_heap_pointer (heap s) v \<and>
     TAG (data_header (memory s) v) = tag \<and> LEN (data_header (memory s) v) = len"

fun denotes :: "gc_state \<Rightarrow> vtree \<Rightarrow> u64 \<Rightarrow> bool" and denote_words :: "gc_state \<Rightarrow> vtree list \<Rightarrow> addr \<Rightarrow> bool" where
  "denotes s (VInt i) v \<longleftrightarrow> unboxed v \<and> UNBOX v = i"
| "denotes s (VRaw w) v \<longleftrightarrow> \<not> unboxed v \<and> \<not> is_valid_heap_pointer (heap s) v \<and> v = w"
| "denotes s (VStr n bs) v \<longleftrightarrow> is_obj s v STRING_TAG n \<and> length bs \<le> unat n \<and> cstring (memory s) (unat v) = Some bs"
| "denotes s (VArr ts) v \<longleftrightarrow> is_obj s v ARRAY_TAG (of_nat (length ts)) \<and> length ts < 2 ^ 60 \<and>
     denote_words s ts (unat v)"
| "denotes s (VSexp t ts) v \<longleftrightarrow> is_obj s v SEXP_TAG (of_nat (length ts)) \<and> length ts < 2 ^ 60 \<and>
     sexp_tag (memory s) v = t \<and> denote_words s ts (unat v + 8)"
| "denotes s (VClo c ts) v \<longleftrightarrow> is_obj s v CLOSURE_TAG (of_nat (Suc (length ts))) \<and> length ts < 2 ^ 60 \<and>
     ld64 (memory s) (unat v) = c \<and> denote_words s ts (unat v + 8)"
| "denote_words s [] a \<longleftrightarrow> True"
| "denote_words s (t # ts) a \<longleftrightarrow> denotes s t (ld64 (memory s) a) \<and> denote_words s ts (a + 8)"

lemma denote_words_iff: "denote_words s ts a \<longleftrightarrow> (\<forall>i < length ts. denotes s (ts ! i) (ld64 (memory s) (a + 8 * i)))"
  by (induction ts arbitrary: a) (simp_all add: All_less_Suc2 add.assoc)

declare denote_words.simps [simp del]

text \<open>The kind of a value decides the constructor of its tree.\<close>

lemma is_obj_boxed: "is_obj s v t n \<Longrightarrow> \<not> unboxed v \<and> is_valid_heap_pointer (heap s) v"
  by (simp add: is_obj_def is_valid_heap_pointer_def)

lemma denotes_unboxed: "unboxed v \<Longrightarrow> denotes s t v \<longleftrightarrow> t = VInt (UNBOX v)"
  by (cases t) (auto dest: is_obj_boxed)

section \<open>A collection keeps the trees\<close>

text \<open>A word the collector knows about: if it is a heap pointer, it points to a live object.\<close>

definition held :: "gc_state \<Rightarrow> addr list \<Rightarrow> addr \<Rightarrow> nat \<Rightarrow> u64 \<Rightarrow> bool" where
  "held s os b n v \<longleftrightarrow>
     (is_valid_heap_pointer (heap s) v \<longrightarrow> (\<exists>h \<in> set os. live s h \<and> unat v = h + 16)) \<and>
     \<not> (is_valid_pointer v \<and> b \<le> unat v \<and> unat v \<le> b + 8 * n)"

definition collection :: "gc_state \<Rightarrow> addr list \<Rightarrow> addr \<Rightarrow> nat \<Rightarrow> gc_state \<Rightarrow> bool" where
  "collection s os b n s' \<longleftrightarrow>
     gc_ok s os \<and> collected s os b n s' \<and> fresh_mapping s os b n \<and> live_size s os < n"

lemma collection_word:
  assumes C: "collection s os b n s'" and v: "held s os b n v"
  shows "is_valid_heap_pointer (heap s') (gc_word b s os v) \<longleftrightarrow> is_valid_heap_pointer (heap s) v"
    and "\<not> is_valid_heap_pointer (heap s) v \<Longrightarrow> gc_word b s os v = v"
    and "is_valid_heap_pointer (heap s) v \<Longrightarrow> unat v = h + 16 \<Longrightarrow> h \<in> set os \<and> live s h \<and>
           unat (gc_word b s os v) = gc_addr b s os h + 16"
proof -
  have ok: "gc_ok s os" and col: "collected s os b n s'" and fm: "fresh_mapping s os b n" and lw: "live_size s os < n"
    using C by (simp_all add: collection_def)
  have hp': "heap s' = \<lparr>c_begin = b, c_end = b + 8 * n, c_current = b + 8 * live_size s os, c_size = n\<rparr>"
    using col by (simp add: collected_def)
  have b: "b mod 8 = 0" "b + 8 * live_size s os < 2 ^ 64"
    using fm lw by (simp_all add: fresh_mapping_def fresh_region_def)
  show same: "gc_word b s os v = v" if "\<not> is_valid_heap_pointer (heap s) v" using that by (simp add: gc_word_def)
  show h: "h \<in> set os \<and> live s h \<and> unat (gc_word b s os v) = gc_addr b s os h + 16"
    if vp: "is_valid_heap_pointer (heap s) v" and u: "unat v = h + 16" for h
  proof -
    have hl: "h \<in> set os" "live s h" using v vp u by (auto simp: held_def)
    then show ?thesis using unat_gc_word(1) [OF vp u hl b(2) gc_okD(1) [OF ok]] by simp
  qed
  show "is_valid_heap_pointer (heap s') (gc_word b s os v) \<longleftrightarrow> is_valid_heap_pointer (heap s) v"
  proof (cases "is_valid_heap_pointer (heap s) v")
    case True
    then obtain h0 where h0: "h0 \<in> set os" "live s h0" "unat v = h0 + 16" using v by (auto simp: held_def)
    note u = unat_gc_word [OF True h0(3,1,2) b(2) gc_okD(1) [OF ok]]
    have "even (gc_addr b s os h0 + 16)" using b(1) by (simp add: gc_addr_def) presburger
    then have "even (gc_word b s os v)" using u(1) by (simp add: even_u64_iff)
    then show ?thesis using True u by (simp add: is_valid_heap_pointer_def unboxed_iff hp' gc_addr_def)
  next
    case False
    then have "gc_word b s os v = v" by (rule same)
    moreover have "\<not> is_valid_heap_pointer (heap s') v"
      using v lw by (auto simp: held_def is_valid_heap_pointer_def is_valid_pointer_def hp')
    ultimately show ?thesis using False by simp
  qed
qed

lemma collection_slot_held:
  assumes C: "collection s os b n s'" and h: "h \<in> set os" "live s h" and a: "a \<in> set (slots (memory s) h)"
  shows "held s os b n (ld64 (memory s) a)"
proof -
  have ok: "gc_ok s os" and fm: "fresh_mapping s os b n" using C by (simp_all add: collection_def)
  have "\<exists>k \<in> set os. live s k \<and> unat (ld64 (memory s) a) = k + 16"
    if vp: "is_valid_heap_pointer (heap s) (ld64 (memory s) a)"
  proof -
    obtain k where k: "k \<in> set os" "unat (ld64 (memory s) a) = k + 16" "points_to (heap s) (ld64 (memory s) a) k"
      using heap_okD(4) [OF gc_ok_heap_ok [OF ok] h(1) a] vp by (blast elim: val_okE)
    then have "edge (heap s) (memory s) h k" using a by (auto simp: edge_def)
    then have "live s k" using h(2) live_edge by blast
    then show ?thesis using k by blast
  qed
  then show ?thesis using fm h(1) a by (simp add: held_def fresh_mapping_def fresh_region_def)
qed

lemma collection_root_held:
  assumes C: "collection s os b n s'" and p: "p \<in> set (fix_addrs s)"
  shows "held s os b n (ld64 (memory s) p)"
proof -
  have ok: "gc_ok s os" and fm: "fresh_mapping s os b n" using C by (simp_all add: collection_def)
  show ?thesis using fm p live_pointer [OF ok p] unfolding held_def fresh_mapping_def Let_def by blast
qed

lemma collection_object:
  assumes C: "collection s os b n s'" and v: "held s os b n v" "is_valid_heap_pointer (heap s) v"
  obtains h where "h \<in> set os" "live s h" "unat v = h + 16" "unat (gc_word b s os v) = gc_addr b s os h + 16"
    "moved (gc_word b s os) (memory s) h (memory s') (gc_addr b s os h)"
    "data_header (memory s') (gc_word b s os v) = data_header (memory s) v"
proof -
  obtain h where h: "h \<in> set os" "live s h" "unat v = h + 16" using v by (auto simp: held_def)
  have u: "unat (gc_word b s os v) = gc_addr b s os h + 16" using collection_word(3) [OF C v h(3)] by blast
  have mv: "moved (gc_word b s os) (memory s) h (memory s') (gc_addr b s os h)"
    using C h by (simp add: collection_def collected_def)
  then have "data_header (memory s') (gc_word b s os v) = data_header (memory s) v"
    using u h(3) by (simp add: data_header_def TO_DATA_def moved_def)
  then show thesis using that h u mv by blast
qed

lemma header_fields:
  assumes "unat v = h + 16"
  shows "TAG (data_header m v) = ARRAY_TAG \<Longrightarrow> obj_type m h = ARRAY"
    and "TAG (data_header m v) = STRING_TAG \<Longrightarrow> obj_type m h = STRING"
    and "TAG (data_header m v) = SEXP_TAG \<Longrightarrow> obj_type m h = SEXP"
    and "TAG (data_header m v) = CLOSURE_TAG \<Longrightarrow> obj_type m h = CLOSURE"
    and "unat (LEN (data_header m v)) = obj_len m h"
  using assms by (simp_all add: data_header_def TO_DATA_def obj_type_def get_type_header_ptr_def obj_len_def tag_defs)

lemma collection_words:
  assumes C: "collection s os b n s'" and h: "h \<in> set os" "live s h"
    and mv: "moved (gc_word b s os) (memory s) h (memory s') k"
    and ts: "length ts = nslots (memory s) h" "denote_words s ts (slot0 (memory s) h)"
    and IH: "\<And>t w. t \<in> set ts \<Longrightarrow> denotes s t w \<Longrightarrow> held s os b n w \<Longrightarrow> denotes s' t (gc_word b s os w)"
  shows "denote_words s' ts (slot0 (memory s') k)"
  unfolding denote_words_iff
proof (intro allI impI)
  fix i assume i: "i < length ts"
  have a: "slot0 (memory s) h + 8 * i \<in> set (slots (memory s) h)" using i ts(1) by (simp add: slots_def)
  have "denotes s (ts ! i) (ld64 (memory s) (slot0 (memory s) h + 8 * i))" using ts(2) i by (simp add: denote_words_iff)
  then have "denotes s' (ts ! i) (gc_word b s os (ld64 (memory s) (slot0 (memory s) h + 8 * i)))"
    using IH [of "ts ! i"] i collection_slot_held [OF C h a] by simp
  then show "denotes s' (ts ! i) (ld64 (memory s') (slot0 (memory s') k + 8 * i))"
    using mv i ts(1) by (simp add: moved_def)
qed

lemma moved_word:
  assumes "moved f m h m' k" "16 \<le> j" "j + 8 \<le> obj_bytes m h" "h + j + 8 \<le> slot0 m h"
  shows "ld64 m' (k + j) = ld64 m (h + j)"
proof (rule ld64_cong)
  fix i :: nat assume "i < 8"
  then have "16 \<le> j + i" "j + i < obj_bytes m h" "h + (j + i) < slot0 m h" using assms(2-4) by linarith+
  then have "m' (k + (j + i)) = m (h + (j + i))" using assms(1) unfolding moved_def by blast
  then show "m' (k + j + i) = m (h + j + i)" by (simp add: add.assoc)
qed

lemma collection_is_obj:
  assumes C: "collection s os b n s'" and v: "held s os b n v" and o: "is_obj s v tg len"
  shows "is_obj s' (gc_word b s os v) tg len"
proof -
  have p: "is_valid_heap_pointer (heap s) v" using o is_obj_boxed by blast
  then have "data_header (memory s') (gc_word b s os v) = data_header (memory s) v"
    using collection_object [OF C v p] by blast
  then show ?thesis using o p collection_word(1) [OF C v] by (simp add: is_obj_def)
qed

lemma collection_text:
  assumes C: "collection s os b n s'" and v: "held s os b n v" and o: "is_obj s v STRING_TAG len"
    and cs: "cstring (memory s) (unat v) = Some bs" "length bs \<le> unat len"
  shows "cstring (memory s') (unat (gc_word b s os v)) = Some bs"
proof (rule cstring_cong [OF cs(1)])
  fix i assume i: "i \<le> length bs"
  obtain h where h: "unat v = h + 16" "unat (gc_word b s os v) = gc_addr b s os h + 16"
    "moved (gc_word b s os) (memory s) h (memory s') (gc_addr b s os h)"
    using collection_object [OF C v] is_obj_boxed [OF o] by blast
  have "slot0 (memory s) h = h + (17 + unat len)" "obj_bytes (memory s) h = 17 + unat len"
    using header_fields(2,5) [OF h(1), of "memory s"] o by (simp_all add: slot0_def obj_bytes_def is_obj_def)
  then have "memory s' (gc_addr b s os h + (16 + i)) = memory s (h + (16 + i))"
    using h(3) i cs(2) unfolding moved_def by simp
  then show "memory s' (unat (gc_word b s os v) + i) = memory s (unat v + i)"
    using h(1,2) by (simp add: add.assoc)
qed

lemma collection_array:
  assumes C: "collection s os b n s'" and v: "held s os b n v"
    and o: "is_obj s v ARRAY_TAG (of_nat (length ts))" "length ts < 2 ^ 60" and ws: "denote_words s ts (unat v)"
    and IH: "\<And>t w. t \<in> set ts \<Longrightarrow> denotes s t w \<Longrightarrow> held s os b n w \<Longrightarrow> denotes s' t (gc_word b s os w)"
  shows "denote_words s' ts (unat (gc_word b s os v))"
proof -
  obtain h where h: "h \<in> set os" "live s h" "unat v = h + 16" "unat (gc_word b s os v) = gc_addr b s os h + 16"
    "moved (gc_word b s os) (memory s) h (memory s') (gc_addr b s os h)"
    using collection_object [OF C v] is_obj_boxed [OF o(1)] by blast
  have "obj_type (memory s) h = ARRAY" "obj_len (memory s) h = length ts"
    using header_fields(1,5) [OF h(3), of "memory s"] o by (simp_all add: is_obj_def unat_of_nat_u64)
  then have s0: "slot0 (memory s) h = unat v" "nslots (memory s) h = length ts"
    using h(3) by (simp_all add: slot0_def nslots_def)
  have "slot0 (memory s') (gc_addr b s os h) = unat (gc_word b s os v)"
    using slot0_shift [of "memory s'" "gc_addr b s os h" "memory s" h] h(3-5) s0(1) by (simp add: moved_def)
  moreover have "denote_words s' ts (slot0 (memory s') (gc_addr b s os h))"
    by (rule collection_words [OF C h(1,2,5)]) (use IH s0 ws in simp_all)
  ultimately show ?thesis by simp
qed

text \<open>The two kinds whose contents begin with a word of their own: the tag, or the code of a closure.\<close>

lemma collection_headed:
  assumes C: "collection s os b n s'" and v: "held s os b n v"
    and o: "is_obj s v SEXP_TAG (of_nat (length ts)) \<or> is_obj s v CLOSURE_TAG (of_nat (Suc (length ts)))" "length ts < 2 ^ 60"
    and ws: "denote_words s ts (unat v + 8)"
    and IH: "\<And>t w. t \<in> set ts \<Longrightarrow> denotes s t w \<Longrightarrow> held s os b n w \<Longrightarrow> denotes s' t (gc_word b s os w)"
  shows "denote_words s' ts (unat (gc_word b s os v) + 8)"
    "ld64 (memory s') (unat (gc_word b s os v)) = ld64 (memory s) (unat v)"
    "sexp_tag (memory s') (gc_word b s os v) = sexp_tag (memory s) v"
proof -
  have p: "is_valid_heap_pointer (heap s) v" using o(1) is_obj_boxed by blast
  obtain h where h: "h \<in> set os" "live s h" "unat v = h + 16" "unat (gc_word b s os v) = gc_addr b s os h + 16"
    "moved (gc_word b s os) (memory s) h (memory s') (gc_addr b s os h)"
    using collection_object [OF C v p] by blast
  have "unat (of_nat (length ts) :: u64) = length ts" "unat (of_nat (Suc (length ts)) :: u64) = Suc (length ts)"
    using o(2) by (simp_all add: unat_of_nat_u64 del: of_nat_Suc)
  then have "obj_type (memory s) h = SEXP \<and> obj_len (memory s) h = length ts \<or>
      obj_type (memory s) h = CLOSURE \<and> obj_len (memory s) h = Suc (length ts)"
    using header_fields(3-5) [OF h(3), of "memory s"] o(1) by (auto simp: is_obj_def)
  then have s0: "slot0 (memory s) h = h + 24" "nslots (memory s) h = length ts" "24 \<le> obj_bytes (memory s) h"
    by (auto simp: slot0_def nslots_def obj_bytes_def)
  have "slot0 (memory s') (gc_addr b s os h) = unat (gc_word b s os v) + 8"
    using slot0_shift [of "memory s'" "gc_addr b s os h" "memory s" h] h(3-5) s0(1) by (simp add: moved_def)
  moreover have "slot0 (memory s) h = unat v + 8" using s0(1) h(3) by simp
  then have "denote_words s' ts (slot0 (memory s') (gc_addr b s os h))"
    using ws by (intro collection_words [OF C h(1,2,5) s0(2) [symmetric]] IH) simp_all
  ultimately show "denote_words s' ts (unat (gc_word b s os v) + 8)" by simp
  have "ld64 (memory s') (gc_addr b s os h + 16) = ld64 (memory s) (h + 16)"
    using moved_word [OF h(5), of 16] s0 by simp
  then show "ld64 (memory s') (unat (gc_word b s os v)) = ld64 (memory s) (unat v)"
    "sexp_tag (memory s') (gc_word b s os v) = sexp_tag (memory s) v"
    using h(3,4) by (simp_all add: sexp_tag_def TO_SEXP_def)
qed

lemma collection_denotes:
  assumes C: "collection s os b n s'"
  shows "denotes s t v \<Longrightarrow> held s os b n v \<Longrightarrow> denotes s' t (gc_word b s os v)"
proof (induction t arbitrary: v)
  case (VInt i)
  then have "\<not> is_valid_heap_pointer (heap s) v" by (simp add: is_valid_heap_pointer_def)
  then show ?case using VInt collection_word(2) [OF C VInt.prems(2)] by simp
next
  case (VRaw w)
  then have nv: "\<not> is_valid_heap_pointer (heap s) v" by auto
  have g: "gc_word b s os v = v" by (rule collection_word(2) [OF C VRaw.prems(2) nv])
  have "\<not> is_valid_heap_pointer (heap s') v" using collection_word(1) [OF C VRaw.prems(2)] nv unfolding g by simp
  then show ?case using VRaw.prems(1) unfolding g by auto
next
  case (VStr len bs)
  then show ?case using collection_is_obj [OF C VStr.prems(2)] collection_text [OF C VStr.prems(2)] by auto
next
  case (VArr ts)
  then have o: "is_obj s v ARRAY_TAG (of_nat (length ts))" "length ts < 2 ^ 60" "denote_words s ts (unat v)" by auto
  then show ?case
    using collection_is_obj [OF C VArr.prems(2) o(1)] collection_array [OF C VArr.prems(2) o VArr.IH] by simp
next
  case (VSexp tg ts)
  then have o: "is_obj s v SEXP_TAG (of_nat (length ts))" "length ts < 2 ^ 60" "denote_words s ts (unat v + 8)" by auto
  then show ?case
    using collection_is_obj [OF C VSexp.prems(2) o(1)] VSexp.prems(1)
      collection_headed(1,3) [OF C VSexp.prems(2) disjI1 [OF o(1)] o(2,3) VSexp.IH] by simp
next
  case (VClo c ts)
  then have o: "is_obj s v CLOSURE_TAG (of_nat (Suc (length ts)))" "length ts < 2 ^ 60" "denote_words s ts (unat v + 8)"
    by auto
  then show ?case
    using collection_is_obj [OF C VClo.prems(2) o(1)] VClo.prems(1)
      collection_headed(1,2) [OF C VClo.prems(2) disjI2 [OF o(1)] o(2,3) VClo.IH] by simp
qed

end
