(* ===== verification/Structural.thy ===== *)
theory Structural
  imports Trees
begin

text \<open>
  The structural operations of \<open>runtime/runtime.c\<close>: \<open>Lcompare\<close> and \<open>Lhash\<close> on words and memory,
  and the functions of trees they compute. \<open>Lcompare\<close> recurses over the object graph and may not
  return on a cyclic one: the result \<open>None\<close>.
\<close>

section \<open>Comparison\<close>

text \<open>The difference of the first bytes that differ, as the C library of the target gives it.\<close>

partial_function (option) strcmp :: "mem \<Rightarrow> addr \<Rightarrow> addr \<Rightarrow> int option" where
  "strcmp m a b =
     (if m a \<noteq> m b then Some (uint (m a) - uint (m b))
      else if m a = 0 then Some 0 else strcmp m (a + 1) (b + 1))"

datatype cmp_call = CmpValues u64 u64 | CmpFields nat nat nat u64 u64

text \<open>
  \<open>CmpValues\<close> is a call of \<open>Lcompare\<close>, \<open>CmpFields i la shift p q\<close> its loop over the members.
\<close>

partial_function (option) compare_run :: "gc_state \<Rightarrow> cmp_call \<Rightarrow> u64 res option" where
  "compare_run s c = (case c of
     CmpValues p q \<Rightarrow>
       if p = q then Some (Inr (BOX 0))
       else if unboxed p
       then (if unboxed q then Some (Inr (BOX (UNBOX p - UNBOX q))) else Some (Inr (BOX (- 1))))
       else if unboxed q then Some (Inr (BOX 1))
       else if is_valid_heap_pointer (heap s) p
       then (if is_valid_heap_pointer (heap s) q
             then let m = memory s;
                      ta = TAG (data_header m p); tb = TAG (data_header m q);
                      la = LEN (data_header m p); lb = LEN (data_header m q) in
                  if ta \<noteq> tb then Some (Inr (BOX (ta - tb)))
                  else if ta = STRING_TAG
                  then do { d \<leftarrow> strcmp m (unat p) (unat q); Some (Inr (BOX (word_of_int d))) }
                  else if ta = CLOSURE_TAG
                  then (if ld64 m (unat p) \<noteq> ld64 m (unat q)
                        then Some (Inr (BOX (ld64 m (unat p) - ld64 m (unat q))))
                        else if la \<noteq> lb then Some (Inr (BOX (la - lb)))
                        else compare_run s (CmpFields 1 (unat la) 0 p q))
                  else if ta = ARRAY_TAG
                  then (if la \<noteq> lb then Some (Inr (BOX (la - lb)))
                        else compare_run s (CmpFields 0 (unat la) 0 p q))
                  else if ta = SEXP_TAG
                  then (if sexp_tag m p \<noteq> sexp_tag m q
                        then Some (Inr (BOX (sexp_tag m p - sexp_tag m q)))
                        else if la \<noteq> lb then Some (Inr (BOX (la - lb)))
                        else compare_run s (CmpFields 0 (unat la) 1 p q))
                  else Some (Inl (Failure (''invalid data_header '' @ show_int (sint ta) @ '' in compare *****'' @ [CHR 0x0A])))
             else Some (Inr (BOX (- 1))))
       else if is_valid_heap_pointer (heap s) q then Some (Inr (BOX 1))
       else Some (Inr (BOX (p - q)))
   | CmpFields i la shift p q \<Rightarrow>
       if i < la
       then do {
         r \<leftarrow> compare_run s (CmpValues (ld64 (memory s) (unat p + 8 * (i + shift)))
                                        (ld64 (memory s) (unat q + 8 * (i + shift))));
         case r of Inl e \<Rightarrow> Some (Inl e)
         | Inr c \<Rightarrow> if c \<noteq> BOX 0 then Some (Inr c) else compare_run s (CmpFields (i + 1) la shift p q)
       }
       else Some (Inr (BOX 0)))"

definition Lcompare :: "gc_state \<Rightarrow> u64 \<Rightarrow> u64 \<Rightarrow> u64 res option" where
  "Lcompare s p q = compare_run s (CmpValues p q)"

section \<open>Hash\<close>

definition HASH_DEPTH :: nat where "HASH_DEPTH = 3"

definition HASH_APPEND :: "u64 \<Rightarrow> u64 \<Rightarrow> u64" where
  "HASH_APPEND acc x = push_bit 32 (acc + x) OR drop_bit 32 (acc + x)"

function inner_hash :: "gc_state \<Rightarrow> nat \<Rightarrow> u64 \<Rightarrow> u64 \<Rightarrow> u64 res"
  and hash_fields :: "gc_state \<Rightarrow> nat \<Rightarrow> u64 \<Rightarrow> addr \<Rightarrow> nat \<Rightarrow> u64 res" where
  "inner_hash s depth acc p =
     (if HASH_DEPTH < depth then Inr acc
      else if unboxed p then Inr (HASH_APPEND acc (UNBOX p))
      else if is_valid_heap_pointer (heap s) p
      then let m = memory s; t = TAG (data_header m p); l = LEN (data_header m p);
               acc = HASH_APPEND (HASH_APPEND acc t) l in
           if t = STRING_TAG
           then (case cstring m (unat p) of None \<Rightarrow> Inl Undefined
                 | Some bs \<Rightarrow> Inr (foldl (\<lambda>acc b. HASH_APPEND acc (ucast b)) acc bs))
           else if t = CLOSURE_TAG
           then hash_fields s (depth + 1) (HASH_APPEND acc (ld64 m (unat p))) (unat p + 8) (unat l - 1)
           else if t = ARRAY_TAG then hash_fields s (depth + 1) acc (unat p) (unat l)
           else if t = SEXP_TAG
           then hash_fields s (depth + 1) (HASH_APPEND acc (sexp_tag m p)) (unat p + 8) (unat l)
           else Inl (Failure (''invalid data_header '' @ show_int (sint t) @ '' in hash *****'' @ [CHR 0x0A]))
      else Inr (HASH_APPEND acc p))"
| "hash_fields s depth acc a n =
     (case n of 0 \<Rightarrow> Inr acc
      | Suc n' \<Rightarrow> bindR (inner_hash s depth acc (ld64 (memory s) a)) (\<lambda>acc. hash_fields s depth acc (a + 8) n'))"
  by pat_completeness auto
termination
  by (relation "inv_image (less_than <*lex*> less_than)
        (\<lambda>c. case c of Inl (s, d, acc, p) \<Rightarrow> (5 - d, 0) | Inr (s, d, acc, a, n) \<Rightarrow> (5 - d, Suc n))")
    (auto simp: HASH_DEPTH_def)

declare inner_hash.simps [simp del] hash_fields.simps [simp del]

definition Lhash :: "gc_state \<Rightarrow> u64 \<Rightarrow> u64 res" where
  "Lhash s p = bindR (inner_hash s 0 0 p) (\<lambda>h. Inr (BOX (0x3fffff AND h)))"

section \<open>The same on trees\<close>

fun cmp_bytes :: "byte list \<Rightarrow> byte list \<Rightarrow> int" where
  "cmp_bytes [] [] = 0"
| "cmp_bytes [] (c # cs) = - uint c"
| "cmp_bytes (b # bs) [] = uint b"
| "cmp_bytes (b # bs) (c # cs) = (if b \<noteq> c then uint b - uint c else cmp_bytes bs cs)"

fun kind_tag :: "vtree \<Rightarrow> u64" where
  "kind_tag (VStr n bs) = STRING_TAG"
| "kind_tag (VArr ts) = ARRAY_TAG"
| "kind_tag (VSexp t ts) = SEXP_TAG"
| "kind_tag (VClo c ts) = CLOSURE_TAG"
| "kind_tag (VInt i) = UNBOXED_TAG"
| "kind_tag (VRaw w) = 0"

definition len_word :: "vtree list \<Rightarrow> u64" where "len_word ts = of_nat (length ts)"

fun cmp_tree :: "vtree \<Rightarrow> vtree \<Rightarrow> u64" and cmp_list :: "vtree list \<Rightarrow> vtree list \<Rightarrow> u64" where
  "cmp_tree (VInt i) u = (case u of VInt j \<Rightarrow> BOX (i - j) | _ \<Rightarrow> BOX (- 1))"
| "cmp_tree (VRaw v) u = (case u of VInt j \<Rightarrow> BOX 1 | VRaw w \<Rightarrow> BOX (v - w) | _ \<Rightarrow> BOX 1)"
| "cmp_tree (VStr n bs) u = (case u of VInt j \<Rightarrow> BOX 1 | VRaw w \<Rightarrow> BOX (- 1)
     | VStr k cs \<Rightarrow> BOX (word_of_int (cmp_bytes bs cs)) | _ \<Rightarrow> BOX (STRING_TAG - kind_tag u))"
| "cmp_tree (VArr ts) u = (case u of VInt j \<Rightarrow> BOX 1 | VRaw w \<Rightarrow> BOX (- 1)
     | VArr us \<Rightarrow> if length ts \<noteq> length us then BOX (len_word ts - len_word us) else cmp_list ts us
     | _ \<Rightarrow> BOX (ARRAY_TAG - kind_tag u))"
| "cmp_tree (VSexp t ts) u = (case u of VInt j \<Rightarrow> BOX 1 | VRaw w \<Rightarrow> BOX (- 1)
     | VSexp t' us \<Rightarrow> if t \<noteq> t' then BOX (t - t')
                     else if length ts \<noteq> length us then BOX (len_word ts - len_word us) else cmp_list ts us
     | _ \<Rightarrow> BOX (SEXP_TAG - kind_tag u))"
| "cmp_tree (VClo c ts) u = (case u of VInt j \<Rightarrow> BOX 1 | VRaw w \<Rightarrow> BOX (- 1)
     | VClo c' us \<Rightarrow> if c \<noteq> c' then BOX (c - c')
                    else if length ts \<noteq> length us then BOX (len_word ts - len_word us) else cmp_list ts us
     | _ \<Rightarrow> BOX (CLOSURE_TAG - kind_tag u))"
| "cmp_list [] us = BOX 0"
| "cmp_list (t # ts) us = (case us of [] \<Rightarrow> BOX 0
     | u # us' \<Rightarrow> let c = cmp_tree t u in if c \<noteq> BOX 0 then c else cmp_list ts us')"

fun hash_tree :: "nat \<Rightarrow> u64 \<Rightarrow> vtree \<Rightarrow> u64" and hash_list :: "nat \<Rightarrow> u64 \<Rightarrow> vtree list \<Rightarrow> u64" where
  "hash_tree d acc (VInt i) = (if HASH_DEPTH < d then acc else HASH_APPEND acc i)"
| "hash_tree d acc (VRaw w) = (if HASH_DEPTH < d then acc else HASH_APPEND acc w)"
| "hash_tree d acc (VStr n bs) = (if HASH_DEPTH < d then acc
     else foldl (\<lambda>acc b. HASH_APPEND acc (ucast b)) (HASH_APPEND (HASH_APPEND acc STRING_TAG) n) bs)"
| "hash_tree d acc (VArr ts) = (if HASH_DEPTH < d then acc
     else hash_list (d + 1) (HASH_APPEND (HASH_APPEND acc ARRAY_TAG) (len_word ts)) ts)"
| "hash_tree d acc (VSexp t ts) = (if HASH_DEPTH < d then acc
     else hash_list (d + 1) (HASH_APPEND (HASH_APPEND (HASH_APPEND acc SEXP_TAG) (len_word ts)) t) ts)"
| "hash_tree d acc (VClo c ts) = (if HASH_DEPTH < d then acc
     else hash_list (d + 1) (HASH_APPEND (HASH_APPEND (HASH_APPEND acc CLOSURE_TAG) (len_word ts + 1)) c) ts)"
| "hash_list d acc [] = acc"
| "hash_list d acc (t # ts) = hash_list d (hash_tree d acc t) ts"

section \<open>A value has one tree\<close>

lemma of_nat_len_inject: "m < 2 ^ 61 \<Longrightarrow> n < 2 ^ 61 \<Longrightarrow> (of_nat m :: u64) = of_nat n \<longleftrightarrow> m = n"
proof -
  assume "m < 2 ^ 61" "n < 2 ^ 61"
  then have "m < 2 ^ 64" "n < 2 ^ 64" by simp_all
  then show ?thesis using unat_of_nat_u64 [of m] unat_of_nat_u64 [of n] by metis
qed

lemma tags_distinct:
  "STRING_TAG \<noteq> ARRAY_TAG" "STRING_TAG \<noteq> SEXP_TAG" "STRING_TAG \<noteq> CLOSURE_TAG"
  "ARRAY_TAG \<noteq> SEXP_TAG" "ARRAY_TAG \<noteq> CLOSURE_TAG" "SEXP_TAG \<noteq> CLOSURE_TAG"
  by (simp_all add: tag_defs)

lemmas tags_distinct' [simp] = tags_distinct tags_distinct [symmetric]

lemma denote_words_det:
  assumes "denote_words s ts a" "denote_words s us a" "length ts = length us"
    and "\<And>t u w. t \<in> set ts \<Longrightarrow> denotes s t w \<Longrightarrow> denotes s u w \<Longrightarrow> t = u"
  shows "ts = us"
  using assms(1-3) assms(4) [OF nth_mem] by (intro nth_equalityI) (auto simp: denote_words_iff)

lemma is_obj_unique: "is_obj s v t n \<Longrightarrow> is_obj s v t' n' \<longleftrightarrow> t' = t \<and> n' = n"
  by (auto simp: is_obj_def)

lemma denotes_det: "denotes s t v \<Longrightarrow> denotes s u v \<Longrightarrow> t = u"
proof (induction t arbitrary: u v)
  case (VInt i)
  then show ?case using denotes_unboxed [of v s u] by simp
next
  case (VRaw w)
  have v: "\<not> unboxed v" "\<not> is_valid_heap_pointer (heap s) v" "v = w" using VRaw.prems(1) by auto
  then show ?case using VRaw.prems(2) by (cases u) (simp_all add: is_obj_def)
next
  case (VStr n bs)
  have o: "is_obj s v STRING_TAG n" "cstring (memory s) (unat v) = Some bs" using VStr.prems(1) by auto
  show ?case
    using VStr.prems(2) is_obj_boxed [OF o(1)] o(2) by (cases u) (simp_all add: is_obj_unique [OF o(1)])
next
  case (VArr ts)
  have o: "is_obj s v ARRAY_TAG (of_nat (length ts))" "length ts < 2 ^ 61" using VArr.prems(1) by auto
  then obtain us where u: "u = VArr us"
    using VArr.prems(2) is_obj_boxed [OF o(1)] by (cases u) (simp_all add: is_obj_unique [OF o(1)])
  then have "length ts = length us"
    using VArr.prems(2) of_nat_len_inject [of "length us" "length ts"] o(2) by (simp add: is_obj_unique [OF o(1)])
  then show ?case using VArr u denote_words_det [of s ts "unat v" us] by simp
next
  case (VSexp g ts)
  have o: "is_obj s v SEXP_TAG (of_nat (length ts))" "length ts < 2 ^ 61" using VSexp.prems(1) by auto
  then obtain g' us where u: "u = VSexp g' us"
    using VSexp.prems(2) is_obj_boxed [OF o(1)] by (cases u) (simp_all add: is_obj_unique [OF o(1)])
  then have "length ts = length us"
    using VSexp.prems(2) of_nat_len_inject [of "length us" "length ts"] o(2) by (simp add: is_obj_unique [OF o(1)])
  then show ?case using VSexp u denote_words_det [of s ts "unat v + 8" us] by simp
next
  case (VClo c ts)
  have o: "is_obj s v CLOSURE_TAG (of_nat (Suc (length ts)))" "Suc (length ts) < 2 ^ 61" using VClo.prems(1) by auto
  then obtain c' us where u: "u = VClo c' us"
    using VClo.prems(2) is_obj_boxed [OF o(1)] by (cases u) (simp_all add: is_obj_unique [OF o(1)] del: of_nat_Suc)
  then have "(of_nat (Suc (length us)) :: u64) = of_nat (Suc (length ts))" "Suc (length us) < 2 ^ 61"
    using VClo.prems(2) by (simp_all add: is_obj_unique [OF o(1)] del: of_nat_Suc)
  then have "length ts = length us"
    using of_nat_len_inject [of "Suc (length us)" "Suc (length ts)"] o(2) by (simp del: of_nat_Suc)
  then show ?case using VClo u denote_words_det [of s ts "unat v + 8" us] by simp
qed

section \<open>The hash is the hash of the tree\<close>

lemma hash_fields_words:
  assumes "denote_words s ts a"
    and "\<And>t acc w. t \<in> set ts \<Longrightarrow> denotes s t w \<Longrightarrow> inner_hash s d acc w = Inr (hash_tree d acc t)"
  shows "hash_fields s d acc a (length ts) = Inr (hash_list d acc ts)"
  using assms
proof (induction ts arbitrary: acc a)
  case Nil
  then show ?case by (subst hash_fields.simps) simp
next
  case (Cons t ts)
  have "inner_hash s d acc (ld64 (memory s) a) = Inr (hash_tree d acc t)" "denote_words s ts (a + 8)"
    using Cons.prems by (simp_all add: denote_words.simps)
  moreover have "hash_fields s d (hash_tree d acc t) (a + 8) (length ts) = Inr (hash_list d (hash_tree d acc t) ts)"
    using Cons calculation(2) by simp
  ultimately show ?case by (subst hash_fields.simps) simp
qed

lemma unat_len: "length ts < 2 ^ 60 \<Longrightarrow> unat (of_nat (length ts) :: u64) = length ts"
  "length ts < 2 ^ 60 \<Longrightarrow> unat (1 + of_nat (length ts) :: u64) = Suc (length ts)"
  using unat_of_nat_u64 [of "Suc (length ts)"] by (simp_all add: unat_of_nat_u64)

lemma inner_hash_tree: "denotes s t p \<Longrightarrow> inner_hash s d acc p = Inr (hash_tree d acc t)"
proof (induction t arbitrary: d acc p)
  case (VInt i)
  then show ?case by (subst inner_hash.simps) auto
next
  case (VRaw w)
  then show ?case by (subst inner_hash.simps) auto
next
  case (VStr n bs)
  then show ?case using is_obj_boxed [of s p] by (subst inner_hash.simps) (auto simp: is_obj_def Let_def)
next
  case (VArr ts)
  then show ?case
    using is_obj_boxed [of s p] hash_fields_words [of s ts]
    by (subst inner_hash.simps) (auto simp: is_obj_def Let_def unat_len len_word_def)
next
  case (VSexp g ts)
  then show ?case
    using is_obj_boxed [of s p] hash_fields_words [of s ts]
    by (subst inner_hash.simps) (auto simp: is_obj_def Let_def unat_len len_word_def)
next
  case (VClo c ts)
  then show ?case
    using is_obj_boxed [of s p] hash_fields_words [of s ts]
    by (subst inner_hash.simps) (auto simp: is_obj_def Let_def unat_len len_word_def add.commute)
qed

section \<open>The comparison is the comparison of the trees\<close>

lemma cstring_step:
  "cstring m a = Some [] \<longleftrightarrow> m a = 0"
  "cstring m a = Some (b # bs) \<longleftrightarrow> m a = b \<and> b \<noteq> 0 \<and> cstring m (a + 1) = Some bs"
  by (subst cstring.simps; auto split: bind_splits)+

lemma strcmp_bytes: "cstring m a = Some bs \<Longrightarrow> cstring m b = Some cs \<Longrightarrow> strcmp m a b = Some (cmp_bytes bs cs)"
proof (induction bs cs arbitrary: a b rule: cmp_bytes.induct)
  case 1
  then show ?case by (subst strcmp.simps) (simp add: cstring_step)
next
  case (2 c cs)
  then show ?case by (subst strcmp.simps) (auto simp: cstring_step)
next
  case (3 x bs)
  then show ?case by (subst strcmp.simps) (auto simp: cstring_step)
next
  case (4 x bs c cs)
  then show ?case by (subst strcmp.simps) (auto simp: cstring_step)
qed

lemma cmp_bytes_refl [simp]: "cmp_bytes bs bs = 0"
  by (induction bs) auto

lemma cmp_list_refl: "(\<And>t. t \<in> set ts \<Longrightarrow> cmp_tree t t = BOX 0) \<Longrightarrow> cmp_list ts ts = BOX 0"
  by (induction ts) auto

lemma cmp_tree_refl: "cmp_tree t t = BOX 0"
  by (induction t) (simp_all add: cmp_list_refl)

lemma compare_fields:
  assumes "i + length ts = la" "length us = length ts"
    and "denote_words s ts (unat p + 8 * (i + shift))" "denote_words s us (unat q + 8 * (i + shift))"
    and "\<And>t u v w. t \<in> set ts \<Longrightarrow> denotes s t v \<Longrightarrow> denotes s u w \<Longrightarrow>
           compare_run s (CmpValues v w) = Some (Inr (cmp_tree t u))"
  shows "compare_run s (CmpFields i la shift p q) = Some (Inr (cmp_list ts us))"
  using assms
proof (induction ts arbitrary: i us)
  case Nil
  then show ?case by (subst compare_run.simps) simp
next
  case (Cons t ts)
  obtain u us' where us: "us = u # us'" using Cons.prems(2) by (cases us) auto
  have "compare_run s (CmpValues (ld64 (memory s) (unat p + 8 * (i + shift))) (ld64 (memory s) (unat q + 8 * (i + shift))))
      = Some (Inr (cmp_tree t u))"
    using Cons.prems us by (simp add: denote_words.simps)
  moreover have "compare_run s (CmpFields (i + 1) la shift p q) = Some (Inr (cmp_list ts us'))"
    using Cons.prems us by (intro Cons.IH) (simp_all add: denote_words.simps algebra_simps)
  ultimately show ?case using Cons.prems(1) us by (subst compare_run.simps) (simp add: Let_def)
qed

lemma compare_values:
  assumes "p \<noteq> q" "is_obj s p ta la" "is_obj s q tb lb"
  shows "compare_run s (CmpValues p q) =
    (let m = memory s in
     if ta \<noteq> tb then Some (Inr (BOX (ta - tb)))
     else if ta = STRING_TAG
     then do { d \<leftarrow> strcmp m (unat p) (unat q); Some (Inr (BOX (word_of_int d))) }
     else if ta = CLOSURE_TAG
     then (if ld64 m (unat p) \<noteq> ld64 m (unat q)
           then Some (Inr (BOX (ld64 m (unat p) - ld64 m (unat q))))
           else if la \<noteq> lb then Some (Inr (BOX (la - lb)))
           else compare_run s (CmpFields 1 (unat la) 0 p q))
     else if ta = ARRAY_TAG
     then (if la \<noteq> lb then Some (Inr (BOX (la - lb)))
           else compare_run s (CmpFields 0 (unat la) 0 p q))
     else if ta = SEXP_TAG
     then (if sexp_tag m p \<noteq> sexp_tag m q
           then Some (Inr (BOX (sexp_tag m p - sexp_tag m q)))
           else if la \<noteq> lb then Some (Inr (BOX (la - lb)))
           else compare_run s (CmpFields 0 (unat la) 1 p q))
     else Some (Inl (Failure (''invalid data_header '' @ show_int (sint ta) @ '' in compare *****'' @ [CHR 0x0A]))))"
proof -
  have b: "\<not> unboxed p" "\<not> unboxed q" "is_valid_heap_pointer (heap s) p" "is_valid_heap_pointer (heap s) q"
    using is_obj_boxed assms(2,3) by blast+
  have f: "TAG (data_header (memory s) p) = ta" "LEN (data_header (memory s) p) = la"
    "TAG (data_header (memory s) q) = tb" "LEN (data_header (memory s) q) = lb"
    using assms(2,3) by (simp_all add: is_obj_def)
  show ?thesis
    using assms(1) b by (subst compare_run.simps) (simp only: cmp_call.case f Let_def if_False if_True simp_thms)
qed

fun tree_len :: "vtree \<Rightarrow> u64" where
  "tree_len (VStr n bs) = n"
| "tree_len (VArr ts) = of_nat (length ts)"
| "tree_len (VSexp t ts) = of_nat (length ts)"
| "tree_len (VClo c ts) = of_nat (Suc (length ts))"
| "tree_len t = 0"

lemma denotes_kind:
  assumes "denotes s t v"
  shows "is_obj s v (kind_tag t) (tree_len t) \<or> (\<exists>i. t = VInt i \<and> unboxed v \<and> UNBOX v = i) \<or>
    (t = VRaw v \<and> \<not> unboxed v \<and> \<not> is_valid_heap_pointer (heap s) v)"
  using assms by (cases t) auto

lemma denotes_obj:
  assumes "denotes s t v" "is_valid_heap_pointer (heap s) v"
  shows "is_obj s v (kind_tag t) (tree_len t)" "\<not> unboxed v" "(\<forall>i. t \<noteq> VInt i) \<and> (\<forall>w. t \<noteq> VRaw w)"
  using denotes_kind [OF assms(1)] assms by (auto simp: is_valid_heap_pointer_def)

lemma cmp_tree_kinds:
  assumes "kind_tag t \<noteq> kind_tag u" "\<forall>i. t \<noteq> VInt i" "\<forall>w. t \<noteq> VRaw w" "\<forall>i. u \<noteq> VInt i" "\<forall>w. u \<noteq> VRaw w"
  shows "cmp_tree t u = BOX (kind_tag t - kind_tag u)"
  using assms by (cases t; cases u) simp_all

lemma compare_objects:
  assumes IH: "\<And>x y v w. x \<in> set (case t of VArr ts \<Rightarrow> ts | VSexp g ts \<Rightarrow> ts | VClo c ts \<Rightarrow> ts | _ \<Rightarrow> []) \<Longrightarrow>
      denotes s x v \<Longrightarrow> denotes s y w \<Longrightarrow> compare_run s (CmpValues v w) = Some (Inr (cmp_tree x y))"
    and d: "denotes s t p" "denotes s u q" and v: "is_valid_heap_pointer (heap s) p" "is_valid_heap_pointer (heap s) q"
    and ne: "p \<noteq> q"
  shows "compare_run s (CmpValues p q) = Some (Inr (cmp_tree t u))"
proof -
  note t = denotes_obj [OF d(1) v(1)] and u = denotes_obj [OF d(2) v(2)]
  note run = compare_values [OF ne t(1) u(1), unfolded Let_def]
  show ?thesis
  proof (cases "kind_tag t = kind_tag u")
    case False
    then have "cmp_tree t u = BOX (kind_tag t - kind_tag u)" using t(3) u(3) by (intro cmp_tree_kinds) auto
    then show ?thesis using run False by simp
  next
    case same: True
    show ?thesis
    proof (cases t)
      case (VStr n bs)
      then obtain k cs where "u = VStr k cs" using same u(3) by (cases u) auto
      then show ?thesis using run VStr d strcmp_bytes [of "memory s" "unat p" bs "unat q" cs] by simp
    next
      case (VArr ts)
      then obtain us where us: "u = VArr us" using same u(3) by (cases u) auto
      have l: "length ts < 2 ^ 60" "length us < 2 ^ 60" using d us VArr by auto
      then have "(of_nat (length ts) :: u64) = of_nat (length us) \<longleftrightarrow> length ts = length us"
        by (intro of_nat_len_inject) simp_all
      moreover have "compare_run s (CmpFields 0 (length ts) 0 p q) = Some (Inr (cmp_list ts us))" if "length us = length ts"
        by (rule compare_fields) (use that VArr us d IH in simp_all)
      ultimately show ?thesis using run VArr us l by (cases "length ts = length us") (simp_all add: unat_len len_word_def)
    next
      case (VSexp g ts)
      then obtain g' us where us: "u = VSexp g' us" using same u(3) by (cases u) auto
      have l: "length ts < 2 ^ 60" "length us < 2 ^ 60" and g: "sexp_tag (memory s) p = g" "sexp_tag (memory s) q = g'"
        using d us VSexp by auto
      from l have "(of_nat (length ts) :: u64) = of_nat (length us) \<longleftrightarrow> length ts = length us"
        by (intro of_nat_len_inject) simp_all
      moreover have "compare_run s (CmpFields 0 (length ts) 1 p q) = Some (Inr (cmp_list ts us))" if "length us = length ts"
        by (rule compare_fields) (use that VSexp us d IH in simp_all)
      ultimately show ?thesis using run VSexp us l g by (cases "length ts = length us") (simp_all add: unat_len len_word_def)
    next
      case (VClo c ts)
      then obtain c' us where us: "u = VClo c' us" using same u(3) by (cases u) auto
      have l: "length ts < 2 ^ 60" "length us < 2 ^ 60" and g: "ld64 (memory s) (unat p) = c" "ld64 (memory s) (unat q) = c'"
        using d us VClo by auto
      from l have "(of_nat (length ts) :: u64) = of_nat (length us) \<longleftrightarrow> length ts = length us"
        by (intro of_nat_len_inject) simp_all
      moreover have "compare_run s (CmpFields 1 (Suc (length ts)) 0 p q) = Some (Inr (cmp_list ts us))" if "length us = length ts"
        by (rule compare_fields) (use that VClo us d IH in simp_all)
      ultimately show ?thesis using run VClo us l g by (cases "length ts = length us") (simp_all add: unat_len len_word_def)
    qed (use t(3) in auto)
  qed
qed

lemma compare_object_any:
  assumes IH: "\<And>x y v w. x \<in> set (case t of VArr ts \<Rightarrow> ts | VSexp g ts \<Rightarrow> ts | VClo c ts \<Rightarrow> ts | _ \<Rightarrow> []) \<Longrightarrow>
      denotes s x v \<Longrightarrow> denotes s y w \<Longrightarrow> compare_run s (CmpValues v w) = Some (Inr (cmp_tree x y))"
    and d: "denotes s t p" "denotes s u q" and v: "is_valid_heap_pointer (heap s) p"
  shows "compare_run s (CmpValues p q) = Some (Inr (cmp_tree t u))"
proof -
  note t = denotes_obj [OF d(1) v]
  consider "p = q" | "p \<noteq> q" "is_valid_heap_pointer (heap s) q" | "p \<noteq> q" "unboxed q" | "p \<noteq> q" "\<not> unboxed q" "\<not> is_valid_heap_pointer (heap s) q"
    by blast
  then show ?thesis
  proof cases
    case 1
    then have "u = t" using d denotes_det by blast
    then show ?thesis using 1 by (subst compare_run.simps) (simp add: cmp_tree_refl)
  next
    case 2
    then show ?thesis using compare_objects [OF IH d v] by blast
  next
    case 3
    then have "u = VInt (UNBOX q)" using d(2) denotes_unboxed by blast
    then have "cmp_tree t u = BOX 1" using t(3) by (cases t) simp_all
    then show ?thesis using 3 t(2) by (subst compare_run.simps) simp
  next
    case 4
    then have "u = VRaw q" using denotes_kind [OF d(2)] is_obj_boxed by blast
    then have "cmp_tree t u = BOX (- 1)" using t(3) by (cases t) simp_all
    then show ?thesis using 4 t(2) v by (subst compare_run.simps) simp
  qed
qed

lemma compare_tree:
  "denotes s t p \<Longrightarrow> denotes s u q \<Longrightarrow> compare_run s (CmpValues p q) = Some (Inr (cmp_tree t u))"
proof (induction t arbitrary: u p q)
  case (VInt i)
  then show ?case
    using denotes_kind [OF VInt.prems(2)] is_obj_boxed [of s q]
    by (subst compare_run.simps) (auto split: vtree.splits)
next
  case (VRaw w)
  then show ?case
    using denotes_kind [OF VRaw.prems(2)] is_obj_boxed [of s q] denotes_det [of s "VRaw w" p u]
    by (subst compare_run.simps) (auto split: vtree.splits)
next
  case (VStr n bs)
  show ?case by (rule compare_object_any [OF _ VStr.prems]) (use VStr.prems(1) in \<open>simp_all add: is_obj_def\<close>)
next
  case (VArr ts)
  show ?case
    by (rule compare_object_any [OF _ VArr.prems]) (use VArr.IH VArr.prems(1) in \<open>simp_all add: is_obj_def\<close>)
next
  case (VSexp g ts)
  show ?case
    by (rule compare_object_any [OF _ VSexp.prems]) (use VSexp.IH VSexp.prems(1) in \<open>simp_all add: is_obj_def\<close>)
next
  case (VClo c ts)
  show ?case
    by (rule compare_object_any [OF _ VClo.prems]) (use VClo.IH VClo.prems(1) in \<open>simp_all add: is_obj_def\<close>)
qed

section \<open>Zero means equal\<close>

lemma low_bits_63: "2 ^ 63 dvd uint (x :: u64) \<longleftrightarrow> (\<forall>k < 63. \<not> bit x k)"
proof -
  have "2 ^ 63 dvd uint x \<longleftrightarrow> take_bit 63 (uint x) = 0" by (simp add: take_bit_eq_mod dvd_eq_mod_eq_0)
  also have "\<dots> \<longleftrightarrow> (\<forall>k < 63. \<not> bit x k)"
    by (auto simp: bit_eq_iff bit_take_bit_iff bit_uint_iff)
  finally show ?thesis .
qed

lemma BOX_eq_BOX_0: "BOX x = BOX 0 \<longleftrightarrow> 2 ^ 63 dvd uint x"
proof
  assume "BOX x = BOX 0"
  then have b: "bit (BOX x) n = bit (BOX 0) n" for n by simp
  have "\<not> bit x k" if "k < 63" for k using b [of "Suc k"] that by (simp add: bit_BOX)
  then show "2 ^ 63 dvd uint x" unfolding low_bits_63 by blast
next
  assume "2 ^ 63 dvd uint x"
  then have "\<forall>k < 63. \<not> bit x k" unfolding low_bits_63 .
  then show "BOX x = BOX 0" by (intro bit_word_eqI) (auto simp: bit_BOX)
qed

lemma sint_mod_63: "sint (x :: u64) mod 2 ^ 63 = uint x mod 2 ^ 63"
proof -
  have "take_bit 63 (sint x) = take_bit 63 (uint x)"
    by (rule bit_eqI) (auto simp: bit_take_bit_iff bit_sint_iff bit_uint_iff)
  then show ?thesis by (simp only: take_bit_eq_mod)
qed
lemma uint_diff_mod: "uint (x - y :: u64) mod 2 ^ 63 = (uint x - uint y) mod 2 ^ 63"
proof -
  have "uint (x - y) = (uint x - uint y) mod 2 ^ 64" by (simp add: uint_word_ariths)
  then show ?thesis by (simp add: mod_mod_cancel)
qed

lemma BOX_diff_0:
  assumes "uint (x - y) mod 2 ^ 63 = (a - b) mod 2 ^ 63" "\<bar>a - b\<bar> < 2 ^ 63"
  shows "BOX (x - y) = BOX 0 \<longleftrightarrow> a = b"
proof -
  have "BOX (x - y) = BOX 0 \<longleftrightarrow> 2 ^ 63 dvd a - b"
    unfolding BOX_eq_BOX_0 dvd_eq_mod_eq_0 assms(1) ..
  also have "\<dots> \<longleftrightarrow> a = b"
    using assms(2) dvd_imp_le_int [of "a - b" "2 ^ 63"] by auto
  finally show ?thesis .
qed
lemma BOX_diff_unsigned:
  assumes "uint x < 2 ^ 63" "uint y < 2 ^ 63"
  shows "BOX (x - y) = BOX 0 \<longleftrightarrow> x = y"
proof -
  have "\<bar>uint x - uint y\<bar> < 2 ^ 63" using assms uint_nonnegative [of x] uint_nonnegative [of y] by linarith
  then show ?thesis using BOX_diff_0 [OF uint_diff_mod [of x y]] by (simp add: word_uint_eq_iff)
qed

lemma BOX_diff_signed:
  assumes "fits63 (sint x)" "fits63 (sint y)"
  shows "BOX (x - y) = BOX 0 \<longleftrightarrow> x = y"
proof -
  have "uint (x - y) mod 2 ^ 63 = (sint x - sint y) mod 2 ^ 63"
    using uint_diff_mod [of x y] sint_mod_63 [of x] sint_mod_63 [of y] by (metis mod_diff_eq)
  moreover have "\<bar>sint x - sint y\<bar> < 2 ^ 63" using assms by (auto simp: fits63_def)
  ultimately have "BOX (x - y) = BOX 0 \<longleftrightarrow> sint x = sint y" by (rule BOX_diff_0)
  then show ?thesis using signed_word_eqI [of x y] by blast
qed

lemma cmp_bytes_0: "0 \<notin> set bs \<Longrightarrow> 0 \<notin> set cs \<Longrightarrow> cmp_bytes bs cs = 0 \<longleftrightarrow> bs = cs"
  by (induction bs cs rule: cmp_bytes.induct) (auto simp: word_uint_eq_iff)

lemma cmp_bytes_bound: "\<bar>cmp_bytes bs cs\<bar> < 256"
proof (induction bs cs rule: cmp_bytes.induct)
  case (2 c cs)
  then show ?case using uint_lt2p [of c] uint_nonnegative [of c] by simp
next
  case (3 b bs)
  then show ?case using uint_lt2p [of b] uint_nonnegative [of b] by simp
next
  case (4 b bs c cs)
  have "uint b < 256" "uint c < 256" using uint_lt2p [of b] uint_lt2p [of c] by simp_all
  then have "\<bar>uint b - uint c\<bar> < 256" using uint_nonnegative [of b] uint_nonnegative [of c] by linarith
  then show ?case using 4 by simp
qed simp

text \<open>
  The words of a tree that occurs: integers of 63 bits, addresses below \<open>2 ^ 63\<close>, tags that came
  from \<open>LtagHash\<close>, strings without an embedded NUL.
\<close>

fun wf_tree :: "vtree \<Rightarrow> bool" where
  "wf_tree (VInt i) \<longleftrightarrow> fits63 (sint i)"
| "wf_tree (VRaw w) \<longleftrightarrow> uint w < 2 ^ 63"
| "wf_tree (VStr n bs) \<longleftrightarrow> 0 \<notin> set bs \<and> n = of_nat (length bs)"
| "wf_tree (VArr ts) \<longleftrightarrow> length ts < 2 ^ 60 \<and> (\<forall>t \<in> set ts. wf_tree t)"
| "wf_tree (VSexp g ts) \<longleftrightarrow> uint g < 2 ^ 63 \<and> length ts < 2 ^ 60 \<and> (\<forall>t \<in> set ts. wf_tree t)"
| "wf_tree (VClo c ts) \<longleftrightarrow> uint c < 2 ^ 63 \<and> length ts < 2 ^ 60 \<and> (\<forall>t \<in> set ts. wf_tree t)"

lemma len_word_63: "length ts < 2 ^ 60 \<Longrightarrow> uint (len_word ts) < 2 ^ 63 \<and> (length us < 2 ^ 60 \<longrightarrow> len_word ts = len_word us \<longrightarrow> length ts = length us)"
proof -
  assume l: "length ts < 2 ^ 60"
  then have "unat (len_word ts) = length ts" by (simp add: len_word_def unat_len)
  then have "uint (len_word ts) = int (length ts)" by (metis uint_nat)
  moreover have "int (length ts) < int (2 ^ 60)" using l by (simp only: of_nat_less_iff)
  ultimately have "uint (len_word ts) < 2 ^ 63" by simp
  moreover have "length us < 2 ^ 60 \<longrightarrow> len_word ts = len_word us \<longrightarrow> length ts = length us"
    using l unat_len(1) [of ts] unat_len(1) [of us] by (metis len_word_def)
  ultimately show ?thesis by blast
qed

lemma cmp_len_0:
  assumes "length ts < 2 ^ 60" "length us < 2 ^ 60" "length ts \<noteq> length us"
  shows "BOX (len_word ts - len_word us) \<noteq> BOX 0"
  using len_word_63 [OF assms(1), of us] len_word_63 [OF assms(2), of ts] BOX_diff_unsigned [of "len_word ts" "len_word us"] assms
  by blast

lemma cmp_list_0:
  assumes "length ts = length us" "\<And>t u. t \<in> set ts \<Longrightarrow> u \<in> set us \<Longrightarrow> cmp_tree t u = BOX 0 \<longleftrightarrow> t = u"
  shows "cmp_list ts us = BOX 0 \<longleftrightarrow> ts = us"
  using assms by (induction ts us rule: list_induct2) (auto simp: Let_def)

lemma kind_tag_63: "uint (kind_tag t) < 2 ^ 63"
  by (cases t) (simp_all add: tag_defs)

lemma BOX_consts: "BOX 1 \<noteq> BOX 0" "BOX (- 1) \<noteq> BOX 0"
  by (simp_all add: BOX_eq)

lemma cmp_kind_0: "kind_tag t \<noteq> kind_tag u \<Longrightarrow> BOX (kind_tag t - kind_tag u) \<noteq> BOX 0"
  using BOX_diff_unsigned [OF kind_tag_63 kind_tag_63] by blast

lemma cmp_tree_0: "wf_tree t \<Longrightarrow> wf_tree u \<Longrightarrow> cmp_tree t u = BOX 0 \<longleftrightarrow> t = u"
proof (induction t arbitrary: u)
  case (VInt i)
  then show ?case by (cases u) (simp_all add: BOX_diff_signed BOX_consts)
next
  case (VRaw w)
  then show ?case by (cases u) (simp_all add: BOX_diff_unsigned BOX_consts)
next
  case (VStr n bs)
  have "BOX (word_of_int (cmp_bytes bs cs)) = BOX 0 \<longleftrightarrow> bs = cs" if "0 \<notin> set cs" for cs
  proof -
    have "(256 :: int) \<le> 2 ^ 62" by simp
    then have "fits63 (cmp_bytes bs cs)" using cmp_bytes_bound [of bs cs] unfolding fits63_def by linarith
    then have "BOX (word_of_int (cmp_bytes bs cs)) = BOX 0 \<longleftrightarrow> cmp_bytes bs cs = 0"
      using boxI_inject [of "cmp_bytes bs cs" 0] by (simp add: boxI_def fits63_def)
    then show ?thesis using VStr.prems(1) that cmp_bytes_0 [of bs cs] by simp
  qed
  then show ?case using VStr.prems cmp_kind_0 [of "VStr n bs" u] by (cases u) (auto simp: BOX_consts)
next
  case (VArr ts)
  show ?case
  proof (cases u)
    case (VArr us)
    then show ?thesis using VArr.prems VArr.IH cmp_len_0 [of ts us] cmp_list_0 [of ts us] by auto
  qed (use cmp_kind_0 [of "VArr ts" u] in \<open>simp_all add: BOX_consts\<close>)
next
  case (VSexp g ts)
  show ?case
  proof (cases u)
    case (VSexp g' us)
    then show ?thesis
      using VSexp.prems VSexp.IH cmp_len_0 [of ts us] cmp_list_0 [of ts us] BOX_diff_unsigned [of g g'] by auto
  qed (use cmp_kind_0 [of "VSexp g ts" u] in \<open>simp_all add: BOX_consts\<close>)
next
  case (VClo c ts)
  show ?case
  proof (cases u)
    case (VClo c' us)
    then show ?thesis
      using VClo.prems VClo.IH cmp_len_0 [of ts us] cmp_list_0 [of ts us] BOX_diff_unsigned [of c c'] by auto
  qed (use cmp_kind_0 [of "VClo c ts" u] in \<open>simp_all add: BOX_consts\<close>)
qed

end
