(* ===== verification/Printing.thy ===== *)
theory Printing
  imports Structural
begin

text \<open>
  The printing of values of \<open>runtime/runtime.c\<close>: the growing buffer \<open>StringBuf\<close>, \<open>printValue\<close>
  and \<open>stringcat\<close>, and the text of a tree they produce. The buffer's \<open>contents\<close> are the
  characters before its write position.
\<close>

section \<open>The buffer\<close>

record string_buf =
  contents :: string
  ptr :: nat
  len :: nat

definition STRINGBUF_INIT :: nat where "STRINGBUF_INIT = 128"

definition createStringBuf :: string_buf where
  "createStringBuf = \<lparr>contents = [], ptr = 0, len = STRINGBUF_INIT\<rparr>"

definition extendStringBuf :: "string_buf \<Rightarrow> string_buf" where
  "extendStringBuf b = b\<lparr>len := len b * 2\<rparr>"

text \<open>\<open>vsnprintf\<close> needs room for the text and the final NUL; otherwise the buffer grows and the text is
  formatted again.\<close>

partial_function (option) vprintStringBuf :: "string \<Rightarrow> string_buf \<Rightarrow> string_buf option" where
  "vprintStringBuf text b =
     (let rest = len b - ptr b; written = length text in
      if rest \<le> written then vprintStringBuf text (extendStringBuf b)
      else Some (b\<lparr>contents := take (ptr b) (contents b) @ text, ptr := ptr b + written\<rparr>))"

definition printStringBuf :: "string \<Rightarrow> string_buf \<Rightarrow> string_buf option" where
  "printStringBuf = vprintStringBuf"

section \<open>Printing a value\<close>

datatype print_call = PrintValue u64 | PrintFrom nat nat addr | PrintCons addr

text \<open>
  \<open>PrintValue\<close> is a call of \<open>printValue\<close>; \<open>PrintFrom i n a\<close> its loop over the words at \<open>a\<close>,
  with commas; \<open>PrintCons sb\<close> its loop over a list whose current cell has its header at \<open>sb\<close>.
\<close>

definition hex_word :: "u64 \<Rightarrow> string" where
  "hex_word w = ''0x'' @ show_hex (unat w mod 2 ^ 32)"

partial_function (option) print_run :: "gc_state \<Rightarrow> print_call \<Rightarrow> string_buf \<Rightarrow> string_buf option" where
  "print_run s c b = (case c of
     PrintValue p \<Rightarrow>
       if unboxed p then printStringBuf (show_int (sint (UNBOX p))) b
       else if \<not> is_valid_heap_pointer (heap s) p then printStringBuf (hex_word p) b
       else let m = memory s; t = TAG (data_header m p); l = unat (LEN (data_header m p)) in
            if t = STRING_TAG
            then do { bs \<leftarrow> cstring m (unat p); printStringBuf (CHR 0x22 # chars_of bs @ [CHR 0x22]) b }
            else if t = CLOSURE_TAG
            then do {
              b \<leftarrow> printStringBuf ''<closure '' b;
              b \<leftarrow> (if l = 0 then Some b
                    else do {
                      b \<leftarrow> printStringBuf (hex_word (ld64 m (unat p))) b;
                      b \<leftarrow> (if l \<noteq> 1 then printStringBuf '', '' b else Some b);
                      print_run s (PrintFrom 1 l (unat p)) b
                    });
              printStringBuf ''>'' b
            }
            else if t = ARRAY_TAG
            then do {
              b \<leftarrow> printStringBuf ''['' b;
              b \<leftarrow> print_run s (PrintFrom 0 l (unat p)) b;
              printStringBuf '']'' b
            }
            else if t = SEXP_TAG
            then do {
              tag \<leftarrow> de_hash (sexp_tag m p);
              if tag = ''cons''
              then do {
                b \<leftarrow> printStringBuf ''{'' b;
                b \<leftarrow> print_run s (PrintCons (TO_SEXP (unat p))) b;
                printStringBuf ''}'' b
              }
              else do {
                b \<leftarrow> printStringBuf tag b;
                if l = 0 then Some b
                else do {
                  b \<leftarrow> printStringBuf '' ('' b;
                  b \<leftarrow> print_run s (PrintFrom 0 l (unat p + 8)) b;
                  printStringBuf '')'' b
                }
              }
            }
            else printStringBuf (''*** invalid data_header: 0x'' @ show_hex (unat t) @ '' ***'') b
   | PrintFrom i n a \<Rightarrow>
       if i < n
       then do {
         b \<leftarrow> print_run s (PrintValue (ld64 (memory s) (a + 8 * i))) b;
         b \<leftarrow> (if i \<noteq> n - 1 then printStringBuf '', '' b else Some b);
         print_run s (PrintFrom (i + 1) n a) b
       }
       else Some b
   | PrintCons sb \<Rightarrow>
       if LEN (ld64 (memory s) sb) = 0 then Some b
       else do {
         b \<leftarrow> print_run s (PrintValue (ld64 (memory s) (sb + 24))) b;
         let list_next = ld64 (memory s) (sb + 32);
         if \<not> unboxed list_next
         then do { b \<leftarrow> printStringBuf '', '' b; print_run s (PrintCons (TO_SEXP (unat list_next))) b }
         else Some b
       })"

definition printValue :: "gc_state \<Rightarrow> u64 \<Rightarrow> string_buf \<Rightarrow> string_buf option" where
  "printValue s p b = print_run s (PrintValue p) b"

section \<open>Concatenating the strings of a list\<close>

datatype cat_call = CatValue u64 | CatCons addr

partial_function (option) cat_run :: "mem \<Rightarrow> cat_call \<Rightarrow> string_buf \<Rightarrow> string_buf option" where
  "cat_run m c b = (case c of
     CatValue p \<Rightarrow>
       if unboxed p then Some b
       else let t = TAG (data_header m p) in
            if t = STRING_TAG then do { bs \<leftarrow> cstring m (unat p); printStringBuf (chars_of bs) b }
            else if t = SEXP_TAG
            then do {
              tag \<leftarrow> de_hash (sexp_tag m p);
              if tag = ''cons'' then cat_run m (CatCons (TO_SEXP (unat p))) b
              else printStringBuf (''*** non-list data_header: '' @ tag @ '' ***'') b
            }
            else printStringBuf (''*** invalid data_header: 0x'' @ show_hex (unat t) @ '' ***'') b
   | CatCons sb \<Rightarrow>
       if LEN (ld64 m sb) = 0 then Some b
       else do {
         b \<leftarrow> cat_run m (CatValue (ld64 m (sb + 24))) b;
         let next_b = ld64 m (sb + 32);
         if \<not> unboxed next_b then cat_run m (CatCons (TO_SEXP (unat next_b))) b else Some b
       })"

definition stringcat :: "mem \<Rightarrow> u64 \<Rightarrow> string_buf \<Rightarrow> string_buf option" where
  "stringcat m p b = cat_run m (CatValue p) b"

section \<open>The text of a tree\<close>

definition commas :: "string list \<Rightarrow> string" where
  "commas xs = concat (case xs of [] \<Rightarrow> [] | x # xs \<Rightarrow> x # map (\<lambda>y. '', '' @ y) xs)"

definition tag_text :: "u64 \<Rightarrow> string" where
  "tag_text g = (case de_hash g of Some t \<Rightarrow> t | None \<Rightarrow> [])"

fun is_int :: "vtree \<Rightarrow> bool" where "is_int (VInt i) = True" | "is_int _ = False"

fun show_tree :: "vtree \<Rightarrow> string" and show_elems :: "vtree \<Rightarrow> string" where
  "show_tree (VInt i) = show_int (sint i)"
| "show_tree (VRaw w) = hex_word w"
| "show_tree (VStr n bs) = CHR 0x22 # chars_of bs @ [CHR 0x22]"
| "show_tree (VArr ts) = ''['' @ commas (map show_tree ts) @ '']''"
| "show_tree (VSexp g ts) =
     (if tag_text g = ''cons'' then ''{'' @ show_elems (VSexp g ts) @ ''}''
      else tag_text g @ (if ts = [] then [] else '' ('' @ commas (map show_tree ts) @ '')''))"
| "show_tree (VClo c ts) = ''<closure '' @ commas (hex_word c # map show_tree ts) @ ''>''"
| "show_elems (VSexp g (x # y # ts)) = show_tree x @ (if is_int y then [] else '', '' @ show_elems y)"
| "show_elems _ = []"

text \<open>
  The trees the code can print: hashed tags, and lists whose cells have no member or at least two,
  the second being an integer or the next cell.
\<close>

fun printable :: "vtree \<Rightarrow> bool" and chain :: "vtree \<Rightarrow> bool" where
  "printable (VSexp g ts) \<longleftrightarrow> de_hash g \<noteq> None \<and>
     (if tag_text g = ''cons'' then chain (VSexp g ts) else (\<forall>t \<in> set ts. printable t))"
| "printable (VArr ts) \<longleftrightarrow> (\<forall>t \<in> set ts. printable t)"
| "printable (VClo c ts) \<longleftrightarrow> (\<forall>t \<in> set ts. printable t)"
| "printable (VInt i) \<longleftrightarrow> True"
| "printable (VRaw w) \<longleftrightarrow> True"
| "printable (VStr n bs) \<longleftrightarrow> True"
| "chain (VSexp g []) \<longleftrightarrow> True"
| "chain (VSexp g (x # y # ts)) \<longleftrightarrow> printable x \<and> (is_int y \<or> chain y)"
| "chain _ \<longleftrightarrow> False"

section \<open>The buffer only grows\<close>

definition buf_ok :: "string_buf \<Rightarrow> bool" where
  "buf_ok b \<longleftrightarrow> length (contents b) = ptr b \<and> ptr b < len b"

definition prints :: "(string_buf \<Rightarrow> string_buf option) \<Rightarrow> string \<Rightarrow> bool" where
  "prints c text \<longleftrightarrow> (\<forall>b. buf_ok b \<longrightarrow> (\<exists>b'. c b = Some b' \<and> buf_ok b' \<and> contents b' = contents b @ text))"

lemma buf_ok_create: "buf_ok createStringBuf" "contents createStringBuf = []"
  by (simp_all add: buf_ok_def createStringBuf_def STRINGBUF_INIT_def)

lemma printStringBuf_prints [intro, simp]: "prints (printStringBuf text) text"
proof -
  have "\<exists>b'. vprintStringBuf text b = Some b' \<and> buf_ok b' \<and> contents b' = contents b @ text" if "buf_ok b" for b
    using that
  proof (induction "Suc (ptr b + length text) - len b" arbitrary: b rule: less_induct)
    case less
    have ok: "length (contents b) = ptr b" "ptr b < len b" using less.prems by (simp_all add: buf_ok_def)
    show ?case
    proof (cases "len b - ptr b \<le> length text")
      case True
      let ?b = "extendStringBuf b"
      have "buf_ok ?b" "contents ?b = contents b" using ok by (simp_all add: buf_ok_def extendStringBuf_def)
      moreover have "Suc (ptr ?b + length text) - len ?b < Suc (ptr b + length text) - len b"
        using True ok by (simp add: extendStringBuf_def)
      ultimately have "\<exists>b'. vprintStringBuf text ?b = Some b' \<and> buf_ok b' \<and> contents b' = contents b @ text"
        using less.hyps [of ?b] by simp
      then show ?thesis using True by (subst vprintStringBuf.simps) (simp add: Let_def)
    next
      case False
      then show ?thesis using ok by (subst vprintStringBuf.simps) (auto simp: Let_def buf_ok_def)
    qed
  qed
  then show ?thesis by (simp add: prints_def printStringBuf_def)
qed

lemma prints_bind: "prints c t \<Longrightarrow> prints d u \<Longrightarrow> prints (\<lambda>b. c b \<bind> d) (t @ u)"
  unfolding prints_def by (metis append.assoc bind.bind_lunit)

lemma prints_Some [intro, simp]: "prints Some []"
  by (simp add: prints_def)

lemma prints_cong: "(\<And>b. c b = d b) \<Longrightarrow> prints d t \<Longrightarrow> prints c t"
  by (simp add: prints_def)

lemma commas_Cons: "commas (x # xs) = x @ (if xs = [] then [] else '', '' @ commas xs)"
  by (cases xs) (simp_all add: commas_def)

lemma commas_Nil [simp]: "commas [] = []"
  by (simp add: commas_def)

section \<open>Printing is the text of the tree\<close>

lemma print_from:
  assumes "i + length ts = n" "denote_words s ts (a + 8 * i)"
    and "\<And>t w. t \<in> set ts \<Longrightarrow> denotes s t w \<Longrightarrow> prints (print_run s (PrintValue w)) (show_tree t)"
  shows "prints (print_run s (PrintFrom i n a)) (commas (map show_tree ts))"
  using assms
proof (induction ts arbitrary: i)
  case Nil
  then have "print_run s (PrintFrom i n a) b = Some b" for b by (subst print_run.simps) simp
  then show ?case by (simp add: prints_def)
next
  case (Cons t ts)
  let ?w = "ld64 (memory s) (a + 8 * i)"
  have 1: "prints (print_run s (PrintValue ?w)) (show_tree t)"
    using Cons.prems by (simp add: denote_words.simps)
  have 2: "prints (\<lambda>b. if i \<noteq> n - 1 then printStringBuf '', '' b else Some b) (if ts = [] then [] else '', '')"
  proof -
    have "i = n - 1 \<longleftrightarrow> ts = []" using Cons.prems(1) by (cases ts) auto
    then show ?thesis using printStringBuf_prints [of "'', ''"] by (simp add: prints_def)
  qed
  have 3: "prints (print_run s (PrintFrom (i + 1) n a)) (commas (map show_tree ts))"
    using Cons.prems by (intro Cons.IH) (simp_all add: denote_words.simps algebra_simps)
  have "print_run s (PrintFrom i n a) b = print_run s (PrintValue ?w) b \<bind> (\<lambda>b.
      (if i \<noteq> n - 1 then printStringBuf '', '' b else Some b) \<bind> print_run s (PrintFrom (i + 1) n a))" for b
    using Cons.prems(1) by (subst print_run.simps) simp
  then show ?case
    using prints_cong [OF _ prints_bind [OF 1 prints_bind [OF 2 3]]] by (cases ts) (simp_all add: commas_Cons)
qed

lemma heap_pointer_ge:
  "16 \<le> c_begin (heap s) \<Longrightarrow> is_valid_heap_pointer (heap s) v \<Longrightarrow> TO_SEXP (unat v) + 24 = unat v + 8 \<and> TO_SEXP (unat v) + 32 = unat v + 16"
  by (simp add: is_valid_heap_pointer_def TO_SEXP_def)

text \<open>Each kind of value on its own, given that its parts are printed right.\<close>

lemma prints_sexp:
  assumes o: "is_obj s p SEXP_TAG (of_nat (length ts))" "length ts < 2 ^ 60" "sexp_tag (memory s) p = g"
      "denote_words s ts (unat p + 8)" "de_hash g \<noteq> None"
    and cons: "tag_text g = ''cons'' \<Longrightarrow> prints (print_run s (PrintCons (TO_SEXP (unat p)))) (show_elems (VSexp g ts))"
    and IH: "\<And>t w. tag_text g \<noteq> ''cons'' \<Longrightarrow> t \<in> set ts \<Longrightarrow> denotes s t w \<Longrightarrow> prints (print_run s (PrintValue w)) (show_tree t)"
  shows "prints (print_run s (PrintValue p)) (show_tree (VSexp g ts))"
proof -
  obtain tag where tag: "de_hash g = Some tag" "tag_text g = tag" using o(5) by (auto simp: tag_text_def)
  let ?args = "\<lambda>b. if ts = [] then Some b
    else printStringBuf '' ('' b \<bind> (\<lambda>b. print_run s (PrintFrom 0 (length ts) (unat p + 8)) b \<bind> printStringBuf '')'')"
  have run: "print_run s (PrintValue p) b = (if tag = ''cons''
      then printStringBuf ''{'' b \<bind> (\<lambda>b. print_run s (PrintCons (TO_SEXP (unat p))) b \<bind> printStringBuf ''}'')
      else printStringBuf tag b \<bind> ?args)" for b
    using o is_obj_boxed [OF o(1)] tag
    by (subst print_run.simps) (simp add: is_obj_def Let_def unat_len cong: if_cong)
  show ?thesis
  proof (cases "tag = ''cons''")
    case True
    then have "prints (\<lambda>b. printStringBuf ''{'' b \<bind> (\<lambda>b. print_run s (PrintCons (TO_SEXP (unat p))) b \<bind> printStringBuf ''}''))
        (''{'' @ show_elems (VSexp g ts) @ ''}'')"
      using cons tag by (intro prints_bind printStringBuf_prints) simp_all
    then show ?thesis using prints_cong [OF run] True tag by simp
  next
    case False
    have f: "prints (print_run s (PrintFrom 0 (length ts) (unat p + 8))) (commas (map show_tree ts))"
      by (rule print_from) (use IH tag False o(4) in simp_all)
    have "prints (\<lambda>b. printStringBuf '' ('' b \<bind> (\<lambda>b. print_run s (PrintFrom 0 (length ts) (unat p + 8)) b \<bind> printStringBuf '')''))
        ('' ('' @ commas (map show_tree ts) @ '')'')"
      by (intro prints_bind printStringBuf_prints f)
    then have "prints ?args (if ts = [] then [] else '' ('' @ commas (map show_tree ts) @ '')'')"
      by (cases "ts = []") (simp_all add: prints_def)
    then have "prints (\<lambda>b. printStringBuf tag b \<bind> ?args)
        (tag @ (if ts = [] then [] else '' ('' @ commas (map show_tree ts) @ '')''))"
      by (intro prints_bind printStringBuf_prints)
    then show ?thesis using prints_cong [OF run] False tag by simp
  qed
qed

lemma prints_array:
  assumes o: "is_obj s p ARRAY_TAG (of_nat (length ts))" "length ts < 2 ^ 60" "denote_words s ts (unat p)"
    and IH: "\<And>t w. t \<in> set ts \<Longrightarrow> denotes s t w \<Longrightarrow> prints (print_run s (PrintValue w)) (show_tree t)"
  shows "prints (print_run s (PrintValue p)) (show_tree (VArr ts))"
proof -
  have f: "prints (print_run s (PrintFrom 0 (length ts) (unat p))) (commas (map show_tree ts))"
    by (rule print_from) (use IH o(3) in simp_all)
  have run: "print_run s (PrintValue p) b = printStringBuf ''['' b \<bind>
      (\<lambda>b. print_run s (PrintFrom 0 (length ts) (unat p)) b \<bind> printStringBuf '']'')" for b
    using o is_obj_boxed [OF o(1)] by (subst print_run.simps) (simp add: is_obj_def Let_def unat_len)
  have "prints (\<lambda>b. printStringBuf ''['' b \<bind> (\<lambda>b. print_run s (PrintFrom 0 (length ts) (unat p)) b \<bind> printStringBuf '']''))
      (''['' @ commas (map show_tree ts) @ '']'')"
    by (intro prints_bind printStringBuf_prints f)
  then show ?thesis using prints_cong [OF run] by simp
qed

lemma prints_closure:
  assumes o: "is_obj s p CLOSURE_TAG (of_nat (Suc (length ts)))" "length ts < 2 ^ 60" "ld64 (memory s) (unat p) = c"
      "denote_words s ts (unat p + 8)"
    and IH: "\<And>t w. t \<in> set ts \<Longrightarrow> denotes s t w \<Longrightarrow> prints (print_run s (PrintValue w)) (show_tree t)"
  shows "prints (print_run s (PrintValue p)) (show_tree (VClo c ts))"
proof -
  have f: "prints (print_run s (PrintFrom 1 (Suc (length ts)) (unat p))) (commas (map show_tree ts))"
    by (rule print_from) (use IH o(4) in simp_all)
  have sep: "prints (\<lambda>b. if ts \<noteq> [] then printStringBuf '', '' b else Some b) (if ts \<noteq> [] then '', '' else [])"
    by (cases ts) (simp_all add: prints_def printStringBuf_prints [unfolded prints_def])
  have run: "print_run s (PrintValue p) b = printStringBuf ''<closure '' b \<bind> (\<lambda>b.
      (printStringBuf (hex_word c) b \<bind> (\<lambda>b. (if ts \<noteq> [] then printStringBuf '', '' b else Some b) \<bind>
        print_run s (PrintFrom 1 (Suc (length ts)) (unat p)))) \<bind> printStringBuf ''>'')" for b
    using o is_obj_boxed [OF o(1)]
    by (subst print_run.simps) (simp add: is_obj_def Let_def unat_len cong: if_cong)
  have "prints (\<lambda>b. printStringBuf ''<closure '' b \<bind> (\<lambda>b.
      (printStringBuf (hex_word c) b \<bind> (\<lambda>b. (if ts \<noteq> [] then printStringBuf '', '' b else Some b) \<bind>
        print_run s (PrintFrom 1 (Suc (length ts)) (unat p)))) \<bind> printStringBuf ''>''))
      (''<closure '' @ ((hex_word c @ (if ts \<noteq> [] then '', '' else []) @ commas (map show_tree ts)) @ ''>''))"
    by (intro prints_bind printStringBuf_prints f sep)
  then show ?thesis using prints_cong [OF run] by (cases ts) (simp_all add: commas_Cons)
qed

text \<open>A cell of a list: its head, then, unless the second member is an integer, the rest of the list.\<close>

lemma prints_cons:
  assumes hp: "16 \<le> c_begin (heap s)"
    and o: "is_obj s q SEXP_TAG (of_nat (length (x # y # ts)))" "length (x # y # ts) < 2 ^ 60"
      "denotes s y (ld64 (memory s) (unat q + 16))"
    and x: "prints (print_run s (PrintValue (ld64 (memory s) (unat q + 8)))) (show_tree x)"
    and y: "\<not> is_int y \<Longrightarrow> prints (print_run s (PrintCons (TO_SEXP (unat (ld64 (memory s) (unat q + 16)))))) (show_elems y)"
  shows "prints (print_run s (PrintCons (TO_SEXP (unat q)))) (show_elems (VSexp g (x # y # ts)))"
proof -
  let ?l = "length (x # y # ts)" and ?y = "ld64 (memory s) (unat q + 16)"
  have hd: "LEN (ld64 (memory s) (TO_SEXP (unat q))) = of_nat ?l"
    using o(1) by (simp add: is_obj_def data_header_def TO_DATA_def TO_SEXP_def del: of_nat_Suc)
  have "unat (of_nat ?l :: u64) = ?l" by (rule unat_len(1) [OF o(2)])
  then have ne: "LEN (ld64 (memory s) (TO_SEXP (unat q))) \<noteq> 0"
    unfolding hd by (metis list.size(3) length_0_conv list.distinct(1) unat_0)
  have vq: "is_valid_heap_pointer (heap s) q" using o(1) is_obj_boxed by blast
  obtain a where a: "unat q = a + 16" "TO_SEXP (a + 16) = a"
    using heap_pointer_ge [OF hp vq] by (intro that [of "unat q - 16"]) (auto simp: TO_SEXP_def)
  have run: "print_run s (PrintCons (TO_SEXP (unat q))) b = print_run s (PrintValue (ld64 (memory s) (unat q + 8))) b \<bind>
      (\<lambda>b. if \<not> unboxed ?y then printStringBuf '', '' b \<bind> print_run s (PrintCons (TO_SEXP (unat ?y))) else Some b)" for b
    using ne by (subst print_run.simps) (simp add: a Let_def add.commute [of _ a] cong: if_cong)
  have iy: "unboxed ?y \<longleftrightarrow> is_int y"
    using o(3) denotes_kind [OF o(3)] is_obj_boxed [of s ?y] by (cases y) auto
  have "prints (\<lambda>b. if \<not> unboxed ?y then printStringBuf '', '' b \<bind> print_run s (PrintCons (TO_SEXP (unat ?y))) else Some b)
      (if is_int y then [] else '', '' @ show_elems y)"
  proof (cases "is_int y")
    case True
    then show ?thesis using iy by (simp add: prints_def)
  next
    case False
    then have "prints (\<lambda>b. printStringBuf '', '' b \<bind> print_run s (PrintCons (TO_SEXP (unat ?y)))) ('', '' @ show_elems y)"
      using y by (intro prints_bind printStringBuf_prints)
    then show ?thesis using False iy by simp
  qed
  then show ?thesis using prints_cong [OF run prints_bind [OF x]] by simp
qed

lemma print_tree:
  assumes hp: "16 \<le> c_begin (heap s)"
  shows "printable t \<Longrightarrow> denotes s t p \<Longrightarrow> prints (print_run s (PrintValue p)) (show_tree t)"
    and "chain t \<Longrightarrow> denotes s t q \<Longrightarrow> prints (print_run s (PrintCons (TO_SEXP (unat q)))) (show_elems t)"
proof (induction t and t arbitrary: p and q rule: printable_chain.induct)
  case (1 g ts)
  show ?case by (rule prints_sexp) (use 1 in auto)
next
  case (2 ts)
  show ?case by (rule prints_array) (use 2 in auto)
next
  case (3 c ts)
  show ?case by (rule prints_closure) (use 3 in auto)
next
  case (4 i)
  then have "print_run s (PrintValue p) b = printStringBuf (show_int (sint i)) b" for b
    by (subst print_run.simps) auto
  then show ?case using prints_cong [OF _ printStringBuf_prints] by simp
next
  case (5 w)
  then have "print_run s (PrintValue p) b = printStringBuf (hex_word w) b" for b
    by (subst print_run.simps) auto
  then show ?case using prints_cong [OF _ printStringBuf_prints] by simp
next
  case (6 n bs)
  then have "print_run s (PrintValue p) b = printStringBuf (CHR 0x22 # chars_of bs @ [CHR 0x22]) b" for b
    using is_obj_boxed [of s p] by (subst print_run.simps) (auto simp: is_obj_def Let_def)
  then show ?case using prints_cong [OF _ printStringBuf_prints] by simp
next
  case (7 g)
  then have "LEN (ld64 (memory s) (TO_SEXP (unat q))) = 0"
    by (simp add: is_obj_def data_header_def TO_DATA_def TO_SEXP_def)
  then have "print_run s (PrintCons (TO_SEXP (unat q))) b = Some b" for b by (subst print_run.simps) simp
  then show ?case by (simp add: prints_def)
next
  case (8 g x y ts)
  have o: "is_obj s q SEXP_TAG (of_nat (length (x # y # ts)))" "length (x # y # ts) < 2 ^ 60"
    "denotes s x (ld64 (memory s) (unat q + 8))" "denotes s y (ld64 (memory s) (unat q + 16))"
    using "8.prems"(2) by (simp_all add: denote_words.simps add.commute [of 16 "unat q"] del: of_nat_Suc)
  show ?case
    by (rule prints_cons [OF hp o(1,2,4)]) (use "8.IH" "8.prems"(1) o(3,4) in simp_all)
qed simp_all

end
