(* ===== verification/Value_Properties.thy ===== *)
theory Value_Properties
  imports Gc_Properties Structural Printing
begin

text \<open>
  The properties of structural comparison, hashing and printing: they are functions of the tree a
  value denotes, and a collection changes none of their results.
\<close>

section \<open>The value of the sample heap\<close>

abbreviation sample_tree :: vtree where "sample_tree \<equiv> VArr [VStr 1 [97]]"

lemma sample_string: "cstring sample_mem 1040 = Some [97]"
  by (simp add: cstring_step) (simp add: sample_mem_def st64_apply unsigned_ucast_eq drop_bit_eq_div)

lemma sample_denotes: "denotes sample sample_tree 1016" "denotes sample (VStr 1 [97]) 1040"
  by (simp_all add: is_obj_def data_header_def TO_DATA_def is_valid_heap_pointer_def TAG_def LEN_eq tag_defs
      drop_bit_eq_div denote_words.simps sample_string UNBOXED_def)

lemma sample_collection: "\<exists>s'. collection sample sample_objects 5000 64 s' \<and> 16 \<le> c_begin (heap s')"
proof -
  have "fresh_mapping sample sample_objects 5000 64" using sample_maps_fresh [of 64] by (simp add: maps_fresh_def)
  moreover obtain s' where "collected sample sample_objects 5000 64 s'"
    using collect_run [OF sample_gc_ok, of 64 0 sample_mmap 5000] sample_next_words sample_maps_fresh [of 64] by auto
  ultimately show ?thesis
    using sample_live_size sample_gc_ok by (intro exI [of _ s']) (auto simp: collection_def collected_def)
qed

lemma sample_held: "held sample sample_objects 5000 64 1016"
proof -
  have "live sample 1000"
    by (auto simp: live_def root_reach_def sample_words points_to_def is_valid_heap_pointer_def UNBOXED_def intro!: exI [of _ 1000])
  then show ?thesis by (simp add: held_def)
qed

section \<open>Properties\<close>





text \<open>
  On integers \<open>Lcompare\<close> returns their difference wrapped to 63 bits: the sign is right as
  long as the difference fits, and wrong otherwise.
\<close>

theorem compare_integers:
  assumes "fits63 i" "fits63 j"
  shows "\<exists>r. Lcompare s (boxI i) (boxI j) = Some (Inr r) \<and>
           (fits63 (i - j) \<longrightarrow> sint (UNBOX r) = i - j) \<and>
           (2 ^ 62 \<le> i - j \<longrightarrow> sint (UNBOX r) < 0) \<and>
           (i - j < - (2 ^ 62) \<longrightarrow> 0 \<le> sint (UNBOX r))"
proof -
  have d: "denotes s (VInt (word_of_int i)) (boxI i)" "denotes s (VInt (word_of_int j)) (boxI j)"
    using assms by simp_all
  then have r: "Lcompare s (boxI i) (boxI j) = Some (Inr (boxI (i - j)))"
    unfolding Lcompare_def compare_tree [OF d] by (simp add: boxI_def)
  have wrap: "boxI (k + 2 ^ 63) = boxI k" for k by (simp add: boxI_def BOX_eq)
  have up: "sint (UNBOX (boxI (i - j))) = i - j - 2 ^ 63" if "2 ^ 62 \<le> i - j"
    using wrap [of "i - j - 2 ^ 63"] sint_word_of_int_63 [of "i - j - 2 ^ 63"] UNBOX_boxI [of "i - j - 2 ^ 63"] that assms
    by (simp add: fits63_def)
  have down: "sint (UNBOX (boxI (i - j))) = i - j + 2 ^ 63" if "i - j < - (2 ^ 62)"
    using wrap [of "i - j"] sint_word_of_int_63 [of "i - j + 2 ^ 63"] UNBOX_boxI [of "i - j + 2 ^ 63"] that assms
    by (simp add: fits63_def)
  show ?thesis
    using r up down assms sint_word_of_int_63 [of "i - j"] UNBOX_boxI [of "i - j"] by (auto simp: fits63_def)
qed

theorem compare_integers_witness:
  "\<exists>r. Lcompare sample (boxI (2 ^ 62 - 1)) (boxI (- 1)) = Some (Inr r) \<and> sint (UNBOX r) < 0"
  using compare_integers [of "2 ^ 62 - 1" "- 1"] by (auto simp: fits63_def)



text \<open>
  C28: Printing a value appends the text of its tree to the buffer, growing it as often as needed;
  lists made of \<open>cons\<close> cells are printed in braces.
\<close>

theorem print_correct:
  assumes "16 \<le> c_begin (heap s)" "printable t" "denotes s t p" "buf_ok b"
  shows "\<exists>b'. printValue s p b = Some b' \<and> buf_ok b' \<and> contents b' = contents b @ show_tree t"
  using print_tree(1) [OF assms(1-3)] assms(4) by (auto simp: prints_def printValue_def)

theorem print_correct_witness:
  "\<exists>b'. printValue sample 1016 createStringBuf = Some b' \<and> contents b' = [CHR 0x5B, CHR 0x22, CHR ''a'', CHR 0x22, CHR 0x5D]"
  using print_correct [OF _ _ sample_denotes(1) buf_ok_create(1)] buf_ok_create(2) char_of_char [of "CHR ''a''"]
  by (auto simp: commas_def chars_of_def simp del: char_of_char)

text \<open>
  C7: A collection is transparent to the program's values: after it the redirected value denotes
  the same tree, so it compares, hashes and prints as before.
\<close>

theorem collection_transparent:
  assumes "collection s os b n s'" "held s os b n p" "denotes s t p" "held s os b n q" "denotes s u q"
    and "16 \<le> c_begin (heap s)" "16 \<le> b" "printable t" "buf_ok buf"
  shows "denotes s' t (gc_word b s os p) \<and>
         Lcompare s' (gc_word b s os p) (gc_word b s os q) = Lcompare s p q \<and>
         Lhash s' (gc_word b s os p) = Lhash s p \<and>
         (\<exists>b1 b2. printValue s p buf = Some b1 \<and> printValue s' (gc_word b s os p) buf = Some b2 \<and>
            contents b1 = contents b2)"
proof -
  note d = collection_denotes [OF assms(1,3,2)] collection_denotes [OF assms(1,5,4)]
  have "c_begin (heap s') = b" using assms(1) by (simp add: collection_def collected_def)
  then have "prints (print_run s' (PrintValue (gc_word b s os p))) (show_tree t)"
    using print_tree(1) [OF _ assms(8) d(1)] assms(7) by simp
  then have "\<exists>b1 b2. printValue s p buf = Some b1 \<and> printValue s' (gc_word b s os p) buf = Some b2 \<and> contents b1 = contents b2"
    using print_tree(1) [OF assms(6,8,3)] assms(9) unfolding prints_def printValue_def by metis
  moreover have "Lhash s' (gc_word b s os p) = Lhash s p"
    using inner_hash_tree [OF d(1)] inner_hash_tree [OF assms(3)] by (simp add: Lhash_def del: inner_hash.simps)
  ultimately show ?thesis
    using d(1) compare_tree [OF d] compare_tree [OF assms(3,5)] by (simp add: Lcompare_def)
qed

theorem collection_transparent_witness:
  "\<exists>s'. collection sample sample_objects 5000 64 s' \<and>
     Lhash s' (gc_word 5000 sample sample_objects 1016) = Lhash sample 1016"
proof -
  obtain s' where s': "collection sample sample_objects 5000 64 s'" using sample_collection by blast
  then show ?thesis
    using collection_transparent [OF s' sample_held sample_denotes(1) sample_held sample_denotes(1) _ _ _ buf_ok_create(1)]
    by auto
qed

end
