(* ===== verification/Asm.thy ===== *)
theory Asm
  imports Text
begin

text \<open>
  The assembly the compiler writes: the registers of \<open>comp/include/register.h\<close> and the lines of
  \<open>comp/include/code_buffer.h\<close>. An \<open>asm\<close> is one call of \<open>emit\<close>; \<open>asm_text\<close> is the text that
  call writes. A \<open>Register\<close> is its number.
\<close>

definition WORD_SIZE :: u64 where "WORD_SIZE = 8"

definition zero_reg :: nat where "zero_reg = 0"
definition temp1 :: nat where "temp1 = 30"
definition temp2 :: nat where "temp2 = 31"
definition ra :: nat where "ra = 1"
definition gp :: nat where "gp = 5"
definition sp :: nat where "sp = 2"
definition fp :: nat where "fp = 8"

definition arg_reg :: "u64 \<Rightarrow> nat res" where
  "arg_reg argno = (if \<not> argno < 8 then Inl AssertFailed else Inr (10 + unat argno))"

definition saved_regs :: "nat list" where
  "saved_regs = [8, 9, 18, 19, 20, 21, 22, 23, 24, 25, 26, 27]"

definition temp_regs :: "nat list" where
  "temp_regs = [5, 6, 7, 28, 29, 30, 31]"

definition arg_regs :: "nat list" where
  "arg_regs = [10, 11, 12, 13, 14, 15, 16, 17]"

text \<open>\<open>saved_apply\<close> and its siblings number the registers from 1.\<close>

definition apply_regs :: "nat list \<Rightarrow> (nat \<Rightarrow> nat \<Rightarrow> 'a list) \<Rightarrow> 'a list" where
  "apply_regs rs f = concat (map2 f rs [1..<Suc (length rs)])"

definition reg_names :: "string list" where
  "reg_names = [''zero'', ''ra'', ''sp'',  ''gp'',  ''tp'', ''t0'', ''t1'', ''t2'',
                ''fp'',   ''s1'', ''a0'',  ''a1'',  ''a2'', ''a3'', ''a4'', ''a5'',
                ''a6'',   ''a7'', ''s2'',  ''s3'',  ''s4'', ''s5'', ''s6'', ''s7'',
                ''s8'',   ''s9'', ''s10'', ''s11'', ''t3'', ''t4'', ''t5'', ''t6'']"

definition reg_string :: "nat \<Rightarrow> string" where
  "reg_string r = reg_names ! r"

text \<open>The immediates are passed as \<open>int\<close>: a \<open>size_t\<close> is cut to its low 32 bits.\<close>

definition imm :: "u64 \<Rightarrow> int" where "imm w = sint (ucast w :: 32 word)"

datatype rop = ADD | SUB | SLT | SGT | OR_INSN | AND_INSN | SRL | SRA | SLL | MUL | DIV_INSN | REM_INSN
datatype iop = ADDI | SLTI | SRAI | SLLI | ORI | XORI | ANDI
datatype sop = LD | SD
datatype pop = SEQZ | SNEZ

datatype asm =
    R_type rop nat nat nat
  | I_type iop nat nat int
  | S_type sop nat nat int
  | Li nat int
  | Pseudo pop nat nat
  | Mv nat nat
  | La nat string
  | CallInsn string
  | Ret
  | Label string
  | Comment string
  | J string
  | Cj bool nat nat string
  | Raw string

fun rop_name :: "rop \<Rightarrow> string" where
  "rop_name ADD = ''add''" | "rop_name SUB = ''sub''" | "rop_name SLT = ''slt''" | "rop_name SGT = ''sgt''"
| "rop_name OR_INSN = ''or''" | "rop_name AND_INSN = ''and''" | "rop_name SRL = ''srl''" | "rop_name SRA = ''sra''"
| "rop_name SLL = ''sll''" | "rop_name MUL = ''mul''" | "rop_name DIV_INSN = ''div''" | "rop_name REM_INSN = ''rem''"

fun iop_name :: "iop \<Rightarrow> string" where
  "iop_name ADDI = ''addi''" | "iop_name SLTI = ''slti''" | "iop_name SRAI = ''srai''" | "iop_name SLLI = ''slli''"
| "iop_name ORI = ''ori''" | "iop_name XORI = ''xori''" | "iop_name ANDI = ''andi''"

fun sop_name :: "sop \<Rightarrow> string" where "sop_name LD = ''ld''" | "sop_name SD = ''sd''"
fun pop_name :: "pop \<Rightarrow> string" where "pop_name SEQZ = ''seqz''" | "pop_name SNEZ = ''snez''"

abbreviation tabc :: string where "tabc \<equiv> [CHR 0x09]"
abbreviation sep :: string where "sep \<equiv> [CHR '','', CHR 0x09]"

fun asm_text :: "asm \<Rightarrow> string" where
  "asm_text (R_type i d s1 s2) = rop_name i @ tabc @ reg_string d @ sep @ reg_string s1 @ sep @ reg_string s2"
| "asm_text (I_type i d s n) = iop_name i @ tabc @ reg_string d @ sep @ reg_string s @ sep @ show_int n"
| "asm_text (S_type i d b n) = sop_name i @ tabc @ reg_string d @ sep @ show_int n @ [CHR 0x28] @ reg_string b @ [CHR 0x29]"
| "asm_text (Li d n) = ''li'' @ tabc @ reg_string d @ sep @ show_int n"
| "asm_text (Pseudo i d s) = pop_name i @ tabc @ reg_string d @ sep @ reg_string s"
| "asm_text (Mv d s) = ''mv'' @ tabc @ reg_string d @ sep @ reg_string s"
| "asm_text (La d l) = ''la'' @ tabc @ reg_string d @ sep @ l"
| "asm_text (CallInsn l) = ''call'' @ tabc @ l"
| "asm_text Ret = ''ret''"
| "asm_text (Label l) = l @ '':''"
| "asm_text (Comment c) = ''# '' @ c"
| "asm_text (J l) = ''j '' @ l"
| "asm_text (Cj on_eq r1 r2 l) =
     (if on_eq then ''beq'' else ''bne'') @ tabc @ reg_string r1 @ sep @ reg_string r2 @ sep @ l"
| "asm_text (Raw s) = s"

text \<open>The text of a run: every line is ended by \<open>std::endl\<close>.\<close>

definition asm_lines :: "asm list \<Rightarrow> string" where
  "asm_lines cs = concat (map (\<lambda>a. asm_text a @ [CHR 0x0A]) cs)"

end
