(* ===== verification/Symb_Stack.thy ===== *)
theory Symb_Stack
  imports Prelude
begin

text \<open>
  The symbolic stack of \<open>comp/include/symb_stack.h\<close>: the compiler keeps only the height of the
  operand stack; the fifteen lowest slots are registers, the others memory slots. The interface
  \<open>symbolic_stack\<close> states what the code generator relies on.
\<close>

section \<open>The code\<close>

datatype loc = Register nat | Memory nat

definition regs :: "nat list" where
  "regs = [9, 18, 19, 20, 21, 22, 23, 24, 25, 26, 27, 6, 7, 28, 29]"

text \<open>The state of a \<open>SymbolicStack\<close> is its member \<open>top\<close>.\<close>

definition alloc_loc :: "nat \<Rightarrow> loc \<times> nat" where
  "alloc_loc n =
     (if n \<ge> length regs then (Memory (n - length regs), n + 1)
      else (Register (regs ! n), n + 1))"

definition push_loc :: "loc \<Rightarrow> nat \<Rightarrow> nat" where "push_loc l n = n + 1"

definition spilled_count :: "nat \<Rightarrow> nat" where
  "spilled_count n = (if n > length regs then n - length regs else 0)"

definition peek_loc :: "nat \<Rightarrow> loc res" where
  "peek_loc n =
     (if \<not> n > 0 then Inl AssertFailed
      else if n - 1 \<ge> length regs then Inr (Memory (n - 1 - length regs))
      else Inr (Register (regs ! (n - 1))))"

definition pop_loc :: "nat \<Rightarrow> (loc \<times> nat) res" where
  "pop_loc n =
     (if \<not> n > 0 then Inl AssertFailed
      else let n = n - 1 in
           if n \<ge> length regs then Inr (Memory (n - length regs), n)
           else Inr (Register (regs ! n), n))"

section \<open>The interface\<close>

text \<open>
  A stack of locations: the location of a slot depends only on its height, different slots have
  different locations, and the operations touch the top slot only.
\<close>

locale symbolic_stack =
  fixes at :: "nat \<Rightarrow> loc"
    and al :: "nat \<Rightarrow> loc \<times> nat"
    and po :: "nat \<Rightarrow> (loc \<times> nat) res"
    and pe :: "nat \<Rightarrow> loc res"
    and pu :: "loc \<Rightarrow> nat \<Rightarrow> nat"
  assumes alloc_at: "al n = (at n, Suc n)"
    and pop_at: "po (Suc n) = Inr (at n, n)"
    and pop_empty: "po 0 = Inl AssertFailed"
    and peek_at: "pe (Suc n) = Inr (at n)"
    and peek_empty: "pe 0 = Inl AssertFailed"
    and push_at: "pu l n = Suc n"
    and at_inject: "at m = at n \<longleftrightarrow> m = n"

context symbolic_stack
begin

lemma pop_alloc: "po (snd (al n)) = Inr (fst (al n), n)"
  by (simp add: alloc_at pop_at)

lemma peek_alloc: "pe (snd (al n)) = Inr (fst (al n))"
  by (simp add: alloc_at peek_at)

lemma pop_eq_Inr: "po n = Inr (l, m) \<longleftrightarrow> n = Suc m \<and> l = at m"
  by (cases n) (auto simp: pop_at pop_empty)

lemma pop_fails: "(\<exists>e. po n = Inl e) \<longleftrightarrow> n = 0"
  by (cases n) (auto simp: pop_at pop_empty)

lemma pop_below: "po n = Inr (l, m) \<Longrightarrow> k < m \<Longrightarrow> at k \<noteq> l"
  by (auto simp: pop_eq_Inr at_inject)

end

text \<open>The location of the slot at a height.\<close>

definition loc_at :: "nat \<Rightarrow> loc" where
  "loc_at n = (if n < 15 then Register (regs ! n) else Memory (n - 15))"

lemma length_regs [simp]: "length regs = 15"
  by (simp add: regs_def)

lemma distinct_regs: "distinct regs"
  by (simp add: regs_def)

interpretation st: symbolic_stack loc_at alloc_loc pop_loc peek_loc push_loc
proof unfold_locales
  fix m n
  show "loc_at m = loc_at n \<longleftrightarrow> m = n"
    using distinct_regs by (auto simp: loc_at_def nth_eq_iff_index_eq)
qed (simp_all add: alloc_loc_def pop_loc_def peek_loc_def push_loc_def loc_at_def Let_def)

lemmas st_simps [simp] = st.alloc_at st.pop_at st.pop_empty st.peek_at st.peek_empty st.push_at

lemma regs_range: "n < 15 \<Longrightarrow> regs ! n \<in> {9, 18, 19, 20, 21, 22, 23, 24, 25, 26, 27, 6, 7, 28, 29}"
  using nth_mem [of n regs] by (simp add: regs_def del: nth_mem)

end
