(* ===== verification/Code_Buffer.thy ===== *)
theory Code_Buffer
  imports Asm Symb_Stack
begin

text \<open>
  The emission of one instruction over symbolic locations: \<open>CodeBuffer\<close> of
  \<open>comp/include/code_buffer.h\<close>. Every function returns the lines it writes; \<open>to_reg\<close> also
  returns the register it chose. The macros that declare one \<open>emit_\<close> and one \<open>symb_emit_\<close> member
  per mnemonic are the functions that take the mnemonic as an argument.
\<close>

section \<open>Registers\<close>

definition emit_addi :: "nat \<Rightarrow> nat \<Rightarrow> u64 \<Rightarrow> asm list" where
  "emit_addi d s n = [I_type ADDI d s (imm n)]"
definition emit_xori :: "nat \<Rightarrow> nat \<Rightarrow> u64 \<Rightarrow> asm list" where
  "emit_xori d s n = [I_type XORI d s (imm n)]"
definition emit_srai :: "nat \<Rightarrow> nat \<Rightarrow> u64 \<Rightarrow> asm list" where
  "emit_srai d s n = [I_type SRAI d s (imm n)]"
definition emit_ld :: "nat \<Rightarrow> nat \<Rightarrow> u64 \<Rightarrow> asm list" where
  "emit_ld d b n = [S_type LD d b (imm n)]"
definition emit_sd :: "nat \<Rightarrow> nat \<Rightarrow> u64 \<Rightarrow> asm list" where
  "emit_sd d b n = [S_type SD d b (imm n)]"
definition emit_li :: "nat \<Rightarrow> u64 \<Rightarrow> asm list" where
  "emit_li d n = [Li d (imm n)]"
definition emit_r :: "rop \<Rightarrow> nat \<Rightarrow> nat \<Rightarrow> nat \<Rightarrow> asm list" where
  "emit_r i d s1 s2 = [R_type i d s1 s2]"
definition emit_pseudo :: "pop \<Rightarrow> nat \<Rightarrow> nat \<Rightarrow> asm list" where
  "emit_pseudo i d s = [Pseudo i d s]"
definition emit_mv :: "nat \<Rightarrow> nat \<Rightarrow> asm list" where
  "emit_mv d s = emit_addi d s 0"

definition emit_eq :: "nat \<Rightarrow> nat \<Rightarrow> nat \<Rightarrow> asm list" where
  "emit_eq d s1 s2 = emit_r SUB d s2 s1 @ emit_pseudo SEQZ d d"
definition emit_sle :: "nat \<Rightarrow> nat \<Rightarrow> nat \<Rightarrow> asm list" where
  "emit_sle d s1 s2 = emit_r SGT d s1 s2 @ emit_xori d d 1"
definition emit_neq :: "nat \<Rightarrow> nat \<Rightarrow> nat \<Rightarrow> asm list" where
  "emit_neq d s1 s2 = emit_r SUB d s2 s1 @ emit_pseudo SNEZ d d"
definition emit_sge :: "nat \<Rightarrow> nat \<Rightarrow> nat \<Rightarrow> asm list" where
  "emit_sge d s1 s2 = emit_r SLT d s1 s2 @ emit_xori d d 1"

section \<open>Symbolic locations\<close>

definition slot_off :: "nat \<Rightarrow> u64" where
  "slot_off n = - of_nat n * WORD_SIZE"

fun to_reg :: "loc \<Rightarrow> nat \<Rightarrow> asm list \<times> nat" where
  "to_reg (Memory n) temp = (emit_ld temp sp (slot_off n), temp)"
| "to_reg (Register n) temp = ([], n)"

definition symb_emit_r :: "rop \<Rightarrow> loc \<Rightarrow> loc \<Rightarrow> loc \<Rightarrow> asm list" where
  "symb_emit_r i dst src1 src2 =
     (let (c1, src1_reg) = to_reg src1 temp1;
          (c2, src2_reg) = to_reg src2 temp2
      in c1 @ c2 @ (case dst of
           Register n \<Rightarrow> emit_r i n src1_reg src2_reg
         | Memory n \<Rightarrow> emit_r i src1_reg src1_reg src2_reg @ emit_sd src1_reg sp (slot_off n)))"

definition symb_emit_i :: "iop \<Rightarrow> loc \<Rightarrow> loc \<Rightarrow> int \<Rightarrow> asm list" where
  "symb_emit_i i dst src n =
     (let (c1, dst_reg) = to_reg dst temp1;
          (c2, src_reg) = to_reg src temp2
      in c1 @ c2 @ [I_type i dst_reg src_reg n])"

definition symb_emit_li :: "loc \<Rightarrow> u64 \<Rightarrow> asm list" where
  "symb_emit_li dst n = (let (c1, dst_reg) = to_reg dst temp1 in c1 @ emit_li dst_reg n)"

definition symb_emit_s :: "sop \<Rightarrow> loc \<Rightarrow> loc \<Rightarrow> int \<Rightarrow> asm list" where
  "symb_emit_s i dst base off =
     (let (c1, dst_reg) = to_reg dst temp1;
          (c2, base_reg) = to_reg base temp2
      in c1 @ c2 @ [S_type i dst_reg base_reg off])"

definition symb_emit_pseudo :: "pop \<Rightarrow> loc \<Rightarrow> loc \<Rightarrow> asm list" where
  "symb_emit_pseudo i dst src =
     (let (c1, dst_reg) = to_reg dst temp1;
          (c2, src_reg) = to_reg src temp2
      in c1 @ c2 @ emit_pseudo i dst_reg src_reg)"

definition symb_emit_eq :: "loc \<Rightarrow> loc \<Rightarrow> loc \<Rightarrow> asm list" where
  "symb_emit_eq dst s1 s2 = symb_emit_r SUB dst s2 s1 @ symb_emit_pseudo SEQZ dst dst"
definition symb_emit_sle :: "loc \<Rightarrow> loc \<Rightarrow> loc \<Rightarrow> asm list" where
  "symb_emit_sle dst s1 s2 = symb_emit_r SGT dst s1 s2 @ symb_emit_i XORI dst dst 1"
definition symb_emit_neq :: "loc \<Rightarrow> loc \<Rightarrow> loc \<Rightarrow> asm list" where
  "symb_emit_neq dst s1 s2 = symb_emit_r SUB dst s2 s1 @ symb_emit_pseudo SNEZ dst dst"
definition symb_emit_sge :: "loc \<Rightarrow> loc \<Rightarrow> loc \<Rightarrow> asm list" where
  "symb_emit_sge dst s1 s2 = symb_emit_r SLT dst s1 s2 @ symb_emit_i XORI dst dst 1"

text \<open>The three members \<open>symb_emit_mv\<close>: to a register, from a register, between locations.\<close>

definition symb_emit_mv_to :: "nat \<Rightarrow> loc \<Rightarrow> asm list" where
  "symb_emit_mv_to dst_reg src = (let (c1, src_reg) = to_reg src temp2 in c1 @ [Mv dst_reg src_reg])"

definition symb_emit_mv_from :: "loc \<Rightarrow> nat \<Rightarrow> asm list" where
  "symb_emit_mv_from dst src_reg = (let (c1, dst_reg) = to_reg dst temp2 in c1 @ [Mv dst_reg src_reg])"

definition symb_emit_mv :: "loc \<Rightarrow> loc \<Rightarrow> asm list" where
  "symb_emit_mv dst src =
     (let (c1, src_reg) = to_reg src temp1;
          (c2, dst_reg) = to_reg dst temp2
      in c1 @ c2 @ [Mv dst_reg src_reg])"

definition symb_emit_la :: "loc \<Rightarrow> string \<Rightarrow> asm list" where
  "symb_emit_la dst label = (let (c1, dst_reg) = to_reg dst temp1 in c1 @ [La dst_reg label])"

definition emit_call :: "string \<Rightarrow> asm list" where "emit_call label = [CallInsn label]"
definition emit_ret :: "asm list" where "emit_ret = [Ret]"
definition emit_label :: "string \<Rightarrow> asm list" where "emit_label label = [Label label]"
definition emit_comment :: "string \<Rightarrow> asm list" where "emit_comment comment = [Comment comment]"
definition emit_j :: "string \<Rightarrow> asm list" where "emit_j target_label = [J target_label]"
definition emit_cj :: "bool \<Rightarrow> nat \<Rightarrow> nat \<Rightarrow> string \<Rightarrow> asm list" where
  "emit_cj on_eq r1 r2 target_label = [Cj on_eq r1 r2 target_label]"

text \<open>The emission over locations that are registers.\<close>

lemma symb_emit_registers:
  "symb_emit_r i (Register d) (Register a) (Register b) = [R_type i d a b]"
  "symb_emit_i j (Register d) (Register a) n = [I_type j d a n]"
  "symb_emit_s k (Register d) (Register a) n = [S_type k d a n]"
  "symb_emit_pseudo p (Register d) (Register a) = [Pseudo p d a]"
  "symb_emit_mv_to r (Register a) = [Mv r a]"
  "symb_emit_mv_from (Register d) r = [Mv d r]"
  "symb_emit_mv (Register d) (Register a) = [Mv d a]"
  "symb_emit_la (Register d) l = [La d l]"
  "symb_emit_li (Register d) w = [Li d (imm w)]"
  by (simp_all add: symb_emit_r_def symb_emit_i_def symb_emit_s_def symb_emit_pseudo_def symb_emit_mv_to_def
      symb_emit_mv_from_def symb_emit_mv_def symb_emit_la_def symb_emit_li_def emit_r_def emit_pseudo_def emit_li_def)

end
