(* ===== verification/Instructions.thy ===== *)
theory Instructions
  imports Text
begin

text \<open>
  The instructions of the Lama bytecode as the compiler holds them: \<open>comp/include/opcode.h\<close> and the
  classes of \<open>comp/include/instructions.h\<close>. A class is a constructor with the fields of the class;
  \<open>mk_\<close> functions are the C++ constructors where they convert their arguments. An enumeration
  that the reader fills by a cast of four bits keeps the values that name no enumerator.
\<close>

type_synonym i32 = "32 word"

text \<open>A conversion of \<open>int\<close> to \<open>size_t\<close>.\<close>

definition size_of_int :: "i32 \<Rightarrow> u64" where "size_of_int i = scast i"

datatype binop_kind = Add | Sub | Mul | Div | Rem | LessThan | LessEqual | GreaterThan | GreaterEqual
  | Equal | NotEqual | And | Or | UnknownBinop nat

datatype location = Global | Local | Arg | Captured | UnknownLocation nat

datatype patt_kind = PString | StringTag | ArrayTag | SExpTag | Boxed | Unboxed | ClosureTag | UnknownPattern nat

definition BinopKind :: "nat \<Rightarrow> binop_kind" where
  "BinopKind l =
     (if l = 1 then Add else if l = 2 then Sub else if l = 3 then Mul else if l = 4 then Div
      else if l = 5 then Rem else if l = 6 then LessThan else if l = 7 then LessEqual
      else if l = 8 then GreaterThan else if l = 9 then GreaterEqual else if l = 10 then Equal
      else if l = 11 then NotEqual else if l = 12 then And else if l = 13 then Or else UnknownBinop l)"

definition Location :: "nat \<Rightarrow> location" where
  "Location l =
     (if l = 0 then Global else if l = 1 then Local else if l = 2 then Arg else if l = 3 then Captured
      else UnknownLocation l)"

definition Pattern :: "nat \<Rightarrow> patt_kind" where
  "Pattern l =
     (if l = 0 then PString else if l = 1 then StringTag else if l = 2 then ArrayTag else if l = 3 then SExpTag
      else if l = 4 then Boxed else if l = 5 then Unboxed else if l = 6 then ClosureTag else UnknownPattern l)"

record location_entry =
  kind :: location
  index :: i32

text \<open>\<open>std::variant<std::string, size_t>\<close>\<close>

datatype ident = Name string | Offset u64

datatype instr =
    Const i32
  | String u64 string
  | SExpression string u64
  | StoreStack
  | StoreArray
  | Jump u64
  | ConditionalJump u64 bool
  | Return
  | Drop
  | Duplicate
  | Swap
  | Elem
  | Closure u64 "location_entry list"
  | CBegin u64 u64 u64
  | Begin ident u64 u64
  | End
  | CallClosure u64
  | Call ident u64
  | Tag string u64
  | Array u64
  | Fail u64 u64
  | Line u64
  | Binop binop_kind
  | Load location_entry
  | LoadArray u64 location
  | Store location_entry
  | PatternInst patt_kind
  | BuiltinRead
  | BuiltinWrite
  | BuiltinLength
  | BuiltinString
  | BuiltinArray u64

text \<open>
  The macro \<open>BOX(x)\<close> of \<open>comp/include/runtime.h\<close> is the text \<open>(2 * x + 1)\<close>; in the constructor
  of \<open>Const\<close> it is an operation of \<open>int\<close>, which wraps on the machines the compiler runs on.
\<close>

definition mk_Const :: "i32 \<Rightarrow> instr" where "mk_Const v = Const (2 * v + 1)"

definition mk_SExpression :: "string \<Rightarrow> i32 \<Rightarrow> instr" where "mk_SExpression n s = SExpression n (size_of_int s)"
definition mk_Jump :: "i32 \<Rightarrow> instr" where "mk_Jump t = Jump (size_of_int t)"
definition mk_ConditionalJump :: "i32 \<Rightarrow> bool \<Rightarrow> instr" where
  "mk_ConditionalJump t z = ConditionalJump (size_of_int t) z"
definition mk_CBegin :: "u64 \<Rightarrow> i32 \<Rightarrow> i32 \<Rightarrow> instr" where
  "mk_CBegin junk argc locc = CBegin junk (size_of_int argc) (size_of_int locc)"
definition mk_Begin :: "ident \<Rightarrow> i32 \<Rightarrow> i32 \<Rightarrow> instr" where
  "mk_Begin i argc locc = Begin i (size_of_int argc) (size_of_int locc)"
definition mk_Closure :: "i32 \<Rightarrow> location_entry list \<Rightarrow> instr" where "mk_Closure off es = Closure (size_of_int off) es"
definition mk_CallClosure :: "i32 \<Rightarrow> instr" where "mk_CallClosure argc = CallClosure (size_of_int argc)"
definition mk_Call :: "i32 \<Rightarrow> i32 \<Rightarrow> instr" where
  "mk_Call callee argc = Call (Offset (size_of_int callee)) (size_of_int argc)"
definition mk_Tag :: "string \<Rightarrow> i32 \<Rightarrow> instr" where "mk_Tag t s = Tag t (size_of_int s)"
definition mk_Array :: "i32 \<Rightarrow> instr" where "mk_Array s = Array (size_of_int s)"
definition mk_Fail :: "i32 \<Rightarrow> i32 \<Rightarrow> instr" where "mk_Fail l c = Fail (size_of_int l) (size_of_int c)"
definition mk_Line :: "i32 \<Rightarrow> instr" where "mk_Line l = Line (size_of_int l)"
definition mk_LoadArray :: "i32 \<Rightarrow> nat \<Rightarrow> instr" where "mk_LoadArray i l = LoadArray (size_of_int i) (Location l)"
definition mk_BuiltinArray :: "i32 \<Rightarrow> instr" where "mk_BuiltinArray n = BuiltinArray (size_of_int n)"

text \<open>The member \<open>offset\<close> of \<open>CBegin\<close> is never set: its value is an argument of \<open>mk_CBegin\<close>.\<close>

fun is_terminator :: "instr \<Rightarrow> bool" where
  "is_terminator End = True"
| "is_terminator (Jump t) = True"
| "is_terminator (Fail l c) = True"
| "is_terminator _ = False"

end
