(* ===== verification/Print_Inst.thy ===== *)
theory Print_Inst
  imports Instructions
begin

text \<open>
  The text of an instruction, as \<open>comp/src/print.cpp\<close> writes it: the \<open>print\<close> members and the
  stream operators for enumerations and locations. A tabulator is \<open>CHR 0x09\<close>. Several \<open>print\<close>
  members are not implemented and end the program.
\<close>

definition tab :: string where "tab = [CHR 0x09]"

definition show_size :: "u64 \<Rightarrow> string" where "show_size n = show_nat (unat n)"

definition zeros :: "nat \<Rightarrow> string \<Rightarrow> string" where
  "zeros n s = replicate (n - length s) (CHR ''0'') @ s"

definition ip_to_string :: "u64 \<Rightarrow> string" where
  "ip_to_string ip = ''0x'' @ zeros 8 (show_hex (unat ip))"

fun loc_to_string :: "ident \<Rightarrow> string" where
  "loc_to_string (Offset ip) = ip_to_string ip"
| "loc_to_string (Name n) = n"

fun show_binop :: "binop_kind \<Rightarrow> string" where
  "show_binop Add = ''+''"
| "show_binop Sub = ''-''"
| "show_binop Mul = ''*''"
| "show_binop Div = ''/''"
| "show_binop Rem = ''%''"
| "show_binop LessThan = ''<''"
| "show_binop LessEqual = ''<=''"
| "show_binop GreaterThan = ''>''"
| "show_binop GreaterEqual = ''>=''"
| "show_binop Equal = ''==''"
| "show_binop NotEqual = ''!=''"
| "show_binop And = ''&&''"
| "show_binop Or = ''||''"
| "show_binop (UnknownBinop l) = []"

fun show_pattern :: "patt_kind \<Rightarrow> string" where
  "show_pattern PString = ''=str''"
| "show_pattern StringTag = ''#string''"
| "show_pattern ArrayTag = ''#array''"
| "show_pattern SExpTag = ''#sexp''"
| "show_pattern Boxed = ''#ref''"
| "show_pattern Unboxed = ''#val''"
| "show_pattern ClosureTag = ''#fun''"
| "show_pattern (UnknownPattern l) = []"

fun show_location :: "location \<Rightarrow> string" where
  "show_location Global = ''G''"
| "show_location Local = ''L''"
| "show_location Arg = ''A''"
| "show_location Captured = ''C''"
| "show_location (UnknownLocation l) = []"

definition show_entry :: "location_entry \<Rightarrow> string" where
  "show_entry e = show_location (kind e) @ ''('' @ show_int (sint (index e)) @ '')''"

definition not_implemented :: stop where "not_implemented = Failure ''Not implemented yet''"

fun print_inst :: "instr \<Rightarrow> string res" where
  "print_inst (Const v) =
     (if v AND 1 = 0 then Inl AssertFailed
      else Inr (''CONST'' @ tab @ show_int (sint (signed_drop_bit 1 v))))"
| "print_inst (String ind str) = Inr (''STRING'' @ tab @ str)"
| "print_inst (SExpression n s) = Inr (''SEXP'' @ tab @ n @ '' '' @ show_size s)"
| "print_inst StoreStack = Inl not_implemented"
| "print_inst StoreArray = Inr ''STA''"
| "print_inst (Jump t) = Inr (''JMP'' @ tab @ ip_to_string t)"
| "print_inst (ConditionalJump t z) =
     Inr (''CJMP'' @ (if z then ''z'' else ''nz'') @ tab @ ip_to_string t)"
| "print_inst Return = Inl not_implemented"
| "print_inst Drop = Inr ''DROP''"
| "print_inst Duplicate = Inr ''DUP''"
| "print_inst Swap = Inl not_implemented"
| "print_inst Elem = Inr ''ELEM''"
| "print_inst (Closure off es) = Inr (''CLOSURE'' @ tab @ ip_to_string off @ concat (map show_entry es))"
| "print_inst (CBegin off argc locc) = Inr (''CBEGIN'' @ tab @ show_size argc @ '' '' @ show_size locc)"
| "print_inst (Begin i argc locc) =
     Inr (''BEGIN'' @ tab @ show_size argc @ '' '' @ show_size locc @
       (case i of Name n \<Rightarrow> tab @ ''# '' @ n | Offset off \<Rightarrow> []))"
| "print_inst End = Inr ''END''"
| "print_inst (CallClosure argc) = Inr (''CALLC'' @ tab @ show_size argc)"
| "print_inst (Tag t s) = Inr (''TAG'' @ tab @ t @ '' '' @ show_size s)"
| "print_inst (Array s) = Inr (''ARRAY'' @ tab @ show_size s)"
| "print_inst (Fail l c) = Inr (''FAIL'' @ tab @ show_size l @ '':'' @ show_size c)"
| "print_inst (Line l) = Inr (''LINE'' @ tab @ show_size l)"
| "print_inst (Load e) = Inr (''LD'' @ tab @ show_entry e)"
| "print_inst (LoadArray i l) = Inl not_implemented"
| "print_inst (Store e) = Inr (''ST'' @ tab @ show_entry e)"
| "print_inst (PatternInst p) = Inr (''PATT'' @ tab @ show_pattern p)"
| "print_inst BuiltinRead = Inr (''CALL'' @ tab @ ''Lread'')"
| "print_inst BuiltinWrite = Inr (''CALL'' @ tab @ ''Lwrite'')"
| "print_inst BuiltinLength = Inr (''CALL'' @ tab @ ''Llength'')"
| "print_inst BuiltinString = Inr (''CALL'' @ tab @ ''Lstring'')"
| "print_inst (BuiltinArray n) = Inr (''CALL'' @ tab @ ''Barray'' @ tab @ show_size n)"
| "print_inst (Call c argc) = Inr (''CALL'' @ tab @ loc_to_string c @ '' '' @ show_size argc)"
| "print_inst (Binop op) = Inr (''BINOP'' @ tab @ show_binop op)"

end
