(* ===== verification/Comp_Tag_Hash.thy ===== *)
theory Comp_Tag_Hash
  imports Tag_Hash
begin

text \<open>
  The copy of the tag hash that is linked into the compiler (\<open>comp/src/runtime.cpp\<close>): tags are
  hashed at compile time here and compared at run time with hashes of \<open>runtime/runtime.c\<close>, so the
  two must agree. A failed hash ends the compilation (\<open>LOG(FATAL)\<close>).
\<close>

fun comp_tag_hash_loop :: "string \<Rightarrow> nat \<Rightarrow> u64 \<Rightarrow> u64 res" where
  "comp_tag_hash_loop [] limit h = Inr h"
| "comp_tag_hash_loop (c # p) limit h =
     (if limit < 10
      then case find_pos c chars 0 of
             Some pos \<Rightarrow> comp_tag_hash_loop p (limit + 1) (push_bit 6 h OR of_nat pos)
           | None \<Rightarrow> Inl (Failure (''tagHash: character not found: '' @ [c]))
      else Inr h)"

definition comp_de_hash :: "u64 \<Rightarrow> string option" where
  "comp_de_hash n = de_hash_loop 10 n []"

definition comp_LtagHash :: "string \<Rightarrow> u64 res" where
  "comp_LtagHash s = bindR (comp_tag_hash_loop s 0 0) (\<lambda>h.
     case comp_de_hash h of
       None \<Rightarrow> Inl Undefined
     | Some t \<Rightarrow> if \<not> strncmp_eq s t 10 then Inl (Failure (s @ '' <-> '' @ t)) else Inr (2 * h + 1))"

lemma comp_tag_hash_loop_eq: "comp_tag_hash_loop s limit h = tag_hash_loop s limit h"
  by (induction s limit h rule: comp_tag_hash_loop.induct) (auto simp: MAX_SEXP_TAGLEN_def simp del: find_pos_None split: option.splits)

lemma comp_LtagHash_eq: "comp_LtagHash s = LtagHash s"
  unfolding comp_LtagHash_def LtagHash_def comp_tag_hash_loop_eq comp_de_hash_def de_hash_def BOX_eq MAX_SEXP_TAGLEN_def
  by (rule refl)

end
