(* ===== verification/Compiler.thy ===== *)
theory Compiler
  imports Code_Buffer Print_Inst Comp_Tag_Hash
begin

text \<open>
  The code generator: the class \<open>Compiler\<close> of \<open>comp/include/compiler.h\<close> and the members
  \<open>emit_code\<close> of \<open>comp/src/emit.cpp\<close> and \<open>comp/include/instructions.h\<close>. The maps \<open>done_at\<close>
  and \<open>todo\<close> are association lists; \<open>out\<close> holds the lines written so far. The checks
  \<open>DCHECK\<close> are in force, as in the debug build.
\<close>

record frame_info =
  function_name :: string
  locals_count :: u64
  args_count :: u64

record compiler =
  filename :: string
  current_frame :: "frame_info option"
  st_top :: nat
  out :: "asm list"
  strs :: "string list"
  globals_count :: u64
  done_at :: "(u64 \<times> nat) list"
  todo :: "(u64 \<times> nat) list"

definition emits :: "asm list \<Rightarrow> compiler \<Rightarrow> compiler" where
  "emits cs c = c\<lparr>out := out c @ cs\<rparr>"

text \<open>The code an instruction adds to the output.\<close>

definition new_code :: "compiler \<Rightarrow> compiler \<Rightarrow> asm list" where
  "new_code c c' = drop (length (out c)) (out c')"

lemma new_code_emits [simp]:
  "new_code c (emits cs c) = cs" "new_code c ((emits cs c)\<lparr>st_top := n\<rparr>) = cs" "new_code c (c\<lparr>st_top := n\<rparr>) = []"
  by (simp_all add: new_code_def emits_def)

definition hex_prefixed :: "u64 \<Rightarrow> string" where "hex_prefixed n = ''0x'' @ show_hex (unat n)"

definition label_for_ip :: "u64 \<Rightarrow> string" where
  "label_for_ip ip = ''.lbc_'' @ hex_prefixed ip"

section \<open>Stack heights\<close>

definition add_jump_target :: "u64 \<Rightarrow> nat \<Rightarrow> compiler \<Rightarrow> compiler res" where
  "add_jump_target offset stack_height c =
     (case map_of (done_at c) offset of
       None \<Rightarrow>
         let c = emits (emit_comment (''Expectings stack height '' @ show_nat stack_height @ '' at '' @ hex_prefixed offset)) c
         in (case map_of (todo c) offset of
              None \<Rightarrow> Inr (c\<lparr>todo := todo c @ [(offset, stack_height)]\<rparr>)
            | Some h \<Rightarrow> if h = stack_height then Inr c else Inl AssertFailed)
     | Some h \<Rightarrow> if h = stack_height then Inr c else Inl AssertFailed)"

definition inst_begin :: "u64 \<Rightarrow> compiler \<Rightarrow> compiler res" where
  "inst_begin offset c =
     (case map_of (done_at c) offset of
       None \<Rightarrow> Inr (emits (emit_label (label_for_ip offset)) (c\<lparr>done_at := done_at c @ [(offset, st_top c)]\<rparr>))
     | Some h \<Rightarrow> if h = st_top c then Inr (emits (emit_comment (label_for_ip offset)) c) else Inl AssertFailed)"

definition should_emit :: "u64 \<Rightarrow> compiler \<Rightarrow> bool res" where
  "should_emit offset c =
     (case map_of (done_at c) offset of
       None \<Rightarrow> Inr True
     | Some h \<Rightarrow> if h = st_top c then Inr False else Inl AssertFailed)"

section \<open>The symbolic stack of the compiler\<close>

definition c_alloc :: "compiler \<Rightarrow> loc \<times> compiler" where
  "c_alloc c = (let (l, t) = alloc_loc (st_top c) in (l, c\<lparr>st_top := t\<rparr>))"

definition c_pop :: "compiler \<Rightarrow> (loc \<times> compiler) res" where
  "c_pop c = bindR (pop_loc (st_top c)) (\<lambda>(l, t). Inr (l, c\<lparr>st_top := t\<rparr>))"

definition c_push :: "loc \<Rightarrow> compiler \<Rightarrow> compiler" where
  "c_push l c = c\<lparr>st_top := push_loc l (st_top c)\<rparr>"

section \<open>Calls\<close>

text \<open>The loop over the registers of the arguments, from the last one down.\<close>

fun move_args :: "nat list \<Rightarrow> compiler \<Rightarrow> compiler res" where
  "move_args [] c = Inr c"
| "move_args (i # is) c =
     bindR (arg_reg (of_nat i)) (\<lambda>r. bindR (c_pop c) (\<lambda>(l, c). move_args is (emits (symb_emit_mv_to r l) c)))"

text \<open>The loop over the arguments that do not fit into registers.\<close>

fun push_args :: "nat \<Rightarrow> compiler \<Rightarrow> compiler res" where
  "push_args 0 c = Inr c"
| "push_args (Suc n) c =
     bindR (c_pop c) (\<lambda>(l, c). let (cs, r) = to_reg l temp1 in
       push_args n (emits (cs @ emit_sd r sp (- WORD_SIZE) @ emit_addi sp sp (- WORD_SIZE)) c))"

definition save_regs :: "nat list \<Rightarrow> asm list" where
  "save_regs rs = apply_regs rs (\<lambda>r i. emit_sd r sp (- WORD_SIZE) @ emit_addi sp sp (- WORD_SIZE))"

definition restore_args :: "asm list" where
  "restore_args = concat (map (\<lambda>i. emit_ld (10 + i) sp 0 @ emit_addi sp sp WORD_SIZE) (rev [0..<8]))"

definition restore_temps :: "asm list" where
  "restore_temps = emit_addi sp sp (8 * WORD_SIZE) @ apply_regs temp_regs (\<lambda>r i. emit_ld r sp (- of_nat (i + 1) * WORD_SIZE))"

text \<open>
  \<open>compile_call\<close> in four parts: the code before the arguments are popped, the label of the callee,
  the code after the call, and their composition with the two loops above.
\<close>

definition call_prologue :: "nat \<Rightarrow> u64 option \<Rightarrow> asm list" where
  "call_prologue spilled opt_arg =
     emit_addi sp sp (- of_nat spilled * WORD_SIZE)
     @ emit_sd ra sp (- WORD_SIZE) @ emit_addi sp sp (- WORD_SIZE)
     @ save_regs temp_regs
     @ save_regs arg_regs
     @ (case opt_arg of None \<Rightarrow> [] | Some v \<Rightarrow> emit_li 10 v)"

definition call_label :: "ident \<Rightarrow> compiler \<Rightarrow> (string \<times> compiler) res" where
  "call_label callee c = (case callee of
     Name n \<Rightarrow> Inr (n, c)
   | Offset off \<Rightarrow> bindR (add_jump_target off 0 c) (\<lambda>c. Inr (label_for_ip off, c)))"

definition call_epilogue :: "u64 \<Rightarrow> u64 \<Rightarrow> compiler \<Rightarrow> compiler" where
  "call_epilogue argc alignment c =
     (let c = emits (if argc > 8 then emit_addi sp sp ((argc - 8) * WORD_SIZE) else []) c;
          c = emits (if alignment \<noteq> 0 then emit_addi sp sp WORD_SIZE else []) c;
          (l, c) = c_alloc c
      in emits (symb_emit_mv_from l 10 @ restore_args @ restore_temps @ emit_ld ra sp (- WORD_SIZE)
           @ emit_addi sp sp (of_nat (spilled_count (st_top c)) * WORD_SIZE)) c)"

definition compile_call :: "ident \<Rightarrow> u64 \<Rightarrow> u64 option \<Rightarrow> compiler \<Rightarrow> compiler res" where
  "compile_call callee argc opt_arg c = (case current_frame c of
     None \<Rightarrow> Inl Undefined
   | Some fr \<Rightarrow>
     let add_arg = (if opt_arg = None then 0 else 1);
         argc = argc + of_nat add_arg;
         spilled = spilled_count (st_top c);
         alignment = (locals_count fr + of_nat spilled + (if argc > 8 then argc - 8 else 0)) AND 1
     in bindR (move_args (rev (take (8 - add_arg) [add_arg..<unat argc])) (emits (call_prologue spilled opt_arg) c)) (\<lambda>c.
        bindR (push_args (unat argc - 8) (emits (if alignment \<noteq> 0 then emit_addi sp sp (- WORD_SIZE) else []) c)) (\<lambda>c.
        bindR (call_label callee c) (\<lambda>(n, c).
          Inr (call_epilogue argc alignment (emits (emit_call n) c))))))"

section \<open>Header and entry of the program\<close>

definition nl :: string where "nl = [CHR 0x0A]"
definition dquote :: string where "dquote = [CHR 0x22]"

definition string_tab :: "string list \<Rightarrow> string" where
  "string_tab ss = concat (map (\<lambda>(i, s). ''string_'' @ show_nat i @ '': .asciz '' @ dquote @ s @ dquote @ nl)
     (zip [0..<length ss] ss))"

definition header :: "compiler \<Rightarrow> compiler" where
  "header c = emits [Raw (
     ''.section .rodata'' @ nl @
     ''.section custom_data,'' @ dquote @ ''aw'' @ dquote @ '',@progbits'' @ nl @
     ''.fill 128, 8, 1'' @ nl @
     ''.data'' @ nl @
     ''globals:'' @ nl @
     ''.fill '' @ show_size (globals_count c) @ '', 8, 0'' @ nl @
     ''.align 8'' @ nl @
     ''fname: .asciz '' @ dquote @ filename c @ dquote @ nl @
     string_tab (strs c) @ nl @
     ''.text'' @ nl @
     ''.global main'')] c"

definition premain :: string where
  "premain = nl @ ''sd fp, __gc_stack_bottom, t0'' @ nl @ ''la t0, globals''"

definition postmain :: string where
  "postmain = ''srai a0, a0, 1''"

section \<open>The instructions\<close>

definition TODO :: "'a res" where
  "TODO = Inl (Failure (''Not implemented yet'' @ tab))"

definition symb_emit_binop :: "binop_kind \<Rightarrow> loc \<Rightarrow> loc \<Rightarrow> loc \<Rightarrow> asm list" where
  "symb_emit_binop op dst a b = (case op of
     Add \<Rightarrow> symb_emit_r ADD dst a b
   | Sub \<Rightarrow> symb_emit_r SUB dst a b
   | Mul \<Rightarrow> symb_emit_r MUL dst a b
   | Div \<Rightarrow> symb_emit_r DIV_INSN dst a b
   | LessThan \<Rightarrow> symb_emit_r SLT dst a b
   | LessEqual \<Rightarrow> symb_emit_sle dst a b
   | And \<Rightarrow> symb_emit_r AND_INSN dst a b
   | Or \<Rightarrow> symb_emit_r OR_INSN dst a b
   | Rem \<Rightarrow> symb_emit_r REM_INSN dst a b
   | GreaterThan \<Rightarrow> symb_emit_r SGT dst a b
   | GreaterEqual \<Rightarrow> symb_emit_sge dst a b
   | Equal \<Rightarrow> symb_emit_eq dst a b
   | NotEqual \<Rightarrow> symb_emit_neq dst a b
   | UnknownBinop l \<Rightarrow> [])"

definition emit_Const :: "i32 \<Rightarrow> compiler \<Rightarrow> compiler res" where
  "emit_Const v c =
     (let (l, c) = c_alloc c in case l of
        Memory n \<Rightarrow> Inr (emits ([Li temp1 (sint v)] @ emit_sd temp1 fp (slot_off n)) c)
      | Register n \<Rightarrow> Inr (emits [Li n (sint v)] c))"

definition emit_String :: "u64 \<Rightarrow> compiler \<Rightarrow> compiler res" where
  "emit_String ind c =
     (let (l, c) = c_alloc c in
      compile_call (Name ''RVBstring'') 1 None (emits (symb_emit_la l (''string_'' @ show_size ind)) c))"

text \<open>\<open>BOX(_size + 1)\<close> expands to \<open>(2 * _size + 1 + 1)\<close>.\<close>

definition emit_SExpression :: "string \<Rightarrow> u64 \<Rightarrow> compiler \<Rightarrow> compiler res" where
  "emit_SExpression n s c =
     bindR (comp_LtagHash n) (\<lambda>h.
       let (l, c) = c_alloc c in
       compile_call (Name ''RVBsexp'') (s + 1) (Some (2 * s + 1 + 1)) (emits (symb_emit_li l h) c))"

definition emit_StoreStack :: "compiler \<Rightarrow> compiler res" where
  "emit_StoreStack c =
     bindR (c_pop c) (\<lambda>(value_loc, c). bindR (c_pop c) (\<lambda>(ptr_loc, c).
       Inr (emits (symb_emit_s SD value_loc ptr_loc 0) (c_push value_loc c))))"

definition emit_Jump :: "u64 \<Rightarrow> compiler \<Rightarrow> compiler res" where
  "emit_Jump target c = add_jump_target target (st_top c) (emits (emit_j (label_for_ip target)) c)"

definition emit_ConditionalJump :: "u64 \<Rightarrow> bool \<Rightarrow> compiler \<Rightarrow> compiler res" where
  "emit_ConditionalJump target z c =
     bindR (c_pop c) (\<lambda>(l, c). let (cs, reg) = to_reg l temp1 in
       add_jump_target target (st_top c)
         (emits (cs @ emit_srai reg reg 1 @ emit_cj z reg zero_reg (label_for_ip target)) c))"

text \<open>
  \<open>symb_emit_mv(c->st.alloc(), c->st.peek())\<close>: the order in which the two arguments are evaluated
  is not specified by C++; \<open>alloc_first\<close> is the choice of the compiler that builds the program.
\<close>

definition emit_Duplicate :: "bool \<Rightarrow> compiler \<Rightarrow> compiler res" where
  "emit_Duplicate alloc_first c =
     (if alloc_first
      then let (l, c) = c_alloc c in
           bindR (peek_loc (st_top c)) (\<lambda>p. Inr (emits (symb_emit_mv l p) c))
      else bindR (peek_loc (st_top c)) (\<lambda>p.
           let (l, c) = c_alloc c in Inr (emits (symb_emit_mv l p) c)))"

definition emit_Drop :: "compiler \<Rightarrow> compiler res" where
  "emit_Drop c = bindR (c_pop c) (\<lambda>(l, c). Inr c)"

definition emit_Swap :: "compiler \<Rightarrow> compiler res" where
  "emit_Swap c =
     bindR (c_pop c) (\<lambda>(a, c). bindR (peek_loc (st_top c)) (\<lambda>b.
       Inr (c_push a (emits (symb_emit_mv_to temp1 a @ symb_emit_mv a b @ symb_emit_mv_from b temp1) c))))"

definition emit_Begin :: "ident \<Rightarrow> u64 \<Rightarrow> u64 \<Rightarrow> compiler \<Rightarrow> compiler res" where
  "emit_Begin i argc locc c =
     (let (name, c) = (case i of Offset off \<Rightarrow> (label_for_ip off, c) | Name n \<Rightarrow> (n, emits (emit_label n) c));
          c = c\<lparr>current_frame := Some \<lparr>function_name = name, locals_count = locc, args_count = argc\<rparr>\<rparr>
      in bindR (if name = ''main'' then compile_call (Name ''__init'') 0 None (emits [Raw premain] c) else Inr c) (\<lambda>c.
         Inr (emits (apply_regs saved_regs (\<lambda>r i. emit_sd r sp (- (of_nat i + locc) * WORD_SIZE))
                @ emit_mv fp sp
                @ emit_addi sp sp (- (locc + 12) * WORD_SIZE)) c)))"

definition emit_CBegin :: "u64 \<Rightarrow> u64 \<Rightarrow> u64 \<Rightarrow> compiler \<Rightarrow> compiler res" where
  "emit_CBegin offset argc locc c = emit_Begin (Name (''closure@'' @ ip_to_string offset)) argc locc c"

definition emit_End :: "compiler \<Rightarrow> compiler res" where
  "emit_End c = (case current_frame c of
     None \<Rightarrow> Inl AssertFailed
   | Some fr \<Rightarrow> bindR (c_pop c) (\<lambda>(l, c).
       Inr (emits (symb_emit_mv_to 10 l
              @ emit_mv sp fp
              @ apply_regs saved_regs (\<lambda>r i. emit_ld r sp (- (of_nat i + locals_count fr) * WORD_SIZE))
              @ (if function_name fr = ''main'' then [Raw postmain] else [])
              @ emit_ret) c)))"

definition emit_Tag :: "string \<Rightarrow> u64 \<Rightarrow> compiler \<Rightarrow> compiler res" where
  "emit_Tag t s c =
     (let (l, c) = c_alloc c in bindR (comp_LtagHash t) (\<lambda>h.
      let c = emits (symb_emit_li l h) c;
          (l, c) = c_alloc c;
          c = emits (symb_emit_li l (2 * s + 1)) c
      in compile_call (Name ''Btag'') 3 None c))"

definition emit_Fail :: "u64 \<Rightarrow> u64 \<Rightarrow> compiler \<Rightarrow> compiler res" where
  "emit_Fail line col c =
     (let (l, c) = c_alloc c; c = emits (symb_emit_la l ''fname'') c;
          (l, c) = c_alloc c; c = emits (symb_emit_li l (2 * line + 1)) c;
          (l, c) = c_alloc c; c = emits (symb_emit_li l (2 * col + 1)) c
      in compile_call (Name ''Bmatch_failure'') 4 None c)"

text \<open>Offsets of a location: \<open>index * WORD_SIZE\<close> is an \<open>int\<close> product.\<close>

definition entry_off :: "i32 \<Rightarrow> int" where "entry_off i = sint (i * 8)"

definition emit_Load :: "location_entry \<Rightarrow> compiler \<Rightarrow> compiler res" where
  "emit_Load e c = (case kind e of
     Global \<Rightarrow>
       if \<not> size_of_int (index e) < globals_count c then Inl AssertFailed
       else let (l, c) = c_alloc c in Inr (emits (symb_emit_s LD l (Register gp) (entry_off (index e))) c)
   | Local \<Rightarrow> (case current_frame c of None \<Rightarrow> Inl Undefined | Some fr \<Rightarrow>
       if \<not> size_of_int (index e) < locals_count fr then Inl AssertFailed
       else let (l, c) = c_alloc c in Inr (emits (symb_emit_s LD l (Register fp) (entry_off (- index e))) c))
   | Arg \<Rightarrow> (case current_frame c of None \<Rightarrow> Inl Undefined | Some fr \<Rightarrow>
       if \<not> size_of_int (index e) < args_count fr then Inl AssertFailed
       else if index e <s 8
       then let (l, c) = c_alloc c in
            bindR (arg_reg (size_of_int (index e))) (\<lambda>r. Inr (emits (symb_emit_mv_from l r) c))
       else let (l, c) = c_alloc c in
            Inr (emits (symb_emit_s LD l (Register fp) (imm (size_of_int (index e) - 8))) c))
   | Captured \<Rightarrow> TODO
   | UnknownLocation n \<Rightarrow> Inr c)"

definition emit_Store :: "location_entry \<Rightarrow> compiler \<Rightarrow> compiler res" where
  "emit_Store e c = bindR (peek_loc (st_top c)) (\<lambda>v. case kind e of
     Global \<Rightarrow> Inr (emits (symb_emit_s SD v (Register gp) (entry_off (index e))) c)
   | Local \<Rightarrow> Inr (emits (symb_emit_s SD v (Register fp) (entry_off (- index e))) c)
   | Arg \<Rightarrow>
       if index e <s 8
       then bindR (arg_reg (size_of_int (index e))) (\<lambda>r. Inr (emits (symb_emit_mv_from v r) c))
       else Inr (emits (symb_emit_s SD v (Register fp) (entry_off (index e - 8))) c)
   | Captured \<Rightarrow> TODO
   | UnknownLocation n \<Rightarrow> Inr c)"

definition emit_Binop :: "binop_kind \<Rightarrow> compiler \<Rightarrow> compiler res" where
  "emit_Binop op c =
     bindR (c_pop c) (\<lambda>(second_loc, c). bindR (c_pop c) (\<lambda>(first_loc, c).
       let (dest_loc, c) = c_alloc c
       in Inr (emits (symb_emit_i SRAI first_loc first_loc 1
                @ symb_emit_i SRAI second_loc second_loc 1
                @ symb_emit_binop op dest_loc first_loc second_loc
                @ symb_emit_i SLLI dest_loc dest_loc 1
                @ symb_emit_i ADDI dest_loc dest_loc 1) c)))"

fun emit_code :: "bool \<Rightarrow> instr \<Rightarrow> compiler \<Rightarrow> compiler res" where
  "emit_code af (Const v) c = emit_Const v c"
| "emit_code af (String ind str) c = emit_String ind c"
| "emit_code af (SExpression n s) c = emit_SExpression n s c"
| "emit_code af StoreStack c = emit_StoreStack c"
| "emit_code af StoreArray c = compile_call (Name ''Bsta'') 3 None c"
| "emit_code af (Jump t) c = emit_Jump t c"
| "emit_code af (ConditionalJump t z) c = emit_ConditionalJump t z c"
| "emit_code af Return c = TODO"
| "emit_code af Drop c = emit_Drop c"
| "emit_code af Duplicate c = emit_Duplicate af c"
| "emit_code af Swap c = emit_Swap c"
| "emit_code af Elem c = compile_call (Name ''Belem'') 2 None c"
| "emit_code af (Closure off es) c = TODO"
| "emit_code af (CBegin off argc locc) c = emit_CBegin off argc locc c"
| "emit_code af (Begin i argc locc) c = emit_Begin i argc locc c"
| "emit_code af End c = emit_End c"
| "emit_code af (CallClosure argc) c = TODO"
| "emit_code af (Call f argc) c = compile_call f argc None c"
| "emit_code af (Tag t s) c = emit_Tag t s c"
| "emit_code af (Array s) c = TODO"
| "emit_code af (Fail line col) c = emit_Fail line col c"
| "emit_code af (Line l) c = Inr (emits (emit_comment (''LINE '' @ show_size l)) c)"
| "emit_code af (Binop op) c = emit_Binop op c"
| "emit_code af (Load e) c = emit_Load e c"
| "emit_code af (LoadArray i l) c = TODO"
| "emit_code af (Store e) c = emit_Store e c"
| "emit_code af (PatternInst p) c = TODO"
| "emit_code af BuiltinRead c = compile_call (Name ''Lread'') 0 None c"
| "emit_code af BuiltinWrite c = compile_call (Name ''Lwrite'') 1 None c"
| "emit_code af BuiltinLength c = compile_call (Name ''Llength'') 1 None c"
| "emit_code af BuiltinString c = compile_call (Name ''RVLstring'') 1 None c"
| "emit_code af (BuiltinArray n) c = compile_call (Name ''RVBarray'') n (Some (2 * n + 1)) c"

end
