(* ===== verification/Machine.thy ===== *)
theory Machine
  imports Compiler Memory "HOL-Library.Signed_Division"
begin

text \<open>
  The machine the emitted code runs on: the part of RV64IM the compiler uses, as the unprivileged
  ISA manual and the assembler's pseudo-instructions define it, on straight-line code. Register 0
  reads as zero. A call runs a function \<open>ext\<close> of the callee's name; \<open>lab\<close> gives the addresses
  of labels. Code that the assembler rejects (an immediate that does not fit), that transfers
  control or that is raw text has no result here.
\<close>

record cpu =
  xregs :: "nat \<Rightarrow> u64"
  cmem :: mem

definition rd :: "cpu \<Rightarrow> nat \<Rightarrow> u64" where
  "rd s r = (if r = 0 then 0 else xregs s r)"

definition wr :: "nat \<Rightarrow> u64 \<Rightarrow> cpu \<Rightarrow> cpu" where
  "wr r v s = (if r = 0 then s else s\<lparr>xregs := (xregs s)(r := v)\<rparr>)"

fun alu :: "rop \<Rightarrow> u64 \<Rightarrow> u64 \<Rightarrow> u64" where
  "alu ADD a b = a + b"
| "alu SUB a b = a - b"
| "alu SLT a b = of_bool (a <s b)"
| "alu SGT a b = of_bool (b <s a)"
| "alu OR_INSN a b = a OR b"
| "alu AND_INSN a b = a AND b"
| "alu SRL a b = drop_bit (unat (b AND 63)) a"
| "alu SRA a b = signed_drop_bit (unat (b AND 63)) a"
| "alu SLL a b = push_bit (unat (b AND 63)) a"
| "alu MUL a b = a * b"
| "alu DIV_INSN a b = (if b = 0 then - 1 else word_of_int (sint a sdiv sint b))"
| "alu REM_INSN a b = (if b = 0 then a else word_of_int (sint a smod sint b))"

definition imm12 :: "int \<Rightarrow> bool" where "imm12 n \<longleftrightarrow> - 2048 \<le> n \<and> n < 2048"
definition shamt :: "int \<Rightarrow> bool" where "shamt n \<longleftrightarrow> 0 \<le> n \<and> n < 64"

fun alui :: "iop \<Rightarrow> u64 \<Rightarrow> int \<Rightarrow> u64 option" where
  "alui ADDI a n = (if imm12 n then Some (a + word_of_int n) else None)"
| "alui SLTI a n = (if imm12 n then Some (of_bool (a <s word_of_int n)) else None)"
| "alui SRAI a n = (if shamt n then Some (signed_drop_bit (nat n) a) else None)"
| "alui SLLI a n = (if shamt n then Some (push_bit (nat n) a) else None)"
| "alui ORI a n = (if imm12 n then Some (a OR word_of_int n) else None)"
| "alui XORI a n = (if imm12 n then Some (a XOR word_of_int n) else None)"
| "alui ANDI a n = (if imm12 n then Some (a AND word_of_int n) else None)"

definition ea :: "cpu \<Rightarrow> nat \<Rightarrow> int \<Rightarrow> addr" where
  "ea s b n = unat (rd s b + word_of_int n)"

fun exec1 :: "(string \<Rightarrow> u64) \<Rightarrow> (string \<Rightarrow> cpu \<Rightarrow> cpu option) \<Rightarrow> asm \<Rightarrow> cpu \<Rightarrow> cpu option" where
  "exec1 lab ext (R_type i d a b) s = Some (wr d (alu i (rd s a) (rd s b)) s)"
| "exec1 lab ext (I_type i d a n) s = map_option (\<lambda>v. wr d v s) (alui i (rd s a) n)"
| "exec1 lab ext (S_type LD d b n) s = (if imm12 n then Some (wr d (ld64 (cmem s) (ea s b n)) s) else None)"
| "exec1 lab ext (S_type SD d b n) s = (if imm12 n then Some (s\<lparr>cmem := st64 (cmem s) (ea s b n) (rd s d)\<rparr>) else None)"
| "exec1 lab ext (Li d n) s = Some (wr d (word_of_int n) s)"
| "exec1 lab ext (Pseudo SEQZ d a) s = Some (wr d (of_bool (rd s a = 0)) s)"
| "exec1 lab ext (Pseudo SNEZ d a) s = Some (wr d (of_bool (rd s a \<noteq> 0)) s)"
| "exec1 lab ext (Mv d a) s = Some (wr d (rd s a) s)"
| "exec1 lab ext (La d l) s = Some (wr d (lab l) s)"
| "exec1 lab ext (CallInsn l) s = ext l s"
| "exec1 lab ext (Label l) s = Some s"
| "exec1 lab ext (Comment l) s = Some s"
| "exec1 lab ext Ret s = None"
| "exec1 lab ext (J l) s = None"
| "exec1 lab ext (Cj e a b l) s = None"
| "exec1 lab ext (Raw l) s = None"

fun exec :: "(string \<Rightarrow> u64) \<Rightarrow> (string \<Rightarrow> cpu \<Rightarrow> cpu option) \<Rightarrow> asm list \<Rightarrow> cpu \<Rightarrow> cpu option" where
  "exec lab ext [] s = Some s"
| "exec lab ext (i # is) s = Option.bind (exec1 lab ext i s) (exec lab ext is)"

lemma exec_append: "exec lab ext (is @ js) s = Option.bind (exec lab ext is s) (exec lab ext js)"
  by (induction "is" arbitrary: s) (auto split: bind_splits)

lemma exec_appendI:
  "exec lab ext is s = Some t \<Longrightarrow> exec lab ext js t = Some u \<Longrightarrow> exec lab ext (is @ js) s = Some u"
  by (simp add: exec_append)

section \<open>Registers\<close>

lemma rd_wr [simp]: "rd (wr r v s) q = (if q = r \<and> r \<noteq> 0 then v else rd s q)"
  by (simp add: rd_def wr_def)

lemma cmem_wr [simp]: "cmem (wr r v s) = cmem s"
  by (simp add: wr_def)

lemma rd_zero [simp]: "rd s 0 = 0"
  by (simp add: rd_def)

lemma rd_cmem [simp]: "rd (s\<lparr>cmem := m\<rparr>) q = rd s q"
  by (simp add: rd_def)

lemma ea_cmem [simp]: "ea (s\<lparr>cmem := m\<rparr>) b n = ea s b n"
  by (simp add: ea_def)

lemma ea_wr [simp]: "ea (wr r v s) b n = (if b = r \<and> r \<noteq> 0 then unat (v + word_of_int n) else ea s b n)"
  by (simp add: ea_def)

end
