(* ===== verification/Driver.thy ===== *)
theory Driver
  imports Compiler
begin

text \<open>
  The loop of the compiler, \<open>emit\<close> of \<open>comp/src/lama_rv.cpp\<close>: code is generated from the
  public symbols on, following jumps and calls, in runs that end at a terminator. A program is the
  list of its instructions with their offsets in increasing order (the \<open>std::map\<close>).
\<close>

type_synonym program = "(u64 \<times> instr) list"

text \<open>\<open>instructions.find(start)\<close>: the rest of the map from the instruction at \<open>start\<close>.\<close>

fun find_from :: "u64 \<Rightarrow> program \<Rightarrow> program" where
  "find_from start [] = []"
| "find_from start ((off, i) # is) = (if off = start then (off, i) # is else find_from start is)"

fun emit_run :: "bool \<Rightarrow> program \<Rightarrow> compiler \<Rightarrow> compiler res" where
  "emit_run af [] c = Inr c"
| "emit_run af ((offset, inst) # is) c =
     bindR (inst_begin offset c) (\<lambda>c.
     bindR (print_inst inst) (\<lambda>disasm.
     bindR (emit_code af inst (emits (emit_comment (''-> '' @ disasm)) c)) (\<lambda>c.
       if is_terminator inst then Inr (emits (emit_comment ''============'') c)
       else emit_run af is c)))"

text \<open>One round of the outer loop, on the entry of \<open>todo\<close> it picks.\<close>

definition emit_round :: "bool \<Rightarrow> program \<Rightarrow> u64 \<times> nat \<Rightarrow> compiler \<Rightarrow> compiler res" where
  "emit_round af is entry c =
     (let (start, h) = entry; c = c\<lparr>st_top := h, todo := removeAll entry (todo c)\<rparr>
      in bindR (should_emit start c) (\<lambda>go.
           if \<not> go then Inr c else emit_run af (find_from start is) c))"

text \<open>
  The order of an \<open>unordered_map\<close> is not specified: \<open>begin_of\<close> is the element its
  \<open>begin()\<close> refers to.
\<close>

partial_function (option) emit_loop ::
  "bool \<Rightarrow> ((u64 \<times> nat) list \<Rightarrow> u64 \<times> nat) \<Rightarrow> program \<Rightarrow> compiler \<Rightarrow> compiler res option" where
  "emit_loop af begin_of is c =
     (if todo c = [] then Some (Inr c)
      else case emit_round af is (begin_of (todo c)) c of
             Inl e \<Rightarrow> Some (Inl e)
           | Inr c' \<Rightarrow> emit_loop af begin_of is c')"

declare emit_loop.simps [code]

fun add_entries :: "u64 list \<Rightarrow> compiler \<Rightarrow> compiler res" where
  "add_entries [] c = Inr c"
| "add_entries (off # offs) c = bindR (add_jump_target off 0 c) (add_entries offs)"

definition new_compiler :: "string \<Rightarrow> u64 \<Rightarrow> string list \<Rightarrow> compiler" where
  "new_compiler file globals strings =
     \<lparr>filename = file, current_frame = None, st_top = 0, out = [], strs = strings,
      globals_count = globals, done_at = [], todo = []\<rparr>"

definition emit_program ::
  "bool \<Rightarrow> ((u64 \<times> nat) list \<Rightarrow> u64 \<times> nat) \<Rightarrow> string \<Rightarrow> program \<Rightarrow> string list \<Rightarrow> u64 \<Rightarrow> u64 list
     \<Rightarrow> compiler res option" where
  "emit_program af begin_of file is strings globals publics =
     (if is = [] then Some (Inl (Failure ''Check failed: !instructions.empty() ''))
      else case add_entries publics (header (new_compiler file globals strings)) of
             Inl e \<Rightarrow> Some (Inl e)
           | Inr c \<Rightarrow> emit_loop af begin_of is c)"

end
