(* ===== verification/Driver_Correct.thy ===== *)
theory Driver_Correct
  imports Driver
begin

text \<open>
  The correctness of the code-generation loop: every instruction changes the symbolic stack by its
  stack effect; the loop terminates whatever order the map of pending targets has; and when it
  succeeds the recorded heights are consistent along all jumps, calls and fall-throughs.
\<close>

section \<open>Stack effects\<close>

fun pops :: "bool \<Rightarrow> instr \<Rightarrow> nat" where
  "pops af (SExpression n s) = unat s"
| "pops af StoreStack = 2"
| "pops af StoreArray = 3"
| "pops af (ConditionalJump t z) = 1"
| "pops af Drop = 1"
| "pops af Duplicate = (if af then 0 else 1)"
| "pops af Swap = 2"
| "pops af Elem = 2"
| "pops af End = 1"
| "pops af (Call f argc) = unat argc"
| "pops af (Tag t s) = 1"
| "pops af (Fail l c) = 1"
| "pops af (Binop op) = 2"
| "pops af (Store e) = 1"
| "pops af BuiltinWrite = 1"
| "pops af BuiltinLength = 1"
| "pops af BuiltinString = 1"
| "pops af (BuiltinArray n) = unat n"
| "pops af _ = 0"

fun pushes :: "bool \<Rightarrow> instr \<Rightarrow> nat" where
  "pushes af (Const v) = 1"
| "pushes af (String i s) = 1"
| "pushes af (SExpression n s) = 1"
| "pushes af StoreStack = 1"
| "pushes af StoreArray = 1"
| "pushes af Duplicate = (if af then 1 else 2)"
| "pushes af Swap = 2"
| "pushes af Elem = 1"
| "pushes af (CBegin off argc locc) = 0"
| "pushes af (Begin i argc locc) = (if i = Name ''main'' then 1 else 0)"
| "pushes af (Call f argc) = 1"
| "pushes af (Tag t s) = 1"
| "pushes af (Fail l c) = 1"
| "pushes af (Binop op) = 1"
| "pushes af (Load e) = (case kind e of UnknownLocation l \<Rightarrow> 0 | _ \<Rightarrow> 1)"
| "pushes af (Store e) = 1"
| "pushes af BuiltinRead = 1"
| "pushes af BuiltinWrite = 1"
| "pushes af BuiltinLength = 1"
| "pushes af BuiltinString = 1"
| "pushes af (BuiltinArray n) = 1"
| "pushes af _ = 0"

text \<open>Where control can go besides the next instruction, and with which height.\<close>

fun targets :: "instr \<Rightarrow> nat \<Rightarrow> (u64 \<times> nat) list" where
  "targets (Jump t) h = [(t, h)]"
| "targets (ConditionalJump t z) h = [(t, h - 1)]"
| "targets (Call (Offset off) argc) h = [(off, 0)]"
| "targets _ h = []"

text \<open>Sizes that come from a non-negative \<open>int\<close>.\<close>

fun wf_instr :: "instr \<Rightarrow> bool" where
  "wf_instr (SExpression n s) \<longleftrightarrow> unat s < 2 ^ 31"
| "wf_instr (BuiltinArray n) \<longleftrightarrow> unat n < 2 ^ 31"
| "wf_instr _ \<longleftrightarrow> True"

text \<open>The instructions that the compiler can both print and generate code for.\<close>

fun supported :: "instr \<Rightarrow> bool" where
  "supported StoreStack = False"
| "supported Return = False"
| "supported Swap = False"
| "supported (Closure off es) = False"
| "supported (CallClosure argc) = False"
| "supported (Array s) = False"
| "supported (Load e) \<longleftrightarrow> kind e \<noteq> Captured"
| "supported (LoadArray i l) = False"
| "supported (Store e) \<longleftrightarrow> kind e \<noteq> Captured"
| "supported (PatternInst p) = False"
| "supported _ = True"

lemma emitted_supported:
  assumes "print_inst i = Inr d" "emit_code af i c = Inr c'"
  shows "supported i"
  using assms
  by (cases i) (auto simp: not_implemented_def TODO_def emit_Load_def emit_Store_def bindR_def split: sum.splits)

section \<open>What emission changes\<close>

text \<open>The labels a piece of code jumps to.\<close>

definition refs :: "asm list \<Rightarrow> string set" where
  "refs cs = {l. J l \<in> set cs \<or> (\<exists>b r s. Cj b r s l \<in> set cs)}"

lemma refs_simps [simp]:
  "refs [] = {}" "refs (cs @ ds) = refs cs \<union> refs ds"
  "refs (R_type i d a b # cs) = refs cs" "refs (I_type j d a n # cs) = refs cs" "refs (S_type k d a n # cs) = refs cs"
  "refs (Li d n # cs) = refs cs" "refs (Pseudo p d a # cs) = refs cs" "refs (Mv d a # cs) = refs cs"
  "refs (La d l # cs) = refs cs" "refs (CallInsn l # cs) = refs cs" "refs (Ret # cs) = refs cs"
  "refs (Label l # cs) = refs cs" "refs (Comment l # cs) = refs cs" "refs (Raw l # cs) = refs cs"
  "refs (J l # cs) = insert l (refs cs)" "refs (Cj e r s l # cs) = insert l (refs cs)"
  by (auto simp: refs_def)

lemma refs_concat [simp]: "refs (concat css) = (\<Union>cs \<in> set css. refs cs)"
  by (induction css) auto

lemmas emit_defs = emit_addi_def emit_xori_def emit_srai_def emit_ld_def emit_sd_def emit_li_def emit_r_def
  emit_pseudo_def emit_mv_def emit_call_def emit_ret_def emit_label_def emit_comment_def emit_j_def emit_cj_def

lemma refs_to_reg [simp]: "refs (fst (to_reg l t)) = {}"
  by (cases l) (simp_all add: emit_defs)

lemma refs_symb [simp]:
  "refs (symb_emit_r i d a b) = {}" "refs (symb_emit_i j d a n) = {}" "refs (symb_emit_s k d a n) = {}"
  "refs (symb_emit_pseudo p d a) = {}" "refs (symb_emit_mv_to r a) = {}" "refs (symb_emit_mv_from d r) = {}"
  "refs (symb_emit_mv d a) = {}" "refs (symb_emit_la d l) = {}" "refs (symb_emit_li d w) = {}"
  using refs_to_reg
  by (auto simp: symb_emit_r_def symb_emit_i_def symb_emit_s_def symb_emit_pseudo_def symb_emit_mv_to_def
      symb_emit_mv_from_def symb_emit_mv_def symb_emit_la_def symb_emit_li_def emit_defs split: prod.splits loc.splits)
    (metis fst_conv refs_to_reg empty_iff)+


lemma refs_binop [simp]: "refs (symb_emit_binop op d a b) = {}"
  by (cases op) (simp_all add: symb_emit_binop_def symb_emit_eq_def symb_emit_neq_def symb_emit_sle_def symb_emit_sge_def)

lemma refs_apply_regs [simp]: "(\<And>r i. refs (f r i) = {}) \<Longrightarrow> refs (apply_regs rs f) = {}"
  by (auto simp: apply_regs_def set_zip)

lemma refs_save [simp]: "refs (save_regs rs) = {}" "refs restore_args = {}" "refs restore_temps = {}"
  by (auto simp: save_regs_def restore_args_def restore_temps_def emit_defs)

text \<open>
  \<open>grows c c' ts\<close>: from \<open>c\<close> to \<open>c'\<close> no instruction was begun, the jump targets \<open>ts\<close> were added,
  and the new lines jump only to the labels of \<open>ts\<close>.
\<close>

definition grows :: "compiler \<Rightarrow> compiler \<Rightarrow> (u64 \<times> nat) list \<Rightarrow> bool" where
  "grows c c' ts \<longleftrightarrow>
     done_at c' = done_at c \<and> set (todo c) \<subseteq> set (todo c') \<and>
     (distinct (map fst (todo c)) \<longrightarrow> distinct (map fst (todo c'))) \<and>
     set ts \<subseteq> set (done_at c') \<union> set (todo c') \<and>
     (\<exists>cs. out c' = out c @ cs \<and> refs cs \<subseteq> label_for_ip ` fst ` set ts)"

lemma grows_emits [simp]: "refs cs = {} \<Longrightarrow> grows c (emits cs c) []"
  by (simp add: grows_def emits_def)

lemma grows_update: "done_at c' = done_at c \<Longrightarrow> todo c' = todo c \<Longrightarrow> out c' = out c @ cs \<Longrightarrow> refs cs = {} \<Longrightarrow> grows c c' []"
  by (auto simp: grows_def)

lemma grows_trans: "grows c c1 ts \<Longrightarrow> grows c1 c2 us \<Longrightarrow> grows c c2 (ts @ us)"
  unfolding grows_def by (elim conjE exE, intro conjI exI [of _ "_ @ _"]) (auto 0 3)

lemma st_top_same [simp]: "(emits cs c)\<lparr>st_top := st_top c\<rparr> = emits cs c"
  by (simp add: emits_def)

lemma emits_sel [simp]:
  "st_top (emits cs c) = st_top c" "current_frame (emits cs c) = current_frame c" "done_at (emits cs c) = done_at c"
  "todo (emits cs c) = todo c" "globals_count (emits cs c) = globals_count c" "out (emits cs c) = out c @ cs"
  by (simp_all add: emits_def)

lemma add_jump_target_grows:
  assumes "add_jump_target t h c = Inr c'"
  shows "grows c c' [(t, h)]" "st_top c' = st_top c" "current_frame c' = current_frame c"
    "globals_count c' = globals_count c"
  using assms
  by (auto simp: add_jump_target_def grows_def Let_def emit_defs map_of_eq_None_iff dest: map_of_SomeD
      split: option.splits if_splits)

lemma grows_st_top [simp]:
  "grows (c\<lparr>st_top := n\<rparr>) c' ts = grows c c' ts" "grows c (c'\<lparr>st_top := n\<rparr>) ts = grows c c' ts"
  "grows (c\<lparr>current_frame := f\<rparr>) c' ts = grows c c' ts" "grows c (c'\<lparr>current_frame := f\<rparr>) ts = grows c c' ts"
  by (simp_all add: grows_def)

lemma emits_st_top [simp]: "emits cs (c\<lparr>st_top := n\<rparr>) = (emits cs c)\<lparr>st_top := n\<rparr>"
  "emits cs (c\<lparr>current_frame := f\<rparr>) = (emits cs c)\<lparr>current_frame := f\<rparr>"
  by (simp_all add: emits_def)

lemma grows_refl [simp]: "grows c c []"
  by (simp add: grows_def)

lemma grows_emits_trans: "refs cs = {} \<Longrightarrow> grows c c' ts \<Longrightarrow> grows c (emits cs c') ts"
  "refs cs = {} \<Longrightarrow> grows (emits cs c) c' ts \<Longrightarrow> grows c c' ts"
  using grows_trans [of c c' ts "emits cs c'" "[]"] grows_trans [of c "emits cs c" "[]" c' ts] by simp_all

lemma c_pop_Inr: "c_pop c = Inr x \<longleftrightarrow> (\<exists>n. st_top c = Suc n \<and> x = (loc_at n, c\<lparr>st_top := n\<rparr>))"
  by (cases "st_top c") (auto simp: c_pop_def)

lemma c_alloc_eq [simp]: "c_alloc c = (loc_at (st_top c), c\<lparr>st_top := Suc (st_top c)\<rparr>)"
  by (simp add: c_alloc_def)

text \<open>\<open>keeps\<close>: the new height and the parts of the state that code generation leaves alone.\<close>

definition keeps :: "compiler \<Rightarrow> compiler \<Rightarrow> nat \<Rightarrow> bool" where
  "keeps c c' n \<longleftrightarrow> st_top c' = n \<and> current_frame c' = current_frame c \<and> globals_count c' = globals_count c"

lemma move_args_grows:
  "move_args is c = Inr c' \<Longrightarrow> length is \<le> st_top c \<and> keeps c c' (st_top c - length is) \<and> grows c c' []"
proof (induction "is" arbitrary: c)
  case (Cons i "is")
  then obtain r l n where n: "st_top c = Suc n" "move_args is (emits (symb_emit_mv_to r l) (c\<lparr>st_top := n\<rparr>)) = Inr c'"
    by (auto simp: res_simps c_pop_Inr)
  then show ?case
    using Cons.IH [OF n(2)] grows_emits_trans(2) [of "symb_emit_mv_to r l" c c' "[]"] by (simp add: keeps_def)
qed (simp add: keeps_def)

lemma push_args_grows:
  "push_args k c = Inr c' \<Longrightarrow> k \<le> st_top c \<and> keeps c c' (st_top c - k) \<and> grows c c' []"
proof (induction k arbitrary: c)
  case (Suc k)
  obtain n where n0: "st_top c = Suc n" using Suc.prems by (auto simp: res_simps c_pop_Inr)
  obtain cs r where l: "to_reg (loc_at n) temp1 = (cs, r)" by (cases "to_reg (loc_at n) temp1")
  have n: "st_top c = Suc n" "to_reg (loc_at n) temp1 = (cs, r)"
      "push_args k (emits (cs @ emit_sd r sp (- WORD_SIZE) @ emit_addi sp sp (- WORD_SIZE)) (c\<lparr>st_top := n\<rparr>)) = Inr c'"
    using Suc.prems n0 l by (auto simp: res_simps c_pop_Inr)
  have "refs cs = {}" using refs_to_reg [of "loc_at n" temp1] n(2) by simp
  then have "refs (cs @ emit_sd r sp (- WORD_SIZE) @ emit_addi sp sp (- WORD_SIZE)) = {}" by (simp add: emit_defs)
  then show ?case
    using Suc.IH [OF n(3)] n(1) grows_emits_trans(2) [of "cs @ emit_sd r sp (- WORD_SIZE) @ emit_addi sp sp (- WORD_SIZE)" c c' "[]"]
    by (simp add: keeps_def)
qed (simp add: keeps_def)

lemma of_nat_add_arg: "unat (a :: u64) \<noteq> 2 ^ 64 - 1 \<Longrightarrow> unat (a + 1) = unat a + 1"
  using unat_u64_less [of a] by (subst unat_add_lem [THEN iffD1]) auto

definition call_targets :: "ident \<Rightarrow> (u64 \<times> nat) list" where
  "call_targets f = (case f of Name n \<Rightarrow> [] | Offset off \<Rightarrow> [(off, 0)])"

lemma compile_call_grows:
  assumes "compile_call f argc opt c = Inr c'" "opt \<noteq> None \<Longrightarrow> unat argc \<noteq> 2 ^ 64 - 1"
  shows "unat argc \<le> st_top c \<and> keeps c c' (st_top c - unat argc + 1) \<and> grows c c' (call_targets f)"
proof -
  define add where "add = (if opt = None then 0 else 1 :: nat)"
  define argc' where "argc' = argc + of_nat add"
  have n: "unat argc' = unat argc + add" using assms(2) of_nat_add_arg [of argc] by (auto simp: argc'_def add_def)
  obtain fr where fr: "current_frame c = Some fr" using assms(1) by (auto simp: compile_call_def Let_def split: option.splits)
  define sl where "sl = spilled_count (st_top c)"
  define al where "al = (locals_count fr + of_nat sl + (if argc' > 8 then argc' - 8 else 0)) AND 1"
  obtain c1 c2 c3 l where r: "move_args (rev (take (8 - add) [add..<unat argc'])) (emits (call_prologue sl opt) c) = Inr c1"
    "push_args (unat argc' - 8) (emits (if al \<noteq> 0 then emit_addi sp sp (- WORD_SIZE) else []) c1) = Inr c2"
    "call_label f c2 = Inr (l, c3)" "c' = call_epilogue argc' al (emits (emit_call l) c3)"
    using assms(1) [unfolded compile_call_def fr option.case Let_def, folded add_def, folded argc'_def sl_def, folded al_def]
    by (auto simp: res_simps)
  have 0: "grows c (emits (call_prologue sl opt) c) []"
    by (intro grows_emits) (auto simp: call_prologue_def emit_defs split: option.splits)
  have 1: "length (rev (take (8 - add) [add..<unat argc'])) \<le> st_top c \<and>
      keeps c c1 (st_top c - length (rev (take (8 - add) [add..<unat argc']))) \<and> grows c c1 []"
    using move_args_grows [OF r(1)] grows_trans [OF 0, of c1 "[]"] by (simp add: keeps_def)
  have 2: "unat argc' - 8 \<le> st_top c1 \<and> keeps c1 c2 (st_top c1 - (unat argc' - 8)) \<and> grows c1 c2 []"
    using push_args_grows [OF r(2)] grows_emits_trans(2) [of "if al \<noteq> 0 then emit_addi sp sp (- WORD_SIZE) else []" c1 c2 "[]"]
    by (simp add: keeps_def emit_defs split: if_splits)
  have 3: "keeps c2 c3 (st_top c2) \<and> grows c2 c3 (call_targets f)"
    using r(3) add_jump_target_grows
    by (auto simp: call_label_def call_targets_def keeps_def res_simps split: ident.splits)
  have 4: "keeps c3 c' (st_top c3 + 1) \<and> grows c3 c' []"
    unfolding r(4) by (auto simp: call_epilogue_def Let_def keeps_def emit_defs intro!: grows_emits_trans(1))
  have len: "length (rev (take (8 - add) [add..<unat argc'])) + (unat argc' - 8) = unat argc"
    using n by (simp add: add_def min_def)
  have "grows c c' ([] @ [] @ call_targets f @ [])"
    by (intro grows_trans [of c c1] grows_trans [of c1 c2] grows_trans [of c2 c3]) (use 1 2 3 4 in auto)
  moreover have "unat argc \<le> st_top c" using 1 2 len unfolding keeps_def by linarith
  ultimately show ?thesis using 1 2 3 4 len by (auto simp: keeps_def)
qed


section \<open>One instruction\<close>

definition effect :: "compiler \<Rightarrow> compiler \<Rightarrow> nat \<Rightarrow> nat \<Rightarrow> (u64 \<times> nat) list \<Rightarrow> bool" where
  "effect c c' p q ts \<longleftrightarrow> p \<le> st_top c \<and> st_top c' = st_top c - p + q \<and> globals_count c' = globals_count c \<and> grows c c' ts"

lemma effect_emits:
  "refs cs = {} \<Longrightarrow> effect c (emits cs c) p q [] \<longleftrightarrow> p \<le> st_top c \<and> st_top c = st_top c - p + q"
  "refs cs = {} \<Longrightarrow> effect c ((emits cs c)\<lparr>st_top := n\<rparr>) p q [] \<longleftrightarrow> p \<le> st_top c \<and> n = st_top c - p + q"
  "effect c (c\<lparr>st_top := n\<rparr>) p q [] \<longleftrightarrow> p \<le> st_top c \<and> n = st_top c - p + q"
  "effect c c p q [] \<longleftrightarrow> p \<le> st_top c \<and> st_top c = st_top c - p + q"
  by (auto simp: effect_def)

lemma call_effect:
  assumes "compile_call f argc opt (emits cs (c\<lparr>st_top := st_top c + k\<rparr>)) = Inr c'"
    and "opt \<noteq> None \<Longrightarrow> unat argc \<noteq> 2 ^ 64 - 1" "refs cs = {}" "unat argc = p + k"
  shows "effect c c' p 1 (call_targets f)"
  using compile_call_grows [OF assms(1,2)] assms(3,4) grows_emits_trans(2) [of cs c c' "call_targets f"]
  by (auto simp: effect_def keeps_def)

lemma call_effect_0:
  assumes "compile_call f argc opt c = Inr c'" and "opt \<noteq> None \<Longrightarrow> unat argc \<noteq> 2 ^ 64 - 1"
  shows "effect c c' (unat argc) 1 (call_targets f)"
  using compile_call_grows [OF assms] by (auto simp: effect_def keeps_def)

lemma emits_emits [simp]: "emits ds (emits cs c) = emits (cs @ ds) c"
  by (simp add: emits_def)

lemma emit_Begin_effect:
  assumes "emit_Begin i argc locc c = Inr c'"
  shows "effect c c' 0 (if i = Name ''main'' then 1 else 0) []"
proof -
  have main: "effect c c' 0 1 []" if "compile_call (Name ''__init'') 0 None (emits cs c\<lparr>current_frame := f\<rparr>) = Inr c1"
      "refs cs = {}" "refs ds = {}" "c' = emits ds c1" for cs ds f c1
    using compile_call_grows [OF that(1)] grows_emits_trans(2) [of cs c c1 "[]"] that(2-4) grows_emits_trans(1) [of ds c c1 "[]"]
    by (simp add: effect_def keeps_def call_targets_def)
  define ds where "ds = apply_regs saved_regs (\<lambda>r i. emit_sd r sp (- (of_nat i + locc) * WORD_SIZE))
      @ emit_mv fp sp @ emit_addi sp sp (- (locc + 12) * WORD_SIZE)"
  have ds: "refs ds = {}" by (simp add: ds_def emit_defs)
  note B = assms [unfolded emit_Begin_def Let_def, folded ds_def]
  show ?thesis
  proof (cases "i = Name ''main''")
    case True
    then obtain c1 where "compile_call (Name ''__init'') 0 None (emits (emit_label ''main'' @ [Raw premain]) c\<lparr>current_frame :=
        Some \<lparr>function_name = ''main'', locals_count = locc, args_count = argc\<rparr>\<rparr>) = Inr c1" "c' = emits ds c1"
      using B by (auto simp: res_simps)
    then show ?thesis using True main ds by (simp add: emit_defs)
  next
    case False
    then show ?thesis using B ds
      by (cases i) (auto simp: label_for_ip_def emit_label_def effect_def intro!: grows_emits)
  qed
qed

lemma jump_effect:
  assumes "add_jump_target t n (emits cs c\<lparr>st_top := n\<rparr>) = Inr c'" "refs cs \<subseteq> {label_for_ip t}"
  shows "keeps c c' n \<and> grows c c' [(t, n)]"
proof -
  note a = add_jump_target_grows [OF assms(1)]
  obtain ds where ds: "out c' = out c @ cs @ ds" "refs ds \<subseteq> {label_for_ip t}" using a(1) by (auto simp: grows_def)
  have "grows c c' [(t, n)]" using a(1) ds assms(2) unfolding grows_def by (intro conjI exI [of _ "cs @ ds"]) auto
  then show ?thesis using a by (simp add: keeps_def)
qed

lemma emit_ConditionalJump_effect:
  assumes "emit_ConditionalJump t z c = Inr c'"
  shows "effect c c' 1 0 [(t, st_top c - 1)]"
proof -
  obtain n cs r where n: "st_top c = Suc n" "to_reg (loc_at n) temp1 = (cs, r)"
    using assms by (cases "to_reg (loc_at (st_top c - 1)) temp1") (auto simp: emit_ConditionalJump_def res_simps c_pop_Inr)
  have "refs cs = {}" using refs_to_reg [of "loc_at n" temp1] n(2) by simp
  then show ?thesis
    using assms n jump_effect [of t n "cs @ emit_srai r r 1 @ emit_cj z r zero_reg (label_for_ip t)" c c']
    by (auto simp: emit_ConditionalJump_def res_simps c_pop_Inr effect_def keeps_def emit_defs)
qed

lemma SExpression_effect:
  assumes "emit_code af (SExpression n s) c = Inr c'" "unat s < 2 ^ 31"
  shows "effect c c' (unat s) 1 []"
proof -
  have s1: "unat (s + 1) = unat s + 1" by (intro of_nat_add_arg) (use assms(2) in simp)
  obtain h where h: "comp_LtagHash n = Inr h" using assms by (auto simp: emit_SExpression_def res_simps)
  show ?thesis
    using assms s1 h
      call_effect [of "Name ''RVBsexp''" "s + 1" "Some (2 * s + 1 + 1)" "symb_emit_li (loc_at (st_top c)) h" c 1 c' "unat s"]
    by (simp add: emit_SExpression_def call_targets_def)
qed

lemma Tag_effect:
  assumes "emit_code af (Tag t s) c = Inr c'"
  shows "effect c c' 1 1 []"
proof -
  obtain h where h: "comp_LtagHash t = Inr h" using assms by (auto simp: emit_Tag_def res_simps)
  show ?thesis
    using assms h call_effect [of "Name ''Btag''" 3 None
      "symb_emit_li (loc_at (st_top c)) h @ symb_emit_li (loc_at (Suc (st_top c))) (2 * s + 1)" c 2 c' 1]
    by (simp add: emit_Tag_def call_targets_def Let_def)
qed

lemma Fail_effect:
  assumes "emit_code af (Fail l k) c = Inr c'"
  shows "effect c c' 1 1 []"
  using assms call_effect [of "Name ''Bmatch_failure''" 4 None
      "symb_emit_la (loc_at (st_top c)) ''fname'' @ symb_emit_li (loc_at (Suc (st_top c))) (2 * l + 1) @
       symb_emit_li (loc_at (Suc (Suc (st_top c)))) (2 * k + 1)" c 3 c' 1]
  by (simp add: emit_Fail_def call_targets_def Let_def numeral_3_eq_3)

lemma String_effect:
  assumes "emit_code af (String ind str) c = Inr c'"
  shows "effect c c' 0 1 []"
  using assms call_effect [of "Name ''RVBstring''" 1 None "symb_emit_la (loc_at (st_top c)) (''string_'' @ show_size ind)" c 1 c' 0]
  by (simp add: emit_String_def call_targets_def)

text \<open>The instructions that are one call of the runtime or of a function of the program.\<close>

lemma call_instruction_effect:
  assumes "emit_code af i c = Inr c'" "wf_instr i"
    and "(\<exists>f argc. i = Call f argc) \<or> (\<exists>n. i = BuiltinArray n) \<or>
      i \<in> {StoreArray, Elem, BuiltinRead, BuiltinWrite, BuiltinLength, BuiltinString}"
  shows "effect c c' (pops af i) (pushes af i) (targets i (st_top c))"
  using assms(3)
proof (elim disjE exE)
  fix f argc
  assume i: "i = Call f argc"
  then show ?thesis using assms call_effect_0 [of f argc None c c'] by (cases f) (simp_all add: call_targets_def)
next
  fix n
  assume i: "i = BuiltinArray n"
  then show ?thesis
    using assms call_effect_0 [of "Name ''RVBarray''" n "Some (2 * n + 1)" c c'] by (simp add: call_targets_def)
qed (use assms(1) in \<open>auto dest!: call_effect_0 simp: call_targets_def\<close>)

text \<open>The instructions that only work on the symbolic stack.\<close>

lemma stack_instruction_effect:
  assumes "emit_code af i c = Inr c'" "i \<in> {StoreStack, Swap, Duplicate, Drop, End} \<union> range Const \<union> range Binop \<union> range Line"
  shows "effect c c' (pops af i) (pushes af i) []"
  using assms
  by (auto simp: emit_Const_def emit_Binop_def emit_End_def emit_StoreStack_def emit_Swap_def emit_Duplicate_def emit_Drop_def
      effect_emits res_simps c_pop_Inr c_push_def peek_loc_def Let_def emit_defs split: loc.splits option.splits if_splits)

lemma variable_effect:
  assumes "emit_code af i c = Inr c'" "i \<in> range Load \<union> range Store"
  shows "effect c c' (pops af i) (pushes af i) []"
proof -
  obtain e where e: "i = Load e \<or> i = Store e" using assms(2) by blast
  then show ?thesis using assms(1)
    by (cases "kind e"; cases "st_top c")
      (auto simp: emit_Load_def emit_Store_def effect_emits TODO_def res_simps split: option.splits if_splits)
qed

text \<open>Every instruction changes the height by its effect.\<close>

lemma emit_code_effect:
  assumes "emit_code af i c = Inr c'" "wf_instr i"
  shows "effect c c' (pops af i) (pushes af i) (targets i (st_top c))"
proof (cases i)
  case (Begin j argc locc)
  then show ?thesis using assms emit_Begin_effect [of j argc locc c c'] by simp
next
  case (CBegin off argc locc)
  then show ?thesis using assms emit_Begin_effect [of "Name (''closure@'' @ ip_to_string off)" argc locc c c']
    by (simp add: emit_CBegin_def)
next
  case (ConditionalJump t z)
  then show ?thesis using assms emit_ConditionalJump_effect by simp
next
  case (Jump t)
  then show ?thesis
    using assms jump_effect [of t "st_top c" "emit_j (label_for_ip t)" c c'] by (simp add: emit_Jump_def effect_def keeps_def emit_defs)
next
  case (Load e)
  then show ?thesis using variable_effect [OF assms(1)] by simp
next
  case (Store e)
  then show ?thesis using variable_effect [OF assms(1)] by simp
next
  case (SExpression n s)
  then show ?thesis using SExpression_effect [OF assms(1) [unfolded SExpression]] assms(2) by simp
next
  case (Tag t s)
  then show ?thesis using Tag_effect [OF assms(1) [unfolded Tag]] by simp
next
  case (Fail l k)
  then show ?thesis using Fail_effect [OF assms(1) [unfolded Fail]] by simp
next
  case (String ind str)
  then show ?thesis using String_effect [OF assms(1) [unfolded String]] by simp
qed (use assms call_instruction_effect [OF assms] stack_instruction_effect [OF assms(1)] in \<open>simp_all add: TODO_def\<close>)


section \<open>One run of the generator\<close>

definition wf_program :: "program \<Rightarrow> bool" where
  "wf_program is \<longleftrightarrow> distinct (map fst is) \<and> (\<forall>(off, i) \<in> set is. wf_instr i)"

lemma find_from_split: "distinct (map fst (pre @ (off, i) # rest)) \<Longrightarrow> find_from off (pre @ (off, i) # rest) = (off, i) # rest"
  by (induction pre) auto

lemma find_from_suffix: "\<exists>pre. is = pre @ find_from off is"
proof (induction "is")
  case (Cons p "is")
  then show ?case by (cases p) (auto intro: exI [of _ "p # _"] exI [of _ "[]"])
qed simp

lemma find_from_head: "find_from off is = x # rest \<Longrightarrow> fst x = off"
  by (induction off "is" rule: find_from.induct) (auto split: if_splits)

lemma find_from_Nil: "find_from off is = [] \<longleftrightarrow> off \<notin> fst ` set is"
  by (induction off "is" rule: find_from.induct) auto

text \<open>A target is known when it is done or pending, or when there is no instruction at it.\<close>

definition known :: "program \<Rightarrow> compiler \<Rightarrow> u64 \<Rightarrow> nat \<Rightarrow> bool" where
  "known is c t h \<longleftrightarrow> (t, h) \<in> set (done_at c) \<union> set (todo c) \<or> find_from t is = []"

definition typed :: "bool \<Rightarrow> program \<Rightarrow> compiler \<Rightarrow> u64 \<Rightarrow> nat \<Rightarrow> bool" where
  "typed af is c off h \<longleftrightarrow> (\<exists>i rest. find_from off is = (off, i) # rest \<and> supported i \<and> pops af i \<le> h \<and>
     (\<forall>(t, ht) \<in> set (targets i h). known is c t ht) \<and>
     (\<not> is_terminator i \<longrightarrow> rest \<noteq> [] \<longrightarrow> (fst (hd rest), h - pops af i + pushes af i) \<in> set (done_at c)))"

lemma typed_mono:
  assumes "typed af is c off h" "set (done_at c) \<subseteq> set (done_at c')"
    "\<And>t ht. (t, ht) \<in> set (todo c) \<Longrightarrow> known is c' t ht"
  shows "typed af is c' off h"
proof -
  have "known is c t ht \<Longrightarrow> known is c' t ht" for t ht using assms(2,3) by (auto simp: known_def)
  then show ?thesis using assms(1,2) unfolding typed_def by blast
qed

lemma inst_begin_result:
  assumes "inst_begin off c = Inr c'"
  shows "st_top c' = st_top c \<and> todo c' = todo c \<and> set (done_at c') = insert (off, st_top c) (set (done_at c)) \<and>
    (distinct (map fst (done_at c)) \<longrightarrow> distinct (map fst (done_at c'))) \<and>
    set (out c) \<subseteq> set (out c') \<and> refs (out c') = refs (out c) \<and>
    ((off, st_top c) \<in> set (done_at c) \<or> Label (label_for_ip off) \<in> set (out c'))"
  using assms by (auto simp: inst_begin_def emit_defs map_of_eq_None_iff dest: map_of_SomeD split: option.splits if_splits)

text \<open>\<open>advanced af is c c'\<close>: what a run from \<open>c\<close> to \<open>c'\<close> guarantees.\<close>

definition advanced :: "bool \<Rightarrow> program \<Rightarrow> compiler \<Rightarrow> compiler \<Rightarrow> bool" where
  "advanced af is c c' \<longleftrightarrow>
     (distinct (map fst (done_at c)) \<longrightarrow> distinct (map fst (done_at c'))) \<and>
     (distinct (map fst (todo c)) \<longrightarrow> distinct (map fst (todo c'))) \<and>
     set (done_at c) \<subseteq> set (done_at c') \<and> set (todo c) \<subseteq> set (todo c') \<and> set (out c) \<subseteq> set (out c') \<and>
     refs (out c') \<subseteq> refs (out c) \<union> label_for_ip ` fst ` (set (done_at c') \<union> set (todo c')) \<and>
     (\<forall>(off, h) \<in> set (done_at c') - set (done_at c). Label (label_for_ip off) \<in> set (out c')) \<and>
     (\<forall>(off, h) \<in> set (done_at c') - set (done_at c). typed af is c' off h)"

lemma subset_chain: "A \<subseteq> B \<union> C \<Longrightarrow> B \<subseteq> D \<union> E \<Longrightarrow> E \<subseteq> C \<Longrightarrow> A \<subseteq> D \<union> C"
  by blast

text \<open>
  \<open>begun c c2 off\<close>: what holds when the code of the instruction at \<open>off\<close> has been emitted, before
  anything is known of what follows it.
\<close>

definition begun :: "compiler \<Rightarrow> compiler \<Rightarrow> u64 \<Rightarrow> bool" where
  "begun c c2 off \<longleftrightarrow>
     (distinct (map fst (done_at c)) \<longrightarrow> distinct (map fst (done_at c2))) \<and>
     (distinct (map fst (todo c)) \<longrightarrow> distinct (map fst (todo c2))) \<and>
     set (done_at c2) = insert (off, st_top c) (set (done_at c)) \<and> set (todo c) \<subseteq> set (todo c2) \<and>
     set (out c) \<subseteq> set (out c2) \<and>
     refs (out c2) \<subseteq> refs (out c) \<union> label_for_ip ` fst ` (set (done_at c2) \<union> set (todo c2)) \<and>
     ((off, st_top c) \<in> set (done_at c) \<or> Label (label_for_ip off) \<in> set (out c2))"

lemma inst_begun:
  assumes "inst_begin off c = Inr c1" "emit_code af i (emits (emit_comment d) c1) = Inr c2" "wf_instr i"
  shows "begun c c2 off" "pops af i \<le> st_top c" "st_top c2 = st_top c - pops af i + pushes af i"
    "set (targets i (st_top c)) \<subseteq> set (done_at c2) \<union> set (todo c2)"
proof -
  note b = inst_begin_result [OF assms(1)]
  have e: "effect c1 c2 (pops af i) (pushes af i) (targets i (st_top c))"
    using emit_code_effect [OF assms(2,3)] b grows_emits_trans(2) [of "emit_comment d" c1 c2]
    by (auto simp: effect_def emit_comment_def)
  obtain cs where g: "done_at c2 = done_at c1" "set (todo c1) \<subseteq> set (todo c2)"
    "distinct (map fst (todo c1)) \<longrightarrow> distinct (map fst (todo c2))"
    "set (targets i (st_top c)) \<subseteq> set (done_at c2) \<union> set (todo c2)"
    "out c2 = out c1 @ cs" "refs cs \<subseteq> label_for_ip ` fst ` set (targets i (st_top c))"
    using e by (auto simp: effect_def grows_def)
  show "pops af i \<le> st_top c" "st_top c2 = st_top c - pops af i + pushes af i" using e b by (simp_all add: effect_def)
  show "set (targets i (st_top c)) \<subseteq> set (done_at c2) \<union> set (todo c2)" by (rule g(4))
  have "refs cs \<subseteq> label_for_ip ` fst ` (set (done_at c2) \<union> set (todo c2))"
    by (rule order_trans [OF g(6)]) (intro image_mono g(4))
  moreover have "refs (out c2) = refs (out c) \<union> refs cs" using b g(5) by simp
  ultimately have "refs (out c2) \<subseteq> refs (out c) \<union> label_for_ip ` fst ` (set (done_at c2) \<union> set (todo c2))"
    by (simp add: le_supI2)
  then show "begun c c2 off" unfolding begun_def using b g by auto
qed

lemma advanced_begun:
  assumes b: "begun c c2 off" and a: "advanced af is c2 c3" and t: "typed af is c3 off (st_top c)"
  shows "advanced af is c c3"
proof -
  have new: "Label (label_for_ip o') \<in> set (out c3) \<and> typed af is c3 o' k"
    if n: "(o', k) \<in> set (done_at c3)" "(o', k) \<notin> set (done_at c)" for o' k
  proof (cases "(o', k) \<in> set (done_at c2)")
    case True
    then have "o' = off" "k = st_top c" using n(2) b by (simp_all add: begun_def)
    then show ?thesis using b n(2) a t by (auto simp: begun_def advanced_def)
  next
    case False
    then have "(o', k) \<in> set (done_at c3) - set (done_at c2)" using n(1) by simp
    then show ?thesis using a unfolding advanced_def by fast
  qed
  note A = a [unfolded advanced_def] and B = b [unfolded begun_def]
  have rf: "refs (out c2) \<subseteq> refs (out c) \<union> label_for_ip ` fst ` (set (done_at c2) \<union> set (todo c2))"
    using B by (elim conjE) assumption
  have rf': "refs (out c3) \<subseteq> refs (out c2) \<union> label_for_ip ` fst ` (set (done_at c3) \<union> set (todo c3))"
    "set (done_at c2) \<subseteq> set (done_at c3)" "set (todo c2) \<subseteq> set (todo c3)"
    using A by simp_all
  have mono: "set (todo c) \<subseteq> set (todo c3)" "set (out c) \<subseteq> set (out c3)" "set (done_at c) \<subseteq> set (done_at c3)"
    using A B by auto
  have "refs (out c3) \<subseteq> refs (out c) \<union> label_for_ip ` fst ` (set (done_at c3) \<union> set (todo c3))"
    by (rule subset_chain [OF rf'(1) rf image_mono [OF image_mono [OF Un_mono [OF rf'(2,3)]]]])
  moreover have "\<forall>(o', k) \<in> set (done_at c3) - set (done_at c). Label (label_for_ip o') \<in> set (out c3)"
    "\<forall>(o', k) \<in> set (done_at c3) - set (done_at c). typed af is c3 o' k"
    using new by fast+
  ultimately show ?thesis unfolding advanced_def using mono A B by simp
qed

lemma emit_run_advanced:
  assumes "emit_run af is' c = Inr c'" "is = pre @ is'" "wf_program is"
  shows "advanced af is c c' \<and> (is' \<noteq> [] \<longrightarrow> (fst (hd is'), st_top c) \<in> set (done_at c'))"
  using assms
proof (induction is' arbitrary: c pre)
  case (Cons x rest)
  obtain off i where x: "x = (off, i)" by (cases x)
  obtain c1 d c2 where r: "inst_begin off c = Inr c1" "print_inst i = Inr d"
    "emit_code af i (emits (emit_comment (''-> '' @ d)) c1) = Inr c2"
    "(if is_terminator i then Inr (emits (emit_comment ''============'') c2) else emit_run af rest c2) = Inr c'"
    using Cons.prems(1) by (auto simp: x res_simps)
  have ff: "find_from off is = (off, i) # rest" and wfi: "wf_instr i"
    using Cons.prems(2,3) find_from_split [of pre off i rest] by (simp_all add: x wf_program_def)
  note sup = emitted_supported [OF r(2,3)] and b = inst_begun [OF r(1,3) wfi]
  have "advanced af is c2 c' \<and> typed af is c' off (st_top c)"
  proof (cases "is_terminator i")
    case True
    then have c': "c' = emits (emit_comment ''============'') c2" using r(4) by simp
    then have "typed af is c' off (st_top c)" using ff sup b True by (auto simp: typed_def known_def)
    then show ?thesis unfolding c' advanced_def by (auto simp: emit_comment_def)
  next
    case False
    then have IH: "advanced af is c2 c'" "rest \<noteq> [] \<longrightarrow> (fst (hd rest), st_top c2) \<in> set (done_at c')"
      using Cons.IH [of c2 "pre @ [x]"] r(4) Cons.prems(2,3) by simp_all
    then have "typed af is c' off (st_top c)"
      using ff sup b by (auto simp: typed_def known_def advanced_def)
    then show ?thesis using IH(1) by blast
  qed
  then have adv: "advanced af is c2 c'" "advanced af is c c'" using advanced_begun [OF b(1)] by blast+
  then have "(off, st_top c) \<in> set (done_at c')" using b(1) by (simp add: begun_def advanced_def)
  then show ?case using adv(2) by (simp add: x)
qed (auto simp: advanced_def)


section \<open>The loop\<close>

text \<open>One round, on any pending entry.\<close>

inductive driver_step :: "bool \<Rightarrow> program \<Rightarrow> compiler \<Rightarrow> compiler \<Rightarrow> bool" for af "is" where
  round: "entry \<in> set (todo c) \<Longrightarrow> emit_round af is entry c = Inr c' \<Longrightarrow> driver_step af is c c'"

text \<open>The invariant of the loop.\<close>

definition driver_inv :: "bool \<Rightarrow> program \<Rightarrow> compiler \<Rightarrow> bool" where
  "driver_inv af is c \<longleftrightarrow>
     distinct (map fst (done_at c)) \<and> distinct (map fst (todo c)) \<and>
     (\<forall>(off, h) \<in> set (done_at c). typed af is c off h \<and> Label (label_for_ip off) \<in> set (out c)) \<and>
     refs (out c) \<subseteq> label_for_ip ` {t. \<exists>h. known is c t h}"

lemma distinct_map_fst_eq: "distinct (map fst xs) \<Longrightarrow> (k, u) \<in> set xs \<Longrightarrow> (k, v) \<in> set xs \<Longrightarrow> u = v"
  by (metis eq_key_imp_eq_value)

lemma emit_round_cases:
  assumes "emit_round af is (start, h) c = Inr c'"
  obtains
    "(start, h) \<in> set (done_at c)" "c' = c\<lparr>st_top := h, todo := removeAll (start, h) (todo c)\<rparr>"
  | "start \<notin> fst ` set (done_at c)"
    "emit_run af (find_from start is) (c\<lparr>st_top := h, todo := removeAll (start, h) (todo c)\<rparr>) = Inr c'"
  using assms
  by (auto simp: emit_round_def should_emit_def Let_def map_of_eq_None_iff dest: map_of_SomeD split: option.splits if_splits)

lemma advanced_known:
  assumes "advanced af is c c'" "known is c t h"
  shows "known is c' t h"
  using assms unfolding advanced_def known_def by blast

lemma distinct_map_removeAll: "distinct (map fst xs) \<Longrightarrow> distinct (map fst (removeAll x xs))"
  by (simp add: removeAll_filter_not_eq distinct_map_filter)

lemma emit_round_advanced:
  assumes "emit_round af is (start, h) c = Inr c'" "wf_program is"
  shows "advanced af is (c\<lparr>st_top := h, todo := removeAll (start, h) (todo c)\<rparr>) c' \<and> known is c' start h"
  using assms(1)
proof (cases rule: emit_round_cases)
  case 1
  then show ?thesis by (simp add: advanced_def known_def)
next
  case 2
  obtain pre where pre: "is = pre @ find_from start is" using find_from_suffix by blast
  note a = emit_run_advanced [OF 2(2) pre assms(2)]
  have "known is c' start h"
  proof (cases "find_from start is")
    case (Cons x rest)
    then show ?thesis using a find_from_head [OF Cons] by (simp add: known_def)
  qed (simp add: known_def)
  then show ?thesis using a by blast
qed

lemma driver_step_inv:
  assumes "driver_step af is c c'" "driver_inv af is c" "wf_program is"
  shows "driver_inv af is c' \<and> (\<forall>t h. known is c t h \<longrightarrow> known is c' t h)"
  using assms(1)
proof cases
  case (round entry)
  obtain start h where en: "entry = (start, h)" by (cases entry)
  let ?c0 = "c\<lparr>st_top := h, todo := removeAll (start, h) (todo c)\<rparr>"
  note inv = assms(2) [unfolded driver_inv_def]
  have adv: "advanced af is ?c0 c'" and now: "known is c' start h"
    using emit_round_advanced [OF round(2) [unfolded en] assms(3)] by blast+
  have kn: "known is c' t k" if "known is c t k" for t k
  proof (cases "(t, k) = (start, h)")
    case False
    then have "known is ?c0 t k" using that by (auto simp: known_def)
    then show ?thesis by (rule advanced_known [OF adv])
  qed (use now in simp)
  note a = adv [unfolded advanced_def]
  have ty: "typed af is c' off k \<and> Label (label_for_ip off) \<in> set (out c')" if x: "(off, k) \<in> set (done_at c')" for off k
  proof (cases "(off, k) \<in> set (done_at c)")
    case True
    then have "typed af is c off k" using inv by blast
    then have "typed af is c' off k"
      by (rule typed_mono) (use a kn in \<open>auto simp: known_def\<close>)
    then show ?thesis using True inv a by auto
  qed (use a x in auto)
  have "refs (out c') \<subseteq> label_for_ip ` {t. \<exists>h. known is c' t h}"
  proof
    fix l assume l: "l \<in> refs (out c')"
    have "refs (out c') \<subseteq> refs (out c) \<union> label_for_ip ` fst ` (set (done_at c') \<union> set (todo c'))" using a by simp
    with l consider "l \<in> refs (out c)" | x where "l = label_for_ip (fst x)" "x \<in> set (done_at c') \<union> set (todo c')"
      by (elim subsetD [THEN UnE] imageE) simp_all
    then show "l \<in> label_for_ip ` {t. \<exists>h. known is c' t h}"
    proof cases
      case 1
      then obtain t k where "l = label_for_ip t" "known is c t k" using inv by blast
      then show ?thesis using kn by blast
    next
      case 2
      then have "known is c' (fst x) (snd x)" by (simp add: known_def)
      then show ?thesis using 2 by blast
    qed
  qed
  moreover have "distinct (map fst (done_at c')) \<and> distinct (map fst (todo c'))"
    using a inv by (simp add: distinct_map_removeAll)
  ultimately show ?thesis using ty kn by (auto simp: driver_inv_def)
qed


section \<open>Termination\<close>

definition begin_ok :: "((u64 \<times> nat) list \<Rightarrow> u64 \<times> nat) \<Rightarrow> bool" where
  "begin_ok begin_of \<longleftrightarrow> (\<forall>xs. xs \<noteq> [] \<longrightarrow> begin_of xs \<in> set xs)"

definition left_over :: "program \<Rightarrow> compiler \<Rightarrow> nat" where
  "left_over is c = card (fst ` set is - fst ` set (done_at c))"

lemma length_removeAll_less: "x \<in> set xs \<Longrightarrow> length (removeAll x xs) < length xs"
  by (induction xs) (auto simp: le_imp_less_Suc)

text \<open>Sizes that are not well-formed do not keep the loop from ending: emission never forgets an offset.\<close>

lemma compile_call_done:
  assumes "compile_call f argc opt c = Inr c'"
  shows "done_at c' = done_at c"
proof -
  have 1: "move_args is d = Inr d' \<Longrightarrow> done_at d' = done_at d" for "is" d d'
    using move_args_grows [of "is" d d'] by (simp add: grows_def)
  have 2: "push_args n d = Inr d' \<Longrightarrow> done_at d' = done_at d" for n d d'
    using push_args_grows [of n d d'] by (simp add: grows_def)
  have 3: "call_label f d = Inr (l, d') \<Longrightarrow> done_at d' = done_at d" for l d d'
    by (auto simp: call_label_def res_simps grows_def split: ident.splits dest: add_jump_target_grows(1))
  show ?thesis
    using assms by (auto simp: compile_call_def call_epilogue_def Let_def res_simps split: option.splits dest!: 1 2 3)
qed

lemma emit_code_done:
  assumes "emit_code af i c = Inr c'"
  shows "done_at c' = done_at c"
proof (cases "wf_instr i")
  case True
  then show ?thesis using emit_code_effect [OF assms] by (simp add: effect_def grows_def)
next
  case False
  then consider n s where "i = SExpression n s" | n where "i = BuiltinArray n" by (cases i) auto
  then show ?thesis
    using assms by cases (auto simp: emit_SExpression_def Let_def res_simps dest!: compile_call_done)
qed

lemma emit_run_done:
  "emit_run af is c = Inr c' \<Longrightarrow> set (done_at c) \<subseteq> set (done_at c') \<and> (is \<noteq> [] \<longrightarrow> fst (hd is) \<in> fst ` set (done_at c'))"
proof (induction "is" arbitrary: c)
  case (Cons x rest)
  obtain off i where x: "x = (off, i)" by (cases x)
  obtain c1 d c2 where r: "inst_begin off c = Inr c1" "emit_code af i (emits (emit_comment (''-> '' @ d)) c1) = Inr c2"
    "(if is_terminator i then Inr (emits (emit_comment ''============'') c2) else emit_run af rest c2) = Inr c'"
    using Cons.prems by (auto simp: x res_simps)
  have d: "done_at c2 = done_at c1" using emit_code_done [OF r(2)] by simp
  have b: "set (done_at c1) = insert (off, st_top c) (set (done_at c))" using inst_begin_result [OF r(1)] by simp
  have "set (done_at c2) \<subseteq> set (done_at c')" using r(3) Cons.IH [of c2] by (cases "is_terminator i") auto
  then show ?case using d b by (force simp: x)
qed simp

lemma emit_round_decreases:
  assumes "emit_round af is (start, h) c = Inr c'" "(start, h) \<in> set (todo c)"
  shows "left_over is c' < left_over is c \<or> (left_over is c' = left_over is c \<and> length (todo c') < length (todo c))"
  using assms(1)
proof (cases rule: emit_round_cases)
  case 1
  then show ?thesis using length_removeAll_less [OF assms(2)] by (simp add: left_over_def)
next
  case 2
  show ?thesis
  proof (cases "find_from start is")
    case Nil
    then have "c' = c\<lparr>st_top := h, todo := removeAll (start, h) (todo c)\<rparr>" using 2(2) by simp
    then show ?thesis using length_removeAll_less [OF assms(2)] by (simp add: left_over_def)
  next
    case (Cons x rest)
    note a = emit_run_done [OF 2(2)]
    have "start \<in> fst ` set (done_at c')" using a Cons find_from_head [OF Cons] by simp
    moreover have "set (done_at c) \<subseteq> set (done_at c')" using a by simp
    moreover have "start \<in> fst ` set is" using Cons find_from_Nil [of start "is"] by fastforce
    ultimately have "fst ` set is - fst ` set (done_at c') \<subset> fst ` set is - fst ` set (done_at c)"
      using 2(1) by blast
    then show ?thesis unfolding left_over_def by (intro disjI1 psubset_card_mono) simp_all
  qed
qed

lemma emit_loop_runs:
  assumes "begin_ok begin_of"
  shows "\<exists>r. emit_loop af begin_of is c = Some r \<and>
    (\<forall>c'. r = Inr c' \<longrightarrow> (driver_step af is)\<^sup>*\<^sup>* c c' \<and> todo c' = [])"
proof (induction "(left_over is c, length (todo c))" arbitrary: c rule: wf_induct_rule [OF wf_lex_prod [OF wf_less wf_less]])
  case (1 c)
  show ?case
  proof (cases "todo c = []")
    case True
    then show ?thesis by (subst emit_loop.simps) simp
  next
    case False
    obtain start h where en: "begin_of (todo c) = (start, h)" by (cases "begin_of (todo c)")
    then have inn: "(start, h) \<in> set (todo c)" using assms False by (metis begin_ok_def)
    show ?thesis
    proof (cases "emit_round af is (start, h) c")
      case (Inl e)
      then show ?thesis using False en by (subst emit_loop.simps) simp
    next
      case (Inr c1)
      then have "driver_step af is c c1" using inn by (auto intro: driver_step.intros)
      moreover obtain r where "emit_loop af begin_of is c1 = Some r"
        "\<forall>c'. r = Inr c' \<longrightarrow> (driver_step af is)\<^sup>*\<^sup>* c1 c' \<and> todo c' = []"
        using 1 [of c1] emit_round_decreases [OF Inr inn] by auto
      ultimately show ?thesis using False en Inr
        by (subst emit_loop.simps) (auto intro: converse_rtranclp_into_rtranclp)
    qed
  qed
qed

section \<open>Consistent heights\<close>

text \<open>
  The specification: a map from offsets to stack heights that is consistent with every instruction,
  its jump and call targets and the instruction that follows it.
\<close>

definition consistent :: "bool \<Rightarrow> program \<Rightarrow> (u64 \<Rightarrow> nat option) \<Rightarrow> bool" where
  "consistent af is H \<longleftrightarrow> (\<forall>off h. H off = Some h \<longrightarrow>
     (\<exists>i rest. find_from off is = (off, i) # rest \<and> supported i \<and> pops af i \<le> h \<and>
        (\<forall>(t, ht) \<in> set (targets i h). t \<in> fst ` set is \<longrightarrow> H t = Some ht) \<and>
        (\<not> is_terminator i \<longrightarrow> rest \<noteq> [] \<longrightarrow> H (fst (hd rest)) = Some (h - pops af i + pushes af i))))"

lemma driver_steps_inv:
  assumes "(driver_step af is)\<^sup>*\<^sup>* c c'" "driver_inv af is c" "wf_program is"
  shows "driver_inv af is c' \<and> (\<forall>t h. known is c t h \<longrightarrow> known is c' t h)"
  using assms(1)
proof (induction rule: rtranclp_induct)
  case (step y z)
  then show ?case using driver_step_inv [OF step(2) _ assms(3)] by blast
qed (use assms(2) in simp)

lemma driver_inv_final:
  assumes "driver_inv af is c" "todo c = []"
  shows "consistent af is (map_of (done_at c))"
    and "l \<in> refs (out c) \<Longrightarrow> Label l \<in> set (out c) \<or> (\<exists>t. l = label_for_ip t \<and> t \<notin> fst ` set is)"
proof -
  note inv = assms(1) [unfolded driver_inv_def]
  have d: "distinct (map fst (done_at c))" using inv by simp
  have k: "known is c t h \<longleftrightarrow> map_of (done_at c) t = Some h \<or> t \<notin> fst ` set is" for t h
    using assms(2) d by (simp add: known_def find_from_Nil)
  show "consistent af is (map_of (done_at c))"
    unfolding consistent_def
  proof (intro allI impI)
    fix off h assume "map_of (done_at c) off = Some h"
    then have "typed af is c off h" using inv map_of_SomeD by fast
    then obtain i rest where t: "find_from off is = (off, i) # rest" "supported i" "pops af i \<le> h"
      "\<forall>(t, ht) \<in> set (targets i h). known is c t ht"
      "\<not> is_terminator i \<longrightarrow> rest \<noteq> [] \<longrightarrow> (fst (hd rest), h - pops af i + pushes af i) \<in> set (done_at c)"
      unfolding typed_def by blast
    have "\<forall>(t, ht) \<in> set (targets i h). t \<in> fst ` set is \<longrightarrow> map_of (done_at c) t = Some ht"
      using t(4) unfolding k by fast
    then show "\<exists>i rest. find_from off is = (off, i) # rest \<and> supported i \<and> pops af i \<le> h \<and>
        (\<forall>(t, ht) \<in> set (targets i h). t \<in> fst ` set is \<longrightarrow> map_of (done_at c) t = Some ht) \<and>
        (\<not> is_terminator i \<longrightarrow> rest \<noteq> [] \<longrightarrow> map_of (done_at c) (fst (hd rest)) = Some (h - pops af i + pushes af i))"
      using t(1,2,3,5) d by (intro exI [of _ i] exI [of _ rest]) simp
  qed
  show "Label l \<in> set (out c) \<or> (\<exists>t. l = label_for_ip t \<and> t \<notin> fst ` set is)" if "l \<in> refs (out c)"
  proof -
    obtain t h where t: "l = label_for_ip t" "known is c t h" using inv \<open>l \<in> refs (out c)\<close> by blast
    then show ?thesis
    proof (cases "t \<in> fst ` set is")
      case True
      then have "(t, h) \<in> set (done_at c)" using t(2) k map_of_SomeD by fast
      then show ?thesis using inv t(1) by fast
    qed (use t in blast)
  qed
qed

lemma add_entries_result:
  assumes "add_entries ps c = Inr c'" "done_at c = []"
  shows "grows c c' (map (\<lambda>p. (p, 0)) ps)"
  using assms
proof (induction ps arbitrary: c)
  case (Cons p ps)
  then obtain c1 where c1: "add_jump_target p 0 c = Inr c1" "add_entries ps c1 = Inr c'" by (auto simp: res_simps)
  have g: "grows c c1 [(p, 0)]" by (rule add_jump_target_grows(1) [OF c1(1)])
  then have "done_at c1 = []" using Cons.prems(2) by (simp add: grows_def)
  then have "grows c1 c' (map (\<lambda>p. (p, 0)) ps)" by (rule Cons.IH [OF c1(2)])
  then show ?case using grows_trans [OF g] by simp
qed simp

lemma emit_program_start:
  assumes "add_entries publics (header (new_compiler file globals strings)) = Inr c"
  shows "driver_inv af is c \<and> (\<forall>p \<in> set publics. known is c p 0)"
proof -
  have "grows (header (new_compiler file globals strings)) c (map (\<lambda>p. (p, 0)) publics)"
    by (rule add_entries_result [OF assms]) (simp add: header_def new_compiler_def emits_def)
  then obtain cs where g: "done_at c = []" "distinct (map fst (todo c))" "(\<lambda>p. (p, 0)) ` set publics \<subseteq> set (todo c)"
    "refs (out c) \<subseteq> label_for_ip ` set publics"
    by (auto simp: grows_def header_def new_compiler_def emits_def image_image)
  have "known is c p 0" if "p \<in> set publics" for p using g(3) that by (auto simp: known_def)
  moreover from this have "refs (out c) \<subseteq> label_for_ip ` {t. \<exists>h. known is c t h}" using g(4) by blast
  ultimately show ?thesis using g by (simp add: driver_inv_def)
qed

end
