(* ===== verification/Codegen_Correct.thy ===== *)
theory Codegen_Correct
  imports Machine Builtins Driver_Correct
begin

text \<open>
  The meaning of the emitted code on the machine: operands, calls and frames, for operand stacks
  that fit into registers, and what happens when they do not.
\<close>

section \<open>Operand registers\<close>

lemma regs_nth_inject [simp]: "m < 15 \<Longrightarrow> n < 15 \<Longrightarrow> regs ! m = regs ! n \<longleftrightarrow> m = n"
  using distinct_regs by (simp add: nth_eq_iff_index_eq)

lemma regs_not_special:
  assumes "n < 15"
  shows "regs ! n \<noteq> 0" "regs ! n \<noteq> sp" "regs ! n \<noteq> fp" "regs ! n \<noteq> gp" "regs ! n \<noteq> ra"
    "regs ! n \<noteq> temp1" "regs ! n \<noteq> temp2" "regs ! n \<notin> set arg_regs"
  using regs_range [OF assms]
  by (auto simp: sp_def fp_def gp_def ra_def temp1_def temp2_def arg_regs_def)

lemma loc_at_reg: "n < 15 \<Longrightarrow> loc_at n = Register (regs ! n)"
  by (simp add: loc_at_def)

section \<open>Arithmetic\<close>

text \<open>The integer a binary instruction computes.\<close>

fun binop_int :: "binop_kind \<Rightarrow> int \<Rightarrow> int \<Rightarrow> int" where
  "binop_int Add i j = i + j"
| "binop_int Sub i j = i - j"
| "binop_int Mul i j = i * j"
| "binop_int Div i j = (if j = 0 then - 1 else i sdiv j)"
| "binop_int Rem i j = (if j = 0 then i else i smod j)"
| "binop_int LessThan i j = of_bool (i < j)"
| "binop_int LessEqual i j = of_bool (i \<le> j)"
| "binop_int GreaterThan i j = of_bool (j < i)"
| "binop_int GreaterEqual i j = of_bool (j \<le> i)"
| "binop_int Equal i j = of_bool (i = j)"
| "binop_int NotEqual i j = of_bool (i \<noteq> j)"
| "binop_int And i j = i AND j"
| "binop_int Or i j = i OR j"
| "binop_int (UnknownBinop l) i j = 0"

lemma srai_boxI: "fits63 i \<Longrightarrow> signed_drop_bit 1 (boxI i) = word_of_int i"
  using UNBOX_boxI [of i] by (simp add: UNBOX_def)

lemma box_code: "push_bit 1 (w :: u64) + 1 = BOX w"
  by (simp add: BOX_eq push_bit_eq_mult)


lemma alui_srai: "fits63 i \<Longrightarrow> alui SRAI (boxI i) 1 = Some (word_of_int i)"
  using srai_boxI [of i] by (simp add: shamt_def)

lemma alui_box: "alui SLLI w 1 = Some (push_bit 1 w)" "alui ADDI (push_bit 1 w) 1 = Some (BOX w)"
  by (simp_all add: shamt_def imm12_def flip: box_code)

lemma sless_word_of_int_63: "fits63 i \<Longrightarrow> fits63 j \<Longrightarrow> (word_of_int i :: u64) <s word_of_int j \<longleftrightarrow> i < j"
  by (simp add: word_sless_alt sint_word_of_int_63)

lemma xor_1_of_bool: "(of_bool b :: u64) XOR 1 = of_bool (\<not> b)"
  by (cases b) simp_all

lemma word_of_int_diff_0: "fits63 i \<Longrightarrow> fits63 j \<Longrightarrow> (word_of_int j - word_of_int i :: u64) = 0 \<longleftrightarrow> i = j"
  using word_of_int_inject_63 [of i j] by auto

lemma word_of_int_bits:
  "(word_of_int i :: u64) AND word_of_int j = word_of_int (i AND j)"
  "(word_of_int i :: u64) OR word_of_int j = word_of_int (i OR j)"
  by (rule bit_word_eqI; simp add: bit_simps)+

definition known_op :: "binop_kind \<Rightarrow> bool" where
  "known_op op \<longleftrightarrow> (\<forall>l. op \<noteq> UnknownBinop l)"

lemma exec_binop:
  assumes "known_op op" "fits63 i" "fits63 j" "a \<noteq> b" "a \<noteq> 0" "b \<noteq> 0"
    "rd s a = word_of_int i" "rd s b = word_of_int j"
  shows "\<exists>s'. exec lab ext (symb_emit_binop op (Register a) (Register a) (Register b)) s = Some s' \<and>
    rd s' a = word_of_int (binop_int op i j) \<and> cmem s' = cmem s \<and> (\<forall>r. r \<noteq> a \<longrightarrow> rd s' r = rd s r)"
  using assms
  by (cases op)
    (auto simp: symb_emit_binop_def symb_emit_eq_def symb_emit_neq_def symb_emit_sle_def symb_emit_sge_def
      symb_emit_registers known_op_def imm12_def sless_word_of_int_63 xor_1_of_bool word_of_int_diff_0
      sint_word_of_int_63 word_of_int_eq_0_63 not_less word_of_int_inject_63 word_of_int_bits simp del: of_bool_eq_0_iff)


lemma binop_code:
  assumes "emit_Binop op c = Inr c'" "st_top c \<le> 15" "known_op op" "fits63 i" "fits63 j"
    and "rd s (regs ! (st_top c - 2)) = boxI i" "rd s (regs ! (st_top c - 1)) = boxI j"
  shows "\<exists>s'. exec lab ext (new_code c c') s = Some s' \<and> st_top c' = st_top c - 1 \<and>
    rd s' (regs ! (st_top c' - 1)) = boxI (binop_int op i j) \<and> cmem s' = cmem s \<and>
    (\<forall>r. r \<noteq> regs ! (st_top c - 2) \<longrightarrow> r \<noteq> regs ! (st_top c - 1) \<longrightarrow> rd s' r = rd s r)"
proof -
  obtain n where n: "st_top c = Suc (Suc n)" "n < 15" "Suc n < 15"
    using assms(1,2) by (auto simp: emit_Binop_def res_simps c_pop_Inr)
  let ?a = "regs ! n" and ?b = "regs ! Suc n"
  have ne: "?a \<noteq> ?b" "?a \<noteq> 0" "?b \<noteq> 0" using n regs_not_special(1) by simp_all
  have v: "rd s ?a = boxI i" "rd s ?b = boxI j" using assms(6,7) n by simp_all
  have c': "c' = (emits ([I_type SRAI ?a ?a 1, I_type SRAI ?b ?b 1] @
      symb_emit_binop op (Register ?a) (Register ?a) (Register ?b) @ [I_type SLLI ?a ?a 1, I_type ADDI ?a ?a 1]) c)\<lparr>st_top := Suc n\<rparr>"
    using assms(1) n by (simp add: emit_Binop_def c_pop_def loc_at_reg symb_emit_registers Let_def)
  let ?s1 = "wr ?b (word_of_int j) (wr ?a (word_of_int i) s)"
  have v1: "rd ?s1 ?a = word_of_int i" "rd ?s1 ?b = word_of_int j" using ne by simp_all
  obtain s2 where s2: "exec lab ext (symb_emit_binop op (Register ?a) (Register ?a) (Register ?b)) ?s1 = Some s2"
    "rd s2 ?a = word_of_int (binop_int op i j)" "cmem s2 = cmem ?s1" "\<forall>r. r \<noteq> ?a \<longrightarrow> rd s2 r = rd ?s1 r"
    using exec_binop [OF assms(3,4,5) ne v1] by blast
  have "exec lab ext (new_code c c') s = Some (wr ?a (boxI (binop_int op i j)) (wr ?a (push_bit 1 (rd s2 ?a)) s2))"
    using ne v s2(1,2) alui_srai [OF assms(4)] alui_srai [OF assms(5)] alui_box
    by (simp add: c' exec_append boxI_def)
  then show ?thesis using s2 ne n by (auto simp: c')
qed

section \<open>Immediates and addresses\<close>

lemma imm_word_of_int: "- (2 ^ 31) \<le> n \<Longrightarrow> n < 2 ^ 31 \<Longrightarrow> imm (word_of_int n) = n"
proof -
  assume n: "- (2 ^ 31) \<le> n" "n < 2 ^ 31"
  have "(ucast (word_of_int n :: u64) :: 32 word) = word_of_int n"
    by (rule bit_word_eqI) (simp add: bit_simps)
  then show ?thesis using n by (simp add: imm_def signed_of_int signed_take_bit_int_eq_self)
qed

lemma imm_consts [simp]: "imm 0 = 0" "imm 1 = 1" "imm (- WORD_SIZE) = - 8" "imm WORD_SIZE = 8" "imm (8 * WORD_SIZE) = 64"
  using imm_word_of_int [of 0] imm_word_of_int [of 1] imm_word_of_int [of "- 8"] imm_word_of_int [of 8] imm_word_of_int [of 64]
  by (simp_all add: WORD_SIZE_def)

lemma imm_slots: "n < 2 ^ 28 \<Longrightarrow> imm (- of_nat n * WORD_SIZE) = - 8 * int n"
proof -
  assume n: "n < 2 ^ 28"
  have "- of_nat n * WORD_SIZE = (word_of_int (- 8 * int n) :: u64)" by (simp add: WORD_SIZE_def)
  then show ?thesis using n imm_word_of_int [of "- 8 * int n"] by simp
qed

text \<open>The address \<open>k\<close> words below a stack pointer.\<close>

lemma unat_below: "8 * k \<le> unat (a :: u64) \<Longrightarrow> unat (a + word_of_int (- 8 * int k)) = unat a - 8 * k"
proof -
  assume k: "8 * k \<le> unat a"
  have "a + word_of_int (- 8 * int k) = a - of_nat (8 * k)" by simp
  moreover have "unat (of_nat (8 * k) :: u64) = 8 * k" using k unat_u64_less [of a] by (intro unat_of_nat_u64) linarith
  ultimately show ?thesis using k by (simp add: unat_sub word_le_nat_alt del: of_nat_mult)
qed


section \<open>Saving and restoring registers\<close>

lemma exec_push:
  assumes "8 \<le> unat (rd s sp)"
  shows "exec lab ext (emit_sd r sp (- WORD_SIZE) @ emit_addi sp sp (- WORD_SIZE)) s =
    Some (wr sp (rd s sp - 8) (s\<lparr>cmem := st64 (cmem s) (unat (rd s sp) - 8) (rd s r)\<rparr>))"
  using unat_below [of 1 "rd s sp"] assms
  by (simp add: emit_sd_def emit_addi_def imm12_def ea_def sp_def)

text \<open>\<open>saved m a rs s\<close>: the values \<open>s\<close> has in \<open>rs\<close> are stored downwards from \<open>a\<close>.\<close>

definition stored :: "mem \<Rightarrow> addr \<Rightarrow> nat list \<Rightarrow> cpu \<Rightarrow> bool" where
  "stored m a rs s \<longleftrightarrow> (\<forall>i < length rs. ld64 m (a - 8 * (i + 1)) = rd s (rs ! i))"

lemma save_regs_eq: "save_regs rs = concat (map (\<lambda>r. emit_sd r sp (- WORD_SIZE) @ emit_addi sp sp (- WORD_SIZE)) rs)"
proof -
  have "map2 (\<lambda>r i. f r) rs ns = map f rs" if "length ns = length rs" for f :: "nat \<Rightarrow> asm list" and ns :: "nat list"
    using that by (induction rs ns rule: list_induct2') auto
  from this [of "[1..<Suc (length rs)]"] show ?thesis by (simp add: save_regs_def apply_regs_def del: upt_Suc)
qed

lemma exec_save_regs:
  assumes "8 * length rs \<le> unat (rd s sp)" "sp \<notin> set rs"
  shows "\<exists>s'. exec lab ext (save_regs rs) s = Some s' \<and> rd s' sp = rd s sp - 8 * of_nat (length rs) \<and>
    (\<forall>r. r \<noteq> sp \<longrightarrow> rd s' r = rd s r) \<and> stored (cmem s') (unat (rd s sp)) rs s \<and>
    (\<forall>x. x < unat (rd s sp) - 8 * length rs \<or> unat (rd s sp) \<le> x \<longrightarrow> cmem s' x = cmem s x)"
  using assms
proof (induction rs arbitrary: s)
  case Nil
  then show ?case by (simp add: save_regs_eq stored_def)
next
  case (Cons r rs)
  let ?a = "unat (rd s sp)"
  let ?s1 = "wr sp (rd s sp - 8) (s\<lparr>cmem := st64 (cmem s) (?a - 8) (rd s r)\<rparr>)"
  have a: "8 \<le> ?a" "8 * length rs \<le> ?a - 8" using Cons.prems(1) by simp_all
  have u: "unat (rd s sp - 8) = ?a - 8" using unat_below [of 1 "rd s sp"] a(1) by simp
  have sp1: "rd ?s1 sp = rd s sp - 8" by (simp add: sp_def)
  obtain s' where s': "exec lab ext (save_regs rs) ?s1 = Some s'" "rd s' sp = rd s sp - 8 - 8 * of_nat (length rs)"
    "\<forall>q. q \<noteq> sp \<longrightarrow> rd s' q = rd ?s1 q" "stored (cmem s') (?a - 8) rs ?s1"
    "\<forall>x. x < ?a - 8 - 8 * length rs \<or> ?a - 8 \<le> x \<longrightarrow> cmem s' x = cmem ?s1 x"
    using Cons.IH [of ?s1, unfolded sp1 u, OF a(2)] Cons.prems(2) by force
  have run: "exec lab ext (save_regs (r # rs)) s = Some s'"
    using exec_push [OF a(1), of lab ext r] s'(1)
    unfolding save_regs_eq by (simp only: list.map concat.simps exec_append Option.bind.bind_lunit)
  have "ld64 (cmem s') (?a - 8 * (i + 1)) = rd s ((r # rs) ! i)" if "i < length (r # rs)" for i
  proof (cases i)
    case 0
    have "ld64 (cmem s') (?a - 8) = ld64 (cmem ?s1) (?a - 8)" by (rule ld64_cong) (use s'(5) in simp)
    then show ?thesis using 0 by simp
  next
    case (Suc j)
    have "rs ! j \<in> set rs" using that Suc by simp
    then have "rs ! j \<noteq> sp" using Cons.prems(2) by (metis list.set_intros(2))
    then show ?thesis using Suc that s'(4) by (simp add: stored_def)
  qed
  then have "stored (cmem s') ?a (r # rs) s" by (simp add: stored_def)
  moreover have "cmem s' x = cmem s x" if "x < ?a - 8 * length (r # rs) \<or> ?a \<le> x" for x
  proof -
    have "cmem s' x = cmem ?s1 x" using s'(5) that by auto
    then show ?thesis using that a by (auto simp: st64_apply)
  qed
  ultimately show ?case using run s'(2,3) by auto
qed


text \<open>Loads of several registers at offsets from the stack pointer.\<close>

lemma exec_loads:
  assumes "sp \<notin> set rs" "0 \<notin> set rs" "distinct rs" "length ns = length rs" "\<forall>n \<in> set ns. imm12 (imm (off n))"
  shows "\<exists>s'. exec lab ext (concat (map2 (\<lambda>r n. emit_ld r sp (off n)) rs ns)) s = Some s' \<and> cmem s' = cmem s \<and>
    (\<forall>i < length rs. rd s' (rs ! i) = ld64 (cmem s) (ea s sp (imm (off (ns ! i))))) \<and>
    (\<forall>r. r \<notin> set rs \<longrightarrow> rd s' r = rd s r)"
  using assms
proof (induction rs arbitrary: s ns)
  case (Cons r rs)
  obtain n ns' where ns: "ns = n # ns'" using Cons.prems(4) by (cases ns) auto
  let ?s1 = "wr r (ld64 (cmem s) (ea s sp (imm (off n)))) s"
  have r: "r \<noteq> sp" "r \<noteq> 0" "r \<notin> set rs" using Cons.prems by auto
  have ea1: "ea ?s1 sp k = ea s sp k" for k using r by simp
  obtain s' where s': "exec lab ext (concat (map2 (\<lambda>r n. emit_ld r sp (off n)) rs ns')) ?s1 = Some s'" "cmem s' = cmem s"
    "\<forall>i < length rs. rd s' (rs ! i) = ld64 (cmem s) (ea s sp (imm (off (ns' ! i))))"
    "\<forall>q. q \<notin> set rs \<longrightarrow> rd s' q = rd ?s1 q"
    using Cons.IH [of ns' ?s1, unfolded ea1] Cons.prems ns by force
  have "rd s' ((r # rs) ! i) = ld64 (cmem s) (ea s sp (imm (off (ns ! i))))" if "i < length (r # rs)" for i
    using that s'(3,4) r ns by (cases i) auto
  moreover have "exec lab ext (concat (map2 (\<lambda>r n. emit_ld r sp (off n)) (r # rs) ns)) s = Some s'"
    using s'(1) Cons.prems(5) ns by (simp add: emit_ld_def)
  ultimately show ?case using s' r by auto
qed simp

lemma exec_pops:
  assumes "m \<le> 8" "8 * m \<le> 2 ^ 64 - unat (rd s sp)"
  shows "\<exists>s'. exec lab ext (concat (map (\<lambda>i. emit_ld (10 + i) sp 0 @ emit_addi sp sp WORD_SIZE) (rev [0..<m]))) s = Some s' \<and>
    cmem s' = cmem s \<and> rd s' sp = rd s sp + 8 * of_nat m \<and>
    (\<forall>i < m. rd s' (10 + i) = ld64 (cmem s) (unat (rd s sp) + 8 * (m - 1 - i))) \<and>
    (\<forall>r. r \<noteq> sp \<longrightarrow> r \<notin> {10 ..< 10 + m} \<longrightarrow> rd s' r = rd s r)"
  using assms
proof (induction m arbitrary: s)
  case (Suc m)
  let ?s1 = "wr sp (rd s sp + 8) (wr (10 + m) (ld64 (cmem s) (unat (rd s sp))) s)"
  have sp1: "rd ?s1 sp = rd s sp + 8" "sp \<noteq> 0" "sp \<noteq> 10 + m" by (simp_all add: sp_def)
  have step: "exec lab ext (emit_ld (10 + m) sp 0 @ emit_addi sp sp WORD_SIZE) s = Some ?s1"
    using sp1 by (simp add: emit_ld_def emit_addi_def imm12_def ea_def)
  show ?case
  proof (cases m)
    case 0
    then show ?thesis using step sp1 by (simp add: add.commute)
  next
    case (Suc k)
    have lt: "unat (rd s sp) + 8 < 2 ^ 64" using Suc.prems(2) Suc unat_u64_less [of "rd s sp"] by simp
    then have u: "unat (rd s sp + 8) = unat (rd s sp) + 8" by (subst unat_add_lem [THEN iffD1]) simp_all
    have p: "m \<le> 8" "8 * m \<le> 2 ^ 64 - (unat (rd s sp) + 8)" using Suc.prems by simp_all
    obtain s' where s': "exec lab ext (concat (map (\<lambda>i. emit_ld (10 + i) sp 0 @ emit_addi sp sp WORD_SIZE) (rev [0..<m]))) ?s1 = Some s'"
      "cmem s' = cmem s" "rd s' sp = rd s sp + 8 + 8 * of_nat m"
      "\<forall>i < m. rd s' (10 + i) = ld64 (cmem s) (unat (rd s sp) + 8 + 8 * (m - 1 - i))"
      "\<forall>r. r \<noteq> sp \<longrightarrow> r \<notin> {10 ..< 10 + m} \<longrightarrow> rd s' r = rd ?s1 r"
      using Suc.IH [of ?s1, unfolded sp1(1) u, OF p] by auto
    have "rd s' (10 + i) = ld64 (cmem s) (unat (rd s sp) + 8 * (Suc m - 1 - i))" if "i < Suc m" for i
    proof (cases "i = m")
      case False
      then have "i < m" "8 + 8 * (m - 1 - i) = 8 * (Suc m - 1 - i)" using that by simp_all
      then show ?thesis using s'(4) by (metis add.assoc)
    qed (use s'(5) sp1 in simp)
    moreover have "rd s' r = rd s r" if "r \<noteq> sp" "r \<notin> {10 ..< 10 + Suc m}" for r
    proof -
      have "r \<notin> {10 ..< 10 + m}" "r \<noteq> 10 + m" using that(2) by auto
      then show ?thesis using s'(5) that(1) by simp
    qed
    moreover have "exec lab ext (concat (map (\<lambda>i. emit_ld (10 + i) sp 0 @ emit_addi sp sp WORD_SIZE) (rev [0..<Suc m]))) s = Some s'"
      using exec_append [of lab ext "emit_ld (10 + m) sp 0 @ emit_addi sp sp WORD_SIZE" _ s] step s'(1) by simp
    moreover have "rd s' sp = rd s sp + 8 * of_nat (Suc m)" using s'(3) by (simp add: algebra_simps)
    ultimately show ?thesis using s'(2) by blast
  qed
qed simp


section \<open>Calls\<close>

lemma move_args_regs:
  assumes "m \<le> 8" "m \<le> st_top c" "st_top c \<le> 15"
  shows "move_args (rev [0..<m]) c =
    Inr ((emits (map (\<lambda>i. Mv (10 + i) (regs ! (st_top c - m + i))) (rev [0..<m])) c)\<lparr>st_top := st_top c - m\<rparr>)"
  using assms
proof (induction m arbitrary: c)
  case 0
  then show ?case by (simp add: emits_def)
next
  case (Suc m)
  obtain n where n: "st_top c = Suc n" using Suc.prems(2) by (cases "st_top c") auto
  have r: "arg_reg (of_nat m) = Inr (10 + m)"
    using Suc.prems(1) by (simp add: arg_reg_def word_less_nat_alt unat_of_nat_u64)
  let ?c1 = "(emits [Mv (10 + m) (regs ! n)] c)\<lparr>st_top := n\<rparr>"
  have "move_args (rev [0..<Suc m]) c = move_args (rev [0..<m]) ?c1"
    using Suc.prems(3) n r by (simp add: c_pop_def loc_at_reg symb_emit_registers)
  also have "\<dots> = Inr ((emits (map (\<lambda>i. Mv (10 + i) (regs ! (n - m + i))) (rev [0..<m])) ?c1)\<lparr>st_top := n - m\<rparr>)"
    using Suc.IH [of ?c1] Suc.prems n by simp
  finally show ?case using Suc.prems n by simp
qed

lemma exec_moves:
  assumes "m \<le> 8" "k + m \<le> 15"
  shows "\<exists>s'. exec lab ext (map (\<lambda>i. Mv (10 + i) (regs ! (k + i))) (rev [0..<m])) s = Some s' \<and> cmem s' = cmem s \<and>
    (\<forall>i < m. rd s' (10 + i) = rd s (regs ! (k + i))) \<and> (\<forall>r. r \<notin> {10 ..< 10 + m} \<longrightarrow> rd s' r = rd s r)"
  using assms
proof (induction m arbitrary: s)
  case (Suc m)
  let ?s1 = "wr (10 + m) (rd s (regs ! (k + m))) s"
  obtain s' where s': "exec lab ext (map (\<lambda>i. Mv (10 + i) (regs ! (k + i))) (rev [0..<m])) ?s1 = Some s'" "cmem s' = cmem s"
    "\<forall>i < m. rd s' (10 + i) = rd ?s1 (regs ! (k + i))" "\<forall>r. r \<notin> {10 ..< 10 + m} \<longrightarrow> rd s' r = rd ?s1 r"
    using Suc.IH [of ?s1] Suc.prems by auto
  have src: "regs ! (k + i) \<noteq> 10 + m" if "i < m" for i
    using regs_not_special(8) [of "k + i"] that Suc.prems by (auto simp: arg_regs_def)
  have "rd s' (10 + i) = rd s (regs ! (k + i))" if "i < Suc m" for i
    using that s'(3,4) src by (cases "i = m") auto
  moreover have "rd s' r = rd s r" if "r \<notin> {10 ..< 10 + Suc m}" for r
  proof -
    have "r \<notin> {10 ..< 10 + m}" "r \<noteq> 10 + m" using that by auto
    then show ?thesis using s'(4) by simp
  qed
  ultimately show ?case using s'(1,2) by (auto intro!: exI [of _ s'])
qed simp

text \<open>What a callee that follows the calling convention leaves alone.\<close>

definition conforms :: "cpu \<Rightarrow> cpu \<Rightarrow> bool" where
  "conforms s s' \<longleftrightarrow> rd s' sp = rd s sp \<and> (\<forall>r \<in> set saved_regs. rd s' r = rd s r) \<and>
     (\<forall>x. unat (rd s sp) \<le> x \<longrightarrow> x < unat (rd s sp) + 136 \<longrightarrow> cmem s' x = cmem s x)"

text \<open>
  A callee may also use the word at the stack pointer if the caller left it free: the first \<open>k\<close> bytes
  are then not among those that matter.
\<close>

definition spares :: "nat \<Rightarrow> cpu \<Rightarrow> cpu \<Rightarrow> bool" where
  "spares k s s' \<longleftrightarrow> rd s' sp = rd s sp \<and> (\<forall>r \<in> set saved_regs. rd s' r = rd s r) \<and>
     (\<forall>x. unat (rd s sp) + k \<le> x \<longrightarrow> x < unat (rd s sp) + 136 \<longrightarrow> cmem s' x = cmem s x)"

lemma conforms_spares: "conforms s s' \<Longrightarrow> spares k s s'"
  by (simp add: conforms_def spares_def)

definition call_regs :: "nat list" where "call_regs = ra # temp_regs @ arg_regs"

lemma prologue_eq: "call_prologue 0 None = emit_addi sp sp 0 @ save_regs call_regs"
  by (simp add: call_prologue_def save_regs_eq call_regs_def)

lemma stored_call_regs: "stored m a call_regs s \<Longrightarrow> i < 16 \<Longrightarrow> ld64 m (a - 8 * (i + 1)) = rd s (call_regs ! i)"
  by (simp add: stored_def call_regs_def temp_regs_def arg_regs_def)

text \<open>The code after the call puts all registers back but the one of the result.\<close>

lemma exec_restore_args:
  assumes "unat (rd s sp) = a - 128" "128 \<le> a" "a < 2 ^ 64" "stored (cmem s) a call_regs s0" "rd s0 sp = of_nat a"
  shows "\<exists>s1. exec lab ext restore_args s = Some s1 \<and> cmem s1 = cmem s \<and> rd s1 sp + 64 = rd s0 sp \<and>
    (\<forall>r \<in> set arg_regs. rd s1 r = rd s0 r) \<and> (\<forall>r. r \<noteq> sp \<longrightarrow> r \<notin> set arg_regs \<longrightarrow> rd s1 r = rd s r)"
proof -
  have sps: "rd s sp = of_nat (a - 128)" using assms(1) by (metis of_nat_unat_u64)
  have b: "8 * 8 \<le> 2 ^ 64 - unat (rd s sp)" using assms(1-3) by simp
  obtain s1 where s1: "exec lab ext restore_args s = Some s1" "cmem s1 = cmem s" "rd s1 sp = rd s sp + 8 * of_nat 8"
    "\<forall>i < 8. rd s1 (10 + i) = ld64 (cmem s) (unat (rd s sp) + 8 * (8 - 1 - i))"
    "\<forall>r. r \<noteq> sp \<longrightarrow> r \<notin> {10 ..< 10 + 8} \<longrightarrow> rd s1 r = rd s r"
    using exec_pops [OF order_refl b, of lab ext, folded restore_args_def] by blast
  have arg: "rd s1 (10 + i) = rd s0 (10 + i)" if "i < 8" for i
  proof -
    have "ld64 (cmem s) (a - 8 * ((8 + i) + 1)) = rd s0 (call_regs ! (8 + i))"
      using that by (intro stored_call_regs [OF assms(4)]) simp
    moreover have "unat (rd s sp) + 8 * (8 - 1 - i) = a - 8 * ((8 + i) + 1)" using assms(1,2) that by simp
    moreover have "call_regs ! (8 + i) = 10 + i"
      using that by (auto simp: call_regs_def temp_regs_def arg_regs_def less_Suc_eq numeral_eq_Suc)
    ultimately show ?thesis using s1(4) that by simp
  qed
  have ar: "set arg_regs = {10 ..< 10 + 8}" by (auto simp: arg_regs_def)
  have "rd s1 r = rd s0 r" if r: "r \<in> set arg_regs" for r
  proof -
    have "r - 10 < 8" "10 + (r - 10) = r" using r by (auto simp: ar)
    then show ?thesis using arg [of "r - 10"] by simp
  qed
  moreover have "rd s1 sp + 64 = rd s0 sp" using s1(3) sps assms(2,5) by (simp add: of_nat_diff)
  ultimately show ?thesis using s1 unfolding ar by blast
qed

lemma exec_restore_temps:
  assumes "rd s sp + 64 = of_nat a" "128 \<le> a" "a < 2 ^ 64" "stored (cmem s) a call_regs s0"
  shows "\<exists>s1. exec lab ext restore_temps s = Some s1 \<and> cmem s1 = cmem s \<and> rd s1 sp = of_nat a \<and>
    (\<forall>r \<in> set temp_regs. rd s1 r = rd s0 r) \<and> (\<forall>r. r \<noteq> sp \<longrightarrow> r \<notin> set temp_regs \<longrightarrow> rd s1 r = rd s r)"
proof -
  let ?s2 = "wr sp (of_nat a) s"
  have sp2: "rd ?s2 sp = of_nat a" by (simp add: sp_def)
  have a0: "unat (of_nat a :: u64) = a" using assms(3) by (simp add: unat_of_nat_u64)
  have ea2: "ea ?s2 sp (imm (- of_nat n * WORD_SIZE)) = a - 8 * n" if "n \<le> 16" for n
  proof -
    have "n < 2 ^ 28" "8 * n \<le> unat (of_nat a :: u64)" using that assms(2) a0 by simp_all
    then show ?thesis unfolding ea_def sp2 by (simp only: imm_slots unat_below a0)
  qed
  have immok: "\<forall>n \<in> set [1..<8]. imm12 (imm (- of_nat (n + 1) * WORD_SIZE))"
    using imm_slots by (auto simp: imm12_def simp del: of_nat_Suc of_nat_add)
  obtain s3 where s3: "exec lab ext (concat (map2 (\<lambda>r n. emit_ld r sp (- of_nat (n + 1) * WORD_SIZE)) temp_regs [1..<8])) ?s2 = Some s3"
    "cmem s3 = cmem s" "\<forall>i < 7. rd s3 (temp_regs ! i) = ld64 (cmem s) (ea ?s2 sp (imm (- of_nat ([1..<8] ! i + 1) * WORD_SIZE)))"
    "\<forall>r. r \<notin> set temp_regs \<longrightarrow> rd s3 r = rd ?s2 r"
    using exec_loads [of temp_regs "[1..<8]" "\<lambda>n. - of_nat (n + 1) * WORD_SIZE" lab ext ?s2] immok
    by (auto simp: temp_regs_def sp_def)
  have len: "length temp_regs = 7" by (simp add: temp_regs_def)
  have "rd s3 (temp_regs ! i) = rd s0 (temp_regs ! i)" if "i < 7" for i
  proof -
    have "ld64 (cmem s) (a - 8 * ((i + 1) + 1)) = rd s0 (call_regs ! (i + 1))"
      using that by (intro stored_call_regs [OF assms(4)]) simp
    moreover have "call_regs ! (i + 1) = temp_regs ! i"
      using that len by (simp add: call_regs_def nth_append)
    ultimately show ?thesis using s3(3) ea2 [of "i + 2"] that by (simp add: add.commute)
  qed
  then have tmp: "rd s3 r = rd s0 r" if "r \<in> set temp_regs" for r using that len by (auto simp: in_set_conv_nth)
  have rt: "restore_temps = emit_addi sp sp (8 * WORD_SIZE) @ concat (map2 (\<lambda>r n. emit_ld r sp (- of_nat (n + 1) * WORD_SIZE)) temp_regs [1..<8])"
    by (simp add: restore_temps_def apply_regs_def temp_regs_def numeral_eq_Suc del: upt_Suc of_nat_Suc)
  have "exec lab ext (emit_addi sp sp (8 * WORD_SIZE)) s = Some ?s2"
    using assms(1) by (simp add: emit_addi_def imm12_def)
  then have "exec lab ext restore_temps s = Some s3" unfolding rt using s3(1) by (rule exec_appendI)
  moreover have "rd s3 sp = of_nat a" using s3(4) sp2 by (simp add: temp_regs_def sp_def)
  ultimately show ?thesis using s3(2,4) tmp by auto
qed

lemma exec_restore:
  assumes "unat (rd s sp) = a - 128" "128 \<le> a" "a < 2 ^ 64" "stored (cmem s) a call_regs s0" "rd s0 sp = of_nat a"
  shows "\<exists>s'. exec lab ext (restore_args @ restore_temps @ emit_ld ra sp (- WORD_SIZE) @ emit_addi sp sp 0) s = Some s' \<and>
    cmem s' = cmem s \<and> (\<forall>r \<in> set (sp # call_regs). rd s' r = rd s0 r) \<and> (\<forall>r. r \<notin> set (sp # call_regs) \<longrightarrow> rd s' r = rd s r)"
proof -
  obtain s1 where s1: "exec lab ext restore_args s = Some s1" "cmem s1 = cmem s" "rd s1 sp + 64 = of_nat a"
    "\<forall>r \<in> set arg_regs. rd s1 r = rd s0 r" "\<forall>r. r \<noteq> sp \<longrightarrow> r \<notin> set arg_regs \<longrightarrow> rd s1 r = rd s r"
    using exec_restore_args [OF assms, of lab ext] assms(5) by auto
  obtain s3 where s3: "exec lab ext restore_temps s1 = Some s3" "cmem s3 = cmem s" "rd s3 sp = of_nat a"
    "\<forall>r \<in> set temp_regs. rd s3 r = rd s0 r" "\<forall>r. r \<noteq> sp \<longrightarrow> r \<notin> set temp_regs \<longrightarrow> rd s3 r = rd s1 r"
    using exec_restore_temps [OF s1(3) assms(2,3), of s0 lab ext] assms(4) s1(2) by auto
  have rra: "ld64 (cmem s) (a - 8) = rd s0 ra" using assms(4) by (auto simp: stored_def call_regs_def)
  have a0: "unat (of_nat a :: u64) = a" using assms(3) by (simp add: unat_of_nat_u64)
  let ?s5 = "wr sp (of_nat a) (wr ra (rd s0 ra) s3)"
  have "exec lab ext (emit_ld ra sp (- WORD_SIZE) @ emit_addi sp sp 0) s3 = Some ?s5"
    using s3(2,3) unat_below [of 1 "of_nat a"] assms(2) a0 rra
    by (simp add: emit_ld_def emit_addi_def imm12_def ea_def sp_def ra_def)
  then have run: "exec lab ext (restore_args @ restore_temps @ emit_ld ra sp (- WORD_SIZE) @ emit_addi sp sp 0) s = Some ?s5"
    by (rule exec_appendI [OF s1(1) exec_appendI [OF s3(1)]])
  have sets: "set call_regs = insert ra (set temp_regs \<union> set arg_regs)" "sp \<notin> set temp_regs" "ra \<notin> set temp_regs"
    "sp \<notin> set arg_regs" "ra \<notin> set arg_regs" "set temp_regs \<inter> set arg_regs = {}" "sp \<noteq> 0" "ra \<noteq> 0" "ra \<noteq> sp"
    by (auto simp: call_regs_def temp_regs_def arg_regs_def sp_def ra_def)
  have "rd ?s5 r = rd s0 r" if r: "r \<in> set (sp # call_regs)" for r
  proof -
    consider "r = sp" | "r = ra" | "r \<in> set temp_regs" | "r \<in> set arg_regs" using r sets(1) by auto
    then show ?thesis
    proof cases
      case 3
      then have "r \<noteq> sp" "r \<noteq> ra" using sets by auto
      then show ?thesis using s3(4) 3 by simp
    next
      case 4
      then have "r \<noteq> sp" "r \<noteq> ra" "r \<notin> set temp_regs" using sets by auto
      then show ?thesis using s3(5) s1(4) 4 by simp
    qed (use sets assms(5) in simp_all)
  qed
  moreover have "rd ?s5 r = rd s r" if "r \<notin> set (sp # call_regs)" for r
    using that s3(5) s1(5) sets(1) by simp
  ultimately show ?thesis using run s3(2) by (intro exI [of _ ?s5] conjI ballI allI impI) (simp_all only: cmem_wr)
qed


text \<open>The code of a call of a named function with at most eight arguments, all in registers.\<close>

lemma call_code_eq:
  assumes "compile_call (Name n) argc None c = Inr c'" "current_frame c = Some fr" "unat argc \<le> 8" "st_top c \<le> 15"
    and "al = locals_count fr AND 1" "k = st_top c - unat argc" "k < 15"
  shows "unat argc \<le> st_top c \<and> st_top c' = Suc k \<and>
    new_code c c' = emit_addi sp sp 0 @ save_regs call_regs
      @ map (\<lambda>i. Mv (10 + i) (regs ! (k + i))) (rev [0..<unat argc])
      @ (if al \<noteq> 0 then emit_addi sp sp (- WORD_SIZE) else []) @ [CallInsn n]
      @ (if al \<noteq> 0 then emit_addi sp sp WORD_SIZE else []) @ [Mv (regs ! k) 10]
      @ restore_args @ restore_temps @ emit_ld ra sp (- WORD_SIZE) @ emit_addi sp sp 0"
proof -
  have le: "unat argc \<le> st_top c"
    using compile_call_grows [OF assms(1)] by simp
  have argc8: "\<not> 8 < argc" using assms(3) by (simp add: word_less_nat_alt)
  have sc: "spilled_count (st_top c) = 0" "spilled_count (Suc k) = 0" using assms(4,7) by (simp_all add: spilled_count_def)
  have "rev (take 8 [0..<unat argc]) = rev [0..<unat argc]" using assms(3) by simp
  then show ?thesis
    using assms(1) le assms(2-7) argc8 sc move_args_regs [of "unat argc" "emits (call_prologue 0 None) c"]
    by (auto simp: compile_call_def Let_def call_label_def call_epilogue_def prologue_eq emit_call_def loc_at_reg
        symb_emit_registers new_code_def)
qed

text \<open>
  The same for a call of a function of the program: its label is a jump target, which may leave a
  comment in the output.
\<close>

lemma add_jump_target_code:
  assumes "add_jump_target t h c = Inr c'"
  shows "\<exists>cm. c' = (emits cm c)\<lparr>done_at := done_at c', todo := todo c'\<rparr> \<and> (\<forall>lab ext s. exec lab ext cm s = Some s)"
  using assms
  by (intro exI [of _ "new_code c c'"])
    (auto simp: add_jump_target_def Let_def emit_comment_def emits_def new_code_def split: option.splits if_splits)

lemma call_code_eq_offset:
  assumes "compile_call (Offset t) argc None c = Inr c'" "current_frame c = Some fr" "unat argc \<le> 8" "st_top c \<le> 15"
    and "al = locals_count fr AND 1" "k = st_top c - unat argc" "k < 15"
  shows "unat argc \<le> st_top c \<and> st_top c' = Suc k \<and> (\<exists>cm. (\<forall>lab ext s. exec lab ext cm s = Some s) \<and>
    new_code c c' = emit_addi sp sp 0 @ save_regs call_regs
      @ map (\<lambda>i. Mv (10 + i) (regs ! (k + i))) (rev [0..<unat argc])
      @ (if al \<noteq> 0 then emit_addi sp sp (- WORD_SIZE) else []) @ cm @ [CallInsn (label_for_ip t)]
      @ (if al \<noteq> 0 then emit_addi sp sp WORD_SIZE else []) @ [Mv (regs ! k) 10]
      @ restore_args @ restore_temps @ emit_ld ra sp (- WORD_SIZE) @ emit_addi sp sp 0)"
proof -
  have le: "unat argc \<le> st_top c"
    using compile_call_grows [OF assms(1)] by simp
  have argc8: "\<not> 8 < argc" using assms(3) by (simp add: word_less_nat_alt)
  have sc: "spilled_count (st_top c) = 0" "spilled_count (Suc k) = 0" using assms(4,7) by (simp_all add: spilled_count_def)
  have "rev (take 8 [0..<unat argc]) = rev [0..<unat argc]" using assms(3) by simp
  then obtain c1 c2 where r: "c1 = (emits (call_prologue 0 None @ map (\<lambda>i. Mv (10 + i) (regs ! (k + i))) (rev [0..<unat argc])
      @ (if al \<noteq> 0 then emit_addi sp sp (- WORD_SIZE) else [])) c)\<lparr>st_top := k\<rparr>"
    "add_jump_target t 0 c1 = Inr c2" "c' = call_epilogue argc al (emits (emit_call (label_for_ip t)) c2)"
    using assms(1) le assms(2-7) argc8 sc move_args_regs [of "unat argc" "emits (call_prologue 0 None) c"]
    by (auto simp: compile_call_def Let_def call_label_def res_simps)
  obtain cm where cm: "c2 = (emits cm c1)\<lparr>done_at := done_at c2, todo := todo c2\<rparr>" "\<And>lab ext s. exec lab ext cm s = Some s"
    using add_jump_target_code [OF r(2)] by blast
  have k: "st_top c2 = k" by (subst cm(1)) (simp add: r(1))
  have e: "call_epilogue argc al (emits ds c2) = (emits (ds @ (if al \<noteq> 0 then emit_addi sp sp WORD_SIZE else []) @ [Mv (regs ! k) 10]
      @ restore_args @ restore_temps @ emit_ld ra sp (- WORD_SIZE) @ emit_addi sp sp 0) c2)\<lparr>st_top := Suc k\<rparr>" for ds
    using argc8 sc assms(7) k by (simp add: call_epilogue_def Let_def loc_at_reg symb_emit_registers)
  show ?thesis
    unfolding r(3) e using le cm(2) by (subst cm(1)) (auto simp: new_code_def emits_def r(1) prologue_eq emit_call_def)
qed


lemma regs_saved: "k < 11 \<Longrightarrow> regs ! k \<notin> set (sp # call_regs)" "11 \<le> k \<Longrightarrow> k < 15 \<Longrightarrow> regs ! k \<in> set temp_regs"
proof -
  show "regs ! k \<notin> set (sp # call_regs)" if "k < 11"
  proof -
    have "regs ! k \<in> set (take 11 regs)" using that by (auto simp: in_set_conv_nth intro: exI [of _ k])
    then show ?thesis by (auto simp: regs_def call_regs_def sp_def ra_def temp_regs_def arg_regs_def)
  qed
  show "regs ! k \<in> set temp_regs" if "11 \<le> k" "k < 15"
  proof -
    have "regs ! k \<in> set (drop 11 regs)" using that by (auto simp: in_set_conv_nth intro!: exI [of _ "k - 11"])
    then show ?thesis by (auto simp: regs_def temp_regs_def)
  qed
qed

lemma saved_regs_disjoint: "r \<in> set saved_regs \<Longrightarrow> r \<noteq> 0 \<and> r \<noteq> sp \<and> r \<noteq> 10 \<and> r \<notin> set call_regs"
  by (auto simp: saved_regs_def sp_def call_regs_def ra_def temp_regs_def arg_regs_def)

text \<open>Up to the call: the registers are saved, the arguments moved, the stack aligned.\<close>

lemma call_enter:
  fixes al :: u64
  assumes "unat (rd s sp) = a" "256 \<le> a" "m \<le> 8" "k + m \<le> 15" "al = 0 \<or> al = 1"
  shows "\<exists>s1. exec lab ext (emit_addi sp sp 0 @ save_regs call_regs @ map (\<lambda>i. Mv (10 + i) (regs ! (k + i))) (rev [0..<m])
      @ (if al \<noteq> 0 then emit_addi sp sp (- WORD_SIZE) else [])) s = Some s1 \<and>
    (\<forall>i < m. rd s1 (10 + i) = rd s (regs ! (k + i))) \<and> rd s1 sp = of_nat (a - 128 - 8 * unat al) \<and>
    (\<forall>r. r \<noteq> sp \<longrightarrow> r \<notin> set arg_regs \<longrightarrow> rd s1 r = rd s r) \<and> (\<forall>x \<ge> a. cmem s1 x = cmem s x) \<and>
    stored (cmem s1) a call_regs s"
proof -
  have a: "a < 2 ^ 64" "rd s sp = of_nat a" using assms(1) unat_u64_less [of "rd s sp"] by auto
  have len: "length call_regs = 16" "sp \<notin> set call_regs" "sp \<noteq> 0"
    by (simp_all add: call_regs_def temp_regs_def arg_regs_def ra_def sp_def)
  let ?s0 = "wr sp (rd s sp) s"
  have s0: "rd ?s0 r = rd s r" for r by simp
  have z: "exec lab ext (emit_addi sp sp 0) s = Some ?s0" by (simp add: emit_addi_def imm12_def)
  have p: "8 * 16 \<le> a" using assms(2) by simp
  obtain sa where sa: "exec lab ext (save_regs call_regs) ?s0 = Some sa" "rd sa sp = rd s sp - 128"
    "\<forall>r. r \<noteq> sp \<longrightarrow> rd sa r = rd s r" "stored (cmem sa) a call_regs ?s0"
    "\<forall>x. x < a - 128 \<or> a \<le> x \<longrightarrow> cmem sa x = cmem s x"
    using exec_save_regs [of call_regs ?s0 lab ext, unfolded s0 len(1) assms(1), OF p len(2)] by auto
  obtain sb where sb: "exec lab ext (map (\<lambda>i. Mv (10 + i) (regs ! (k + i))) (rev [0..<m])) sa = Some sb" "cmem sb = cmem sa"
    "\<forall>i < m. rd sb (10 + i) = rd sa (regs ! (k + i))" "\<forall>r. r \<notin> {10 ..< 10 + m} \<longrightarrow> rd sb r = rd sa r"
    using exec_moves [OF assms(3,4)] by blast
  let ?sc = "if al \<noteq> 0 then wr sp (rd sb sp - 8) sb else sb"
  have c: "exec lab ext (if al \<noteq> 0 then emit_addi sp sp (- WORD_SIZE) else []) sb = Some ?sc"
    by (simp add: emit_addi_def imm12_def)
  have "rd sb sp = rd s sp - 128" using sb(4) sa(2) assms(3) by (simp add: sp_def)
  then have "rd ?sc sp = of_nat (a - 128 - 8 * unat al)" using a assms(2,5) len(3) by (auto simp: of_nat_diff)
  moreover have "\<forall>i < m. rd ?sc (10 + i) = rd s (regs ! (k + i))"
    using sb(3) sa(3) regs_not_special(2) assms(4) by (auto simp: sp_def)
  moreover have "rd ?sc r = rd s r" if "r \<noteq> sp" "r \<notin> set arg_regs" for r
  proof -
    have "r \<notin> {10 ..< 10 + m}" using that(2) assms(3) by (auto simp: arg_regs_def)
    then show ?thesis using sb(4) sa(3) that(1) by simp
  qed
  moreover have "\<forall>x \<ge> a. cmem ?sc x = cmem s x" using sa(5) sb(2) by simp
  moreover have "stored (cmem ?sc) a call_regs s" using sa(4) sb(2) by (simp add: stored_def)
  ultimately show ?thesis
    using exec_appendI [OF z exec_appendI [OF sa(1) exec_appendI [OF sb(1) c]]] by blast
qed

text \<open>From the return on: the alignment is undone, the result moved, the registers restored.\<close>

lemma call_leave:
  fixes al :: u64
  assumes "rd s sp = of_nat a" "256 \<le> a" "a < 2 ^ 64" "al = 0 \<or> al = 1" "k < 15"
    and s1: "rd s1 sp = of_nat (a - 128 - 8 * unat al)" "\<forall>r \<in> set saved_regs. rd s1 r = rd s r" "stored (cmem s1) a call_regs s"
    and s2: "spares (8 * unat al) s1 s2"
  shows "\<exists>s'. exec lab ext ((if al \<noteq> 0 then emit_addi sp sp WORD_SIZE else []) @ [Mv (regs ! k) 10]
      @ restore_args @ restore_temps @ emit_ld ra sp (- WORD_SIZE) @ emit_addi sp sp 0) s2 = Some s' \<and>
    cmem s' = cmem s2 \<and> rd s' (regs ! k) = (if k < 11 then rd s2 10 else rd s (regs ! k)) \<and>
    (\<forall>r \<in> set (sp # call_regs @ saved_regs). r \<noteq> regs ! k \<longrightarrow> rd s' r = rd s r)"
proof -
  let ?se = "if al \<noteq> 0 then wr sp (rd s2 sp + 8) s2 else s2"
  let ?sf = "wr (regs ! k) (rd s2 10) ?se"
  have e: "exec lab ext (if al \<noteq> 0 then emit_addi sp sp WORD_SIZE else []) s2 = Some ?se"
    by (simp add: emit_addi_def imm12_def)
  have mv: "exec lab ext [Mv (regs ! k) 10] ?se = Some ?sf" by (simp add: sp_def)
  have kreg: "regs ! k \<noteq> sp" "regs ! k \<noteq> 0" "sp \<noteq> 0" using regs_not_special [OF assms(5)] by (simp_all add: sp_def)
  have "rd s2 sp = of_nat (a - 128 - 8 * unat al)" using s1(1) s2 by (simp add: spares_def)
  then have "rd ?sf sp = of_nat (a - 128)" using assms(2,4) kreg by (auto simp: of_nat_diff)
  moreover have "a - 128 < 2 ^ 64" using assms(3) by simp
  ultimately have spf: "unat (rd ?sf sp) = a - 128" by (simp only: unat_of_nat_u64)
  have uc: "unat (rd s1 sp) = a - 128 - 8 * unat al" unfolding s1(1) using assms(3) by (simp add: unat_of_nat_u64)
  have mem: "cmem s2 x = cmem s1 x" if "a - 128 \<le> x" "x < a" for x
  proof -
    have "unat (rd s1 sp) + 8 * unat al \<le> x" "x < unat (rd s1 sp) + 136" unfolding uc using that assms(2,4) by auto
    then show ?thesis using s2 by (simp add: spares_def)
  qed
  have stf: "stored (cmem ?sf) a call_regs s"
    unfolding stored_def
  proof (intro allI impI)
    fix i assume i: "i < length call_regs"
    then have "i < 16" by (simp add: call_regs_def temp_regs_def arg_regs_def)
    then have "ld64 (cmem ?sf) (a - 8 * (i + 1)) = ld64 (cmem s1) (a - 8 * (i + 1))"
      using assms(2) by (intro ld64_cong) (simp add: mem)
    then show "ld64 (cmem ?sf) (a - 8 * (i + 1)) = rd s (call_regs ! i)" using s1(3) i by (simp add: stored_def)
  qed
  have a128: "128 \<le> a" using assms(2) by simp
  obtain s' where s': "exec lab ext (restore_args @ restore_temps @ emit_ld ra sp (- WORD_SIZE) @ emit_addi sp sp 0) ?sf = Some s'"
    "cmem s' = cmem ?sf" "\<forall>r \<in> set (sp # call_regs). rd s' r = rd s r" "\<forall>r. r \<notin> set (sp # call_regs) \<longrightarrow> rd s' r = rd ?sf r"
    using exec_restore [OF spf a128 assms(3) stf assms(1), of lab ext] by blast
  have res: "rd s' (regs ! k) = (if k < 11 then rd s2 10 else rd s (regs ! k))"
  proof (cases "k < 11")
    case True
    then show ?thesis using s'(4) regs_saved(1) [OF True] kreg by simp
  next
    case False
    then have "regs ! k \<in> set (sp # call_regs)" using regs_saved(2) [of k] assms(5) by (simp add: call_regs_def)
    then have "rd s' (regs ! k) = rd s (regs ! k)" using s'(3) by blast
    then show ?thesis using False by simp
  qed
  have "rd s' r = rd s r" if "r \<in> set (sp # call_regs @ saved_regs)" "r \<noteq> regs ! k" for r
  proof (cases "r \<in> set (sp # call_regs)")
    case False
    then have r: "r \<in> set saved_regs" "r \<noteq> sp" using that(1) by auto
    then have "rd s' r = rd s2 r" using s'(4) False that(2) by simp
    then show ?thesis using s2 s1(2) r(1) by (simp add: spares_def)
  qed (use s'(3) in blast)
  then show ?thesis using exec_appendI [OF e exec_appendI [OF mv s'(1)]] s'(2) res by (intro exI [of _ s']) simp
qed

lemma call_code_correct:
  assumes "compile_call (Name n) argc None c = Inr c'" "current_frame c = Some fr" "unat argc \<le> 8" "st_top c \<le> 15"
    and "k = st_top c - unat argc" "k < 15" "256 \<le> unat (rd s sp)"
    and "\<And>s1. \<forall>i < unat argc. rd s1 (10 + i) = rd s (regs ! (k + i)) \<Longrightarrow>
      unat (rd s1 sp) = unat (rd s sp) - 128 - 8 * unat (locals_count fr AND 1) \<Longrightarrow>
      \<forall>x \<ge> unat (rd s sp). cmem s1 x = cmem s x \<Longrightarrow> \<exists>s2. ext n s1 = Some s2 \<and> conforms s1 s2"
  shows "\<exists>s1 s2 s'. exec lab ext (new_code c c') s = Some s' \<and> ext n s1 = Some s2 \<and> conforms s1 s2 \<and>
    (\<forall>i < unat argc. rd s1 (10 + i) = rd s (regs ! (k + i))) \<and>
    unat (rd s1 sp) = unat (rd s sp) - 128 - 8 * unat (locals_count fr AND 1) \<and>
    (\<forall>r \<in> set saved_regs. rd s1 r = rd s r) \<and> (\<forall>x \<ge> unat (rd s sp). cmem s1 x = cmem s x) \<and>
    cmem s' = cmem s2 \<and> rd s' (regs ! k) = (if k < 11 then rd s2 10 else rd s (regs ! k)) \<and>
    (\<forall>r \<in> set (sp # call_regs @ saved_regs). r \<noteq> regs ! k \<longrightarrow> rd s' r = rd s r)"
proof -
  define a where "a = unat (rd s sp)"
  define al where "al = locals_count fr AND 1"
  note code = call_code_eq [OF assms(1-4) al_def assms(5,6)]
  have a: "256 \<le> a" "a < 2 ^ 64" "rd s sp = of_nat a" using assms(7) unat_u64_less [of "rd s sp"] by (simp_all add: a_def)
  have al: "al = 0 \<or> al = 1" using u64_and_1_cases unfolding al_def .
  have k8: "k + unat argc \<le> 15" using code assms(4,5) by simp
  obtain s1 where s1: "exec lab ext (emit_addi sp sp 0 @ save_regs call_regs
      @ map (\<lambda>i. Mv (10 + i) (regs ! (k + i))) (rev [0..<unat argc]) @ (if al \<noteq> 0 then emit_addi sp sp (- WORD_SIZE) else [])) s = Some s1"
    "\<forall>i < unat argc. rd s1 (10 + i) = rd s (regs ! (k + i))" "rd s1 sp = of_nat (a - 128 - 8 * unat al)"
    "\<forall>r. r \<noteq> sp \<longrightarrow> r \<notin> set arg_regs \<longrightarrow> rd s1 r = rd s r" "\<forall>x \<ge> a. cmem s1 x = cmem s x" "stored (cmem s1) a call_regs s"
    using call_enter [OF a_def [symmetric] a(1) assms(3) k8 al, of lab ext] by blast
  have sav: "\<forall>r \<in> set saved_regs. rd s1 r = rd s r" using s1(4) by (auto simp: saved_regs_def sp_def arg_regs_def)
  have uc: "unat (rd s1 sp) = a - 128 - 8 * unat al" unfolding s1(3) using a(2) by (simp add: unat_of_nat_u64)
  obtain s2 where s2: "ext n s1 = Some s2" "conforms s1 s2"
    using assms(8) [folded a_def al_def, OF s1(2) uc s1(5)] by blast
  obtain s' where s': "exec lab ext ((if al \<noteq> 0 then emit_addi sp sp WORD_SIZE else []) @ [Mv (regs ! k) 10]
      @ restore_args @ restore_temps @ emit_ld ra sp (- WORD_SIZE) @ emit_addi sp sp 0) s2 = Some s'"
    "cmem s' = cmem s2" "rd s' (regs ! k) = (if k < 11 then rd s2 10 else rd s (regs ! k))"
    "\<forall>r \<in> set (sp # call_regs @ saved_regs). r \<noteq> regs ! k \<longrightarrow> rd s' r = rd s r"
    using call_leave [OF a(3,1,2) al assms(6) s1(3) sav s1(6) conforms_spares [OF s2(2)], of lab ext] by blast
  have call: "exec lab ext [CallInsn n] s1 = Some s2" using s2(1) by simp
  have run: "exec lab ext (new_code c c') s = Some s'"
    using exec_appendI [OF s1(1) exec_appendI [OF call s'(1)]]
    unfolding code [THEN conjunct2, THEN conjunct2] by (simp only: append_assoc)
  show ?thesis
    using run s2 s1(2,5) sav uc s' unfolding a_def [symmetric] al_def [symmetric]
    by (intro exI [of _ s1] exI [of _ s2] exI [of _ s']) simp
qed

end
