(* ===== verification/Frame_Code.thy ===== *)
theory Frame_Code
  imports Codegen_Correct
begin

text \<open>
  The code at the entry and the exit of a function, accesses to its variables, and operands that do
  not fit into registers.
\<close>

section \<open>Saving registers in the frame\<close>

text \<open>The slot of the \<open>i\<close>-th saved register, below \<open>l\<close> local variables.\<close>

definition frame_off :: "nat \<Rightarrow> nat \<Rightarrow> u64" where
  "frame_off l i = - (of_nat i + of_nat l) * WORD_SIZE"

lemma imm12_words: "imm12 (- 8 * int n) \<longleftrightarrow> n \<le> 256"
  by (auto simp: imm12_def)

lemma imm12_pos: "imm12 (8 * int n) \<longleftrightarrow> n \<le> 255"
  by (auto simp: imm12_def)

lemma imm_frame_off: "i + l < 2 ^ 27 \<Longrightarrow> imm (frame_off l i) = - 8 * int (i + l)"
  using imm_slots [of "i + l"] by (simp add: frame_off_def)

lemma exec_stores:
  assumes "8 * (k + length rs + l) \<le> 2056" "8 * (k + length rs + l) \<le> unat (rd s sp) + 8"
  shows "\<exists>s'. exec lab ext (concat (map2 (\<lambda>r i. emit_sd r sp (frame_off l i)) rs [k..<k + length rs])) s = Some s' \<and>
    (\<forall>r. rd s' r = rd s r) \<and> (\<forall>i < length rs. ld64 (cmem s') (unat (rd s sp) - 8 * (k + i + l)) = rd s (rs ! i)) \<and>
    (\<forall>x. x < unat (rd s sp) + 8 - 8 * (k + length rs + l) \<or> unat (rd s sp) + 8 - 8 * (k + l) \<le> x \<longrightarrow> cmem s' x = cmem s x)"
  using assms
proof (induction rs arbitrary: s k)
  case (Cons r rs)
  let ?a = "unat (rd s sp) - 8 * (k + l)"
  let ?s1 = "s\<lparr>cmem := st64 (cmem s) ?a (rd s r)\<rparr>"
  have im: "imm (frame_off l k) = - 8 * int (k + l)" using Cons.prems(1) by (intro imm_frame_off) simp
  have ad: "ea s sp (- 8 * int (k + l)) = ?a" unfolding ea_def using Cons.prems(2) by (intro unat_below) simp
  have p: "8 * (Suc k + length rs + l) \<le> 2056" "8 * (Suc k + length rs + l) \<le> unat (rd s sp) + 8"
    using Cons.prems by simp_all
  obtain s' where s': "exec lab ext (concat (map2 (\<lambda>r i. emit_sd r sp (frame_off l i)) rs [Suc k..<Suc k + length rs])) ?s1 = Some s'"
    "\<forall>q. rd s' q = rd s q" "\<forall>i < length rs. ld64 (cmem s') (unat (rd s sp) - 8 * (Suc k + i + l)) = rd s (rs ! i)"
    "\<forall>x. x < unat (rd s sp) + 8 - 8 * (Suc k + length rs + l) \<or> unat (rd s sp) + 8 - 8 * (Suc k + l) \<le> x \<longrightarrow> cmem s' x = cmem ?s1 x"
    using Cons.IH [of "Suc k" ?s1, unfolded rd_cmem, OF p] by blast
  have up: "[k..<k + length (r # rs)] = k # [Suc k..<Suc k + length rs]" by (subst upt_conv_Cons) simp_all
  have run: "exec lab ext (concat (map2 (\<lambda>r i. emit_sd r sp (frame_off l i)) (r # rs) [k..<k + length (r # rs)])) s = Some s'"
    unfolding up zip_Cons_Cons list.map prod.case concat.simps by (rule exec_appendI [OF _ s'(1)])
      (use Cons.prems(1) ad in \<open>simp add: emit_sd_def im imm12_def del: of_nat_add\<close>)
  have first: "ld64 (cmem s') ?a = rd s r"
  proof -
    have "ld64 (cmem s') ?a = ld64 (cmem ?s1) ?a" by (rule ld64_cong) (use s'(4) Cons.prems(2) in simp)
    then show ?thesis by simp
  qed
  have "ld64 (cmem s') (unat (rd s sp) - 8 * (k + i + l)) = rd s ((r # rs) ! i)" if "i < length (r # rs)" for i
    using first s'(3) that by (cases i) simp_all
  moreover have "cmem s' x = cmem s x"
    if x: "x < unat (rd s sp) + 8 - 8 * (k + length (r # rs) + l) \<or> unat (rd s sp) + 8 - 8 * (k + l) \<le> x" for x
  proof -
    have "cmem s' x = cmem ?s1 x" using s'(4) x by auto
    then show ?thesis using x Cons.prems(2) by (auto simp: st64_apply)
  qed
  ultimately show ?case using run s'(2) by blast
qed simp


section \<open>Entry and exit\<close>

lemma emit_Begin_code:
  assumes "emit_Begin i argc locc c = Inr c'" "i \<noteq> Name ''main''"
  shows "\<exists>cs. new_code c c' = cs @ concat (map2 (\<lambda>r i. emit_sd r sp (frame_off (unat locc) i)) saved_regs [1..<1 + length saved_regs])
      @ emit_mv fp sp @ emit_addi sp sp (- (locc + 12) * WORD_SIZE) \<and> (\<forall>lab ext s. exec lab ext cs s = Some s) \<and>
    (\<exists>n. current_frame c' = Some \<lparr>function_name = n, locals_count = locc, args_count = argc\<rparr> \<and> n \<noteq> ''main'') \<and>
    st_top c' = st_top c"
proof -
  have a: "apply_regs rs f = concat (map2 f rs [1..<1 + length rs])" for rs and f :: "nat \<Rightarrow> nat \<Rightarrow> asm list"
    by (simp add: apply_regs_def)
  show ?thesis
    using assms
    by (cases i) (auto simp: emit_Begin_def new_code_def a label_for_ip_def emit_label_def Let_def frame_off_def)
qed

lemma emit_End_code:
  assumes "emit_End d = Inr d'" "current_frame d = Some fr" "function_name fr \<noteq> ''main''" "st_top d \<le> 15"
  shows "st_top d > 0 \<and> new_code d d' = [Mv 10 (regs ! (st_top d - 1))] @ emit_mv sp fp
      @ concat (map2 (\<lambda>r i. emit_ld r sp (frame_off (unat (locals_count fr)) i)) saved_regs [1..<1 + length saved_regs])
      @ [Ret]"
proof -
  have a: "apply_regs rs f = concat (map2 f rs [1..<1 + length rs])" for rs and f :: "nat \<Rightarrow> nat \<Rightarrow> asm list"
    by (simp add: apply_regs_def)
  obtain n where n: "st_top d = Suc n" "n < 15" using assms(1,4) by (auto simp: emit_End_def assms(2) res_simps c_pop_Inr)
  then show ?thesis
    using assms(1,2,3) by (auto simp: emit_End_def res_simps c_pop_Inr a loc_at_reg symb_emit_registers emit_ret_def frame_off_def)
qed

lemma saved_regs_list: "length saved_regs = 12" "sp \<notin> set saved_regs" "0 \<notin> set saved_regs" "distinct saved_regs" "10 \<notin> set saved_regs"
  by (simp_all add: saved_regs_def sp_def)

lemma frame_words: "unat (locc :: u64) \<le> 244 \<Longrightarrow> imm (- (locc + 12) * WORD_SIZE) = - 8 * int (unat locc + 12)"
  using imm_slots [of "unat locc + 12"] by (simp add: of_nat_unat_u64)

text \<open>The registers \<open>a\<close> words of frame save: \<open>in_frame m a l s\<close>.\<close>

definition in_frame :: "mem \<Rightarrow> addr \<Rightarrow> nat \<Rightarrow> cpu \<Rightarrow> bool" where
  "in_frame m a l s \<longleftrightarrow> (\<forall>i < 12. ld64 m (a - 8 * (1 + i + l)) = rd s (saved_regs ! i))"

lemma begin_code:
  assumes "emit_Begin i argc locc c = Inr c'" "i \<noteq> Name ''main''" "unat locc \<le> 244" "8 * (unat locc + 12) \<le> unat (rd s sp)"
  shows "\<exists>s1. exec lab ext (new_code c c') s = Some s1 \<and> rd s1 fp = rd s sp \<and>
    unat (rd s1 sp) = unat (rd s sp) - 8 * (unat locc + 12) \<and> (\<forall>r. r \<noteq> sp \<longrightarrow> r \<noteq> fp \<longrightarrow> rd s1 r = rd s r) \<and>
    in_frame (cmem s1) (unat (rd s sp)) (unat locc) s \<and>
    (\<forall>x. x < unat (rd s sp) - 8 * (unat locc + 12) \<or> unat (rd s sp) - 8 * unat locc \<le> x \<longrightarrow> cmem s1 x = cmem s x)"
proof -
  obtain cs where code: "new_code c c' = cs @ concat (map2 (\<lambda>r i. emit_sd r sp (frame_off (unat locc) i)) saved_regs [1..<1 + length saved_regs])
      @ emit_mv fp sp @ emit_addi sp sp (- (locc + 12) * WORD_SIZE)" "exec lab ext cs s = Some s"
    using emit_Begin_code [OF assms(1,2)] by blast
  have p: "8 * (1 + length saved_regs + unat locc) \<le> 2056" "8 * (1 + length saved_regs + unat locc) \<le> unat (rd s sp) + 8"
    using assms(3,4) by (simp_all add: saved_regs_list)
  obtain s0 where s0: "exec lab ext (concat (map2 (\<lambda>r i. emit_sd r sp (frame_off (unat locc) i)) saved_regs [1..<1 + length saved_regs])) s = Some s0"
    "\<forall>r. rd s0 r = rd s r" "\<forall>i < 12. ld64 (cmem s0) (unat (rd s sp) - 8 * (1 + i + unat locc)) = rd s (saved_regs ! i)"
    "\<forall>x. x < unat (rd s sp) + 8 - 8 * (1 + 12 + unat locc) \<or> unat (rd s sp) + 8 - 8 * (1 + unat locc) \<le> x \<longrightarrow> cmem s0 x = cmem s x"
    using exec_stores [OF p, of lab ext] unfolding saved_regs_list(1) by blast
  let ?s1 = "wr sp (rd s sp + word_of_int (- 8 * int (unat locc + 12))) (wr fp (rd s sp) s0)"
  have "exec lab ext (emit_mv fp sp @ emit_addi sp sp (- (locc + 12) * WORD_SIZE)) s0 = Some ?s1"
    unfolding emit_mv_def emit_addi_def frame_words [OF assms(3)] using assms(3) s0(2)
    by (simp add: imm12_def sp_def fp_def del: of_nat_add)
  then have "exec lab ext (new_code c c') s = Some ?s1"
    unfolding code(1) by (rule exec_appendI [OF code(2) exec_appendI [OF s0(1)]])
  moreover have "unat (rd ?s1 sp) = unat (rd s sp) - 8 * (unat locc + 12)"
    using unat_below [OF assms(4)] by (simp add: sp_def)
  ultimately show ?thesis
    using s0(2,3,4) assms(4) by (intro exI [of _ ?s1]) (simp add: in_frame_def sp_def fp_def)
qed

lemma end_code:
  assumes "emit_End d = Inr d'" "current_frame d = Some fr" "function_name fr \<noteq> ''main''" "st_top d \<le> 15"
    and "unat (locals_count fr) \<le> 244" "8 * (unat (locals_count fr) + 12) \<le> unat (rd s fp)"
    and "in_frame (cmem s) (unat (rd s fp)) (unat (locals_count fr)) s0"
  shows "\<exists>s'. last (new_code d d') = Ret \<and> exec lab ext (butlast (new_code d d')) s = Some s' \<and> rd s' sp = rd s fp \<and>
    (\<forall>r \<in> set saved_regs. rd s' r = rd s0 r) \<and> rd s' 10 = rd s (regs ! (st_top d - 1)) \<and> cmem s' = cmem s \<and>
    rd s' ra = rd s ra"
proof -
  let ?l = "unat (locals_count fr)"
  define ld where "ld = concat (map2 (\<lambda>r i. emit_ld r sp (frame_off ?l i)) saved_regs [1..<1 + length saved_regs])"
  have code: "new_code d d' = ([Mv 10 (regs ! (st_top d - 1))] @ emit_mv sp fp @ ld) @ [Ret]"
    using emit_End_code [OF assms(1-4)] by (simp add: ld_def)
  let ?s1 = "wr sp (rd s fp) (wr 10 (rd s (regs ! (st_top d - 1))) s)"
  have 1: "exec lab ext ([Mv 10 (regs ! (st_top d - 1))] @ emit_mv sp fp) s = Some ?s1"
    by (simp add: emit_mv_def emit_addi_def imm12_def sp_def fp_def)
  have im: "imm (frame_off ?l n) = - 8 * int (n + ?l)" if "n \<le> 12" for n
    using assms(5) that by (intro imm_frame_off) simp
  have ok: "\<forall>n \<in> set [1..<1 + length saved_regs]. imm12 (imm (frame_off ?l n))"
  proof
    fix n assume "n \<in> set [1..<1 + length saved_regs]"
    then have "n \<le> 12" by (simp add: saved_regs_list)
    then show "imm12 (imm (frame_off ?l n))" unfolding im [OF \<open>n \<le> 12\<close>] imm12_words using assms(5) by linarith
  qed
  have len: "length [1..<1 + length saved_regs] = length saved_regs" by (simp only: length_upt)
  obtain s' where s': "exec lab ext ld ?s1 = Some s'" "cmem s' = cmem s"
    "\<forall>i < 12. rd s' (saved_regs ! i) = ld64 (cmem s) (ea ?s1 sp (imm (frame_off ?l ([1..<1 + 12] ! i))))"
    "\<forall>r. r \<notin> set saved_regs \<longrightarrow> rd s' r = rd ?s1 r"
    using exec_loads [OF saved_regs_list(2,3,4) len ok, of lab ext ?s1] unfolding ld_def saved_regs_list(1) by auto
  have "rd s' (saved_regs ! i) = rd s0 (saved_regs ! i)" if i: "i < 12" for i
  proof -
    have "rd ?s1 sp = rd s fp" by (simp add: sp_def)
    then have "ea ?s1 sp (imm (frame_off ?l (1 + i))) = unat (rd s fp) - 8 * (1 + i + ?l)"
      using i im [of "1 + i"] unat_below [of "1 + i + ?l" "rd s fp"] assms(6) by (simp add: ea_def)
    then show ?thesis using s'(3) assms(7) i by (simp add: in_frame_def)
  qed
  then have "\<forall>r \<in> set saved_regs. rd s' r = rd s0 r" by (auto simp: in_set_conv_nth saved_regs_list)
  moreover have "exec lab ext (butlast (new_code d d')) s = Some s'"
    unfolding code butlast_snoc append_assoc [symmetric] by (rule exec_appendI [OF 1 s'(1)])
  moreover have "rd s' sp = rd s fp" "rd s' 10 = rd s (regs ! (st_top d - 1))" "rd s' ra = rd s ra"
    using s'(4) saved_regs_list by (simp_all add: sp_def ra_def saved_regs_def)
  ultimately show ?thesis using s'(2) by (intro exI [of _ s']) (simp add: code)
qed

lemma begin_too_large:
  assumes "emit_Begin i argc locc c = Inr c'" "i \<noteq> Name ''main''" "244 < unat locc" "unat locc < 2 ^ 27"
  shows "exec lab ext (new_code c c') s = None"
proof -
  have "imm (- (locc + 12) * WORD_SIZE) = - 8 * int (unat locc + 12)"
    using imm_slots [of "unat locc + 12"] assms(4) by (simp add: of_nat_unat_u64)
  then have "\<not> imm12 (imm (- (locc + 12) * WORD_SIZE))" using assms(3) by (simp only: imm12_words)
  then have "exec lab ext (emit_addi sp sp (- (locc + 12) * WORD_SIZE)) t = None" for t
    by (simp add: emit_addi_def)
  then show ?thesis
    using emit_Begin_code [OF assms(1,2)] by (auto simp: exec_append split: Option.bind_splits)
qed

section \<open>Variables\<close>

text \<open>The address of a local or global variable.\<close>

definition var_addr :: "cpu \<Rightarrow> location_entry \<Rightarrow> addr" where
  "var_addr s e = (if kind e = Global then unat (rd s gp) + 8 * unat (index e) else unat (rd s fp) - 8 * unat (index e))"

definition var_ok :: "cpu \<Rightarrow> location_entry \<Rightarrow> bool" where
  "var_ok s e \<longleftrightarrow> (kind e = Local \<or> kind e = Global) \<and> unat (index e) \<le> 255 \<and>
     2048 \<le> unat (rd s fp) \<and> unat (rd s gp) + 2048 < 2 ^ 64"

lemma entry_off_int: "- (2 ^ 28) \<le> k \<Longrightarrow> k < 2 ^ 28 \<Longrightarrow> entry_off (word_of_int k) = 8 * k"
proof -
  assume k: "- (2 ^ 28) \<le> k" "k < 2 ^ 28"
  have "entry_off (word_of_int k) = sint (word_of_int (8 * k) :: i32)"
    by (simp add: entry_off_def mult.commute)
  also have "\<dots> = 8 * k" using k by (subst signed_of_int, subst signed_take_bit_int_eq_self) simp_all
  finally show ?thesis .
qed

lemma entry_off_small:
  assumes "unat i \<le> 255"
  shows "entry_off i = 8 * int (unat i)" "entry_off (- i) = - 8 * int (unat i)"
proof -
  have i: "word_of_int (int (unat i)) = i" "word_of_int (- int (unat i)) = - i" by simp_all
  have "- (2 ^ 28) \<le> int n \<and> int n < 2 ^ 28 \<and> - (2 ^ 28) \<le> - int n \<and> - int n < 2 ^ 28" if "n \<le> 255" for n
    using that by simp
  note b = this [OF assms]
  show "entry_off i = 8 * int (unat i)" using b entry_off_int [of "int (unat i)", unfolded i] by (elim conjE) blast
  show "entry_off (- i) = - 8 * int (unat i)" using b entry_off_int [of "- int (unat i)", unfolded i] by (elim conjE) simp
qed

definition base_reg :: "location_entry \<Rightarrow> nat" where "base_reg e = (if kind e = Global then gp else fp)"
definition var_off :: "location_entry \<Rightarrow> int" where "var_off e = (if kind e = Global then entry_off (index e) else entry_off (- index e))"

lemma var_access:
  assumes "var_ok s e"
  shows "imm12 (var_off e)" "ea s (base_reg e) (var_off e) = var_addr s e"
proof -
  have i: "unat (index e) \<le> 255" using assms by (simp add: var_ok_def)
  show "imm12 (var_off e)"
    using i unfolding var_off_def entry_off_small [OF i]
    by (cases "kind e = Global") (simp_all only: imm12_words imm12_pos if_True if_False simp_thms)
  have "unat (rd s gp + word_of_int (8 * int (unat (index e)))) = unat (rd s gp) + 8 * unat (index e)"
  proof -
    have "unat (of_nat (8 * unat (index e)) :: u64) = 8 * unat (index e)" using i by (intro unat_of_nat_u64) simp
    then have "unat (rd s gp + of_nat (8 * unat (index e))) = unat (rd s gp) + 8 * unat (index e)"
      using assms i by (subst unat_add_lem [THEN iffD1]) (simp_all add: var_ok_def)
    then show ?thesis by simp
  qed
  moreover have "unat (rd s fp + word_of_int (- 8 * int (unat (index e)))) = unat (rd s fp) - 8 * unat (index e)"
    by (rule unat_below) (use assms in \<open>simp add: var_ok_def\<close>)
  ultimately show "ea s (base_reg e) (var_off e) = var_addr s e"
    unfolding ea_def var_off_def base_reg_def var_addr_def entry_off_small [OF i] by simp
qed

lemma store_code:
  assumes "emit_Store e c = Inr c'" "var_ok s e" "st_top c \<le> 15"
  shows "st_top c' = st_top c \<and> 0 < st_top c \<and> current_frame c' = current_frame c \<and> globals_count c' = globals_count c \<and>
    exec lab ext (new_code c c') s = Some (s\<lparr>cmem := st64 (cmem s) (var_addr s e) (rd s (regs ! (st_top c - 1)))\<rparr>)"
proof -
  obtain n where n: "st_top c = Suc n" "n < 15"
    using assms(1,3) by (cases "st_top c") (auto simp: emit_Store_def peek_loc_def res_simps)
  have k: "kind e = Local \<or> kind e = Global" using assms(2) by (simp add: var_ok_def)
  have "c' = emits [S_type SD (regs ! n) (base_reg e) (var_off e)] c"
    using assms(1) n k by (auto simp: emit_Store_def loc_at_reg symb_emit_registers base_reg_def var_off_def)
  then show ?thesis using var_access [OF assms(2)] n by simp
qed

lemma load_code:
  assumes "emit_Load e c = Inr c'" "var_ok s e" "st_top c < 15"
  shows "st_top c' = Suc (st_top c) \<and>
    exec lab ext (new_code c c') s = Some (wr (regs ! st_top c) (ld64 (cmem s) (var_addr s e)) s)"
proof -
  have k: "kind e = Local \<or> kind e = Global" using assms(2) by (simp add: var_ok_def)
  have "c' = (emits [S_type LD (regs ! st_top c) (base_reg e) (var_off e)] c)\<lparr>st_top := Suc (st_top c)\<rparr>"
    using assms(1,3) k
    by (auto simp: emit_Load_def loc_at_reg symb_emit_registers base_reg_def var_off_def split: option.splits if_splits)
  then show ?thesis using var_access [OF assms(2)] by simp
qed

lemma in_frame_cong:
  assumes "in_frame m a l s" "8 * (l + 12) \<le> a" "\<And>x. a - 8 * (l + 12) \<le> x \<Longrightarrow> x < a - 8 * l \<Longrightarrow> m' x = m x"
  shows "in_frame m' a l s"
  unfolding in_frame_def
proof (intro allI impI)
  fix i :: nat assume i: "i < 12"
  have "ld64 m' (a - 8 * (1 + i + l)) = ld64 m (a - 8 * (1 + i + l))"
    by (rule ld64_cong, rule assms(3)) (use i assms(2) in simp_all)
  then show "ld64 m' (a - 8 * (1 + i + l)) = rd s (saved_regs ! i)" using assms(1) i by (simp add: in_frame_def)
qed

section \<open>Operands in memory\<close>

lemma slot_access:
  assumes "n \<le> 256" "8 * n \<le> unat (rd s sp)"
  shows "imm12 (imm (slot_off n))" "ea s sp (imm (slot_off n)) = unat (rd s sp) - 8 * n"
proof -
  have im: "imm (slot_off n) = - 8 * int n" unfolding slot_off_def using assms(1) by (intro imm_slots) simp
  show "imm12 (imm (slot_off n))" unfolding im imm12_words by (rule assms(1))
  show "ea s sp (imm (slot_off n)) = unat (rd s sp) - 8 * n" unfolding im ea_def by (rule unat_below [OF assms(2)])
qed

text \<open>An operation on operands in memory stores its result; an operation with an immediate does not.\<close>

lemma exec_spilled:
  assumes "m \<le> 256" "n \<le> 256" "8 * m \<le> unat (rd s sp)" "8 * n \<le> unat (rd s sp)"
  shows "\<exists>s'. exec lab ext (symb_emit_r op (Memory m) (Memory m) (Memory n)) s = Some s' \<and> rd s' sp = rd s sp \<and>
      cmem s' = st64 (cmem s) (unat (rd s sp) - 8 * m) (alu op (ld64 (cmem s) (unat (rd s sp) - 8 * m)) (ld64 (cmem s) (unat (rd s sp) - 8 * n)))"
    and "alui j (ld64 (cmem s) (unat (rd s sp) - 8 * m)) k = Some v \<Longrightarrow>
      \<exists>s'. exec lab ext (symb_emit_i j (Memory m) (Memory m) k) s = Some s' \<and> rd s' sp = rd s sp \<and> cmem s' = cmem s"
proof -
  note a = slot_access [OF assms(1,3)] slot_access [OF assms(2,4)]
  have t: "temp1 \<noteq> sp" "temp2 \<noteq> sp" "temp1 \<noteq> 0" "temp2 \<noteq> 0" "temp1 \<noteq> temp2" "sp \<noteq> 0" by (simp_all add: temp1_def temp2_def sp_def)
  show "\<exists>s'. exec lab ext (symb_emit_r op (Memory m) (Memory m) (Memory n)) s = Some s' \<and> rd s' sp = rd s sp \<and>
      cmem s' = st64 (cmem s) (unat (rd s sp) - 8 * m) (alu op (ld64 (cmem s) (unat (rd s sp) - 8 * m)) (ld64 (cmem s) (unat (rd s sp) - 8 * n)))"
    using a t t [symmetric] by (simp add: symb_emit_r_def emit_ld_def emit_sd_def emit_r_def)
  show "\<exists>s'. exec lab ext (symb_emit_i j (Memory m) (Memory m) k) s = Some s' \<and> rd s' sp = rd s sp \<and> cmem s' = cmem s"
    if "alui j (ld64 (cmem s) (unat (rd s sp) - 8 * m)) k = Some v"
    using a t t [symmetric] that by (simp add: symb_emit_i_def emit_ld_def)
qed

text \<open>Slot 0 is the word that holds \<open>s11\<close>; a local variable is above the saved registers.\<close>

lemma slot0_in_frame:
  assumes "8 * (l + 12) \<le> f" "in_frame m f l s0"
  shows "in_frame (st64 m (f - 8 * (l + 12)) v) f l s0 \<longleftrightarrow> v = rd s0 27"
proof -
  have w: "ld64 (st64 m (f - 8 * (l + 12)) v) (f - 8 * (1 + i + l)) = (if i = 11 then v else rd s0 (saved_regs ! i))"
    if "i < 12" for i
  proof (cases "i = 11")
    case False
    have "f - 8 * (l + 12) + 8 \<le> f - 8 * (1 + i + l)" using assms(1) that False by simp
    then have "ld64 (st64 m (f - 8 * (l + 12)) v) (f - 8 * (1 + i + l)) = ld64 m (f - 8 * (1 + i + l))"
      by (simp add: ld64_st64_other del: mult_Suc_right add_Suc add_Suc_right)
    then show ?thesis using False assms(2) that by (simp add: in_frame_def)
  qed (simp add: add.commute)
  have g: "(\<forall>i < 12. (if i = 11 then v else g i) = g i) \<longleftrightarrow> v = g 11" for g :: "nat \<Rightarrow> u64" by auto
  have "in_frame (st64 m (f - 8 * (l + 12)) v) f l s0 \<longleftrightarrow>
      (\<forall>i < 12. (if i = 11 then v else rd s0 (saved_regs ! i)) = rd s0 (saved_regs ! i))"
    unfolding in_frame_def using w by (metis (no_types, lifting))
  then show ?thesis unfolding g by (simp add: saved_regs_def)
qed

lemma local_store_in_frame:
  assumes "kind e = Local" "unat (index e) < l" "8 * (l + 12) \<le> unat (rd s fp)" "in_frame m (unat (rd s fp)) l s0"
  shows "in_frame (st64 m (var_addr s e) v) (unat (rd s fp)) l s0"
proof (rule in_frame_cong [OF assms(4,3)])
  have "x < f - 8 * l \<Longrightarrow> i < l \<Longrightarrow> \<not> f - 8 * i \<le> x" for x f i :: nat by simp
  then show "st64 m (var_addr s e) v x = m x" if "x < unat (rd s fp) - 8 * l" for x
    using that assms(1,2) by (simp add: var_addr_def st64_apply)
qed

lemma spilled_result:
  assumes "a \<noteq> sp"
  shows "\<exists>s'. exec lab ext (symb_emit_r op (Memory 0) (Register a) (Register b)) s = Some s' \<and>
    (a \<noteq> 0 \<longrightarrow> cmem s' = st64 (cmem s) (unat (rd s sp)) (alu op (rd s a) (rd s b)))"
proof -
  have 0: "8 * 0 \<le> unat (rd s sp)" "(0 :: nat) \<le> 256" by simp_all
  have "imm12 (imm (slot_off 0))" "ea s sp (imm (slot_off 0)) = unat (rd s sp)" using slot_access [OF 0(2,1)] by simp_all
  then show ?thesis using assms by (simp add: symb_emit_r_def emit_r_def emit_sd_def)
qed

lemma spilled_add:
  assumes "emit_Binop Add c = Inr c'" "st_top c = n + 17" "n < 256" "8 * (n + 1) \<le> unat (rd s sp)"
  shows "\<exists>s'. exec lab ext (new_code c c') s = Some s' \<and> rd s' sp = rd s sp \<and> st_top c' = n + 16 \<and>
    cmem s' = st64 (cmem s) (unat (rd s sp) - 8 * n) (ld64 (cmem s) (unat (rd s sp) - 8 * n) + ld64 (cmem s) (unat (rd s sp) - 8 * (n + 1)))"
proof -
  have l: "loc_at (n + 15) = Memory n" "loc_at (n + 16) = Memory (n + 1)" by (simp_all add: loc_at_def)
  have c': "new_code c c' = symb_emit_i SRAI (Memory n) (Memory n) 1 @ symb_emit_i SRAI (Memory (n + 1)) (Memory (n + 1)) 1
      @ symb_emit_r ADD (Memory n) (Memory n) (Memory (n + 1)) @ symb_emit_i SLLI (Memory n) (Memory n) 1
      @ symb_emit_i ADDI (Memory n) (Memory n) 1" "st_top c' = n + 16"
    using assms(1,2) l by (auto simp: emit_Binop_def c_pop_def symb_emit_binop_def Let_def numeral_eq_Suc)
  have b: "n \<le> 256" "n + 1 \<le> 256" "8 * n \<le> unat (rd s sp)" using assms(3,4) by simp_all
  have 0: "\<exists>s'. exec lab ext (symb_emit_i j (Memory k) (Memory k) 1) t = Some s' \<and> rd s' sp = rd t sp \<and> cmem s' = cmem t"
    if "j \<in> {SRAI, SLLI, ADDI}" "k \<in> {n, n + 1}" "rd t sp = rd s sp" for j k t
  proof -
    have "\<exists>v. alui j w 1 = Some v" for w using that(1) by (auto simp: shamt_def imm12_def)
    moreover have "k \<le> 256" "8 * k \<le> unat (rd t sp)" using that(2,3) b assms(4) by auto
    ultimately show ?thesis using exec_spilled(2) [of k k t j 1] by blast
  qed
  obtain s1 where s1: "exec lab ext (symb_emit_i SRAI (Memory n) (Memory n) 1) s = Some s1" "rd s1 sp = rd s sp" "cmem s1 = cmem s"
    using 0 [of SRAI n s] by auto
  obtain s2 where s2: "exec lab ext (symb_emit_i SRAI (Memory (n + 1)) (Memory (n + 1)) 1) s1 = Some s2" "rd s2 sp = rd s sp" "cmem s2 = cmem s"
    using 0 [of SRAI "n + 1" s1] s1 by auto
  obtain s3 where s3: "exec lab ext (symb_emit_r ADD (Memory n) (Memory n) (Memory (n + 1))) s2 = Some s3" "rd s3 sp = rd s sp"
    "cmem s3 = st64 (cmem s) (unat (rd s sp) - 8 * n) (ld64 (cmem s) (unat (rd s sp) - 8 * n) + ld64 (cmem s) (unat (rd s sp) - 8 * (n + 1)))"
    using exec_spilled(1) [of n "n + 1" s2 lab ext ADD, unfolded s2(2,3) alu.simps, OF b(1,2,3) assms(4)] by blast
  obtain s4 where s4: "exec lab ext (symb_emit_i SLLI (Memory n) (Memory n) 1) s3 = Some s4" "rd s4 sp = rd s sp" "cmem s4 = cmem s3"
    using 0 [of SLLI n s3] s3 by auto
  obtain s5 where s5: "exec lab ext (symb_emit_i ADDI (Memory n) (Memory n) 1) s4 = Some s5" "rd s5 sp = rd s sp" "cmem s5 = cmem s3"
    using 0 [of ADDI n s4] s4 by auto
  have "exec lab ext (new_code c c') s = Some s5"
    unfolding c'(1) by (rule exec_appendI [OF s1(1) exec_appendI [OF s2(1) exec_appendI [OF s3(1) exec_appendI [OF s4(1) s5(1)]]]])
  then show ?thesis using s5(2,3) s3(3) c'(2) by (intro exI [of _ s5]) simp
qed

end
