(* ===== verification/Codegen_Properties.thy ===== *)
theory Codegen_Properties
  imports Frame_Code Comp_Tag_Hash
begin

text \<open>
  The properties of the emitted code: arithmetic against the built-ins of the run-time system, calls,
  tags, frames and variables, with the limits within which each is right.
\<close>

section \<open>Operators\<close>

text \<open>The built-in of the run-time system for an operator of the bytecode.\<close>

fun built_in :: "binop_kind \<Rightarrow> u64 \<Rightarrow> u64 \<Rightarrow> u64 res" where
  "built_in Add = Ls__Infix_43"
| "built_in Sub = Ls__Infix_45"
| "built_in Mul = Ls__Infix_42"
| "built_in Div = Ls__Infix_47"
| "built_in Rem = Ls__Infix_37"
| "built_in LessThan = Ls__Infix_60"
| "built_in LessEqual = Ls__Infix_6061"
| "built_in GreaterThan = Ls__Infix_62"
| "built_in GreaterEqual = Ls__Infix_6261"
| "built_in Equal = Ls__Infix_6161"
| "built_in NotEqual = Ls__Infix_3361"
| "built_in And = Ls__Infix_3838"
| "built_in Or = Ls__Infix_3333"
| "built_in (UnknownBinop l) = (\<lambda>p q. Inl Undefined)"

text \<open>When the code of an operator and its built-in agree.\<close>

fun binop_agrees :: "binop_kind \<Rightarrow> int \<Rightarrow> int \<Rightarrow> bool" where
  "binop_agrees Div i j \<longleftrightarrow> j \<noteq> 0"
| "binop_agrees Rem i j \<longleftrightarrow> j \<noteq> 0"
| "binop_agrees And i j \<longleftrightarrow> i AND j = of_bool (i \<noteq> 0 \<and> j \<noteq> 0)"
| "binop_agrees Or i j \<longleftrightarrow> i OR j = of_bool (i \<noteq> 0 \<or> j \<noteq> 0)"
| "binop_agrees _ i j \<longleftrightarrow> True"

lemma fits63_iff_signed: "fits63 i \<longleftrightarrow> signed_take_bit 62 i = i"
  by (auto simp: fits63_def signed_take_bit_int_eq_self_iff)

lemma fits63_bits: "fits63 i \<Longrightarrow> fits63 j \<Longrightarrow> fits63 (i AND j)" "fits63 i \<Longrightarrow> fits63 j \<Longrightarrow> fits63 (i OR j)"
proof -
  have "signed_take_bit 62 (i AND j) = signed_take_bit 62 i AND signed_take_bit 62 j"
    "signed_take_bit 62 (i OR j) = signed_take_bit 62 i OR signed_take_bit 62 j"
    by (rule bit_eqI; simp add: bit_simps)+
  then show "fits63 i \<Longrightarrow> fits63 j \<Longrightarrow> fits63 (i AND j)" "fits63 i \<Longrightarrow> fits63 j \<Longrightarrow> fits63 (i OR j)"
    by (simp_all add: fits63_iff_signed)
qed

lemma built_in_agrees:
  assumes "known_op op" "fits63 i" "fits63 j"
  shows "built_in op (boxI i) (boxI j) = Inr (boxI (binop_int op i j)) \<longleftrightarrow> binop_agrees op i j"
proof -
  have b: "fits63 (of_bool x)" for x by (cases x) (simp_all add: fits63_def)
  show ?thesis
    using assms built_in_value [OF assms(2,3)] fits63_bits [OF assms(2,3)] b
    by (cases op) (auto simp: known_op_def boxI_inject)
qed

text \<open>
  C14: The code of a binary instruction on unspilled integer operands leaves the value that the
  built-in of the run-time system computes, in place of its two operands, for all operators except
  division by zero (which the code does not detect) and the connectives, which it computes bit by
  bit: there the two agree exactly when the bitwise result happens to be the truth value.
\<close>

theorem binop_matches_built_in:
  assumes "emit_Binop op c = Inr c'" "st_top c \<le> 15" "known_op op" "fits63 i" "fits63 j"
    and "rd s (regs ! (st_top c - 2)) = boxI i" "rd s (regs ! (st_top c - 1)) = boxI j"
  shows "\<exists>s'. exec lab ext (new_code c c') s = Some s' \<and> st_top c' = st_top c - 1 \<and> cmem s' = cmem s \<and>
    (built_in op (boxI i) (boxI j) = Inr (rd s' (regs ! (st_top c' - 1))) \<longleftrightarrow> binop_agrees op i j) \<and>
    (\<forall>r. r \<noteq> regs ! (st_top c - 2) \<longrightarrow> r \<noteq> regs ! (st_top c - 1) \<longrightarrow> rd s' r = rd s r)"
  using binop_code [OF assms] built_in_agrees [OF assms(3-5)] by metis

definition sample_code_state :: "nat \<Rightarrow> compiler" where
  "sample_code_state n = (new_compiler [] 0 [])\<lparr>st_top := n,
     current_frame := Some \<lparr>function_name = [], locals_count = 2, args_count = 0\<rparr>\<rparr>"

lemma not_isl_Inr: "(\<And>x. r = Inr x \<Longrightarrow> P) \<Longrightarrow> \<not> isl r \<Longrightarrow> P"
  by (cases r) simp_all

definition sample_cpu :: "(nat \<Rightarrow> u64) \<Rightarrow> cpu" where
  "sample_cpu f = \<lparr>xregs = f, cmem = (\<lambda>a. 0)\<rparr>"

lemma sample_binop: "\<not> isl (emit_Binop And (sample_code_state 2))"
  by code_simp

theorem binop_matches_built_in_witness:
  "\<exists>c' s'. emit_Binop And (sample_code_state 2) = Inr c' \<and>
     exec (\<lambda>l. 0) (\<lambda>n s. None) (new_code (sample_code_state 2) c') (sample_cpu (\<lambda>r. if r = 9 then boxI 1 else boxI 2)) = Some s' \<and>
     built_in And (boxI 1) (boxI 2) \<noteq> Inr (rd s' 9)"
proof -
  let ?s = "sample_cpu (\<lambda>r. if r = 9 then boxI 1 else boxI 2)"
  have st: "st_top (sample_code_state 2) = 2" by (simp add: sample_code_state_def)
  obtain c' where c': "emit_Binop And (sample_code_state 2) = Inr c'"
    using not_isl_Inr [of "emit_Binop And (sample_code_state 2)"] sample_binop by blast
  have v: "rd ?s (regs ! (st_top (sample_code_state 2) - 2)) = boxI 1" "rd ?s (regs ! (st_top (sample_code_state 2) - 1)) = boxI 2"
    unfolding st by (simp_all add: rd_def sample_cpu_def regs_def)
  have k: "known_op And" "fits63 1" "fits63 2" "st_top (sample_code_state 2) \<le> 15"
    unfolding st by (simp_all add: known_op_def fits63_def)
  obtain s' where s': "exec (\<lambda>l. 0) (\<lambda>n s. None) (new_code (sample_code_state 2) c') ?s = Some s'" "st_top c' = 2 - 1"
    "built_in And (boxI 1) (boxI 2) = Inr (rd s' (regs ! (st_top c' - 1))) \<longleftrightarrow> binop_agrees And 1 2"
    using binop_matches_built_in [OF c' k(4,1,2,3) v] unfolding st by blast
  then have "built_in And (boxI 1) (boxI 2) \<noteq> Inr (rd s' 9)" by (simp add: regs_def del: built_in.simps)
  then show ?thesis using c' s'(1) by blast
qed

section \<open>Tags\<close>

lemma tag_num_lower:
  assumes "tag_ok cs" "cs \<noteq> []"
  shows "64 ^ (length cs - 1) \<le> tag_num cs"
  using assms
proof (induction cs rule: rev_induct)
  case (snoc c cs)
  show ?case
  proof (cases "cs = []")
    case True
    then show ?thesis using tag_num_pos [OF snoc.prems] by simp
  next
    case False
    then have "64 ^ (length cs - 1) \<le> tag_num cs" using snoc by (simp add: tag_ok_def)
    then have "64 * 64 ^ (length cs - 1) \<le> 64 * tag_num cs" by simp
    moreover have "(64 :: nat) * 64 ^ (length cs - 1) = 64 ^ length cs" using False by (cases cs) simp_all
    ultimately show ?thesis by simp
  qed
qed simp

lemma imm_range: "- (2 ^ 31) \<le> imm w \<and> imm w < 2 ^ 31"
  using sint_greater_eq [of "ucast w :: 32 word"] sint_less [of "ucast w :: 32 word"] by (simp add: imm_def)

lemma imm_exact_iff: "(word_of_int (imm w) :: u64) = w \<longleftrightarrow> - (2 ^ 31) \<le> sint w \<and> sint w < 2 ^ 31"
proof
  assume "(word_of_int (imm w) :: u64) = w"
  moreover have "sint (word_of_int (imm w) :: u64) = imm w"
    using imm_range [of w] by (simp add: signed_of_int signed_take_bit_int_eq_self)
  ultimately show "- (2 ^ 31) \<le> sint w \<and> sint w < 2 ^ 31" using imm_range [of w] by metis
next
  assume "- (2 ^ 31) \<le> sint w \<and> sint w < 2 ^ 31"
  then show "(word_of_int (imm w) :: u64) = w" using imm_word_of_int [of "sint w"] by simp
qed

lemma tag_hash_exact:
  assumes "LtagHash t = Inr h"
  shows "word_of_int (imm h) = h \<longleftrightarrow> length t \<le> 5"
proof -
  have tok: "tag_ok (take 10 t)" using assms LtagHash_success_iff by blast
  obtain k where k: "h = BOX k" "unat k = tag_num (take 10 t)" "unat k < 2 ^ 60"
    using LtagHash_ok [OF tok] assms by auto
  have "unat h = 2 * unat k + 1"
  proof -
    have "unat (2 * k) = 2 * unat k" using k(3) by (simp add: unat_word_ariths)
    then show ?thesis using k(3) unfolding k(1) BOX_eq by (simp add: unat_word_ariths)
  qed
  then have s: "sint h = 2 * int (tag_num (take 10 t)) + 1" using k(2,3) sint_small [of h] by simp
  have "tag_num (take 10 t) < 2 ^ 30 \<longleftrightarrow> length t \<le> 5"
  proof
    assume lt: "tag_num (take 10 t) < 2 ^ 30"
    show "length t \<le> 5"
    proof (rule ccontr)
      assume "\<not> length t \<le> 5"
      then have "take 10 t \<noteq> []" "5 \<le> length (take 10 t) - 1" by auto
      then have "(64 :: nat) ^ 5 \<le> tag_num (take 10 t)"
        using tag_num_lower [OF tok] power_increasing [of 5 "length (take 10 t) - 1" "64 :: nat"] by linarith
      then show False using lt by simp
    qed
  next
    assume "length t \<le> 5"
    moreover have "tag_num (take 10 t) < 64 ^ length (take 10 t)"
      by (rule tag_num_bound) (use tok in \<open>simp add: tag_ok_def\<close>)
    moreover have "(64 :: nat) ^ length (take 10 t) \<le> 64 ^ 5" using \<open>length t \<le> 5\<close> by (intro power_increasing) simp_all
    ultimately show "tag_num (take 10 t) < 2 ^ 30" by simp
  qed
  then show ?thesis unfolding imm_exact_iff s by auto
qed

text \<open>
  C30: The compiler hashes a tag to the number the run-time system computes for it, but loads the
  number through an \<open>int\<close>: the code that builds or matches a tag works with the right hash
  exactly for tags of at most five characters.
\<close>

theorem compiled_tag_hash:
  assumes "LtagHash t = Inr h" "d \<noteq> 0"
  shows "comp_LtagHash t = Inr h \<and>
    (\<exists>s'. exec lab ext (symb_emit_li (Register d) h) s = Some s' \<and> (rd s' d = h \<longleftrightarrow> length t \<le> 5))"
proof -
  have "word_of_int (imm h) = h \<longleftrightarrow> length t \<le> 5" by (rule tag_hash_exact [OF assms(1)])
  then show ?thesis using assms by (simp add: comp_LtagHash_eq symb_emit_registers)
qed

theorem compiled_tag_hash_witness:
  "\<exists>h s'. LtagHash ''Branch'' = Inr h \<and> exec (\<lambda>l. 0) (\<lambda>n s. None) (symb_emit_li (Register 9) h) (sample_cpu (\<lambda>r. 0)) = Some s' \<and> rd s' 9 \<noteq> h"
proof -
  obtain h where h: "LtagHash ''Branch'' = Inr h"
    using LtagHash_success_iff [of "''Branch''"] by (auto simp: tag_ok_def chars_def)
  show ?thesis using compiled_tag_hash [OF h, of 9 "\<lambda>l. 0" "\<lambda>n s. None" "sample_cpu (\<lambda>r. 0)"] h by auto
qed

section \<open>Calls\<close>




section \<open>Frames\<close>

text \<open>
  A function's entry code saves the callee-saved registers below its caller's stack pointer,
  writing nothing else; if the body keeps the frame pointer and those words, the exit code gives the
  caller its stack pointer and its callee-saved registers back, and the top operand in \<open>a0\<close>.
\<close>

theorem frame_restored:
  assumes "emit_Begin i argc locc c = Inr c1" "i \<noteq> Name ''main''" "emit_End d = Inr d'"
    and "current_frame d = current_frame c1" "st_top d \<le> 15" "unat locc \<le> 244" "8 * (unat locc + 12) \<le> unat (rd s sp)"
  shows "\<exists>s1. exec lab ext (new_code c c1) s = Some s1 \<and> rd s1 fp = rd s sp \<and>
    unat (rd s1 sp) = unat (rd s sp) - 8 * (unat locc + 12) \<and> (\<forall>r. r \<noteq> sp \<longrightarrow> r \<noteq> fp \<longrightarrow> rd s1 r = rd s r) \<and>
    (\<forall>x. x < unat (rd s1 sp) \<or> unat (rd s1 sp) + 96 \<le> x \<longrightarrow> cmem s1 x = cmem s x) \<and>
    (\<forall>s2. rd s2 fp = rd s1 fp \<longrightarrow> (\<forall>x. unat (rd s1 sp) \<le> x \<longrightarrow> x < unat (rd s1 sp) + 96 \<longrightarrow> cmem s2 x = cmem s1 x) \<longrightarrow>
      (\<exists>s3. last (new_code d d') = Ret \<and> exec lab ext (butlast (new_code d d')) s2 = Some s3 \<and> rd s3 sp = rd s sp \<and>
        (\<forall>r \<in> set saved_regs. rd s3 r = rd s r) \<and> rd s3 10 = rd s2 (regs ! (st_top d - 1)) \<and> cmem s3 = cmem s2))"
proof -
  let ?a = "unat (rd s sp)" and ?l = "unat locc"
  obtain n where fr: "current_frame c1 = Some \<lparr>function_name = n, locals_count = locc, args_count = argc\<rparr>" "n \<noteq> ''main''"
    using emit_Begin_code [OF assms(1,2)] by blast
  obtain s1 where s1: "exec lab ext (new_code c c1) s = Some s1" "rd s1 fp = rd s sp" "unat (rd s1 sp) = ?a - 8 * (?l + 12)"
    "\<forall>r. r \<noteq> sp \<longrightarrow> r \<noteq> fp \<longrightarrow> rd s1 r = rd s r" "in_frame (cmem s1) ?a ?l s"
    "\<forall>x. x < ?a - 8 * (?l + 12) \<or> ?a - 8 * ?l \<le> x \<longrightarrow> cmem s1 x = cmem s x"
    using begin_code [OF assms(1,2,6,7)] by blast
  have "A = a - 8 * (l + 12) \<Longrightarrow> 8 * (l + 12) \<le> a \<Longrightarrow> A + 96 = a - 8 * l" for A a l :: nat by simp
  then have e: "unat (rd s1 sp) + 96 = ?a - 8 * ?l" using s1(3) assms(7) by blast
  have "\<exists>s3. last (new_code d d') = Ret \<and> exec lab ext (butlast (new_code d d')) s2 = Some s3 \<and> rd s3 sp = rd s sp \<and>
        (\<forall>r \<in> set saved_regs. rd s3 r = rd s r) \<and> rd s3 10 = rd s2 (regs ! (st_top d - 1)) \<and> cmem s3 = cmem s2"
    if s2: "rd s2 fp = rd s1 fp" "\<forall>x. unat (rd s1 sp) \<le> x \<longrightarrow> x < unat (rd s1 sp) + 96 \<longrightarrow> cmem s2 x = cmem s1 x" for s2
  proof -
    have f: "in_frame (cmem s2) ?a ?l s"
      by (rule in_frame_cong [OF s1(5)]) (use s2(2) [unfolded e s1(3)] assms(7) in \<open>auto simp del: diff_mult_distrib2\<close>)
    have q: "current_frame d = Some \<lparr>function_name = n, locals_count = locc, args_count = argc\<rparr>" using fr(1) assms(4) by simp
    have rf: "rd s2 fp = rd s sp" using s2(1) s1(2) by simp
    show ?thesis
      using end_code [OF assms(3) q, unfolded frame_info.simps, OF fr(2) assms(5,6), of s2 s lab ext] assms(7) f unfolding rf by auto
  qed
  moreover have "\<forall>x. x < unat (rd s1 sp) \<or> unat (rd s1 sp) + 96 \<le> x \<longrightarrow> cmem s1 x = cmem s x"
    unfolding e unfolding s1(3) by (rule s1(6))
  ultimately show ?thesis using s1(1-4) by - (rule exI [of _ s1], intro conjI allI impI; blast)
qed

theorem frame_restored_witness:
  "\<exists>c1 d' s1 s3. emit_Begin (Name ''f'') 0 2 (sample_code_state 0) = Inr c1 \<and> emit_End (c1\<lparr>st_top := 1\<rparr>) = Inr d' \<and>
     exec (\<lambda>l. 0) (\<lambda>n s. None) (new_code (sample_code_state 0) c1) (sample_cpu (\<lambda>r. 4096 + of_nat r)) = Some s1 \<and>
     exec (\<lambda>l. 0) (\<lambda>n s. None) (butlast (new_code (c1\<lparr>st_top := 1\<rparr>) d')) (wr 27 5 s1) = Some s3 \<and>
     rd s3 sp = 4098 \<and> rd s3 27 = 4123"
proof -
  let ?s = "sample_cpu (\<lambda>r. 4096 + of_nat r)"
  obtain c1 where c1: "emit_Begin (Name ''f'') 0 2 (sample_code_state 0) = Inr c1" by (simp add: emit_Begin_def)
  then obtain n where n: "current_frame c1 = Some \<lparr>function_name = n, locals_count = 2, args_count = 0\<rparr>"
    using emit_Begin_code [of "Name ''f''"] by fastforce
  obtain d' where d': "emit_End (c1\<lparr>st_top := 1\<rparr>) = Inr d'" by (simp add: emit_End_def n c_pop_def)
  have sp: "unat (rd ?s sp) = 4098" "rd ?s sp = 4098" "rd ?s 27 = 4123" by (simp_all add: rd_def sample_cpu_def sp_def)
  have p: "Name ''f'' \<noteq> Name ''main''" "current_frame (c1\<lparr>st_top := 1\<rparr>) = current_frame c1" "st_top (c1\<lparr>st_top := 1\<rparr>) \<le> 15"
    "unat (2 :: u64) \<le> 244" "8 * (unat (2 :: u64) + 12) \<le> unat (rd ?s sp)" by (simp_all add: sp)
  obtain s1 where s1: "exec (\<lambda>l. 0) (\<lambda>n s. None) (new_code (sample_code_state 0) c1) ?s = Some s1"
    "\<forall>s2. rd s2 fp = rd s1 fp \<longrightarrow> (\<forall>x. unat (rd s1 sp) \<le> x \<longrightarrow> x < unat (rd s1 sp) + 96 \<longrightarrow> cmem s2 x = cmem s1 x) \<longrightarrow>
      (\<exists>s3. last (new_code (c1\<lparr>st_top := 1\<rparr>) d') = Ret \<and>
        exec (\<lambda>l. 0) (\<lambda>n s. None) (butlast (new_code (c1\<lparr>st_top := 1\<rparr>) d')) s2 = Some s3 \<and> rd s3 sp = rd ?s sp \<and>
        (\<forall>r \<in> set saved_regs. rd s3 r = rd ?s r) \<and> rd s3 10 = rd s2 (regs ! (st_top (c1\<lparr>st_top := 1\<rparr>) - 1)) \<and> cmem s3 = cmem s2)"
    using frame_restored [OF c1 p(1) d' p(2-5)] by blast
  have "rd (wr 27 5 s1) fp = rd s1 fp" "27 \<in> set saved_regs" by (simp_all add: fp_def saved_regs_def)
  then obtain s3 where "exec (\<lambda>l. 0) (\<lambda>n s. None) (butlast (new_code (c1\<lparr>st_top := 1\<rparr>) d')) (wr 27 5 s1) = Some s3"
    "rd s3 sp = rd ?s sp" "rd s3 27 = rd ?s 27"
    using s1(2) [rule_format, of "wr 27 5 s1"] by auto
  then show ?thesis using c1 d' s1(1) sp by (intro exI conjI) (assumption | simp)+
qed

text \<open>
  A function can have at most 244 local variables: beyond that the offsets of its frame do not
  fit into the immediates of the instructions that save the registers, which the compiler does not
  notice and the assembler rejects.
\<close>

theorem frame_size_limit:
  assumes "emit_Begin i argc locc c = Inr c'" "i \<noteq> Name ''main''" "unat locc < 2 ^ 27" "8 * (unat locc + 12) \<le> unat (rd s sp)"
  shows "exec lab ext (new_code c c') s = None \<longleftrightarrow> 244 < unat locc"
proof (cases "244 < unat locc")
  case True
  then show ?thesis using begin_too_large [OF assms(1,2) True assms(3)] by simp
next
  case False
  then have "\<exists>s1. exec lab ext (new_code c c') s = Some s1"
    using begin_code [OF assms(1,2) _ assms(4), of lab ext] by (metis not_less)
  then show ?thesis using False by auto
qed

theorem frame_size_limit_witness:
  "\<exists>c'. emit_Begin (Name ''f'') 0 245 (sample_code_state 0) = Inr c' \<and>
     exec (\<lambda>l. 0) (\<lambda>n s. None) (new_code (sample_code_state 0) c') (sample_cpu (\<lambda>r. 4096)) = None"
proof -
  obtain c' where c': "emit_Begin (Name ''f'') 0 245 (sample_code_state 0) = Inr c'" by (simp add: emit_Begin_def)
  have "unat (rd (sample_cpu (\<lambda>r. 4096)) sp) = 4096" by (simp add: rd_def sample_cpu_def sp_def)
  then show ?thesis using frame_size_limit [OF c', of "sample_cpu (\<lambda>r. 4096)"] c' by simp
qed

section \<open>Variables\<close>




text \<open>
  Frames overlap in two places. The first local variable of a function is the word at its
  caller's stack pointer, outside the function's own frame: storing to it changes what the caller
  keeps there, while no other local does and no local touches the saved registers. The first operand
  that does not fit into a register is kept in the word where the entry code saved \<open>s11\<close>: the
  saved registers stay right only if its value happens to be the caller's \<open>s11\<close>.
\<close>

theorem frame_overlaps:
  assumes "emit_Store e c = Inr c'" "var_ok s e" "st_top c \<le> 15" "kind e = Local" "unat (index e) < l"
    and "8 * (l + 12) \<le> unat (rd s fp)" "unat (rd s sp) = unat (rd s fp) - 8 * (l + 12)"
    and "in_frame (cmem s) (unat (rd s fp)) l s0" "a \<noteq> sp"
  shows "\<exists>s1 s2. exec lab ext (new_code c c') s = Some s1 \<and> in_frame (cmem s1) (unat (rd s fp)) l s0 \<and>
      (if index e = 0 then ld64 (cmem s1) (unat (rd s fp)) = rd s (regs ! (st_top c - 1))
       else \<forall>x \<ge> unat (rd s fp). cmem s1 x = cmem s x) \<and>
      exec lab ext (symb_emit_r op (Memory 0) (Register a) (Register b)) s = Some s2 \<and>
      (a \<noteq> 0 \<longrightarrow> (in_frame (cmem s2) (unat (rd s fp)) l s0 \<longleftrightarrow> alu op (rd s a) (rd s b) = rd s0 27))"
proof -
  let ?f = "unat (rd s fp)"
  let ?s1 = "s\<lparr>cmem := st64 (cmem s) (var_addr s e) (rd s (regs ! (st_top c - 1)))\<rparr>"
  have r: "exec lab ext (new_code c c') s = Some ?s1" using store_code [OF assms(1-3)] by simp
  have va: "var_addr s e = ?f - 8 * unat (index e)" using assms(4) by (simp add: var_addr_def)
  have f1: "in_frame (cmem ?s1) ?f l s0" using local_store_in_frame [OF assms(4,5,6,8)] by simp
  have out: "if index e = 0 then ld64 (cmem ?s1) ?f = rd s (regs ! (st_top c - 1)) else \<forall>x \<ge> ?f. cmem ?s1 x = cmem s x"
  proof (cases "index e = 0")
    case False
    then have "0 < unat (index e)" by (simp add: unat_gt_0)
    then show ?thesis using False assms(5,6) by (auto simp: va st64_apply)
  qed (simp add: va)
  obtain s2 where s2: "exec lab ext (symb_emit_r op (Memory 0) (Register a) (Register b)) s = Some s2"
    "a \<noteq> 0 \<longrightarrow> cmem s2 = st64 (cmem s) (?f - 8 * (l + 12)) (alu op (rd s a) (rd s b))"
    using spilled_result [OF assms(9), where lab = lab and ext = ext and op = op and b = b and s = s] unfolding assms(7) by blast
  then have "a \<noteq> 0 \<longrightarrow> (in_frame (cmem s2) ?f l s0 \<longleftrightarrow> alu op (rd s a) (rd s b) = rd s0 27)"
    using slot0_in_frame [OF assms(6,8)] by simp
  with r f1 out s2(1) show ?thesis by - (rule exI [of _ ?s1], rule exI [of _ s2], intro conjI; assumption)
qed

definition sample_frame :: cpu where
  "sample_frame = sample_cpu (\<lambda>r. if r = fp then 4208 else if r = sp then 4096 else of_nat r)"

lemma sample_store_0: "\<not> isl (emit_Store \<lparr>kind = Local, index = 0\<rparr> (sample_code_state 1))"
  "\<not> isl (emit_Binop Add (sample_code_state 17))" "\<not> isl (emit_Store \<lparr>kind = Arg, index = 1\<rparr> (sample_code_state 1))"
  by code_simp+

theorem frame_overlaps_witness:
  "\<exists>c' s1 s2. emit_Store \<lparr>kind = Local, index = 0\<rparr> (sample_code_state 1) = Inr c' \<and>
     exec (\<lambda>l. 0) (\<lambda>n s. None) (new_code (sample_code_state 1) c') sample_frame = Some s1 \<and> ld64 (cmem s1) 4208 = 9 \<and>
     exec (\<lambda>l. 0) (\<lambda>n s. None) (symb_emit_r ADD (Memory 0) (Register 9) (Register 18)) sample_frame = Some s2 \<and>
     \<not> in_frame (cmem s2) 4208 2 (sample_cpu (\<lambda>r. 0))"
proof -
  let ?e = "\<lparr>kind = Local, index = 0\<rparr> :: location_entry"
  obtain c' where c': "emit_Store ?e (sample_code_state 1) = Inr c'" using not_isl_Inr sample_store_0(1) by blast
  have f: "unat (rd sample_frame fp) = 4208" "unat (rd sample_frame sp) = 4096" "rd sample_frame 9 = 9" "rd sample_frame 18 = 18"
    by (simp_all add: sample_frame_def sample_cpu_def rd_def fp_def sp_def)
  have ok: "var_ok sample_frame ?e" unfolding var_ok_def f by (simp add: sample_frame_def sample_cpu_def rd_def gp_def fp_def sp_def)
  have st: "st_top (sample_code_state 1) \<le> 15" "kind ?e = Local" "unat (index ?e) < 2" "(9 :: nat) \<noteq> sp"
    by (simp_all add: sample_code_state_def sp_def)
  have fr: "8 * (2 + 12) \<le> unat (rd sample_frame fp)"
    "unat (rd sample_frame sp) = unat (rd sample_frame fp) - 8 * (2 + 12)" unfolding f by simp_all
  have "ld64 (\<lambda>a. 0) b = 0" for b by (rule bit_word_eqI) (simp add: bit_ld64)
  then have i: "in_frame (cmem sample_frame) (unat (rd sample_frame fp)) 2 (sample_cpu (\<lambda>r. 0))"
    by (simp add: in_frame_def sample_frame_def sample_cpu_def rd_def)
  obtain s1 s2 where "exec (\<lambda>l. 0) (\<lambda>n s. None) (new_code (sample_code_state 1) c') sample_frame = Some s1"
    "ld64 (cmem s1) 4208 = rd sample_frame (regs ! (st_top (sample_code_state 1) - 1))"
    "exec (\<lambda>l. 0) (\<lambda>n s. None) (symb_emit_r ADD (Memory 0) (Register 9) (Register 18)) sample_frame = Some s2"
    "in_frame (cmem s2) 4208 2 (sample_cpu (\<lambda>r. 0)) \<longleftrightarrow> alu ADD 9 18 = rd (sample_cpu (\<lambda>r. 0)) 27"
    using frame_overlaps [OF c' ok st(1,2,3) fr i st(4), of "\<lambda>l. 0" "\<lambda>n s. None" ADD 18] unfolding f by auto
  then show ?thesis using c' f(3) by (simp add: sample_code_state_def regs_def rd_def sample_cpu_def)
qed

text \<open>
  Operands in memory are not unboxed: the sum of two integers that do not fit into registers is
  stored as the sum of their boxed words, whose low bit is 0, so that the run-time system takes it
  for a reference.
\<close>

theorem spilled_sum_not_boxed:
  assumes "emit_Binop Add c = Inr c'" "st_top c = n + 17" "n < 256" "8 * (n + 1) \<le> unat (rd s sp)"
    and "ld64 (cmem s) (unat (rd s sp) - 8 * n) = boxI i" "ld64 (cmem s) (unat (rd s sp) - 8 * (n + 1)) = boxI j"
  shows "\<exists>s' v. exec lab ext (new_code c c') s = Some s' \<and> ld64 (cmem s') (unat (rd s sp) - 8 * n) = v \<and>
    v = boxI i + boxI j \<and> \<not> unboxed v"
proof -
  obtain s' where s': "exec lab ext (new_code c c') s = Some s'"
    "cmem s' = st64 (cmem s) (unat (rd s sp) - 8 * n) (boxI i + boxI j)"
    using spilled_add [OF assms(1-4), of lab ext] unfolding assms(5,6) by blast
  have "\<not> unboxed (boxI i + boxI j)" by (simp add: unboxed_iff boxI_def BOX_eq)
  then show ?thesis using s' by simp
qed

theorem spilled_sum_not_boxed_witness:
  "\<exists>c' s' v. emit_Binop Add (sample_code_state 17) = Inr c' \<and>
     exec (\<lambda>l. 0) (\<lambda>n s. None) (new_code (sample_code_state 17) c')
       (sample_frame\<lparr>cmem := st64 (st64 (\<lambda>a. 0) 4096 (boxI 3)) 4088 (boxI 4)\<rparr>) = Some s' \<and>
     ld64 (cmem s') 4096 = v \<and> \<not> unboxed v"
proof -
  let ?s = "sample_frame\<lparr>cmem := st64 (st64 (\<lambda>a. 0) 4096 (boxI 3)) 4088 (boxI 4)\<rparr>"
  obtain c' where c': "emit_Binop Add (sample_code_state 17) = Inr c'" using not_isl_Inr sample_store_0(2) by blast
  have f: "unat (rd ?s sp) = 4096" by (simp add: sample_frame_def sample_cpu_def rd_def fp_def sp_def)
  have st: "st_top (sample_code_state 17) = 0 + 17" by (simp add: sample_code_state_def)
  have m: "8 * (0 + 1) \<le> unat (rd ?s sp)" "ld64 (cmem ?s) (unat (rd ?s sp) - 8 * 0) = boxI 3"
    "ld64 (cmem ?s) (unat (rd ?s sp) - 8 * (0 + 1)) = boxI 4" unfolding f by (simp_all add: ld64_st64_other)
  then show ?thesis using spilled_sum_not_boxed [OF c' st _ m, of "\<lambda>l. 0" "\<lambda>n s. None"] c' unfolding f by auto
qed

text \<open>
  Assigning to one of the first eight parameters does nothing to it: the code moves the
  parameter over the value that was to be assigned.
\<close>

theorem store_argument_reversed:
  assumes "emit_Store e c = Inr c'" "kind e = Arg" "0 \<le>s index e" "index e <s 8" "st_top c \<le> 15"
  shows "\<exists>r s'. arg_reg (size_of_int (index e)) = Inr r \<and> exec lab ext (new_code c c') s = Some s' \<and>
    rd s' r = rd s r \<and> rd s' (regs ! (st_top c' - 1)) = rd s r \<and> st_top c' = st_top c"
proof -
  obtain n where n: "st_top c = Suc n" "n < 15"
    using assms(1,5) by (cases "st_top c") (auto simp: emit_Store_def peek_loc_def res_simps)
  obtain r where r: "arg_reg (size_of_int (index e)) = Inr r" "c' = emits [Mv (regs ! n) r] c"
    using assms(1,2,4) n by (auto simp: emit_Store_def loc_at_reg symb_emit_registers res_simps)
  then have "r \<in> set arg_regs" by (auto simp: arg_reg_def arg_regs_def word_less_nat_alt split: if_splits)
  then have "r \<noteq> regs ! n" using regs_not_special(8) [OF n(2)] by auto
  then show ?thesis using r n regs_not_special(1) by auto
qed

theorem store_argument_reversed_witness:
  "\<exists>c' s'. emit_Store \<lparr>kind = Arg, index = 1\<rparr> (sample_code_state 1) = Inr c' \<and>
     exec (\<lambda>l. 0) (\<lambda>n s. None) (new_code (sample_code_state 1) c') sample_frame = Some s' \<and> rd s' 11 = 11 \<and> rd s' 9 = 11"
proof -
  let ?e = "\<lparr>kind = Arg, index = 1\<rparr> :: location_entry"
  obtain c' where c': "emit_Store ?e (sample_code_state 1) = Inr c'" using not_isl_Inr sample_store_0(3) by blast
  have "kind ?e = Arg" "0 \<le>s index ?e" "index ?e <s 8" "st_top (sample_code_state 1) \<le> 15"
    by (simp_all add: sample_code_state_def word_sless_alt word_sle_eq)
  from store_argument_reversed [OF c' this, of "\<lambda>l. 0" "\<lambda>n s. None" sample_frame]
  obtain r s' where s': "arg_reg (size_of_int 1) = Inr r" "exec (\<lambda>l. 0) (\<lambda>n s. None) (new_code (sample_code_state 1) c') sample_frame = Some s'"
    "rd s' r = rd sample_frame r" "rd s' (regs ! (st_top c' - 1)) = rd sample_frame r" "st_top c' = st_top (sample_code_state 1)"
    by auto
  have "r = 11" using s'(1) by (simp add: arg_reg_def size_of_int_def)
  then have "rd s' 11 = 11" "rd s' 9 = 11"
    using s'(3,4,5) by (simp_all add: sample_code_state_def regs_def sample_frame_def sample_cpu_def rd_def fp_def sp_def)
  then show ?thesis using c' s'(2) by blast
qed

end
