(* ===== verification/Block_Correct.thy ===== *)
theory Block_Correct
  imports Codegen_Properties
begin

text \<open>
  The code of a whole basic block: the specification is a stack machine on the values and the memory
  that the run-time system sees; the code the compiler emits for the block simulates it, as long as
  the operands fit into registers. Calls of the run-time system run the functions modelled in
  \<open>Builtins\<close>, through any code for them that follows the calling convention.
\<close>

section \<open>The specification\<close>

text \<open>The run-time functions an instruction calls by name with operands only.\<close>

fun callee :: "instr \<Rightarrow> (string \<times> u64) option" where
  "callee (Call (Name n) argc) = Some (n, argc)"
| "callee Elem = Some (''Belem'', 2)"
| "callee StoreArray = Some (''Bsta'', 3)"
| "callee BuiltinLength = Some (''Llength'', 1)"
| "callee _ = None"

definition same_mem :: "mem \<Rightarrow> u64 res \<Rightarrow> (u64 \<times> mem) res" where
  "same_mem m r = bindR r (\<lambda>v. Inr (v, m))"

fun runtime :: "string \<Rightarrow> u64 list \<Rightarrow> mem \<Rightarrow> (u64 \<times> mem) res" where
  "runtime n [x] m = (if n = ''Llength'' then same_mem m (Llength m x) else Inl Undefined)"
| "runtime n [x, i] m = (if n = ''Belem'' then same_mem m (Belem m x i) else Inl Undefined)"
| "runtime n [x, i, v] m = (if n = ''Bsta'' then Bsta m x i v else if n = ''Btag'' then Inr (Btag m x i v, m) else Inl Undefined)"
| "runtime n _ m = Inl Undefined"

definition runtime_names :: "string set" where
  "runtime_names = {''Llength'', ''Belem'', ''Bsta'', ''Btag''}"

lemma runtime_named: "runtime n args m = Inr r \<Longrightarrow> n \<in> runtime_names"
  by (induction n args m rule: runtime.induct) (auto simp: runtime_names_def split: if_splits)

text \<open>
  The memory from the stack pointer up is what the specification is about: below it the code keeps
  what it saves around a call. A call must not depend on it, nor change the word at the stack
  pointer or anything below.
\<close>

definition agrees :: "addr \<Rightarrow> mem \<Rightarrow> mem \<Rightarrow> bool" where
  "agrees a m m' \<longleftrightarrow> (\<forall>x \<ge> a. m x = m' x)"

definition call_result :: "addr \<Rightarrow> string \<Rightarrow> u64 list \<Rightarrow> mem \<Rightarrow> u64 \<Rightarrow> mem \<Rightarrow> bool" where
  "call_result a n args m v m' \<longleftrightarrow> (\<forall>mm. agrees a mm m \<longrightarrow>
     (\<exists>mm'. runtime n args mm = Inr (v, mm') \<and> agrees a mm' m' \<and> (\<forall>x < a + 8. mm' x = mm x)))"

text \<open>
  One instruction, from the stack (bottom first) and the memory. The state \<open>s0\<close> gives the
  addresses of the variables and the parameters, which are in registers. At most fifteen operands.
\<close>

inductive bstep :: "cpu \<Rightarrow> instr \<Rightarrow> u64 list \<times> mem \<Rightarrow> u64 list \<times> mem \<Rightarrow> bool" for s0 where
  Const: "length vs < 15 \<Longrightarrow> bstep s0 (Const v) (vs, m) (vs @ [scast v], m)"
| Binop: "length vs < 14 \<Longrightarrow> known_op op \<Longrightarrow> fits63 i \<Longrightarrow> fits63 j \<Longrightarrow>
    bstep s0 (Binop op) (vs @ [boxI i, boxI j], m) (vs @ [boxI (binop_int op i j)], m)"
| Drop: "bstep s0 Drop (vs @ [v], m) (vs, m)"
| Duplicate: "length vs < 14 \<Longrightarrow> bstep s0 Duplicate (vs @ [v], m) (vs @ [v, v], m)"
| Line: "bstep s0 (Line l) (vs, m) (vs, m)"
| Load: "length vs < 15 \<Longrightarrow> var_ok s0 e \<Longrightarrow> unat (rd s0 sp) \<le> var_addr s0 e \<Longrightarrow>
    bstep s0 (Load e) (vs, m) (vs @ [ld64 m (var_addr s0 e)], m)"
| Parameter: "length vs < 15 \<Longrightarrow> kind e = Arg \<Longrightarrow> 0 \<le>s index e \<Longrightarrow> index e <s 8 \<Longrightarrow>
    bstep s0 (Load e) (vs, m) (vs @ [rd s0 (10 + unat (index e))], m)"
| Store: "length vs < 15 \<Longrightarrow> var_ok s0 e \<Longrightarrow> unat (rd s0 sp) \<le> var_addr s0 e \<Longrightarrow>
    bstep s0 (Store e) (vs @ [v], m) (vs @ [v], st64 m (var_addr s0 e) v)"
| Call: "callee i = Some (n, argc) \<Longrightarrow> unat argc = length args \<Longrightarrow> length args \<le> 8 \<Longrightarrow> length vs < 11 \<Longrightarrow>
    length vs + length args \<le> 15 \<Longrightarrow> call_result (unat (rd s0 sp)) n args m v m' \<Longrightarrow>
    bstep s0 i (vs @ args, m) (vs @ [v], m')"
| Tag: "LtagHash t = Inr h \<Longrightarrow> length t \<le> 5 \<Longrightarrow> unat k < 2 ^ 30 \<Longrightarrow> length vs < 11 \<Longrightarrow>
    call_result (unat (rd s0 sp)) ''Btag'' [v, h, 2 * k + 1] m w m' \<Longrightarrow> bstep s0 (Tag t k) (vs @ [v], m) (vs @ [w], m')"

inductive bsteps :: "cpu \<Rightarrow> instr list \<Rightarrow> u64 list \<times> mem \<Rightarrow> u64 list \<times> mem \<Rightarrow> bool" for s0 where
  Nil: "bsteps s0 [] b b"
| Cons: "bstep s0 i b b' \<Longrightarrow> bsteps s0 is b' b'' \<Longrightarrow> bsteps s0 (i # is) b b''"

inductive_cases bsteps_ConsE: "bsteps s0 (i # is) b b'"
inductive_cases bsteps_NilE: "bsteps s0 [] b b'"

section \<open>The run-time system behind the calling convention\<close>

locale runtime_code =
  fixes ext :: "string \<Rightarrow> cpu \<Rightarrow> cpu option"
  assumes ext_runs: "runtime n args (cmem s) = Inr (v, m) \<Longrightarrow> \<forall>i < length args. rd s (10 + i) = args ! i \<Longrightarrow>
    \<exists>s'. ext n s = Some s' \<and> rd s' 10 = v \<and> rd s' sp = rd s sp \<and> (\<forall>r \<in> set saved_regs. rd s' r = rd s r) \<and>
      (\<forall>x \<ge> unat (rd s sp). cmem s' x = m x)"

definition arity :: "string \<Rightarrow> nat" where
  "arity n = (if n = ''Llength'' then 1 else if n = ''Belem'' then 2 else 3)"

definition runtime_ext :: "string \<Rightarrow> cpu \<Rightarrow> cpu option" where
  "runtime_ext n s =
     (case runtime n (map (\<lambda>i. rd s (10 + i)) [0..<arity n]) (cmem s) of
        Inl e \<Rightarrow> None
      | Inr (v, m) \<Rightarrow> Some (wr 10 v (s\<lparr>cmem := m\<rparr>)))"

lemma runtime_arity: "runtime n args m = Inr r \<Longrightarrow> length args = arity n"
  by (induction n args m rule: runtime.induct) (auto simp: arity_def split: if_splits)

interpretation rt: runtime_code runtime_ext
proof
  fix n args s v m
  assume r: "runtime n args (cmem s) = Inr (v, m)" and a: "\<forall>i < length args. rd s (10 + i) = args ! i"
  have "map (\<lambda>i. rd s (10 + i)) [0..<arity n] = args"
    using a runtime_arity [OF r] by (intro nth_equalityI) simp_all
  then show "\<exists>s'. runtime_ext n s = Some s' \<and> rd s' 10 = v \<and> rd s' sp = rd s sp \<and>
      (\<forall>r \<in> set saved_regs. rd s' r = rd s r) \<and> (\<forall>x \<ge> unat (rd s sp). cmem s' x = m x)"
    using r by (simp add: runtime_ext_def sp_def saved_regs_def)
qed

section \<open>The simulation\<close>

text \<open>The stack is in the operand registers, the memory in the memory above the stack pointer.\<close>

definition sim :: "cpu \<Rightarrow> u64 list \<times> mem \<Rightarrow> cpu \<Rightarrow> bool" where
  "sim s0 b s \<longleftrightarrow> length (fst b) \<le> 15 \<and>
     (\<forall>i < length (fst b). rd s (regs ! i) = fst b ! i) \<and> agrees (unat (rd s0 sp)) (cmem s) (snd b) \<and>
     (\<forall>r \<in> {ra, sp, fp, gp} \<union> set arg_regs. rd s r = rd s0 r)"

definition holds :: "cpu \<Rightarrow> u64 list \<times> mem \<Rightarrow> compiler \<Rightarrow> cpu \<Rightarrow> bool" where
  "holds s0 b c s \<longleftrightarrow> st_top c = length (fst b) \<and> sim s0 b s"

lemmas holds_sim = holds_def sim_def

lemma callee_code: "callee i = Some (n, argc) \<Longrightarrow> emit_code af i c = compile_call (Name n) argc None c"
  by (induction i rule: callee.induct) auto

lemma reg_kept:
  assumes "n < 15" "r \<in> {ra, sp, fp, gp} \<union> set arg_regs"
  shows "r \<noteq> regs ! n"
  using regs_not_special [OF assms(1)] assms(2) by auto

text \<open>A register written on top of the stack.\<close>

lemma holds_push:
  assumes "holds s0 (vs, m) c s" "length vs < 15" "st_top c' = Suc (length vs)" 
    and "rd s' (regs ! length vs) = v" "\<forall>r. r \<noteq> regs ! length vs \<longrightarrow> rd s' r = rd s r" "cmem s' = cmem s"
  shows "holds s0 (vs @ [v], m) c' s'"
  using assms reg_kept [OF assms(2)] unfolding holds_sim by (auto simp: nth_append less_Suc_eq)

lemma holds_var:
  assumes "holds s0 b c s"
  shows "var_ok s e = var_ok s0 e" "var_addr s e = var_addr s0 e" "rd s sp = rd s0 sp"
  using assms by (auto simp: holds_sim var_ok_def var_addr_def)

lemma agrees_ld64: "agrees a m m' \<Longrightarrow> a \<le> x \<Longrightarrow> ld64 m x = ld64 m' x"
  by (intro ld64_cong) (simp add: agrees_def)

lemma agrees_st64: "agrees a m m' \<Longrightarrow> agrees a (st64 m x v) (st64 m' x v)"
  by (simp add: agrees_def st64_apply)

lemma parameter_index:
  assumes "0 \<le> sint (i :: i32)" "sint i < 8"
  shows "unat i < 8 \<and> size_of_int i = of_nat (unat i)"
proof -
  define k where "k = nat (sint i)"
  have s: "sint i = int k" "k < 8" using assms by (simp_all add: k_def)
  have "i = word_of_int (sint i)" by simp
  then have "i = of_nat k" by (simp only: s of_int_of_nat_eq)
  then have u: "unat i = k" using s(2) by (simp add: unat_of_nat take_bit_nat_eq_self)
  have "size_of_int i = word_of_int (sint i)" unfolding size_of_int_def by (rule scast_eq)
  then show ?thesis using s u by simp
qed

text \<open>The instructions without a call, one by one.\<close>

lemma const_code:
  assumes "emit_Const v c = Inr c'" "holds s0 (vs, m) c s" "length vs < 15"
  shows "\<exists>s'. exec lab ext (new_code c c') s = Some s' \<and> holds s0 (vs @ [scast v], m) c' s'"
proof -
  have n: "st_top c = length vs" using assms(2) by (auto simp: holds_sim)
  have c': "c' = (emits [Li (regs ! length vs) (sint v)] c)\<lparr>st_top := Suc (length vs)\<rparr>"
    using assms(1,3) n by (simp add: emit_Const_def loc_at_reg)
  let ?s = "wr (regs ! length vs) (word_of_int (sint v)) s"
  have "holds s0 (vs @ [scast v], m) c' ?s"
    by (rule holds_push [OF assms(2,3)]) (use n regs_not_special(1) [OF assms(3)] in \<open>simp_all add: c'\<close>)
  then show ?thesis by (intro exI [of _ ?s]) (simp add: c')
qed

lemma duplicate_code:
  assumes "emit_Duplicate False c = Inr c'" "holds s0 (vs @ [v], m) c s" "length vs < 14"
  shows "\<exists>s'. exec lab ext (new_code c c') s = Some s' \<and> holds s0 (vs @ [v, v], m) c' s'"
proof -
  have n: "st_top c = Suc (length vs)" "rd s (regs ! length vs) = v"
    using assms(2) by (auto simp: holds_sim)
  have c': "c' = (emits [Mv (regs ! Suc (length vs)) (regs ! length vs)] c)\<lparr>st_top := Suc (Suc (length vs))\<rparr>"
    using assms(1,3) n by (simp add: emit_Duplicate_def loc_at_reg symb_emit_registers)
  let ?s = "wr (regs ! Suc (length vs)) v s"
  have "holds s0 ((vs @ [v]) @ [v], m) c' ?s"
    by (rule holds_push [OF assms(2)]) (use n assms(3) regs_not_special(1) [of "Suc (length vs)"] in \<open>simp_all add: c'\<close>)
  then show ?thesis using n(2) by (intro exI [of _ ?s]) (simp add: c')
qed

lemma parameter_code:
  assumes "emit_Load e c = Inr c'" "holds s0 (vs, m) c s" "length vs < 15" "kind e = Arg" "0 \<le>s index e" "index e <s 8"
  shows "\<exists>s'. exec lab ext (new_code c c') s = Some s' \<and> holds s0 (vs @ [rd s0 (10 + unat (index e))], m) c' s'"
proof -
  have n: "st_top c = length vs" using assms(2) by (auto simp: holds_sim)
  have s8: "sint (index e) < 8" "0 \<le> sint (index e)" using assms(5,6) by (simp_all add: word_sless_alt word_sle_eq)
  then have i: "unat (index e) < 8" "size_of_int (index e) = of_nat (unat (index e))"
    using parameter_index [OF s8(2,1)] by simp_all
  have u8: "unat (of_nat (unat (index e)) :: u64) = unat (index e)" by (rule unat_of_nat_u64) (use i(1) in simp)
  have r: "arg_reg (size_of_int (index e)) = Inr (10 + unat (index e))"
    unfolding arg_reg_def i(2) word_less_nat_alt u8 using i(1) by simp
  have c': "c' = (emits [Mv (regs ! length vs) (10 + unat (index e))] c)\<lparr>st_top := Suc (length vs)\<rparr>"
    using assms(1,3,4,6) n r by (auto simp: emit_Load_def loc_at_reg symb_emit_registers split: option.splits if_splits)
  have a: "10 + unat (index e) \<in> set arg_regs" using i(1) by (auto simp: arg_regs_def less_Suc_eq numeral_eq_Suc)
  then have v: "rd s (10 + unat (index e)) = rd s0 (10 + unat (index e))" using assms(2) by (auto simp: holds_sim)
  let ?s = "wr (regs ! length vs) (rd s (10 + unat (index e))) s"
  have "holds s0 (vs @ [rd s0 (10 + unat (index e))], m) c' ?s"
    by (rule holds_push [OF assms(2,3)]) (use n v regs_not_special(1) [OF assms(3)] in \<open>simp_all add: c'\<close>)
  then show ?thesis by (intro exI [of _ ?s]) (simp add: c')
qed

lemma binop_block:
  assumes "emit_Binop op c = Inr c'" "holds s0 (vs @ [boxI i, boxI j], m) c s" "length vs < 14"
    and "known_op op" "fits63 i" "fits63 j"
  shows "\<exists>s'. exec lab ext (new_code c c') s = Some s' \<and> holds s0 (vs @ [boxI (binop_int op i j)], m) c' s'"
proof -
  have n: "st_top c = Suc (Suc (length vs))" "length vs < 13 \<or> length vs = 13"
    "\<forall>k < Suc (Suc (length vs)). rd s (regs ! k) = (vs @ [boxI i, boxI j]) ! k"
    using assms(2,3) by (auto simp: holds_sim)
  have v: "rd s (regs ! (st_top c - 2)) = boxI i" "rd s (regs ! (st_top c - 1)) = boxI j"
    using n(1,3) by (simp_all add: nth_append)
  have t: "st_top c \<le> 15" using n(1,2) by auto
  obtain s' where s': "exec lab ext (new_code c c') s = Some s'" "st_top c' = st_top c - 1"
    "rd s' (regs ! (st_top c' - 1)) = boxI (binop_int op i j)" "cmem s' = cmem s"
    "\<forall>r. r \<noteq> regs ! (st_top c - 2) \<longrightarrow> r \<noteq> regs ! (st_top c - 1) \<longrightarrow> rd s' r = rd s r"
    using binop_code [OF assms(1) t assms(4-6) v] by blast
  have "rd s' (regs ! k) = vs ! k" if "k < length vs" for k
    using s'(5) n that assms(3) by (simp add: nth_append)
  moreover have "rd s' r = rd s0 r" if "r \<in> {ra, sp, fp, gp} \<union> set arg_regs" for r
  proof -
    have "rd s r = rd s0 r" using assms(2) that unfolding holds_sim by blast
    then show ?thesis using s'(5) n(1) reg_kept [OF _ that] assms(3) by simp
  qed
  ultimately have "holds s0 (vs @ [boxI (binop_int op i j)], m) c' s'"
    using s'(2,3,4) n assms(2,3) by (auto simp: holds_sim nth_append less_Suc_eq)
  then show ?thesis using s'(1) by blast
qed

lemma load_block:
  assumes "emit_Load e c = Inr c'" "holds s0 (vs, m) c s" "length vs < 15" "var_ok s0 e" "unat (rd s0 sp) \<le> var_addr s0 e"
  shows "\<exists>s'. exec lab ext (new_code c c') s = Some s' \<and> holds s0 (vs @ [ld64 m (var_addr s0 e)], m) c' s'"
proof -
  note H = holds_var [OF assms(2)]
  have n: "st_top c = length vs" "agrees (unat (rd s0 sp)) (cmem s) m" using assms(2) by (auto simp: holds_sim)
  have L: "st_top c' = Suc (length vs)"
    "exec lab ext (new_code c c') s = Some (wr (regs ! length vs) (ld64 m (var_addr s0 e)) s)"
    using load_code [OF assms(1), of s lab ext] assms(3,4) n(1) H agrees_ld64 [OF n(2) assms(5)] by simp_all
  have "holds s0 (vs @ [ld64 m (var_addr s0 e)], m) c' (wr (regs ! length vs) (ld64 m (var_addr s0 e)) s)"
    by (rule holds_push [OF assms(2,3) L(1)]) (use regs_not_special(1) [OF assms(3)] in simp_all)
  then show ?thesis using L(2) by blast
qed

lemma store_block:
  assumes "emit_Store e c = Inr c'" "holds s0 (vs @ [v], m) c s" "length vs < 15" "var_ok s0 e" "unat (rd s0 sp) \<le> var_addr s0 e"
  shows "\<exists>s'. exec lab ext (new_code c c') s = Some s' \<and> holds s0 (vs @ [v], st64 m (var_addr s0 e) v) c' s'"
proof -
  note H = holds_var [OF assms(2)]
  have n: "st_top c = Suc (length vs)" "rd s (regs ! length vs) = v" using assms(2) by (auto simp: holds_sim)
  have S: "st_top c' = st_top c" "current_frame c' = current_frame c"
    "exec lab ext (new_code c c') s = Some (s\<lparr>cmem := st64 (cmem s) (var_addr s0 e) v\<rparr>)"
    using store_code [OF assms(1), of s lab ext] assms(3,4) n H by simp_all
  have "holds s0 (vs @ [v], st64 m (var_addr s0 e) v) c' (s\<lparr>cmem := st64 (cmem s) (var_addr s0 e) v\<rparr>)"
    using assms(2) S(1,2) by (simp add: holds_sim agrees_st64)
  then show ?thesis using S(3) by blast
qed

text \<open>A call of the run-time system.\<close>

lemma compile_call_frame: "compile_call f argc opt c = Inr c' \<Longrightarrow> \<exists>fr. current_frame c = Some fr"
  by (auto simp: compile_call_def Let_def split: option.splits)

lemma operand_restored:
  assumes "k < 11" "i < k"
  shows "regs ! i \<in> set saved_regs" "regs ! i \<noteq> regs ! k"
proof -
  have "regs ! i \<in> set (take 11 regs)" using assms by (auto simp: in_set_conv_nth intro!: exI [of _ i])
  then show "regs ! i \<in> set saved_regs" by (auto simp: regs_def saved_regs_def)
qed (use assms in simp)

lemma call_holds:
  assumes "holds s0 (vs @ args, m) c s" "length vs < 11" "st_top c' = Suc (length vs)" "rd s' (regs ! length vs) = v"
    and "\<forall>r \<in> set (sp # call_regs @ saved_regs). r \<noteq> regs ! length vs \<longrightarrow> rd s' r = rd s r"
    and "\<forall>x \<ge> unat (rd s0 sp). cmem s' x = m' x"
  shows "holds s0 (vs @ [v], m') c' s'"
proof -
  have h: "\<forall>i < length vs + length args. rd s (regs ! i) = (vs @ args) ! i"
    "\<forall>r \<in> {ra, sp, fp, gp} \<union> set arg_regs. rd s r = rd s0 r"
    using assms(1) by (auto simp: holds_sim)
  have "rd s' (regs ! i) = vs ! i" if "i < length vs" for i
    using assms(5) operand_restored [OF assms(2) that] h(1) that by (simp add: nth_append)
  moreover have "rd s' q = rd s0 q" if "q \<in> {ra, sp, fp, gp} \<union> set arg_regs" for q
  proof -
    have "q \<in> set (sp # call_regs @ saved_regs)" "length vs < 15"
      using that assms(2) by (auto simp: call_regs_def temp_regs_def saved_regs_def gp_def fp_def)
    then have "rd s' q = rd s q" using assms(5) reg_kept [OF _ that] by blast
    moreover have "rd s q = rd s0 q" using h(2) that by blast
    ultimately show ?thesis by simp
  qed
  ultimately show ?thesis using assms(2,3,4,6) by (auto simp: holds_sim agrees_def nth_append less_Suc_eq)
qed

context runtime_code
begin

lemma call_block:
  assumes "compile_call (Name n) argc None c = Inr c'" "holds s0 (vs @ args, m) c s"
    and "unat argc = length args" "length args \<le> 8" "length vs < 11" "256 \<le> unat (rd s0 sp)"
    and "call_result (unat (rd s0 sp)) n args m v m'"
  shows "\<exists>s'. exec lab ext (new_code c c') s = Some s' \<and> holds s0 (vs @ [v], m') c' s'"
proof -
  let ?a = "unat (rd s0 sp)"
  obtain fr where fr: "current_frame c = Some fr" using compile_call_frame [OF assms(1)] by blast
  have h: "st_top c = length vs + length args" "st_top c \<le> 15" "rd s sp = rd s0 sp" "agrees ?a (cmem s) m"
    "\<forall>i < length vs + length args. rd s (regs ! i) = (vs @ args) ! i"
    using assms(2) by (auto simp: holds_sim)
  have k: "length vs = st_top c - unat argc" "unat argc \<le> 8" "length vs < 15" "256 \<le> unat (rd s sp)"
    using h(1,3) assms(3-6) by simp_all
  define called where "called s1 \<longleftrightarrow> (\<forall>i < unat argc. rd s1 (10 + i) = rd s (regs ! (length vs + i))) \<and>
    unat (rd s1 sp) = ?a - 128 - 8 * unat (locals_count fr AND 1) \<and> (\<forall>x \<ge> ?a. cmem s1 x = cmem s x)" for s1
  have run: "\<exists>s2 mm. ext n s1 = Some s2 \<and> conforms s1 s2 \<and> rd s2 10 = v \<and> (\<forall>x \<ge> ?a. cmem s2 x = m' x)" if c1: "called s1" for s1
  proof -
    have a: "\<forall>i < length args. rd s1 (10 + i) = args ! i" using c1 h(5) assms(3) by (simp add: called_def)
    have "agrees ?a (cmem s1) m" using c1 h(4) by (simp add: called_def agrees_def)
    then obtain mm where mm: "runtime n args (cmem s1) = Inr (v, mm)" "agrees ?a mm m'" "\<forall>x < ?a + 8. mm x = cmem s1 x"
      using assms(7) by (auto simp: call_result_def)
    obtain s2 where s2: "ext n s1 = Some s2" "rd s2 10 = v" "rd s2 sp = rd s1 sp" "\<forall>r \<in> set saved_regs. rd s2 r = rd s1 r"
      "\<forall>x \<ge> unat (rd s1 sp). cmem s2 x = mm x"
      using ext_runs [OF mm(1) a] by blast
    have b: "unat (rd s1 sp) + 128 \<le> ?a" using c1 assms(6) by (simp add: called_def)
    then have "conforms s1 s2" using s2(3,4,5) mm(3) by (auto simp: conforms_def)
    moreover have "\<forall>x \<ge> ?a. cmem s2 x = m' x" using s2(5) mm(2) b by (auto simp: agrees_def)
    ultimately show ?thesis using s2(1,2) by blast
  qed
  have pre: "\<exists>s2. ext n s1 = Some s2 \<and> conforms s1 s2"
    if "\<forall>i < unat argc. rd s1 (10 + i) = rd s (regs ! (length vs + i))"
      "unat (rd s1 sp) = unat (rd s sp) - 128 - 8 * unat (locals_count fr AND 1)"
      "\<forall>x \<ge> unat (rd s sp). cmem s1 x = cmem s x" for s1
    using run [of s1] that by (auto simp: called_def h(3))
  obtain s1 s2 s' where r: "exec lab ext (new_code c c') s = Some s'" "ext n s1 = Some s2"
    "\<forall>i < unat argc. rd s1 (10 + i) = rd s (regs ! (length vs + i))"
    "unat (rd s1 sp) = unat (rd s sp) - 128 - 8 * unat (locals_count fr AND 1)"
    "\<forall>x \<ge> unat (rd s sp). cmem s1 x = cmem s x" "cmem s' = cmem s2"
    "rd s' (regs ! length vs) = (if length vs < 11 then rd s2 10 else rd s (regs ! length vs))"
    "\<forall>r \<in> set (sp # call_regs @ saved_regs). r \<noteq> regs ! length vs \<longrightarrow> rd s' r = rd s r"
    using call_code_correct [where lab = lab and ext = ext, OF assms(1) fr k(2) h(2) k(1,3,4)] pre by blast
  have "called s1" using r(3-5) by (simp add: called_def h(3))
  then have v: "rd s2 10 = v" "\<forall>x \<ge> ?a. cmem s2 x = m' x" using run [of s1] r(2) by auto
  have st: "st_top c' = Suc (length vs)" "current_frame c' = current_frame c"
    using compile_call_grows [OF assms(1)] h(1) assms(3) by (simp_all add: keeps_def)
  have "holds s0 (vs @ [v], m') c' s'"
    by (rule call_holds [OF assms(2,5) st(1)]) (use v r(6-8) assms(5) in simp_all)
  then show ?thesis using r(1) by blast
qed

lemma tag_code:
  assumes "emit_Tag t k c = Inr c'" "holds s0 (vs @ [v], m) c s" "LtagHash t = Inr h" "length t \<le> 5" "unat k < 2 ^ 30"
    and "length vs < 11" "256 \<le> unat (rd s0 sp)" "call_result (unat (rd s0 sp)) ''Btag'' [v, h, 2 * k + 1] m w m'"
  shows "\<exists>s'. exec lab ext (new_code c c') s = Some s' \<and> holds s0 (vs @ [w], m') c' s'"
proof -
  let ?n = "length vs" and ?k = "2 * k + 1 :: u64"
  let ?l1 = "Li (regs ! Suc ?n) (imm h)" and ?l2 = "Li (regs ! Suc (Suc ?n)) (imm ?k)"
  define c2 where "c2 = (emits [?l1, ?l2] c)\<lparr>st_top := Suc (Suc (Suc ?n))\<rparr>"
  have n: "st_top c = Suc ?n" using assms(2) by (auto simp: holds_sim)
  have call: "compile_call (Name ''Btag'') 3 None c2 = Inr c'"
    using assms(1,3,6) n by (simp add: emit_Tag_def loc_at_reg symb_emit_registers comp_LtagHash_eq c2_def)
  have h: "(word_of_int (imm h) :: u64) = h" using tag_hash_exact [OF assms(3)] assms(4) by simp
  have "unat ?k = 2 * unat k + 1" using assms(5) by (simp add: unat_word_ariths)
  then have u: "unat ?k < 2 ^ 31" using assms(5) by simp
  then have "sint ?k = int (unat ?k)" by (intro sint_small) simp
  moreover have "int (unat ?k) < 2 ^ 31" using u by (simp only: of_nat_less_numeral_power_cancel_iff)
  moreover have "0 \<le> int (unat ?k)" by (rule of_nat_0_le_iff)
  ultimately have "- (2 ^ 31) \<le> sint ?k \<and> sint ?k < 2 ^ 31" by linarith
  then have k: "(word_of_int (imm ?k) :: u64) = ?k" by (simp only: imm_exact_iff)
  let ?s1 = "wr (regs ! Suc ?n) h s"
  let ?s2 = "wr (regs ! Suc (Suc ?n)) ?k ?s1"
  have "holds s0 ((vs @ [v]) @ [h], m) (c\<lparr>st_top := Suc (Suc ?n)\<rparr>) ?s1"
    by (rule holds_push [OF assms(2)]) (use assms(6) regs_not_special(1) in simp_all)
  then have "holds s0 (((vs @ [v]) @ [h]) @ [?k], m) c2 ?s2"
    by (rule holds_push) (use assms(6) regs_not_special(1) in \<open>simp_all add: c2_def\<close>)
  then have "holds s0 (vs @ [v, h, ?k], m) c2 ?s2" by simp
  then obtain s' where s': "exec lab ext (new_code c2 c') ?s2 = Some s'" "holds s0 (vs @ [w], m') c' s'"
    using call_block [OF call _ _ _ assms(6,7,8), of ?s2] by auto
  obtain cs where "out c' = out c2 @ cs" using compile_call_grows [OF call] by (auto simp: grows_def)
  then have "new_code c2 c' = cs" "new_code c c' = [?l1, ?l2] @ cs" by (simp_all add: new_code_def c2_def)
  then show ?thesis using s' h k by simp
qed

lemma step_code:
  assumes "bstep s0 i b b'" "emit_code False i c = Inr c'" "holds s0 b c s" "256 \<le> unat (rd s0 sp)"
  shows "\<exists>s'. exec lab ext (new_code c c') s = Some s' \<and> holds s0 b' c' s'"
  using assms
proof (cases rule: bstep.cases)
  case (Drop vs v m)
  then have "c' = c\<lparr>st_top := length vs\<rparr>" using assms(2,3) by (auto simp: emit_Drop_def res_simps c_pop_Inr holds_sim)
  then show ?thesis using assms(3) Drop by (auto simp: holds_sim nth_append)
next
  case (Line l vs m)
  then show ?thesis using assms(2,3) by (auto simp: emit_comment_def holds_sim)
next
  case (Call n argc args vs m v m')
  then show ?thesis using call_block [of n argc c c' s0 vs args m s v m'] callee_code [of i n argc] assms(2-4) by auto
next
  case (Tag t h k vs v m w m')
  then show ?thesis using tag_code [of t k c c' s0 vs v m s h w m'] assms(2-4) by simp
qed (use const_code binop_block duplicate_code load_block parameter_code store_block assms(3) in fastforce)+

end

text \<open>The code of an instruction is added to the output.\<close>

lemma bstep_wf: "bstep s0 i b b' \<Longrightarrow> wf_instr i \<and> \<not> is_terminator i"
  by (induction rule: bstep.induct) (auto elim: callee.elims)

lemma bstep_appends:
  assumes "bstep s0 i b b'" "emit_code af i c = Inr c'"
  shows "out c' = out c @ new_code c c'"
  using emit_code_effect [OF assms(2)] bstep_wf [OF assms(1)] by (auto simp: effect_def grows_def new_code_def)

lemma inst_begin_code:
  assumes "inst_begin off c = Inr c'"
  shows "\<exists>cs. c' = (emits cs c)\<lparr>done_at := done_at c'\<rparr> \<and> exec lab ext cs s = Some s"
  by (rule exI [of _ "new_code c c'"])
    (use assms in \<open>auto simp: inst_begin_def emit_label_def emit_comment_def emits_def new_code_def split: option.splits if_splits\<close>)

context runtime_code
begin

lemma block_code:
  assumes "bsteps s0 (map snd blk) b b'" "emit_run False blk c = Inr c'" "holds s0 b c s" "256 \<le> unat (rd s0 sp)"
  shows "\<exists>cs s'. out c' = out c @ cs \<and> exec lab ext cs s = Some s' \<and> holds s0 b' c' s'"
  using assms
proof (induction blk arbitrary: b c s)
  case Nil
  then show ?case by (auto elim: bsteps_NilE intro!: exI [of _ "[]"])
next
  case (Cons x blk)
  obtain off i where x: "x = (off, i)" by (cases x)
  obtain b1 where b1: "bstep s0 i b b1" "bsteps s0 (map snd blk) b1 b'" using Cons.prems(1) by (auto simp: x elim: bsteps_ConsE)
  have nt: "\<not> is_terminator i" using bstep_wf [OF b1(1)] by simp
  obtain c1 d c2 where r: "inst_begin off c = Inr c1" "print_inst i = Inr d"
    "emit_code False i (emits (emit_comment (''-> '' @ d)) c1) = Inr c2" "emit_run False blk c2 = Inr c'"
    using Cons.prems(2) nt by (auto simp: x res_simps)
  let ?c1 = "emits (emit_comment (''-> '' @ d)) c1"
  obtain cs where cs: "c1 = (emits cs c)\<lparr>done_at := done_at c1\<rparr>" "exec lab ext cs s = Some s"
    using inst_begin_code [OF r(1)] by blast
  have o1: "out ?c1 = out c @ cs @ emit_comment (''-> '' @ d)" by (subst cs(1)) (simp add: emits_def)
  have "st_top c1 = st_top c" "current_frame c1 = current_frame c" by (subst cs(1), simp)+
  then have h1: "holds s0 b ?c1 s" using Cons.prems(3) by (simp add: holds_sim)
  obtain s1 where s1: "exec lab ext (new_code ?c1 c2) s = Some s1" "holds s0 b1 c2 s1"
    using step_code [OF b1(1) r(3) h1 Cons.prems(4)] by blast
  obtain ds s' where s': "out c' = out c2 @ ds" "exec lab ext ds s1 = Some s'" "holds s0 b' c' s'"
    using Cons.IH [OF b1(2) r(4) s1(2) Cons.prems(4)] by blast
  let ?cs = "cs @ emit_comment (''-> '' @ d) @ new_code ?c1 c2 @ ds"
  have "out c' = out c @ ?cs" using s'(1) bstep_appends [OF b1(1) r(3)] o1 by simp
  moreover have "exec lab ext ?cs s = Some s'" using cs(2) s1(1) s'(2) by (simp add: exec_append emit_comment_def)
  ultimately show ?case using s'(3) by blast
qed

end

text \<open>
  The code of a basic block simulates the stack machine: when the compiler accepts the
  instructions and the machine of the specification runs them from a stack and memory to another
  pair, the emitted code, started with that stack in the operand registers, runs to a state that has
  the other pair, with the stack pointer, the frame pointer, the base of the globals and the
  parameters as before; run-time functions that are called do what their models say.
\<close>

theorem block_correct:
  assumes "runtime_code ext" "emit_run False blk c = Inr c'" "bsteps s0 (map snd blk) b b'"
    and "holds s0 b c s" "256 \<le> unat (rd s0 sp)"
  shows "\<exists>s'. exec lab ext (new_code c c') s = Some s' \<and> holds s0 b' c' s'"
proof -
  obtain cs s' where "out c' = out c @ cs" "exec lab ext cs s = Some s'" "holds s0 b' c' s'"
    using runtime_code.block_code [OF assms(1,3,2,4,5)] by blast
  then show ?thesis by (auto simp: new_code_def)
qed

text \<open>Five added to the length of the array that the second local variable refers to.\<close>

definition sample_block :: program where
  "sample_block = [(0, Load \<lparr>kind = Local, index = 1\<rparr>), (5, BuiltinLength), (6, Const 11), (11, Binop Add),
     (12, Store \<lparr>kind = Local, index = 1\<rparr>)]"

definition block_cpu :: cpu where
  "block_cpu = sample_frame\<lparr>cmem := st64 (st64 (\<lambda>x. 0) 5000 27) 4200 5016\<rparr>"

lemma sample_block_emits: "\<not> isl (emit_run False sample_block (sample_code_state 0))"
  by code_simp

lemma block_cpu_regs: "rd block_cpu sp = 4096" "rd block_cpu fp = 4208" "rd block_cpu gp = 5"
  by (simp_all add: block_cpu_def sample_frame_def sample_cpu_def rd_def fp_def sp_def gp_def)

lemma block_cpu_var: "var_ok block_cpu \<lparr>kind = Local, index = 1\<rparr>" "var_addr block_cpu \<lparr>kind = Local, index = 1\<rparr> = 4200"
  by (simp_all add: var_ok_def var_addr_def block_cpu_regs)

lemma block_length: "call_result 4096 ''Llength'' [5016] (cmem block_cpu) (boxI 3) (cmem block_cpu)"
  unfolding call_result_def
proof (intro allI impI)
  fix mm assume a: "agrees 4096 mm (cmem block_cpu)"
  have "ld64 mm 5000 = 27" using agrees_ld64 [OF a, of 5000] by (simp add: block_cpu_def ld64_st64_other)
  then have "Llength mm 5016 = Inr (boxI 3)"
    by (simp add: Llength_def assert_boxed_def data_header_def TO_DATA_def LEN_eq unboxed_iff boxI_def drop_bit_eq_div)
  then show "\<exists>mm'. runtime ''Llength'' [5016] mm = Inr (boxI 3, mm') \<and> agrees 4096 mm' (cmem block_cpu) \<and>
      (\<forall>x < 4096 + 8. mm' x = mm x)"
    using a by (simp add: same_mem_def)
qed

lemma sample_block_steps:
  "bsteps block_cpu (map snd sample_block) ([], cmem block_cpu) ([boxI 8], st64 (cmem block_cpu) 4200 (boxI 8))"
proof -
  let ?m = "cmem block_cpu" and ?e = "\<lparr>kind = Local, index = 1\<rparr> :: location_entry"
  have sp: "unat (rd block_cpu sp) = 4096" by (simp add: block_cpu_regs)
  have l: "ld64 ?m 4200 = 5016" by (simp add: block_cpu_def)
  have "bstep block_cpu (Load ?e) ([], ?m) ([] @ [5016], ?m)"
    using bstep.Load [of "[]" block_cpu ?e ?m] block_cpu_var sp l by simp
  moreover have "bstep block_cpu BuiltinLength ([] @ [5016], ?m) ([] @ [boxI 3], ?m)"
    by (rule bstep.Call [where n = "''Llength''" and argc = 1]) (use block_length sp in simp_all)
  moreover have "bstep block_cpu (Const 11) ([boxI 3], ?m) ([boxI 3] @ [scast (11 :: i32)], ?m)"
    by (rule bstep.Const) simp
  moreover have "bstep block_cpu (Binop Add) ([] @ [boxI 3, boxI 5], ?m) ([] @ [boxI (binop_int Add 3 5)], ?m)"
    by (rule bstep.Binop) (simp_all add: known_op_def fits63_def)
  moreover have "bstep block_cpu (Store ?e) ([] @ [boxI 8], ?m) ([] @ [boxI 8], st64 ?m 4200 (boxI 8))"
    using bstep.Store [of "[]" block_cpu ?e "boxI 8" ?m] block_cpu_var sp by simp
  moreover have "scast (11 :: i32) = boxI 5" by (simp add: boxI_def BOX_def)
  ultimately show ?thesis by (auto simp: sample_block_def intro!: bsteps.intros)
qed

theorem block_correct_witness:
  "\<exists>c' s'. emit_run False sample_block (sample_code_state 0) = Inr c' \<and>
     exec (\<lambda>l. 0) runtime_ext (new_code (sample_code_state 0) c') block_cpu = Some s' \<and>
     rd s' 9 = boxI 8 \<and> ld64 (cmem s') 4200 = boxI 8"
proof -
  obtain c' where c': "emit_run False sample_block (sample_code_state 0) = Inr c'"
    using not_isl_Inr [OF _ sample_block_emits] by blast
  have "holds block_cpu ([], cmem block_cpu) (sample_code_state 0) block_cpu"
    by (simp add: holds_sim agrees_def sample_code_state_def)
  then obtain s' where s': "exec (\<lambda>l. 0) runtime_ext (new_code (sample_code_state 0) c') block_cpu = Some s'"
    "holds block_cpu ([boxI 8], st64 (cmem block_cpu) 4200 (boxI 8)) c' s'"
    using block_correct [OF rt.runtime_code_axioms c' sample_block_steps, of block_cpu "\<lambda>l. 0"] by (auto simp: block_cpu_regs)
  have "rd s' 9 = boxI 8" using s'(2) by (simp add: holds_sim regs_def)
  moreover have "ld64 (cmem s') 4200 = boxI 8"
    using s'(2) agrees_ld64 [of "unat (rd block_cpu sp)" "cmem s'" _ 4200] by (auto simp: holds_sim block_cpu_regs)
  ultimately show ?thesis using c' s'(1) by blast
qed

end
