(* ===== verification/Run.thy ===== *)
theory Run
  imports Block_Correct
begin

text \<open>
  The machine of \<open>Machine\<close> on a whole output of the compiler: a program counter is the number of a
  line, a jump goes to the line of its label. A call of a label of the output leaves the address of the
  next line in \<open>ra\<close>, any other call runs the external function; a \<open>ret\<close> goes to the line whose address
  \<open>ra\<close> has. Where the lines are in memory is the parameter \<open>adr\<close>.
\<close>

section \<open>The machine\<close>

definition label_pos :: "asm list \<Rightarrow> string \<Rightarrow> nat option" where
  "label_pos P l = (let n = length (takeWhile (\<lambda>i. i \<noteq> Label l) P) in if n < length P then Some n else None)"

definition goto :: "asm list \<Rightarrow> string \<Rightarrow> cpu \<Rightarrow> (nat \<times> cpu) option" where
  "goto P l s = map_option (\<lambda>n. (n, s)) (label_pos P l)"

definition line_of :: "(nat \<Rightarrow> u64) \<Rightarrow> asm list \<Rightarrow> u64 \<Rightarrow> nat option" where
  "line_of adr P w = find (\<lambda>n. adr n = w) [0..<Suc (length P)]"

text \<open>The functions outside the output: a name that is also a label of the output means the label.\<close>

definition foreign :: "asm list \<Rightarrow> (string \<Rightarrow> cpu \<Rightarrow> cpu option) \<Rightarrow> string \<Rightarrow> cpu \<Rightarrow> cpu option" where
  "foreign P ext l s = (if label_pos P l = None then ext l s else None)"

fun step_line :: "(string \<Rightarrow> u64) \<Rightarrow> (string \<Rightarrow> cpu \<Rightarrow> cpu option) \<Rightarrow> (nat \<Rightarrow> u64) \<Rightarrow> asm list \<Rightarrow> asm \<Rightarrow> nat \<Rightarrow> cpu \<Rightarrow>
    (nat \<times> cpu) option" where
  "step_line lab ext adr P (J l) pc s = goto P l s"
| "step_line lab ext adr P (Cj on_eq a b l) pc s = (if (rd s a = rd s b) = on_eq then goto P l s else Some (Suc pc, s))"
| "step_line lab ext adr P (CallInsn l) pc s = (if label_pos P l = None then map_option (\<lambda>s'. (Suc pc, s')) (ext l s)
     else goto P l (wr ra (adr (Suc pc)) s))"
| "step_line lab ext adr P Ret pc s = map_option (\<lambda>n. (n, s)) (line_of adr P (rd s ra))"
| "step_line lab ext adr P i pc s = map_option (\<lambda>s'. (Suc pc, s')) (exec1 lab ext i s)"

fun run :: "(string \<Rightarrow> u64) \<Rightarrow> (string \<Rightarrow> cpu \<Rightarrow> cpu option) \<Rightarrow> (nat \<Rightarrow> u64) \<Rightarrow> asm list \<Rightarrow> nat \<Rightarrow> nat \<times> cpu \<Rightarrow>
    (nat \<times> cpu) option" where
  "run lab ext adr P 0 x = Some x"
| "run lab ext adr P (Suc n) (pc, s) =
     (if pc < length P then Option.bind (step_line lab ext adr P (P ! pc) pc s) (run lab ext adr P n) else None)"

definition reaches_line :: "(string \<Rightarrow> u64) \<Rightarrow> (string \<Rightarrow> cpu \<Rightarrow> cpu option) \<Rightarrow> (nat \<Rightarrow> u64) \<Rightarrow> asm list \<Rightarrow>
    nat \<times> cpu \<Rightarrow> nat \<times> cpu \<Rightarrow> bool" where
  "reaches_line lab ext adr P x y \<longleftrightarrow> (\<exists>n. run lab ext adr P n x = Some y)"

lemma run_add: "run lab ext adr P (m + n) x = Option.bind (run lab ext adr P m x) (run lab ext adr P n)"
proof (induction m arbitrary: x)
  case (Suc m)
  then show ?case by (cases x) (auto split: bind_splits)
qed simp

lemma reaches_line_refl [intro!, simp]: "reaches_line lab ext adr P x x"
  unfolding reaches_line_def by (rule exI [of _ 0]) simp

lemma reaches_line_trans [trans]:
  "reaches_line lab ext adr P x y \<Longrightarrow> reaches_line lab ext adr P y z \<Longrightarrow> reaches_line lab ext adr P x z"
  unfolding reaches_line_def by (metis bind.bind_lunit run_add)

lemma reaches_line_step:
  "pc < length P \<Longrightarrow> step_line lab ext adr P (P ! pc) pc s = Some y \<Longrightarrow> reaches_line lab ext adr P (pc, s) y"
  unfolding reaches_line_def by (rule exI [of _ 1]) simp

text \<open>The two halves of a call inside the output.\<close>

lemma line_of_adr:
  assumes "inj_on adr {..length P}" "n \<le> length P"
  shows "line_of adr P (adr n) = Some n"
proof -
  have "[0..<Suc (length P)] ! j = j" if "j \<le> length P" for j using that by (simp add: nth_append del: upt_Suc)
  moreover have "adr j \<noteq> adr n" if "j < n" for j using inj_onD [OF assms(1), of j n] assms(2) that by auto
  ultimately show ?thesis
    unfolding line_of_def find_Some_iff using assms(2) by (intro exI [of _ n]) auto
qed

lemma reaches_call:
  assumes "pc < length P" "P ! pc = CallInsn l" "label_pos P l = Some n"
  shows "reaches_line lab ext adr P (pc, s) (n, wr ra (adr (Suc pc)) s)"
  by (rule reaches_line_step [OF assms(1)]) (simp add: assms(2,3) goto_def)

lemma reaches_ret:
  assumes "pc < length P" "P ! pc = Ret" "rd s ra = adr r" "r \<le> length P" "inj_on adr {..length P}"
  shows "reaches_line lab ext adr P (pc, s) (r, s)"
  by (rule reaches_line_step [OF assms(1)]) (simp add: assms(2,3) line_of_adr [OF assms(5,4)])

section \<open>Straight-line code inside a program\<close>

lemma step_line_exec1:
  "exec1 lab (foreign P ext) i s = Some s' \<Longrightarrow> step_line lab ext adr P i pc s = Some (Suc pc, s')"
  by (induction lab "foreign P ext" i s rule: exec1.induct) (auto simp: foreign_def split: if_splits)

lemma reaches_exec:
  assumes "exec lab (foreign P ext) cs s = Some s'" "P = xs @ cs @ ys"
  shows "reaches_line lab ext adr P (length xs, s) (length (xs @ cs), s')"
  using assms
proof (induction cs arbitrary: xs s)
  case (Cons i cs)
  then obtain t where t: "exec1 lab (foreign P ext) i s = Some t" "exec lab (foreign P ext) cs t = Some s'"
    by (auto split: bind_splits)
  have "reaches_line lab ext adr P (length xs, s) (Suc (length xs), t)"
    by (rule reaches_line_step) (simp_all add: Cons.prems(2) step_line_exec1 [OF t(1), unfolded Cons.prems(2), simplified])
  also have "reaches_line lab ext adr P (Suc (length xs), t) (length (xs @ i # cs), s')"
    using Cons.IH [OF t(2), of "xs @ [i]"] Cons.prems(2) by simp
  finally show ?case .
qed simp

section \<open>Labels\<close>

text \<open>The first line with a label, when the code before does not have it.\<close>

lemma label_pos_first:
  assumes "Label l \<notin> set xs"
  shows "label_pos (xs @ Label l # ys) l = Some (length xs)"
proof -
  have "takeWhile (\<lambda>i. i \<noteq> Label l) (xs @ Label l # ys) = xs"
    using assms by (subst takeWhile_append2) auto
  then show ?thesis by (simp add: label_pos_def)
qed

definition labels :: "asm list \<Rightarrow> string set" where
  "labels cs = {l. Label l \<in> set cs}"

lemma labels_simps [simp]:
  "labels [] = {}" "labels (Label l # cs) = insert l (labels cs)"
  "labels (R_type i d a b # cs) = labels cs" "labels (I_type j d a n # cs) = labels cs"
  "labels (S_type k d b n # cs) = labels cs" "labels (Li d n # cs) = labels cs"
  "labels (Pseudo p d a # cs) = labels cs" "labels (Mv d a # cs) = labels cs" "labels (La d l # cs) = labels cs"
  "labels (CallInsn l # cs) = labels cs" "labels (Ret # cs) = labels cs" "labels (Comment l # cs) = labels cs"
  "labels (J l # cs) = labels cs" "labels (Cj e a b l # cs) = labels cs" "labels (Raw l # cs) = labels cs"
  "labels (cs @ ds) = labels cs \<union> labels ds"
  by (auto simp: labels_def)

lemma labels_concat [simp]: "labels (concat css) = (\<Union>cs \<in> set css. labels cs)"
  by (auto simp: labels_def)

end
