(* ===== verification/Driver_Properties.thy ===== *)
theory Driver_Properties
  imports Driver_Correct
begin

text \<open>
  The properties of the code-generation loop, with a sample program: a function that calls another
  one and branches.
\<close>

section \<open>A sample program\<close>

text \<open>The function at 0 calls the one at 40 and branches to 30; both of its paths end at an \<open>End\<close>.\<close>

definition sample_program :: program where
  "sample_program =
     [(0, Begin (Name ''start'') 2 2), (1, Line 7), (2, Const 3), (7, Call (Offset 40) 1), (16, ConditionalJump 30 True),
      (21, Const 5), (26, End), (30, Const 9), (35, End),
      (40, Begin (Offset 40) 1 1), (50, Load \<lparr>kind = Arg, index = 0\<rparr>), (55, End)]"

definition sample_emitted :: "((u64 \<times> nat) list \<Rightarrow> u64 \<times> nat) \<Rightarrow> compiler res option" where
  "sample_emitted begin_of = emit_program True begin_of ''t.bc'' sample_program [] 0 [0]"

lemma sample_wf: "wf_program sample_program"
  by (simp add: wf_program_def sample_program_def)

lemma begin_ok_hd_last: "begin_ok hd" "begin_ok last"
  by (simp_all add: begin_ok_def)




lemma sample_jump:
  "map_option (map_sum id (\<lambda>c. (Cj True 9 0 ''.lbc_0x1e'' \<in> set (out c), map_of (done_at c) 35))) (sample_emitted hd) =
     Some (Inr (True, Some 1))"
  by code_simp

definition sample_state :: compiler where
  "sample_state = (new_compiler [] 0 [])\<lparr>st_top := 3,
     current_frame := Some \<lparr>function_name = [], locals_count = 1, args_count = 1\<rparr>\<rparr>"

lemma sample_call: "map_sum id st_top (emit_code True (Call (Offset 40) 2) sample_state) = Inr 2"
  by code_simp

lemma sample_result:
  assumes "map_option (map_sum id f) (sample_emitted b) = Some (Inr x)"
  obtains c where "emit_program True b ''t.bc'' sample_program [] 0 [0] = Some (Inr c)" "f c = x"
proof -
  obtain r where r: "sample_emitted b = Some r" "map_sum id f r = Inr x" using assms by auto
  then obtain c where "r = Inr c" "f c = x" by (cases r) auto
  then show ?thesis using r(1) that by (simp add: sample_emitted_def)
qed

section \<open>Properties\<close>

text \<open>
  The loop terminates on every program, whichever pending target it picks next: it ends
  with the emitted code and no pending target, or with an error.
\<close>

lemma emit_terminates:
  assumes "begin_ok begin_of"
  shows "\<exists>r. emit_program af begin_of file is strings globals publics = Some r \<and>
    (\<forall>c. r = Inr c \<longrightarrow> todo c = [])"
  using emit_loop_runs [OF assms] by (auto simp: emit_program_def split: sum.splits) metis

lemma emit_program_final:
  assumes "begin_ok begin_of" "wf_program is"
    and "emit_program af begin_of file is strings globals publics = Some (Inr c)"
  shows "driver_inv af is c" "todo c = []"
    "\<forall>p \<in> set publics. p \<in> fst ` set is \<longrightarrow> map_of (done_at c) p = Some 0"
proof -
  obtain c0 where c0: "add_entries publics (header (new_compiler file globals strings)) = Inr c0"
    "emit_loop af begin_of is c0 = Some (Inr c)"
    using assms(3) by (auto simp: emit_program_def split: if_splits sum.splits)
  note start = emit_program_start [OF c0(1), of af "is"]
  have r: "(driver_step af is)\<^sup>*\<^sup>* c0 c" "todo c = []"
    using emit_loop_runs [OF assms(1), of af "is" c0] c0(2) by auto
  note fin = driver_steps_inv [OF r(1) start [THEN conjunct1] assms(2)]
  show "driver_inv af is c" "todo c = []" using fin r(2) by simp_all
  have "map_of (done_at c) p = Some 0" if "p \<in> set publics" "p \<in> fst ` set is" for p
  proof -
    have "known is c p 0" using fin start that(1) by blast
    then have "(p, 0) \<in> set (done_at c)" using r(2) that(2) by (simp add: known_def find_from_Nil)
    then show ?thesis using fin by (simp add: driver_inv_def)
  qed
  then show "\<forall>p \<in> set publics. p \<in> fst ` set is \<longrightarrow> map_of (done_at c) p = Some 0" by blast
qed

text \<open>Where control can be, and with which height, when it enters at a public symbol.\<close>

inductive reaches :: "bool \<Rightarrow> program \<Rightarrow> u64 list \<Rightarrow> u64 \<Rightarrow> nat \<Rightarrow> bool" for af "is" ps where
  entry: "p \<in> set ps \<Longrightarrow> p \<in> fst ` set is \<Longrightarrow> reaches af is ps p 0"
| target: "reaches af is ps off h \<Longrightarrow> find_from off is = (off, i) # rest \<Longrightarrow> (t, ht) \<in> set (targets i h) \<Longrightarrow>
    t \<in> fst ` set is \<Longrightarrow> reaches af is ps t ht"
| fall: "reaches af is ps off h \<Longrightarrow> find_from off is = (off, i) # x # rest \<Longrightarrow> \<not> is_terminator i \<Longrightarrow>
    reaches af is ps (fst x) (h - pops af i + pushes af i)"

lemma consistent_reaches:
  assumes "consistent af is H" "\<forall>p \<in> set ps. p \<in> fst ` set is \<longrightarrow> H p = Some 0"
  shows "reaches af is ps off h \<Longrightarrow> H off = Some h"
proof (induction rule: reaches.induct)
  case (entry p)
  then show ?case using assms(2) by blast
next
  case (target off h i rest t ht)
  then show ?case using assms(1) unfolding consistent_def by fastforce
next
  case (fall off h i x rest)
  then show ?case using assms(1) unfolding consistent_def by fastforce
qed

text \<open>
  C3: When the compiler succeeds, the stack heights it worked with are well typed: every reached
  instruction is one it implements and finds the operands it pops, each jump, call and fall-through
  reaches its target at the height recorded there, and every function starts with an empty stack;
  and every label the emitted code jumps to is emitted, unless the program has no instruction there.
\<close>

theorem emitted_heights_consistent:
  assumes "begin_ok begin_of" "wf_program is"
    and "emit_program af begin_of file is strings globals publics = Some (Inr c)"
  shows "consistent af is (map_of (done_at c)) \<and>
    (\<forall>p \<in> set publics. p \<in> fst ` set is \<longrightarrow> map_of (done_at c) p = Some 0) \<and>
    (\<forall>l \<in> refs (out c). Label l \<in> set (out c) \<or> (\<exists>t. l = label_for_ip t \<and> t \<notin> fst ` set is))"
proof (intro conjI ballI)
  note F = emit_program_final [OF assms]
  show "consistent af is (map_of (done_at c))" by (rule driver_inv_final(1) [OF F(1,2)])
  show "p \<in> fst ` set is \<longrightarrow> map_of (done_at c) p = Some 0" if "p \<in> set publics" for p using F(3) that by blast
  show "Label l \<in> set (out c) \<or> (\<exists>t. l = label_for_ip t \<and> t \<notin> fst ` set is)" if "l \<in> refs (out c)" for l
    by (rule driver_inv_final(2) [OF F(1,2) that])
qed

theorem emitted_heights_consistent_witness:
  "\<exists>c. emit_program True hd ''t.bc'' sample_program [] 0 [0] = Some (Inr c) \<and> map_of (done_at c) 35 = Some 1 \<and>
     map_of (done_at c) 0 = Some 0 \<and> consistent True sample_program (map_of (done_at c)) \<and>
     (Label ''.lbc_0x1e'' \<in> set (out c) \<or> (\<exists>t. ''.lbc_0x1e'' = label_for_ip t \<and> t \<notin> fst ` set sample_program))"
proof -
  obtain c where c: "emit_program True hd ''t.bc'' sample_program [] 0 [0] = Some (Inr c)"
    "(Cj True 9 0 ''.lbc_0x1e'' \<in> set (out c), map_of (done_at c) 35) = (True, Some 1)"
    using sample_result [OF sample_jump] by blast
  then have "''.lbc_0x1e'' \<in> refs (out c)" by (auto simp: refs_def)
  then show ?thesis
    using emitted_heights_consistent [OF begin_ok_hd_last(1) sample_wf c(1)] c by (auto simp: sample_program_def)
qed

text \<open>
  C13: Every instruction that control can reach from a public symbol, over jumps, calls and falling
  through, is eventually picked from the pending targets or run into, and emitted, under its label
  and at the height control reaches it with.
\<close>

theorem reachable_emitted:
  assumes "begin_ok begin_of" "wf_program is"
    and "emit_program af begin_of file is strings globals publics = Some (Inr c)"
    and "reaches af is publics off h"
  shows "map_of (done_at c) off = Some h \<and> Label (label_for_ip off) \<in> set (out c)"
proof -
  note F = emit_program_final [OF assms(1-3)]
  have h: "map_of (done_at c) off = Some h"
    by (rule consistent_reaches [OF driver_inv_final(1) [OF F(1,2)] F(3) assms(4)])
  then show ?thesis using F(1) map_of_SomeD [OF h] by (auto simp: driver_inv_def)
qed

lemma sample_reaches: "reaches True sample_program [0] 30 0"
proof -
  have "reaches True sample_program [0] 0 0" by (rule entry) (simp_all add: sample_program_def)
  from fall [OF this] have "reaches True sample_program [0] 1 0" by (simp add: sample_program_def)
  from fall [OF this] have "reaches True sample_program [0] 2 0" by (simp add: sample_program_def)
  from fall [OF this] have "reaches True sample_program [0] 7 1" by (simp add: sample_program_def)
  from fall [OF this] have "reaches True sample_program [0] 16 1" by (simp add: sample_program_def)
  moreover obtain rest where "find_from 16 sample_program = (16, ConditionalJump 30 True) # rest"
    by (simp add: sample_program_def)
  ultimately have "30 \<in> fst ` set sample_program \<Longrightarrow> reaches True sample_program [0] 30 0" by (rule target) simp
  then show ?thesis by (simp add: sample_program_def)
qed

theorem reachable_emitted_witness:
  "\<exists>c. emit_program True hd ''t.bc'' sample_program [] 0 [0] = Some (Inr c) \<and>
     Label (label_for_ip 30) \<in> set (out c)"
proof -
  obtain c where "emit_program True hd ''t.bc'' sample_program [] 0 [0] = Some (Inr c)"
    using sample_result [OF sample_jump] by blast
  then show ?thesis using reachable_emitted [OF begin_ok_hd_last(1) sample_wf _ sample_reaches] by blast
qed

text \<open>
  C32: One instruction changes the height of the symbolic stack by its stack effect, of which it
  finds all operands on the stack, leaves the recorded heights alone, registers its jump and call
  targets, and emits jumps to the labels of these targets only.
\<close>

theorem instruction_stack_effect:
  assumes "emit_code af i c = Inr c'" "wf_instr i"
  shows "pops af i \<le> st_top c \<and> st_top c' = st_top c - pops af i + pushes af i \<and> done_at c' = done_at c \<and>
    set (targets i (st_top c)) \<subseteq> set (done_at c') \<union> set (todo c') \<and>
    refs (new_code c c') \<subseteq> label_for_ip ` fst ` set (targets i (st_top c))"
  using emit_code_effect [OF assms] by (auto simp: effect_def grows_def new_code_def)

theorem instruction_stack_effect_witness:
  "\<exists>c'. emit_code True (Call (Offset 40) 2) sample_state = Inr c' \<and> st_top c' = 2 \<and>
     (40, 0) \<in> set (done_at c') \<union> set (todo c') \<and> refs (new_code sample_state c') \<subseteq> {label_for_ip 40}"
proof -
  obtain c' where c': "emit_code True (Call (Offset 40) 2) sample_state = Inr c'" "st_top c' = 2"
    using sample_call by (cases "emit_code True (Call (Offset 40) 2) sample_state") auto
  have w: "wf_instr (Call (Offset 40) 2)" by simp
  note t = instruction_stack_effect [OF c'(1) w, unfolded targets.simps]
  have "(40, 0) \<in> set (done_at c') \<union> set (todo c')" using t by (elim conjE) (erule subsetD, simp)
  moreover have "refs (new_code sample_state c') \<subseteq> {label_for_ip 40}" using t by (elim conjE) simp
  ultimately show ?thesis using c' by blast
qed


end
