(* ===== verification/Placement.thy ===== *)
theory Placement
  imports Run Driver_Properties
begin

text \<open>
  Where the code of an instruction is in the output of the compiler: at the label of its offset, and
  again wherever a run of the generator falls through into it.
\<close>

section \<open>Labels and frames of the code of one instruction\<close>

text \<open>Code that starts no function has no label and is generated for the frame it was started with.\<close>

definition unlabelled :: "compiler \<Rightarrow> compiler \<Rightarrow> bool" where
  "unlabelled c c' \<longleftrightarrow> current_frame c' = current_frame c \<and> (\<exists>cs. out c' = out c @ cs \<and> labels cs = {})"

lemma unlabelled_refl [simp]: "unlabelled c c"
  by (simp add: unlabelled_def)

lemma unlabelled_trans [trans]: "unlabelled c c1 \<Longrightarrow> unlabelled c1 c2 \<Longrightarrow> unlabelled c c2"
  by (auto simp: unlabelled_def)

lemma unlabelled_emits [simp]: "unlabelled c (emits cs c) \<longleftrightarrow> labels cs = {}"
  by (simp add: unlabelled_def)

lemma unlabelled_update [simp]:
  "unlabelled c (d\<lparr>st_top := n\<rparr>) \<longleftrightarrow> unlabelled c d" "unlabelled c (d\<lparr>todo := t\<rparr>) \<longleftrightarrow> unlabelled c d"
  "unlabelled (c\<lparr>st_top := n\<rparr>) d \<longleftrightarrow> unlabelled c d"
  by (simp_all add: unlabelled_def)

lemma unlabelled_emits_trans: "unlabelled (emits cs c) c' \<Longrightarrow> labels cs = {} \<Longrightarrow> unlabelled c c'"
  using unlabelled_trans [of c "emits cs c" c'] by simp

lemma labels_to_reg [simp]: "labels (fst (to_reg l t)) = {}"
  by (cases l) (simp_all add: emit_defs)

lemma to_reg_labels: "to_reg l t = (cs, r) \<Longrightarrow> labels cs = {}"
  using labels_to_reg [of l t] by simp

lemma labels_symb [simp]:
  "labels (symb_emit_r i d a b) = {}" "labels (symb_emit_i j d a n) = {}" "labels (symb_emit_s k d a n) = {}"
  "labels (symb_emit_pseudo p d a) = {}" "labels (symb_emit_mv_to r a) = {}" "labels (symb_emit_mv_from d r) = {}"
  "labels (symb_emit_mv d a) = {}" "labels (symb_emit_la d l) = {}" "labels (symb_emit_li d w) = {}"
  by (auto simp: symb_emit_r_def symb_emit_i_def symb_emit_s_def symb_emit_pseudo_def symb_emit_mv_to_def
      symb_emit_mv_from_def symb_emit_mv_def symb_emit_la_def symb_emit_li_def emit_defs
      split: prod.splits loc.splits dest!: to_reg_labels)

lemma labels_binop [simp]: "labels (symb_emit_binop op d a b) = {}"
  by (cases op) (simp_all add: symb_emit_binop_def symb_emit_eq_def symb_emit_neq_def symb_emit_sle_def symb_emit_sge_def)

lemma labels_apply_regs [simp]: "(\<And>r i. labels (f r i) = {}) \<Longrightarrow> labels (apply_regs rs f) = {}"
  by (auto simp: apply_regs_def set_zip)

lemma labels_save [simp]: "labels (save_regs rs) = {}" "labels restore_args = {}" "labels restore_temps = {}"
  by (auto simp: save_regs_def restore_args_def restore_temps_def emit_defs)

lemma add_jump_target_unlabelled: "add_jump_target t h c = Inr c' \<Longrightarrow> unlabelled c c'"
  by (auto simp: add_jump_target_def Let_def emit_defs split: option.splits if_splits)

lemma move_args_unlabelled: "move_args is c = Inr c' \<Longrightarrow> unlabelled c c'"
proof (induction "is" arbitrary: c)
  case (Cons i "is")
  then obtain r l n where "move_args is (emits (symb_emit_mv_to r l) (c\<lparr>st_top := n\<rparr>)) = Inr c'"
    by (auto simp: res_simps c_pop_Inr)
  then show ?case using Cons.IH unlabelled_emits_trans [of "symb_emit_mv_to r l" c c'] by fastforce
qed simp

lemma push_args_unlabelled: "push_args k c = Inr c' \<Longrightarrow> unlabelled c c'"
proof (induction k arbitrary: c)
  case (Suc k)
  obtain n where n: "st_top c = Suc n" using Suc.prems by (auto simp: res_simps c_pop_Inr)
  obtain cs r where l: "to_reg (loc_at n) temp1 = (cs, r)" by (cases "to_reg (loc_at n) temp1")
  let ?cs = "cs @ emit_sd r sp (- WORD_SIZE) @ emit_addi sp sp (- WORD_SIZE)"
  have "unlabelled (emits ?cs (c\<lparr>st_top := n\<rparr>)) c'"
    using Suc.prems n l by (intro Suc.IH) (auto simp: res_simps c_pop_Inr)
  then show ?case using unlabelled_emits_trans [of ?cs c c'] to_reg_labels [OF l] by (simp add: emit_defs)
qed simp

lemma compile_call_unlabelled:
  assumes "compile_call f argc opt c = Inr c'"
  shows "unlabelled c c'"
proof -
  obtain fr where fr: "current_frame c = Some fr" using compile_call_frame [OF assms] by blast
  define sl where "sl = spilled_count (st_top c)"
  obtain rs c1 k ds c2 l c3 n al where r: "move_args rs (emits (call_prologue sl opt) c) = Inr c1"
    "push_args k (emits ds c1) = Inr c2" "labels ds = {}" "call_label f c2 = Inr (l, c3)"
    "c' = call_epilogue n al (emits (emit_call l) c3)"
    using assms [unfolded compile_call_def fr option.case Let_def, folded sl_def]
    by (auto simp: res_simps emit_defs)
  have "labels (call_prologue sl opt) = {}" by (auto simp: call_prologue_def emit_defs split: option.splits)
  then have "unlabelled c c1" using move_args_unlabelled [OF r(1)] by (rule unlabelled_emits_trans [rotated])
  also have "unlabelled c1 c2" using push_args_unlabelled [OF r(2)] r(3) by (rule unlabelled_emits_trans)
  also have "unlabelled c2 c3" using r(4) add_jump_target_unlabelled by (auto simp: call_label_def res_simps split: ident.splits)
  also have "unlabelled c3 c'" unfolding r(5) by (auto simp: call_epilogue_def Let_def emit_defs)
  finally show ?thesis .
qed

definition starts :: "instr \<Rightarrow> bool" where
  "starts i \<longleftrightarrow> (\<exists>j argc locc. i = Begin j argc locc) \<or> (\<exists>off argc locc. i = CBegin off argc locc)"

lemma emit_code_unlabelled:
  assumes "emit_code af i c = Inr c'" "\<not> starts i"
  shows "unlabelled c c'"
proof (cases i)
  case (ConditionalJump t z)
  then obtain n cs r where "st_top c = Suc n" "to_reg (loc_at n) temp1 = (cs, r)"
      "add_jump_target t n (emits (cs @ emit_srai r r 1 @ emit_cj z r zero_reg (label_for_ip t)) (c\<lparr>st_top := n\<rparr>)) = Inr c'"
    using assms by (cases "to_reg (loc_at (st_top c - 1)) temp1") (auto simp: emit_ConditionalJump_def res_simps c_pop_Inr)
  then show ?thesis
    using unlabelled_emits_trans [of "cs @ emit_srai r r 1 @ emit_cj z r zero_reg (label_for_ip t)" "c\<lparr>st_top := n\<rparr>" c']
    by (auto simp: emit_defs dest!: add_jump_target_unlabelled to_reg_labels)
next
  case (Load e)
  then show ?thesis using assms
    by (cases "kind e") (auto simp: emit_Load_def TODO_def res_simps split: option.splits if_splits)
next
  case (Store e)
  then show ?thesis using assms
    by (cases "kind e") (auto simp: emit_Store_def TODO_def res_simps split: if_splits)
qed (use assms in \<open>auto simp: starts_def emit_Const_def emit_String_def emit_SExpression_def emit_Tag_def emit_Fail_def
    emit_Binop_def emit_Jump_def emit_End_def emit_StoreStack_def emit_Swap_def emit_Duplicate_def emit_Drop_def
    c_push_def c_pop_Inr res_simps Let_def emit_defs TODO_def
    split: option.splits if_splits loc.splits prod.splits
    dest!: compile_call_unlabelled add_jump_target_unlabelled unlabelled_emits_trans\<close>)

text \<open>The names of functions are labels, too.\<close>

fun names :: "instr \<Rightarrow> string set" where
  "names (Begin (Name n) argc locc) = {n}"
| "names (CBegin off argc locc) = {''closure@'' @ ip_to_string off}"
| "names i = {}"

fun frame_locals :: "instr \<Rightarrow> u64" where
  "frame_locals (Begin j argc locc) = locc"
| "frame_locals (CBegin off argc locc) = locc"
| "frame_locals i = 0"

lemma emit_Begin_labels:
  assumes "emit_Begin j argc locc c = Inr c'"
  shows "(\<exists>cs. out c' = out c @ cs \<and> labels cs \<subseteq> (case j of Name n \<Rightarrow> {n} | Offset off \<Rightarrow> {})) \<and>
    current_frame c' = Some \<lparr>function_name = (case j of Name n \<Rightarrow> n | Offset off \<Rightarrow> label_for_ip off), locals_count = locc, args_count = argc\<rparr>"
proof -
  define ds where "ds = apply_regs saved_regs (\<lambda>r i. emit_sd r sp (- (of_nat i + locc) * WORD_SIZE))
      @ emit_mv fp sp @ emit_addi sp sp (- (locc + 12) * WORD_SIZE)"
  have ds: "labels ds = {}" by (simp add: ds_def emit_defs)
  note B = assms [unfolded emit_Begin_def Let_def, folded ds_def]
  show ?thesis
  proof (cases "j = Name ''main''")
    case True
    let ?c = "emits (emit_label ''main'' @ [Raw premain]) c\<lparr>current_frame :=
        Some \<lparr>function_name = ''main'', locals_count = locc, args_count = argc\<rparr>\<rparr>"
    obtain c1 where c1: "compile_call (Name ''__init'') 0 None ?c = Inr c1" "c' = emits ds c1"
      using B True by (auto simp: res_simps)
    obtain cs where "out c1 = out ?c @ cs" "labels cs = {}" "current_frame c1 = current_frame ?c"
      using compile_call_unlabelled [OF c1(1)] by (auto simp: unlabelled_def)
    then show ?thesis using True c1(2) ds by (auto simp: emit_defs)
  next
    case False
    then show ?thesis using B ds by (cases j) (auto simp: label_for_ip_def emit_label_def)
  qed
qed

lemma starts_Begin:
  assumes "starts i"
  shows "\<exists>j argc. emit_code af i = emit_Begin j argc (frame_locals i) \<and> names i = (case j of Name n \<Rightarrow> {n} | Offset off \<Rightarrow> {})"
  using assms
proof (cases i)
  case (Begin j argc locc)
  then show ?thesis by (intro exI [of _ j] exI [of _ argc]) (auto split: ident.splits)
next
  case (CBegin off argc locc)
  then show ?thesis by (intro exI [of _ "Name (''closure@'' @ ip_to_string off)"] exI [of _ argc]) (auto simp: emit_CBegin_def)
qed (simp_all add: starts_def)

lemma emit_code_labels:
  assumes "emit_code af i c = Inr c'"
  shows "\<exists>cs. out c' = out c @ cs \<and> labels cs \<subseteq> names i"
proof (cases "starts i")
  case True
  obtain j argc where "emit_code af i = emit_Begin j argc (frame_locals i)" "names i = (case j of Name n \<Rightarrow> {n} | Offset off \<Rightarrow> {})"
    using starts_Begin [OF True] by blast
  then show ?thesis using assms emit_Begin_labels [of j argc "frame_locals i" c c'] by simp
next
  case False
  then show ?thesis using emit_code_unlabelled [OF assms] by (auto simp: unlabelled_def)
qed

section \<open>The frame an instruction is generated for\<close>

text \<open>
  The generator has one current frame. Where it matters, only programs are considered whose
  functions all have \<open>l\<close> local variables and no function is \<open>main\<close>: then every instruction is
  generated for a frame of that size. A function must not be named like a label of the compiler or
  like a function of the run-time system that the specification models.
\<close>

definition uniform :: "u64 \<Rightarrow> program \<Rightarrow> bool" where
  "uniform l is \<longleftrightarrow> (\<forall>(off, i) \<in> set is. names i \<inter> (range label_for_ip \<union> runtime_names) = {} \<and>
     (starts i \<longrightarrow> frame_locals i = l \<and> ''main'' \<notin> names i))"

definition framed :: "u64 \<Rightarrow> frame_info option \<Rightarrow> bool" where
  "framed l f \<longleftrightarrow> (\<exists>fr. f = Some fr \<and> locals_count fr = l \<and> function_name fr \<noteq> ''main'')"

definition starts_at :: "program \<Rightarrow> u64 \<Rightarrow> bool" where
  "starts_at is off \<longleftrightarrow> (\<exists>i rest. find_from off is = (off, i) # rest \<and> starts i)"

lemma label_not_main: "label_for_ip off \<noteq> ''main''"
  by (simp add: label_for_ip_def)

lemma emit_code_framed:
  assumes "emit_code af i c = Inr c'" "uniform l is" "(off, i) \<in> set is" "starts i \<or> framed l (current_frame c)"
  shows "framed l (current_frame c')"
proof (cases "starts i")
  case True
  then have u: "frame_locals i = l" "''main'' \<notin> names i" using assms(2,3) by (auto simp: uniform_def)
  obtain j argc where "emit_code af i = emit_Begin j argc l" "names i = (case j of Name n \<Rightarrow> {n} | Offset off \<Rightarrow> {})"
    using starts_Begin [OF True, of af] u(1) by auto
  then show ?thesis using assms(1) u(2) emit_Begin_labels [of j argc l c c'] label_not_main
    by (cases j) (simp_all add: framed_def)
next
  case False
  then show ?thesis using emit_code_unlabelled [OF assms(1)] assms(4) by (simp add: unlabelled_def)
qed

section \<open>Placed code\<close>

definition code_at :: "bool \<Rightarrow> asm list \<Rightarrow> program \<Rightarrow> u64 \<Rightarrow> nat \<Rightarrow> u64 \<Rightarrow> nat \<Rightarrow> bool" where
  "code_at af P is l pc off h \<longleftrightarrow> (\<exists>c c' ys. pc = length (out c) \<and> st_top c = h \<and>
     emit_run af (find_from off is) c = Inr c' \<and> P = out c' @ ys \<and> (starts_at is off \<or> framed l (current_frame c)))"

definition placed :: "bool \<Rightarrow> asm list \<Rightarrow> program \<Rightarrow> u64 \<Rightarrow> u64 \<Rightarrow> nat \<Rightarrow> bool" where
  "placed af P is l off h \<longleftrightarrow> (\<exists>pc. label_pos P (label_for_ip off) = Some pc \<and> code_at af P is l pc off h)"

lemma label_pos_append:
  assumes "label_pos P l = Some pc"
  shows "label_pos (P @ ys) l = Some pc"
proof -
  let ?p = "\<lambda>i. i \<noteq> Label l"
  have pc: "length (takeWhile ?p P) < length P" "pc = length (takeWhile ?p P)"
    using assms unfolding label_pos_def Let_def by (simp_all split: if_splits)
  then obtain x where "x \<in> set P" "\<not> ?p x" using takeWhile_eq_all_conv [of ?p P] by fastforce
  then have "takeWhile ?p (P @ ys) = takeWhile ?p P" by (rule takeWhile_append1)
  then show ?thesis unfolding label_pos_def using pc by simp
qed

lemma placed_append: "placed af P is l off h \<Longrightarrow> placed af (P @ ys) is l off h"
  unfolding placed_def code_at_def by (metis append.assoc label_pos_append)

text \<open>The label of an offset is in the output only when its instruction was begun.\<close>

definition labelled :: "compiler \<Rightarrow> bool" where
  "labelled c \<longleftrightarrow> (\<forall>t. label_for_ip t \<in> labels (out c) \<longrightarrow> t \<in> fst ` set (done_at c))"

lemma label_for_ip_inject [simp]: "label_for_ip s = label_for_ip t \<longleftrightarrow> s = t"
  by (simp add: label_for_ip_def hex_prefixed_def show_hex_def show_base_inject word_unat_eq_iff)

definition emitted_from :: "bool \<Rightarrow> program \<Rightarrow> u64 \<Rightarrow> compiler \<Rightarrow> compiler \<Rightarrow> bool" where
  "emitted_from af is l c c' \<longleftrightarrow> labelled c' \<and> (\<exists>cs. out c' = out c @ cs) \<and>
     (\<forall>(off, h) \<in> set (done_at c'). (off, h) \<in> set (done_at c) \<or> placed af (out c') is l off h)"

lemma inst_begin_labelled:
  assumes "inst_begin off c = Inr c'" "labelled c"
  shows "labelled c' \<and> (\<exists>cs. out c' = out c @ cs) \<and> current_frame c' = current_frame c \<and> st_top c' = st_top c \<and>
    ((off, st_top c) \<in> set (done_at c) \<or> (\<exists>ys. out c' = out c @ Label (label_for_ip off) # ys) \<and> label_for_ip off \<notin> labels (out c))"
  using assms
  by (auto simp: inst_begin_def labelled_def emit_defs map_of_eq_None_iff dest: map_of_SomeD split: option.splits if_splits)

lemma emit_run_placed:
  assumes "emit_run af is' c = Inr c'" "is = pre @ is'" "wf_program is" "uniform l is" "labelled c"
    and "is' \<noteq> [] \<Longrightarrow> starts_at is (fst (hd is')) \<or> framed l (current_frame c)"
  shows "emitted_from af is l c c' \<and> (is' \<noteq> [] \<longrightarrow> framed l (current_frame c'))"
  using assms
proof (induction is' arbitrary: c pre)
  case (Cons x rest)
  obtain off i where x: "x = (off, i)" by (cases x)
  obtain c1 d c2 where r: "inst_begin off c = Inr c1" "print_inst i = Inr d"
    "emit_code af i (emits (emit_comment (''-> '' @ d)) c1) = Inr c2"
    "(if is_terminator i then Inr (emits (emit_comment ''============'') c2) else emit_run af rest c2) = Inr c'"
    using Cons.prems(1) by (auto simp: x res_simps)
  let ?c1 = "emits (emit_comment (''-> '' @ d)) c1"
  note b = inst_begin_labelled [OF r(1) Cons.prems(5)] inst_begin_result [OF r(1)]
  have mem: "(off, i) \<in> set is" using Cons.prems(2) by (simp add: x)
  have ff: "find_from off is = (off, i) # rest"
    using Cons.prems(2,3) find_from_split [of pre off i rest] by (simp add: x wf_program_def)
  have st: "starts i \<or> framed l (current_frame c)" using Cons.prems(6) ff by (auto simp: x starts_at_def)
  obtain cs where cs: "out c2 = out ?c1 @ cs" "labels cs \<subseteq> names i" using emit_code_labels [OF r(3)] by blast
  have nm: "names i \<inter> range label_for_ip = {}" using Cons.prems(4) mem unfolding uniform_def by fast
  have d2: "done_at c2 = done_at c1" using emit_code_done [OF r(3)] by simp
  have l2: "labelled c2" using b nm cs d2 unfolding labelled_def by (auto simp: emit_defs)
  have f2: "framed l (current_frame c2)" by (rule emit_code_framed [OF r(3) Cons.prems(4) mem]) (use st b in simp)
  have next_run: "emitted_from af is l c2 c' \<and> framed l (current_frame c')"
  proof (cases "is_terminator i")
    case True
    then show ?thesis using r(4) l2 f2 by (auto simp: emitted_from_def labelled_def emit_defs)
  next
    case False
    then have run: "emit_run af rest c2 = Inr c'" using r(4) by simp
    show ?thesis
    proof (cases "rest = []")
      case True
      then show ?thesis using run l2 f2 by (auto simp: emitted_from_def)
    next
      case False
      then show ?thesis using Cons.IH [OF run, of "pre @ [x]"] Cons.prems(2,3,4) l2 f2 by simp
    qed
  qed
  obtain es where es: "out c' = out c2 @ es" using next_run by (auto simp: emitted_from_def)
  have here: "(off, st_top c) \<in> set (done_at c) \<or> placed af (out c') is l off (st_top c)"
  proof (cases "(off, st_top c) \<in> set (done_at c)")
    case False
    then obtain ys where ys: "out c1 = out c @ Label (label_for_ip off) # ys" "label_for_ip off \<notin> labels (out c)" using b by blast
    then have "label_pos (out c') (label_for_ip off) = Some (length (out c))"
      using es cs(1) label_pos_first [of "label_for_ip off" "out c"] by (simp add: labels_def)
    moreover have "code_at af (out c') is l (length (out c)) off (st_top c)"
      unfolding code_at_def
      by (intro exI [of _ c] exI [of _ c'] exI [of _ "[]"]) (use ff Cons.prems(1) st in \<open>auto simp: x starts_at_def\<close>)
    ultimately show ?thesis by (auto simp: placed_def)
  qed simp
  have "(o', k) \<in> set (done_at c) \<or> placed af (out c') is l o' k" if "(o', k) \<in> set (done_at c')" for o' k
    using next_run that here b d2 unfolding emitted_from_def by auto
  moreover have "\<exists>cs. out c' = out c @ cs" using es cs(1) b by auto
  ultimately show ?case using next_run by (auto simp: emitted_from_def)
qed (auto simp: emitted_from_def)

section \<open>The whole output\<close>

definition placed_inv :: "bool \<Rightarrow> program \<Rightarrow> u64 \<Rightarrow> compiler \<Rightarrow> bool" where
  "placed_inv af is l c \<longleftrightarrow> labelled c \<and>
     (\<forall>(off, h) \<in> set (done_at c). placed af (out c) is l off h) \<and>
     (framed l (current_frame c) \<or> (\<forall>(off, h) \<in> set (todo c). starts_at is off))"

lemma emitted_from_placed:
  assumes "emitted_from af is l c c'" "\<forall>(off, h) \<in> set (done_at c). placed af (out c) is l off h"
  shows "\<forall>(off, h) \<in> set (done_at c'). placed af (out c') is l off h"
proof -
  obtain cs where "out c' = out c @ cs" using assms(1) by (auto simp: emitted_from_def)
  then show ?thesis using assms placed_append [of af "out c" "is" l _ _ cs] by (fastforce simp: emitted_from_def)
qed

lemma driver_step_placed:
  assumes "driver_step af is c c'" "placed_inv af is l c" "wf_program is" "uniform l is"
  shows "placed_inv af is l c'"
  using assms(1)
proof cases
  case (round entry)
  obtain start h where en: "entry = (start, h)" by (cases entry)
  let ?c = "c\<lparr>st_top := h, todo := removeAll (start, h) (todo c)\<rparr>"
  note inv = assms(2) [unfolded placed_inv_def]
  have c: "placed_inv af is l ?c" using inv by (auto simp: placed_inv_def labelled_def)
  show ?thesis
  proof (cases "find_from start is = [] \<or> c' = ?c")
    case True
    then show ?thesis using c emit_round_cases [OF round(2) [unfolded en]] by fastforce
  next
    case False
    then have run: "emit_run af (find_from start is) ?c = Inr c'" and ne: "find_from start is \<noteq> []"
      using emit_round_cases [OF round(2) [unfolded en]] by blast+
    obtain pre where pre: "is = pre @ find_from start is" using find_from_suffix by blast
    have hd: "fst (hd (find_from start is)) = start" using ne find_from_head [of start "is"] by (cases "find_from start is") auto
    have "starts_at is start \<or> framed l (current_frame ?c)" using inv round(1) by (auto simp: en)
    then have e: "emitted_from af is l ?c c' \<and> framed l (current_frame c')"
      using emit_run_placed [OF run pre assms(3,4)] c hd ne by (simp add: placed_inv_def)
    have "\<forall>(off, h) \<in> set (done_at c'). placed af (out c') is l off h"
      by (rule emitted_from_placed [of _ _ _ ?c]) (use e c in \<open>simp_all add: placed_inv_def\<close>)
    then show ?thesis using e by (simp add: placed_inv_def emitted_from_def)
  qed
qed

lemma driver_steps_placed:
  assumes "(driver_step af is)\<^sup>*\<^sup>* c c'" "placed_inv af is l c" "wf_program is" "uniform l is"
  shows "placed_inv af is l c'"
  using assms(1)
  by (induction rule: rtranclp_induct) (use assms(2-) driver_step_placed in blast)+

lemma add_entries_unlabelled: "add_entries ps c = Inr c' \<Longrightarrow> unlabelled c c'"
proof (induction ps arbitrary: c)
  case (Cons p ps)
  then obtain c1 where "add_jump_target p 0 c = Inr c1" "add_entries ps c1 = Inr c'" by (auto simp: res_simps)
  then show ?case using Cons.IH add_jump_target_unlabelled unlabelled_trans by blast
qed simp

lemma add_entries_todo:
  assumes "add_entries ps c = Inr c'" "done_at c = []"
  shows "done_at c' = [] \<and> fst ` set (todo c') \<subseteq> fst ` set (todo c) \<union> set ps"
  using assms
proof (induction ps arbitrary: c)
  case (Cons p ps)
  then obtain c1 where c1: "add_jump_target p 0 c = Inr c1" "add_entries ps c1 = Inr c'" by (auto simp: res_simps)
  have "done_at c1 = [] \<and> fst ` set (todo c1) \<subseteq> insert p (fst ` set (todo c))"
    using c1(1) Cons.prems(2) by (auto simp: add_jump_target_def Let_def split: option.splits if_splits)
  moreover have "done_at c' = [] \<and> fst ` set (todo c') \<subseteq> fst ` set (todo c1) \<union> set ps"
    by (rule Cons.IH [OF c1(2)]) (use calculation in simp)
  ultimately show ?case unfolding list.set by (elim conjE, intro conjI) (assumption, blast)
qed simp

text \<open>Every instruction that was emitted is placed in the output.\<close>

lemma emit_program_placed:
  assumes "begin_ok begin_of" "wf_program is" "uniform l is" "\<forall>p \<in> set publics. starts_at is p"
    and "emit_program af begin_of file is strings globals publics = Some (Inr c)"
  shows "(off, h) \<in> set (done_at c) \<Longrightarrow> placed af (out c) is l off h"
proof -
  obtain c0 where c0: "add_entries publics (header (new_compiler file globals strings)) = Inr c0"
    "emit_loop af begin_of is c0 = Some (Inr c)"
    using assms(5) by (auto simp: emit_program_def split: if_splits sum.splits)
  let ?n = "header (new_compiler file globals strings)"
  have n: "done_at ?n = []" "todo ?n = []" "labels (out ?n) = {}" by (simp_all add: header_def new_compiler_def)
  have d: "done_at c0 = []" "fst ` set (todo c0) \<subseteq> set publics" using add_entries_todo [OF c0(1) n(1)] n(2) by simp_all
  have "labels (out c0) = {}" using add_entries_unlabelled [OF c0(1)] n(3) by (auto simp: unlabelled_def)
  moreover have "\<forall>(off, h) \<in> set (todo c0). starts_at is off" using d(2) assms(4) by fastforce
  ultimately have "placed_inv af is l c0" using d(1) by (simp add: placed_inv_def labelled_def)
  moreover have "(driver_step af is)\<^sup>*\<^sup>* c0 c" using emit_loop_runs [OF assms(1), of af "is" c0] c0(2) by auto
  ultimately have "placed_inv af is l c" using driver_steps_placed assms(2,3) by blast
  then show "(off, h) \<in> set (done_at c) \<Longrightarrow> placed af (out c) is l off h" by (auto simp: placed_inv_def)
qed

section \<open>The labels of the output\<close>

definition program_labels :: "program \<Rightarrow> string set" where
  "program_labels is = range label_for_ip \<union> (\<Union>(off, i) \<in> set is. names i)"

lemma emit_run_names:
  assumes "emit_run af is' c = Inr c'" "set is' \<subseteq> set is"
  shows "labels (out c') \<subseteq> labels (out c) \<union> program_labels is"
  using assms
proof (induction is' arbitrary: c)
  case (Cons x rest)
  obtain off i where x: "x = (off, i)" by (cases x)
  obtain c1 d c2 where r: "inst_begin off c = Inr c1" "emit_code af i (emits (emit_comment (''-> '' @ d)) c1) = Inr c2"
    "(if is_terminator i then Inr (emits (emit_comment ''============'') c2) else emit_run af rest c2) = Inr c'"
    using Cons.prems(1) by (auto simp: x res_simps)
  have "labels (out c1) \<subseteq> labels (out c) \<union> range label_for_ip"
    using r(1) by (auto simp: inst_begin_def emit_label_def emit_comment_def split: option.splits if_splits)
  moreover have "labels (out c2) \<subseteq> labels (out c1) \<union> names i"
    using emit_code_labels [OF r(2)] by (auto simp: emit_comment_def)
  moreover have "names i \<subseteq> program_labels is" using Cons.prems(2) by (auto simp: program_labels_def x)
  moreover have "labels (out c') \<subseteq> labels (out c2) \<union> program_labels is"
    using r(3) Cons.IH [of c2] Cons.prems(2) by (auto simp: emit_comment_def split: if_splits)
  ultimately show ?case unfolding program_labels_def by blast
qed simp

lemma driver_step_names:
  assumes "driver_step af is c c'"
  shows "labels (out c') \<subseteq> labels (out c) \<union> program_labels is"
  using assms
proof cases
  case (round entry)
  obtain start h where en: "entry = (start, h)" by (cases entry)
  obtain pre where "is = pre @ find_from start is" using find_from_suffix by blast
  then have sub: "set (find_from start is) \<subseteq> set is" by (metis set_append sup_ge2)
  show ?thesis
    using round(2) [unfolded en]
  proof (cases rule: emit_round_cases)
    case 2
    then show ?thesis using emit_run_names [OF 2(2) sub] by simp
  qed auto
qed

lemma emit_program_names:
  assumes "begin_ok begin_of" "emit_program af begin_of file is strings globals publics = Some (Inr c)"
  shows "labels (out c) \<subseteq> program_labels is"
proof -
  obtain c0 where c0: "add_entries publics (header (new_compiler file globals strings)) = Inr c0"
    "emit_loop af begin_of is c0 = Some (Inr c)"
    using assms(2) by (auto simp: emit_program_def split: if_splits sum.splits)
  have "labels (out c0) = {}"
    using add_entries_unlabelled [OF c0(1)] by (auto simp: unlabelled_def header_def new_compiler_def)
  moreover have "(driver_step af is)\<^sup>*\<^sup>* c0 c" using emit_loop_runs [OF assms(1), of af "is" c0] c0(2) by auto
  then have "labels (out c) \<subseteq> labels (out c0) \<union> program_labels is"
    by (induction rule: rtranclp_induct) (use driver_step_names in blast)+
  ultimately show ?thesis by simp
qed

lemma label_pos_None: "label_pos P l = None \<longleftrightarrow> l \<notin> labels P"
proof -
  have "length (takeWhile (\<lambda>i. i \<noteq> Label l) P) < length P \<longleftrightarrow> Label l \<in> set P"
    by (induction P) auto
  then show ?thesis by (simp add: label_pos_def labels_def Let_def)
qed

lemma runtime_not_label:
  assumes "uniform l is" "labels P \<subseteq> program_labels is" "n \<in> runtime_names"
  shows "label_pos P n = None"
proof -
  have "n \<notin> range label_for_ip" using assms(3) by (auto simp: runtime_names_def label_for_ip_def)
  moreover have "n \<notin> names i" if "(off, i) \<in> set is" for off i using assms(1,3) that by (fastforce simp: uniform_def)
  ultimately show ?thesis using assms(2) unfolding label_pos_None by (auto simp: program_labels_def)
qed

end
