(* ===== verification/Program_Correct.thy ===== *)
theory Program_Correct
  imports Placement
begin

text \<open>
  The code of a whole function, with its jumps: the specification steps through the instructions of
  the program; the machine on the output of the compiler follows it from the label of the function to
  its \<open>ret\<close>, whatever order the compiler emitted the pieces in.
\<close>

section \<open>The specification\<close>

text \<open>One step of the stack machine inside a function: instructions of a block, and jumps.\<close>

inductive pstep :: "cpu \<Rightarrow> program \<Rightarrow> u64 \<times> u64 list \<times> mem \<Rightarrow> u64 \<times> u64 list \<times> mem \<Rightarrow> bool" for s0 "is" where
  Straight: "find_from off is = (off, i) # (off', i') # rest \<Longrightarrow> bstep s0 i b b' \<Longrightarrow> pstep s0 is (off, b) (off', b')"
| Jump: "find_from off is = (off, Jump t) # rest \<Longrightarrow> find_from t is \<noteq> [] \<Longrightarrow> pstep s0 is (off, b) (t, b)"
| Taken: "find_from off is = (off, ConditionalJump t z) # rest \<Longrightarrow> find_from t is \<noteq> [] \<Longrightarrow> (UNBOX v = 0) = z \<Longrightarrow>
    pstep s0 is (off, vs @ [v], m) (t, vs, m)"
| Not_taken: "find_from off is = (off, ConditionalJump t z) # (off', i') # rest \<Longrightarrow> (UNBOX v = 0) \<noteq> z \<Longrightarrow>
    pstep s0 is (off, vs @ [v], m) (off', vs, m)"

section \<open>From one instruction to the next\<close>

lemma find_from_next:
  assumes "wf_program is" "find_from off is = (off, i) # (off', i') # rest"
  shows "find_from off' is = (off', i') # rest"
proof -
  obtain pre where "is = pre @ (off, i) # (off', i') # rest" using find_from_suffix [of "is" off] assms(2) by auto
  then show ?thesis using assms(1) find_from_split [of "pre @ [(off, i)]" off' i' rest] by (simp add: wf_program_def)
qed

lemma emit_code_appends:
  assumes "emit_code af i c = Inr c'"
  shows "out c' = out c @ new_code c c'"
  using emit_code_labels [OF assms] by (auto simp: new_code_def)

lemma emit_run_appends:
  "emit_run af is c = Inr c' \<Longrightarrow> \<exists>cs. out c' = out c @ cs"
proof (induction "is" arbitrary: c)
  case (Cons x rest)
  obtain off i where x: "x = (off, i)" by (cases x)
  obtain c1 d c2 where r: "inst_begin off c = Inr c1" "emit_code af i (emits (emit_comment (''-> '' @ d)) c1) = Inr c2"
    "(if is_terminator i then Inr (emits (emit_comment ''============'') c2) else emit_run af rest c2) = Inr c'"
    using Cons.prems by (auto simp: x res_simps)
  have "\<exists>cs. out c1 = out c @ cs" using r(1) by (auto simp: inst_begin_def split: option.splits if_splits)
  moreover have "\<exists>cs. out c2 = out c1 @ cs" using emit_code_appends [OF r(2)] by auto
  moreover have "\<exists>cs. out c' = out c2 @ cs" using r(3) Cons.IH by (auto split: if_splits)
  ultimately show ?case by auto
qed simp

lemma code_at_step:
  assumes "code_at af P is l pc off h" "find_from off is = (off, i) # rest" "wf_program is"
  obtains c1 c2 es where "reaches_line lab ext adr P (pc, s) (length (out c1), s)" "emit_code af i c1 = Inr c2"
    "P = out c1 @ new_code c1 c2 @ es" "st_top c1 = h" "starts i \<or> framed l (current_frame c1)"
    "\<And>off' i' rest'. \<not> is_terminator i \<Longrightarrow> rest = (off', i') # rest' \<Longrightarrow> uniform l is \<Longrightarrow>
       code_at af P is l (length (out c1 @ new_code c1 c2)) off' (st_top c2)"
proof -
  obtain c c' ys where c: "pc = length (out c)" "st_top c = h" "emit_run af ((off, i) # rest) c = Inr c'" "P = out c' @ ys"
    "starts i \<or> framed l (current_frame c)"
    using assms(1,2) unfolding code_at_def starts_at_def by auto
  obtain c1 d c2 where r: "inst_begin off c = Inr c1" "print_inst i = Inr d"
    "emit_code af i (emits (emit_comment (''-> '' @ d)) c1) = Inr c2"
    "(if is_terminator i then Inr (emits (emit_comment ''============'') c2) else emit_run af rest c2) = Inr c'"
    using c(3) by (auto simp: res_simps)
  let ?c1 = "emits (emit_comment (''-> '' @ d)) c1"
  obtain cs where cs: "c1 = (emits cs c)\<lparr>done_at := done_at c1\<rparr>" "exec lab (foreign P ext) cs s = Some s"
    using inst_begin_code [OF r(1)] by blast
  have o1: "out ?c1 = out c @ cs @ emit_comment (''-> '' @ d)" by (subst cs(1)) (simp add: emits_def)
  have k: "st_top ?c1 = st_top c" "current_frame ?c1 = current_frame c" by (subst cs(1), simp)+
  note o2 = emit_code_appends [OF r(3)]
  obtain es where es: "out c' = out c2 @ es" using r(4) emit_run_appends [of af rest c2 c'] by (cases "is_terminator i") auto
  have P: "P = out ?c1 @ new_code ?c1 c2 @ es @ ys" using c(4) es o2 by simp
  have quiet: "exec lab (foreign P ext) (cs @ emit_comment (''-> '' @ d)) s = Some s"
    using cs(2) by (simp add: exec_append emit_comment_def)
  have "reaches_line lab ext adr P (pc, s) (length (out ?c1), s)"
    using reaches_exec [OF quiet, of "out c" "new_code ?c1 c2 @ es @ ys"] P o1 c(1) by simp
  moreover have "code_at af P is l (length (out ?c1 @ new_code ?c1 c2)) off' (st_top c2)"
    if "\<not> is_terminator i" "rest = (off', i') # rest'" "uniform l is" for off' i' rest'
  proof -
    have "(off, i) \<in> set is" using assms(2) find_from_suffix [of "is" off] by (metis in_set_conv_decomp)
    then have "framed l (current_frame c2)" using emit_code_framed [OF r(3) that(3)] c(5) k(2) by simp
    moreover have "emit_run af (find_from off' is) c2 = Inr c'"
      using find_from_next [OF assms(3) assms(2) [unfolded that(2)]] r(4) that(1,2) by simp
    ultimately show ?thesis unfolding code_at_def by (intro exI [of _ c2] exI [of _ c'] exI [of _ ys]) (simp add: o2 c(4))
  qed
  ultimately show ?thesis using that [of ?c1 c2 "es @ ys"] r(3) P c(2,5) k by auto
qed

section \<open>One step of the program\<close>

lemma add_jump_target_comment:
  "add_jump_target t h c = Inr c' \<Longrightarrow> \<exists>cs. out c' = out c @ cs"
  by (auto simp: add_jump_target_def Let_def split: option.splits if_splits)

lemma jump_code:
  assumes "emit_Jump t c = Inr c'"
  shows "(\<exists>cs. new_code c c' = J (label_for_ip t) # cs) \<and> st_top c' = st_top c"
  using assms add_jump_target_comment add_jump_target_grows(2)
  by (fastforce simp: emit_Jump_def new_code_def emit_j_def)

lemma conditional_jump_code:
  assumes "emit_ConditionalJump t z c = Inr c'" "st_top c = Suc n" "n < 15"
  shows "(\<exists>cs. new_code c c' = I_type SRAI (regs ! n) (regs ! n) 1 # Cj z (regs ! n) 0 (label_for_ip t) # cs \<and>
    (\<forall>lab ext s. exec lab ext cs s = Some s)) \<and> st_top c' = n"
proof -
  let ?cs = "[I_type SRAI (regs ! n) (regs ! n) 1, Cj z (regs ! n) 0 (label_for_ip t)]"
  have a: "add_jump_target t n (emits ?cs (c\<lparr>st_top := n\<rparr>)) = Inr c'"
    using assms by (simp add: emit_ConditionalJump_def c_pop_Inr res_simps c_pop_def loc_at_reg emit_srai_def emit_cj_def zero_reg_def)
  then have "out c' = out c @ ?cs \<or> (\<exists>m. out c' = out c @ ?cs @ [Comment m])"
    by (auto simp: add_jump_target_def Let_def emit_comment_def split: option.splits if_splits)
  then show ?thesis using add_jump_target_grows(2) [OF a] by (auto simp: new_code_def)
qed

lemma sim_popped:
  assumes "sim s0 (vs @ [v], m) s"
  shows "sim s0 (vs, m) (wr (regs ! length vs) w s)"
  using assms reg_kept [of "length vs"] by (auto simp: sim_def nth_append)

lemma branch_run:
  assumes "emit_ConditionalJump t z c = Inr c'" "st_top c = Suc n" "n < 15" "P = out c @ new_code c c' @ es" "rd s (regs ! n) = v"
  defines "s1 \<equiv> wr (regs ! n) (UNBOX v) s"
  shows "(UNBOX v = 0) = z \<Longrightarrow> goto P (label_for_ip t) s1 = Some y \<Longrightarrow> reaches_line lab ext adr P (length (out c), s) y"
    and "(UNBOX v = 0) \<noteq> z \<Longrightarrow> reaches_line lab ext adr P (length (out c), s) (length (out c @ new_code c c'), s1)"
proof -
  obtain cs where cs: "new_code c c' = I_type SRAI (regs ! n) (regs ! n) 1 # Cj z (regs ! n) 0 (label_for_ip t) # cs"
    "\<And>lab ext s. exec lab ext cs s = Some s"
    using conditional_jump_code [OF assms(1-3)] by blast
  let ?k = "length (out c)"
  have r: "rd s1 (regs ! n) = UNBOX v" unfolding s1_def using regs_not_special(1) [OF assms(3)] by simp
  have 1: "reaches_line lab ext adr P (?k, s) (Suc ?k, s1)"
    by (rule reaches_line_step) (simp_all add: assms(4,5) cs(1) s1_def UNBOX_def shamt_def)
  have line: "Suc ?k < length P" "P ! Suc ?k = Cj z (regs ! n) 0 (label_for_ip t)" by (simp_all add: assms(4) cs(1) nth_append)
  show "reaches_line lab ext adr P (?k, s) y" if "(UNBOX v = 0) = z" "goto P (label_for_ip t) s1 = Some y"
    by (rule reaches_line_trans [OF 1]) (rule reaches_line_step [OF line(1)], use line(2) r that in simp)
  show "reaches_line lab ext adr P (?k, s) (length (out c @ new_code c c'), s1)" if n: "(UNBOX v = 0) \<noteq> z"
  proof -
    have "reaches_line lab ext adr P (Suc ?k, s1) (Suc (Suc ?k), s1)" by (rule reaches_line_step [OF line(1)]) (use line(2) r n in simp)
    moreover have "reaches_line lab ext adr P (Suc (Suc ?k), s1) (length (out c @ new_code c c'), s1)"
      using reaches_exec [OF cs(2), of P "out c @ take 2 (new_code c c')" es lab ext adr s1] by (simp add: assms(4) cs(1))
    ultimately show ?thesis using 1 reaches_line_trans by blast
  qed
qed

text \<open>
  The machine is at code for the instruction, at the recorded height, and its registers and memory
  hold the stack and the memory of the specification.
\<close>

definition at_code :: "asm list \<Rightarrow> program \<Rightarrow> u64 \<Rightarrow> (u64 \<Rightarrow> nat option) \<Rightarrow> cpu \<Rightarrow> u64 \<times> u64 list \<times> mem \<Rightarrow> nat \<times> cpu \<Rightarrow> bool" where
  "at_code P is l H s0 x y \<longleftrightarrow> H (fst x) = Some (length (fst (snd x))) \<and>
     code_at False P is l (fst y) (fst x) (length (fst (snd x))) \<and> sim s0 (snd x) (snd y)"

text \<open>
  The output \<open>P\<close> of the compiler for a program, linked with the run-time system: \<open>H\<close> are the heights the
  compiler recorded, and the code of every instruction with a height is in the output.
\<close>

locale linked_code =
  fixes ext :: "string \<Rightarrow> cpu \<Rightarrow> cpu option" and P :: "asm list" and "is" :: program and l :: u64 and H :: "u64 \<Rightarrow> nat option"
  assumes runtime: "runtime_code (foreign P ext)"
    and wf: "wf_program is" and unif: "uniform l is" and con: "consistent False is H"
    and put: "H t = Some h \<Longrightarrow> placed False P is l t h"
begin

lemma targets_known:
  assumes "H off = Some h" "find_from off is = (off, i) # rest"
  shows "\<And>t ht. (t, ht) \<in> set (targets i h) \<Longrightarrow> t \<in> fst ` set is \<Longrightarrow> H t = Some ht"
    and "\<not> is_terminator i \<Longrightarrow> rest \<noteq> [] \<Longrightarrow> H (fst (hd rest)) = Some (h - pops False i + pushes False i)"
proof -
  have "(\<forall>(t, ht) \<in> set (targets i h). t \<in> fst ` set is \<longrightarrow> H t = Some ht) \<and>
      (\<not> is_terminator i \<longrightarrow> rest \<noteq> [] \<longrightarrow> H (fst (hd rest)) = Some (h - pops False i + pushes False i))"
    using con assms unfolding consistent_def by fastforce
  then show "\<And>t ht. (t, ht) \<in> set (targets i h) \<Longrightarrow> t \<in> fst ` set is \<Longrightarrow> H t = Some ht"
    "\<not> is_terminator i \<Longrightarrow> rest \<noteq> [] \<Longrightarrow> H (fst (hd rest)) = Some (h - pops False i + pushes False i)" by blast+
qed

lemma goes: "H t = Some h \<Longrightarrow> \<exists>pc'. goto P (label_for_ip t) s = Some (pc', s) \<and> code_at False P is l pc' t h"
  using put [of t h] by (auto simp: placed_def goto_def)

lemma straight_code:
  assumes "at_code P is l H s0 (off, b) (pc, s)" "find_from off is = (off, i) # (off', i') # rest" "bstep s0 i b b'"
    and "256 \<le> unat (rd s0 sp)"
  shows "\<exists>y. reaches_line lab ext adr P (pc, s) y \<and> at_code P is l H s0 (off', b') y"
proof -
  have at: "H off = Some (length (fst b))" "code_at False P is l pc off (length (fst b))" "sim s0 b s"
    using assms(1) by (simp_all add: at_code_def)
  obtain c1 c2 es where c: "reaches_line lab ext adr P (pc, s) (length (out c1), s)" "emit_code False i c1 = Inr c2"
    "P = out c1 @ new_code c1 c2 @ es" "st_top c1 = length (fst b)"
    "code_at False P is l (length (out c1 @ new_code c1 c2)) off' (st_top c2)"
    using code_at_step [OF at(2) assms(2) wf] bstep_wf [OF assms(3)] unif by metis
  have "holds s0 b c1 s" using at(3) c(4) by (simp add: holds_def)
  then obtain s' where s': "exec lab (foreign P ext) (new_code c1 c2) s = Some s'" "holds s0 b' c2 s'"
    using runtime_code.step_code [OF runtime assms(3) c(2) _ assms(4)] by blast
  have "wf_instr i" "\<not> is_terminator i" using bstep_wf [OF assms(3)] by simp_all
  then have "H off' = Some (st_top c2)"
    using targets_known(2) [OF at(1) assms(2)] emit_code_effect [OF c(2)] c(4) by (simp add: effect_def)
  moreover have "reaches_line lab ext adr P (pc, s) (length (out c1 @ new_code c1 c2), s')"
    using reaches_line_trans [OF c(1) reaches_exec [OF s'(1) c(3)]] .
  ultimately show ?thesis using c(5) s'(2) by (auto simp: holds_def at_code_def)
qed

lemma conditional_code:
  assumes "at_code P is l H s0 (off, vs @ [v], m) (pc, s)" "find_from off is = (off, ConditionalJump t z) # rest"
  obtains c1 c2 es where "reaches_line lab ext adr P (pc, s) (length (out c1), s)" "emit_ConditionalJump t z c1 = Inr c2"
    "P = out c1 @ new_code c1 c2 @ es" "st_top c1 = Suc (length vs)" "length vs < 15" "rd s (regs ! length vs) = v"
    "\<And>off' i' rest'. rest = (off', i') # rest' \<Longrightarrow> code_at False P is l (length (out c1 @ new_code c1 c2)) off' (length vs)"
proof -
  have at: "code_at False P is l pc off (Suc (length vs))" "length vs < 15" "rd s (regs ! length vs) = v"
    using assms(1) by (auto simp: at_code_def sim_def)
  obtain c1 c2 es where c: "reaches_line lab ext adr P (pc, s) (length (out c1), s)"
    "emit_code False (ConditionalJump t z) c1 = Inr c2" "P = out c1 @ new_code c1 c2 @ es" "st_top c1 = Suc (length vs)"
    "\<And>off' i' rest'. \<not> is_terminator (ConditionalJump t z) \<Longrightarrow> rest = (off', i') # rest' \<Longrightarrow> uniform l is \<Longrightarrow>
       code_at False P is l (length (out c1 @ new_code c1 c2)) off' (st_top c2)"
    using code_at_step [OF at(1) assms(2) wf, where lab = lab and ext = ext and adr = adr and s = s] by metis
  have e: "emit_ConditionalJump t z c1 = Inr c2" using c(2) by simp
  have "st_top c2 = length vs" using conditional_jump_code [OF e c(4) at(2)] by simp
  then show thesis using that [OF c(1) e c(3,4) at(2,3)] c(5) unif by simp
qed

lemma pstep_code:
  assumes "pstep s0 is x x'" "at_code P is l H s0 x (pc, s)" "256 \<le> unat (rd s0 sp)"
  shows "\<exists>y. reaches_line lab ext adr P (pc, s) y \<and> at_code P is l H s0 x' y"
  using assms(1)
proof cases
  case (Straight off i off' i' rest b b')
  then show ?thesis using straight_code assms(2,3) by blast
next
  case (Jump off t rest b)
  have at: "H off = Some (length (fst b))" "code_at False P is l pc off (length (fst b))" "sim s0 b s"
    using assms(2) by (simp_all add: at_code_def Jump(1))
  obtain c1 c2 es where c: "reaches_line lab ext adr P (pc, s) (length (out c1), s)" "emit_code False (instr.Jump t) c1 = Inr c2"
    "P = out c1 @ new_code c1 c2 @ es"
    using code_at_step [OF at(2) Jump(3) wf] by metis
  obtain cs where cs: "new_code c1 c2 = J (label_for_ip t) # cs" using jump_code [of t c1 c2] c(2) by auto
  have H: "H t = Some (length (fst b))" using targets_known(1) [OF at(1) Jump(3)] Jump(4) find_from_Nil [of t "is"] by simp
  then obtain pc' where pc': "goto P (label_for_ip t) s = Some (pc', s)" "code_at False P is l pc' t (length (fst b))"
    using goes by blast
  have "reaches_line lab ext adr P (length (out c1), s) (pc', s)"
    by (rule reaches_line_step) (use c(3) cs pc'(1) in simp_all)
  then show ?thesis using reaches_line_trans [OF c(1)] at(3) H pc'(2) by (auto simp: at_code_def Jump(2))
next
  case (Taken off t z rest v vs m)
  obtain c1 c2 es where c: "reaches_line lab ext adr P (pc, s) (length (out c1), s)" "emit_ConditionalJump t z c1 = Inr c2"
    "P = out c1 @ new_code c1 c2 @ es" "st_top c1 = Suc (length vs)" "length vs < 15" "rd s (regs ! length vs) = v"
    using conditional_code [OF assms(2) [unfolded Taken(1)] Taken(3)] by metis
  have H: "H t = Some (length vs)"
    using targets_known(1) [OF _ Taken(3)] assms(2) Taken(1,4) find_from_Nil [of t "is"] by (simp add: at_code_def)
  let ?s = "wr (regs ! length vs) (UNBOX v) s"
  obtain pc' where pc': "goto P (label_for_ip t) ?s = Some (pc', ?s)" "code_at False P is l pc' t (length vs)"
    using goes [OF H] by blast
  have "reaches_line lab ext adr P (length (out c1), s) (pc', ?s)"
    by (rule branch_run(1) [OF c(2,4,5,3,6) Taken(5) pc'(1)])
  then show ?thesis
    using reaches_line_trans [OF c(1)] H pc'(2) sim_popped [of s0 vs v m s "UNBOX v"] assms(2) Taken(1,2)
    by (auto simp: at_code_def)
next
  case (Not_taken off t z off' i' rest v vs m)
  obtain c1 c2 es where c: "reaches_line lab ext adr P (pc, s) (length (out c1), s)" "emit_ConditionalJump t z c1 = Inr c2"
    "P = out c1 @ new_code c1 c2 @ es" "st_top c1 = Suc (length vs)" "length vs < 15" "rd s (regs ! length vs) = v"
    "code_at False P is l (length (out c1 @ new_code c1 c2)) off' (length vs)"
    using conditional_code [OF assms(2) [unfolded Not_taken(1)] Not_taken(3)] by metis
  have "reaches_line lab ext adr P (length (out c1), s) (length (out c1 @ new_code c1 c2), wr (regs ! length vs) (UNBOX v) s)"
    by (rule branch_run(2) [OF c(2,4,5,3,6) Not_taken(4)])
  moreover have "H off' = Some (length vs)"
    using targets_known(2) [OF _ Not_taken(3)] assms(2) Not_taken(1) by (simp add: at_code_def)
  ultimately show ?thesis
    using reaches_line_trans [OF c(1)] c(7) sim_popped [of s0 vs v m s "UNBOX v"] assms(2) Not_taken(1,2)
    by (auto simp: at_code_def)
qed

lemma psteps_code:
  assumes "(pstep s0 is)\<^sup>*\<^sup>* x x'" "at_code P is l H s0 x y" "256 \<le> unat (rd s0 sp)"
  shows "\<exists>y'. reaches_line lab ext adr P y y' \<and> at_code P is l H s0 x' y'"
  using assms(1,2)
proof (induction arbitrary: y rule: converse_rtranclp_induct)
  case (step x1 x2)
  obtain y1 where "reaches_line lab ext adr P y y1" "at_code P is l H s0 x2 y1"
    using pstep_code [OF step.hyps(1) _ assms(3)] step.prems by (cases y) blast
  then show ?case using step.IH reaches_line_trans by blast
qed auto

end

section \<open>Entry and exit of a function\<close>

fun save_words :: "nat list \<Rightarrow> addr \<Rightarrow> nat \<Rightarrow> cpu \<Rightarrow> mem \<Rightarrow> mem" where
  "save_words [] a k s m = m"
| "save_words (r # rs) a k s m = save_words rs a (Suc k) s (st64 m (a - 8 * k) (rd s r))"

text \<open>The state in which the body of a function with \<open>l\<close> local variables starts.\<close>

definition entered :: "nat \<Rightarrow> cpu \<Rightarrow> cpu" where
  "entered l s = wr sp (rd s sp - of_nat (8 * (l + 12))) (wr fp (rd s sp)
     (s\<lparr>cmem := save_words saved_regs (unat (rd s sp)) (Suc l) s (cmem s)\<rparr>))"

lemma save_words_cong: "(\<And>r. rd s r = rd t r) \<Longrightarrow> save_words rs a k s m = save_words rs a k t m"
  by (induction rs arbitrary: k m) simp_all

lemma exec_saves:
  assumes "8 * (k + length rs + l) \<le> 2056" "8 * (k + length rs + l) \<le> unat (rd s sp) + 8"
  shows "exec lab ext (concat (map2 (\<lambda>r i. emit_sd r sp (frame_off l i)) rs [k..<k + length rs])) s =
    Some (s\<lparr>cmem := save_words rs (unat (rd s sp)) (k + l) s (cmem s)\<rparr>)"
  using assms
proof (induction rs arbitrary: s k)
  case (Cons r rs)
  let ?a = "unat (rd s sp) - 8 * (k + l)"
  let ?s1 = "s\<lparr>cmem := st64 (cmem s) ?a (rd s r)\<rparr>"
  have im: "imm (frame_off l k) = - 8 * int (k + l)" using Cons.prems(1) by (intro imm_frame_off) simp
  have ad: "ea s sp (- 8 * int (k + l)) = ?a" unfolding ea_def using Cons.prems(2) by (intro unat_below) simp
  have up: "[k..<k + length (r # rs)] = k # [Suc k..<Suc k + length rs]" by (subst upt_conv_Cons) simp_all
  have "exec lab ext (concat (map2 (\<lambda>r i. emit_sd r sp (frame_off l i)) rs [Suc k..<Suc k + length rs])) ?s1 =
      Some (?s1\<lparr>cmem := save_words rs (unat (rd ?s1 sp)) (Suc k + l) ?s1 (cmem ?s1)\<rparr>)"
    by (rule Cons.IH) (use Cons.prems in simp_all)
  also have "save_words rs (unat (rd ?s1 sp)) (Suc k + l) ?s1 (cmem ?s1) = save_words (r # rs) (unat (rd s sp)) (k + l) s (cmem s)"
    using save_words_cong [of ?s1 s] by simp
  finally have rest: "exec lab ext (concat (map2 (\<lambda>r i. emit_sd r sp (frame_off l i)) rs [Suc k..<Suc k + length rs])) ?s1 =
      Some (s\<lparr>cmem := save_words (r # rs) (unat (rd s sp)) (k + l) s (cmem s)\<rparr>)" by simp
  show ?case
    unfolding up zip_Cons_Cons list.map prod.case concat.simps by (rule exec_appendI [OF _ rest])
      (use Cons.prems(1) ad in \<open>simp add: emit_sd_def im imm12_def del: of_nat_add\<close>)
qed simp

lemma begin_entered:
  assumes "emit_Begin i argc locc c = Inr c'" "i \<noteq> Name ''main''" "unat locc \<le> 244" "8 * (unat locc + 12) \<le> unat (rd s sp)"
  shows "exec lab ext (new_code c c') s = Some (entered (unat locc) s)"
    and "unat (rd (entered (unat locc) s) sp) = unat (rd s sp) - 8 * (unat locc + 12)"
    and "rd (entered (unat locc) s) fp = rd s sp" "in_frame (cmem (entered (unat locc) s)) (unat (rd s sp)) (unat locc) s"
proof -
  obtain cs where code: "new_code c c' = cs @ concat (map2 (\<lambda>r i. emit_sd r sp (frame_off (unat locc) i)) saved_regs [1..<1 + length saved_regs])
      @ emit_mv fp sp @ emit_addi sp sp (- (locc + 12) * WORD_SIZE)" "exec lab ext cs s = Some s"
    using emit_Begin_code [OF assms(1,2)] by blast
  have p: "8 * (1 + length saved_regs + unat locc) \<le> 2056" "8 * (1 + length saved_regs + unat locc) \<le> unat (rd s sp) + 8"
    using assms(3,4) by (simp_all add: saved_regs_list)
  let ?s = "s\<lparr>cmem := save_words saved_regs (unat (rd s sp)) (1 + unat locc) s (cmem s)\<rparr>"
  have "rd s sp - of_nat (8 * (unat locc + 12)) = rd s sp + word_of_int (- 8 * int (unat locc + 12))" by simp
  then have "exec lab ext (emit_mv fp sp @ emit_addi sp sp (- (locc + 12) * WORD_SIZE)) ?s = Some (entered (unat locc) s)"
    unfolding emit_mv_def emit_addi_def frame_words [OF assms(3)] using assms(3)
    by (simp add: imm12_def sp_def fp_def entered_def del: of_nat_add)
  then show e: "exec lab ext (new_code c c') s = Some (entered (unat locc) s)"
    unfolding code(1) by (rule exec_appendI [OF code(2) exec_appendI [OF exec_saves [OF p]]])
  show "unat (rd (entered (unat locc) s) sp) = unat (rd s sp) - 8 * (unat locc + 12)"
    "rd (entered (unat locc) s) fp = rd s sp" "in_frame (cmem (entered (unat locc) s)) (unat (rd s sp)) (unat locc) s"
    using begin_code [OF assms, of lab ext] e by auto
qed

section \<open>A call of a function\<close>

lemma entry_code:
  assumes "emit_code af i c = Inr c'" "starts i" "uniform l is" "(off, i) \<in> set is"
  shows "\<exists>j argc. emit_Begin j argc l c = Inr c' \<and> j \<noteq> Name ''main''" "\<not> is_terminator i" "wf_instr i" "st_top c' = st_top c"
proof -
  have u: "frame_locals i = l" "''main'' \<notin> names i" using assms(2,3,4) by (auto simp: uniform_def)
  obtain j argc where j: "emit_Begin j argc l c = Inr c'" "names i = (case j of Name n \<Rightarrow> {n} | Offset off \<Rightarrow> {})"
    using starts_Begin [OF assms(2), of af] u(1) assms(1) by auto
  have m: "j \<noteq> Name ''main''" using j(2) u(2) by (auto split: ident.splits)
  show "\<exists>j argc. emit_Begin j argc l c = Inr c' \<and> j \<noteq> Name ''main''" using j(1) m by blast
  show "\<not> is_terminator i" "wf_instr i" using assms(2) by (auto simp: starts_def)
  show "st_top c' = st_top c" using emit_Begin_code [OF j(1) m] by blast
qed

lemma end_run:
  assumes "code_at af P is l pc off (Suc n)" "find_from off is = (off, End) # rest" "wf_program is" "n < 15"
    and "unat l \<le> 244" "8 * (unat l + 12) \<le> unat (rd s fp)" "in_frame (cmem s) (unat (rd s fp)) (unat l) s0"
  shows "\<exists>pc' s'. reaches_line lab ext adr P (pc, s) (pc', s') \<and> pc' < length P \<and> P ! pc' = Ret \<and> rd s' sp = rd s fp \<and>
    (\<forall>r \<in> set saved_regs. rd s' r = rd s0 r) \<and> rd s' 10 = rd s (regs ! n) \<and> cmem s' = cmem s \<and> rd s' ra = rd s ra"
proof -
  obtain c c' es where c: "reaches_line lab ext adr P (pc, s) (length (out c), s)" "emit_End c = Inr c'"
    "P = out c @ new_code c c' @ es" "st_top c = Suc n" "framed l (current_frame c)"
    by (rule code_at_step [OF assms(1-3)]) (rule that, use assms(3) in \<open>auto simp: starts_def\<close>)
  obtain fr where fr: "current_frame c = Some fr" "locals_count fr = l" "function_name fr \<noteq> ''main''"
    using c(5) by (auto simp: framed_def)
  have t: "st_top c \<le> 15" using c(4) assms(4) by simp
  obtain s' where s': "last (new_code c c') = Ret" "exec lab (foreign P ext) (butlast (new_code c c')) s = Some s'" "rd s' sp = rd s fp"
    "\<forall>r \<in> set saved_regs. rd s' r = rd s0 r" "rd s' 10 = rd s (regs ! n)" "cmem s' = cmem s" "rd s' ra = rd s ra"
    using end_code [OF c(2) fr(1,3) t, of s s0 lab "foreign P ext"] assms(5-7) fr(2) c(4) by auto
  have "new_code c c' \<noteq> []" using emit_End_code [OF c(2) fr(1,3) t] by simp
  then have n: "new_code c c' = butlast (new_code c c') @ [Ret]" using s'(1) by (metis append_butlast_last_id)
  let ?pc = "length (out c @ butlast (new_code c c'))"
  have P: "P = out c @ butlast (new_code c c') @ Ret # es" using c(3) n by (metis append.assoc append_Cons append_Nil)
  have "reaches_line lab ext adr P (pc, s) (?pc, s')" using reaches_line_trans [OF c(1) reaches_exec [OF s'(2) P]] .
  moreover have "?pc < length P" "P ! ?pc = Ret" by (simp_all add: P nth_append)
  ultimately show ?thesis using s'(3-7) by blast
qed

context linked_code
begin

text \<open>From the label of a function to its first instruction, and from its \<open>END\<close> to the \<open>ret\<close>.\<close>

lemma function_entry:
  assumes "H off = Some 0" "find_from off is = (off, i) # (off1, i1) # rest" "starts i"
    and "unat l \<le> 244" "8 * (unat l + 12) \<le> unat (rd s sp)" "s0 = entered (unat l) s"
  shows "\<exists>pc y. label_pos P (label_for_ip off) = Some pc \<and> reaches_line lab ext adr P (pc, s) y \<and> at_code P is l H s0 (off1, [], cmem s0) y"
    and "unat (rd s0 sp) = unat (rd s sp) - 8 * (unat l + 12)" "rd s0 fp = rd s sp" "in_frame (cmem s0) (unat (rd s sp)) (unat l) s"
proof -
  obtain pc where pc: "label_pos P (label_for_ip off) = Some pc" "code_at False P is l pc off 0"
    using put [OF assms(1)] by (auto simp: placed_def)
  obtain c1 c2 es where c: "reaches_line lab ext adr P (pc, s) (length (out c1), s)" "emit_code False i c1 = Inr c2"
    "P = out c1 @ new_code c1 c2 @ es" "st_top c1 = 0"
    "\<not> is_terminator i \<longrightarrow> code_at False P is l (length (out c1 @ new_code c1 c2)) off1 (st_top c2)"
    by (rule code_at_step [OF pc(2) assms(2) wf]) (rule that, use unif in auto)
  have mem: "(off, i) \<in> set is" using assms(2) find_from_suffix [of "is" off] by (metis in_set_conv_decomp)
  note E = entry_code [OF c(2) assms(3) unif mem]
  obtain j argc where j: "emit_Begin j argc l c1 = Inr c2" "j \<noteq> Name ''main''" using E(1) by blast
  note B = begin_entered [OF j assms(4,5), folded assms(6)]
  show "unat (rd s0 sp) = unat (rd s sp) - 8 * (unat l + 12)" "rd s0 fp = rd s sp" "in_frame (cmem s0) (unat (rd s sp)) (unat l) s"
    using B by auto
  have "reaches_line lab ext adr P (pc, s) (length (out c1 @ new_code c1 c2), s0)"
    using reaches_line_trans [OF c(1) reaches_exec [OF B(1) c(3)]] .
  moreover have top: "st_top c2 = 0" using E(4) c(4) by simp
  have "H off1 = Some (0 - pops False i + pushes False i)" using targets_known(2) [OF assms(1,2) E(2)] by simp
  then have "H off1 = Some 0" using emit_code_effect [OF c(2) E(3)] c(4) top by (simp add: effect_def)
  ultimately show "\<exists>pc y. label_pos P (label_for_ip off) = Some pc \<and> reaches_line lab ext adr P (pc, s) y \<and>
      at_code P is l H s0 (off1, [], cmem s0) y"
    using pc(1) c(5) E(2) top by (fastforce simp: at_code_def sim_def agrees_def)
qed

lemma function_exit:
  assumes "at_code P is l H s0 (off2, vs @ [v], m) (pc, s2)" "find_from off2 is = (off2, End) # rest" "s0 = entered (unat l) s"
    and "unat l \<le> 244" "8 * (unat l + 12) \<le> unat (rd s sp)" "rd s0 fp = rd s sp" "in_frame (cmem s0) (unat (rd s sp)) (unat l) s"
    and "unat (rd s0 sp) = unat (rd s sp) - 8 * (unat l + 12)"
    and "\<And>x. unat (rd s0 sp) \<le> x \<Longrightarrow> x < unat (rd s0 sp) + 96 \<Longrightarrow> m x = cmem s0 x"
  shows "\<exists>pc' s'. reaches_line lab ext adr P (pc, s2) (pc', s') \<and> pc' < length P \<and> P ! pc' = Ret \<and> rd s' 10 = v \<and>
    rd s' sp = rd s sp \<and> (\<forall>r \<in> set saved_regs. rd s' r = rd s r) \<and> (\<forall>x \<ge> unat (rd s0 sp). cmem s' x = m x) \<and> rd s' ra = rd s ra"
proof -
  have r2: "rd s2 fp = rd s sp" "rd s2 (regs ! length vs) = v" "length vs < 15" "\<forall>x \<ge> unat (rd s0 sp). cmem s2 x = m x"
    "rd s2 ra = rd s0 ra" "code_at False P is l pc off2 (Suc (length vs))"
    using assms(1,6) by (auto simp: at_code_def sim_def agrees_def)
  have ra: "rd s0 ra = rd s ra" by (simp add: assms(3) entered_def ra_def sp_def fp_def)
  have "in_frame (cmem s2) (unat (rd s sp)) (unat l) s"
    by (rule in_frame_cong [OF assms(7,5)]) (use r2(4) assms(8,9,5) in auto)
  then show ?thesis
    using end_run [OF r2(6) assms(2) wf r2(3) assms(4), of s2 s lab ext adr] r2 ra assms(5) by fastforce
qed

lemma function_code:
  assumes "H off = Some 0" "find_from off is = (off, i) # (off1, i1) # rest" "starts i"
    and "unat l \<le> 244" "8 * (unat l + 12) + 256 \<le> unat (rd s sp)" "s0 = entered (unat l) s"
    and "(pstep s0 is)\<^sup>*\<^sup>* (off1, [], cmem s0) (off2, vs @ [v], m)" "find_from off2 is = (off2, End) # rest2"
    and "\<And>x. unat (rd s0 sp) \<le> x \<Longrightarrow> x < unat (rd s0 sp) + 96 \<Longrightarrow> m x = cmem s0 x"
  shows "\<exists>pc pc' s'. label_pos P (label_for_ip off) = Some pc \<and> reaches_line lab ext adr P (pc, s) (pc', s') \<and> pc' < length P \<and>
    P ! pc' = Ret \<and> rd s' 10 = v \<and> rd s' sp = rd s sp \<and> (\<forall>r \<in> set saved_regs. rd s' r = rd s r) \<and>
    (\<forall>x \<ge> unat (rd s0 sp). cmem s' x = m x) \<and> rd s' ra = rd s ra"
proof -
  have room: "8 * (unat l + 12) \<le> unat (rd s sp)" using assms(5) by simp
  note E = function_entry [OF assms(1-4) room assms(6)]
  have big: "256 \<le> unat (rd s0 sp)" using E(2) assms(5) by simp
  obtain pc y where 1: "label_pos P (label_for_ip off) = Some pc" "reaches_line lab ext adr P (pc, s) y"
    "at_code P is l H s0 (off1, [], cmem s0) y"
    using E(1) by blast
  obtain pc2 s2 where 2: "reaches_line lab ext adr P y (pc2, s2)" "at_code P is l H s0 (off2, vs @ [v], m) (pc2, s2)"
    using psteps_code [OF assms(7) 1(3) big] by fastforce
  show ?thesis
    using function_exit [OF 2(2) assms(8,6,4) room E(3,4,2) assms(9), of lab adr] 1(1,2) 2(1) reaches_line_trans by metis
qed

end

text \<open>The output of the compiler is linked code.\<close>

lemma runtime_foreign:
  assumes "runtime_code ext" "\<And>n. n \<in> runtime_names \<Longrightarrow> label_pos P n = None"
  shows "runtime_code (foreign P ext)"
proof
  fix n args s v m
  assume r: "runtime n args (cmem s) = Inr (v, m)" "\<forall>i < length args. rd s (10 + i) = args ! i"
  have "foreign P ext n s = ext n s" using assms(2) [OF runtime_named [OF r(1)]] by (simp add: foreign_def)
  then show "\<exists>s'. foreign P ext n s = Some s' \<and> rd s' 10 = v \<and> rd s' sp = rd s sp \<and> (\<forall>r \<in> set saved_regs. rd s' r = rd s r) \<and>
      (\<forall>x \<ge> unat (rd s sp). cmem s' x = m x)"
    using runtime_code.ext_runs [OF assms(1) r] by simp
qed

lemma emitted_linked:
  assumes "runtime_code ext" "begin_ok begin_of" "wf_program is" "uniform l is" "\<forall>p \<in> set publics. starts_at is p"
    and "emit_program False begin_of file is strings globals publics = Some (Inr c)"
  shows "linked_code ext (out c) is l (map_of (done_at c))"
proof (rule linked_code.intro)
  note F = emit_program_final [OF assms(2,3,6)]
  show "runtime_code (foreign (out c) ext)"
    using runtime_foreign [OF assms(1)] runtime_not_label [OF assms(4) emit_program_names [OF assms(2,6)]] by blast
  show "consistent False is (map_of (done_at c))" by (rule driver_inv_final(1) [OF F(1,2)])
  show "placed False (out c) is l t h" if "map_of (done_at c) t = Some h" for t h
    by (rule emit_program_placed [OF assms(2-6) map_of_SomeD [OF that]])
qed (use assms(3,4) in simp_all)

text \<open>
  The code of a function with jumps and calls of the run-time system only, without a caller, does what
  its bytecode does: when the compiler succeeds, in whatever order it emitted the pieces, and the stack
  machine of the specification runs from the first instruction of a reachable function to its \<open>END\<close>,
  then the machine, entering at the function's label, runs to a \<open>ret\<close> with the value on top of the
  stack in \<open>a0\<close>, the memory of the specification, and the caller's stack pointer and callee-saved
  registers. The functions of the program have the same number of local variables, since the
  compiler may generate an \<open>END\<close> with the frame of another function; the run does not overwrite the
  registers that the entry code saved, and operands fit into registers.
\<close>

theorem function_correct:
  assumes "runtime_code ext" "begin_ok begin_of" "wf_program is" "uniform l is" "\<forall>p \<in> set publics. starts_at is p"
    and "emit_program False begin_of file is strings globals publics = Some (Inr c)" "reaches False is publics off 0"
    and "find_from off is = (off, i) # (off1, i1) # rest" "starts i"
    and "unat l \<le> 244" "8 * (unat l + 12) + 256 \<le> unat (rd s sp)" "s0 = entered (unat l) s"
    and "(pstep s0 is)\<^sup>*\<^sup>* (off1, [], cmem s0) (off2, vs @ [v], m)" "find_from off2 is = (off2, End) # rest2"
    and "\<And>x. unat (rd s0 sp) \<le> x \<Longrightarrow> x < unat (rd s0 sp) + 96 \<Longrightarrow> m x = cmem s0 x"
  shows "\<exists>pc n pc' s'. label_pos (out c) (label_for_ip off) = Some pc \<and> run lab ext adr (out c) n (pc, s) = Some (pc', s') \<and>
    pc' < length (out c) \<and> out c ! pc' = Ret \<and> rd s' 10 = v \<and> rd s' sp = rd s sp \<and>
    (\<forall>r \<in> set saved_regs. rd s' r = rd s r) \<and> (\<forall>x \<ge> unat (rd s0 sp). cmem s' x = m x)"
proof -
  note F = emit_program_final [OF assms(2,3,6)]
  have "map_of (done_at c) off = Some 0"
    by (rule consistent_reaches [OF driver_inv_final(1) [OF F(1,2)] F(3) assms(7)])
  then show ?thesis
    using linked_code.function_code [OF emitted_linked [OF assms(1-6)] _ assms(8-15)] unfolding reaches_line_def by metis
qed

text \<open>\<open>f(x)\<close> is 7 for 0 and \<open>x\<close> otherwise; both branches end at one \<open>END\<close>.\<close>

definition choice_program :: program where
  "choice_program =
     [(0, Begin (Name ''f'') 1 2), (9, Load \<lparr>kind = Arg, index = 0\<rparr>), (14, ConditionalJump 29 True),
      (19, Load \<lparr>kind = Arg, index = 0\<rparr>), (24, Jump 34), (29, Const 15), (34, End)]"

definition choice_cpu :: cpu where
  "choice_cpu = sample_cpu (\<lambda>r. if r = sp then 4096 else if r = 10 then boxI 5 else 0)"

lemma choice_emits: "map_option isl (emit_program False hd ''t.bc'' choice_program [] 0 [0]) = Some False"
  by code_simp

lemma choice_wf: "wf_program choice_program" "uniform 2 choice_program" "starts_at choice_program 0"
  by (auto simp: wf_program_def choice_program_def uniform_def starts_at_def starts_def label_for_ip_def runtime_names_def)

lemma choice_entered: "rd (entered 2 choice_cpu) 10 = boxI 5" "rd (entered 2 choice_cpu) sp = 3984"
  by (simp_all add: entered_def choice_cpu_def sample_cpu_def rd_def wr_def sp_def fp_def)

lemma choice_steps:
  fixes s0 defines "s0 \<equiv> entered 2 choice_cpu"
  shows "(pstep s0 choice_program)\<^sup>*\<^sup>* (9, [], cmem s0) (34, [boxI 5], cmem s0)"
proof -
  let ?e = "\<lparr>kind = Arg, index = 0\<rparr> :: location_entry" and ?m = "cmem s0"
  have load: "bstep s0 (Load ?e) ([], ?m) ([boxI 5], ?m)"
    using bstep.Parameter [of "[]" ?e s0 ?m] choice_entered(1) by (simp add: s0_def word_sle_eq word_sless_alt)
  have "pstep s0 choice_program (9, [], ?m) (14, [boxI 5], ?m)"
    by (rule pstep.Straight [OF _ load]) (simp add: choice_program_def)
  moreover have "pstep s0 choice_program (14, [boxI 5], ?m) (19, [], ?m)"
    using pstep.Not_taken [of 14 choice_program 29 True 19 "Load ?e" _ "boxI 5" s0 "[]" ?m] UNBOX_boxI [of 5]
    by (simp add: choice_program_def fits63_def)
  moreover have "pstep s0 choice_program (19, [], ?m) (24, [boxI 5], ?m)"
    by (rule pstep.Straight [OF _ load]) (simp add: choice_program_def)
  moreover have "pstep s0 choice_program (24, [boxI 5], ?m) (34, [boxI 5], ?m)"
    by (rule pstep.Jump) (simp_all add: choice_program_def)
  ultimately show ?thesis by (blast intro: converse_rtranclp_into_rtranclp rtranclp.rtrancl_refl)
qed

theorem function_correct_witness:
  "\<exists>c pc n pc' s'. emit_program False hd ''t.bc'' choice_program [] 0 [0] = Some (Inr c) \<and>
     label_pos (out c) (label_for_ip 0) = Some pc \<and> run (\<lambda>l. 0) runtime_ext of_nat (out c) n (pc, choice_cpu) = Some (pc', s') \<and>
     out c ! pc' = Ret \<and> rd s' 10 = boxI 5 \<and> rd s' sp = 4096"
proof -
  obtain c where c: "emit_program False hd ''t.bc'' choice_program [] 0 [0] = Some (Inr c)"
  proof -
    obtain r where r: "emit_program False hd ''t.bc'' choice_program [] 0 [0] = Some r" "\<not> isl r" using choice_emits by auto
    then show thesis using that by (cases r) auto
  qed
  have start: "find_from 0 choice_program = (0, Begin (Name ''f'') 1 2) # (9, Load \<lparr>kind = Arg, index = 0\<rparr>) # drop 2 choice_program"
    "find_from 34 choice_program = [(34, End)]" "reaches False choice_program [0] 0 0" "starts (Begin (Name ''f'') 1 2)"
    by (auto simp: choice_program_def starts_def intro: reaches.entry)
  have sp: "rd choice_cpu sp = 4096" by (simp add: choice_cpu_def sample_cpu_def rd_def sp_def)
  have pub: "\<forall>p \<in> set [0]. starts_at choice_program p" using choice_wf(3) by simp
  have l: "unat (2 :: u64) \<le> 244" "8 * (unat (2 :: u64) + 12) + 256 \<le> unat (rd choice_cpu sp)" by (simp_all add: sp)
  have steps: "(pstep (entered (unat (2 :: u64)) choice_cpu) choice_program)\<^sup>*\<^sup>*
      (9, [], cmem (entered (unat (2 :: u64)) choice_cpu)) (34, [] @ [boxI 5], cmem (entered (unat (2 :: u64)) choice_cpu))"
    using choice_steps by simp
  obtain pc n pc' s' where "label_pos (out c) (label_for_ip 0) = Some pc" "run (\<lambda>l. 0) runtime_ext of_nat (out c) n (pc, choice_cpu) = Some (pc', s')"
     "out c ! pc' = Ret" "rd s' 10 = boxI 5" "rd s' sp = rd choice_cpu sp"
    using function_correct [OF rt.runtime_code_axioms begin_ok_hd_last(1) choice_wf(1,2) pub c start(3,1,4) l refl steps start(2) refl]
    by blast
  then show ?thesis using c sp by metis
qed

end
