(* ===== verification/Calls_Correct.thy ===== *)
theory Calls_Correct
  imports Program_Correct
begin

text \<open>
  Functions that call each other: the specification runs the body of the callee in a frame of its
  own; the machine, on the output of the compiler, saves the caller's registers, passes the arguments,
  enters the callee at its label, returns, and has the result on top of the caller's stack. Calls may
  be recursive to any depth.
\<close>

section \<open>The specification\<close>

text \<open>
  What a callee sees: the arguments in the first argument registers, the base of the globals, a stack
  pointer below the sixteen words its caller saved and the padding, and the caller's memory.
\<close>

definition passes :: "u64 \<Rightarrow> cpu \<Rightarrow> u64 list \<Rightarrow> mem \<Rightarrow> cpu \<Rightarrow> bool" where
  "passes l s0 args m s \<longleftrightarrow> (\<forall>i < length args. rd s (10 + i) = args ! i) \<and> rd s gp = rd s0 gp \<and>
     unat (rd s sp) = unat (rd s0 sp) - 128 - 8 * unat (l AND 1) \<and> (\<forall>x \<ge> unat (rd s0 sp). cmem s x = m x)"

text \<open>
  What it must not change: the words its caller saved. The word at its stack pointer, which is its own
  first local variable, is padding if the number of local variables is odd, and one of those words
  otherwise.
\<close>

definition spared :: "u64 \<Rightarrow> cpu \<Rightarrow> mem \<Rightarrow> bool" where
  "spared l s m \<longleftrightarrow> (\<forall>x. unat (rd s sp) + 8 * unat (l AND 1) \<le> x \<longrightarrow> x < unat (rd s sp) + 136 \<longrightarrow> m x = cmem s x)"

text \<open>
  \<open>csteps\<close>: the instructions of one activation, whose frame is that of \<open>s0\<close>, with complete calls.
  \<open>creturns is l f s v m\<close>: the function at \<open>f\<close>, called in state \<open>s\<close>, reaches its \<open>END\<close> with value \<open>v\<close>
  and memory \<open>m\<close>, not having overwritten the registers its entry code saved. A call has a result if
  it has it in every state that passes the arguments, since what is below the caller's stack pointer,
  and the registers that hold no argument, are not its business.
\<close>

inductive csteps :: "program \<Rightarrow> u64 \<Rightarrow> cpu \<Rightarrow> u64 \<times> u64 list \<times> mem \<Rightarrow> u64 \<times> u64 list \<times> mem \<Rightarrow> bool"
  and creturns :: "program \<Rightarrow> u64 \<Rightarrow> u64 \<Rightarrow> cpu \<Rightarrow> u64 \<Rightarrow> mem \<Rightarrow> bool" for "is" l where
  Done: "csteps is l s0 x x"
| Step: "csteps is l s0 x y \<Longrightarrow> pstep s0 is y z \<Longrightarrow> csteps is l s0 x z"
| Call: "csteps is l s0 x (off, vs @ args, m) \<Longrightarrow> find_from off is = (off, Call (Offset f) argc) # (off', i') # rest \<Longrightarrow>
    unat argc = length args \<Longrightarrow> length args \<le> 8 \<Longrightarrow> length vs < 11 \<Longrightarrow> length vs + length args \<le> 15 \<Longrightarrow>
    (\<forall>s. passes l s0 args m s \<longrightarrow>
       (\<exists>mm. creturns is l f s v mm \<and> spared l s mm \<and> agrees (unat (rd s0 sp)) mm m')) \<Longrightarrow>
    csteps is l s0 x (off', vs @ [v], m')"
| Return: "find_from f is = (f, i) # (off1, i1) # rest \<Longrightarrow> starts i \<Longrightarrow> 8 * (unat l + 12) + 256 \<le> unat (rd s sp) \<Longrightarrow>
    s0 = entered (unat l) s \<Longrightarrow> csteps is l s0 (off1, [], cmem s0) (off2, vs @ [v], m) \<Longrightarrow>
    find_from off2 is = (off2, End) # rest2 \<Longrightarrow>
    (\<forall>x. unat (rd s0 sp) \<le> x \<longrightarrow> x < unat (rd s0 sp) + 96 \<longrightarrow> m x = cmem s0 x) \<Longrightarrow>
    creturns is l f s v m"

lemma creturns_found: "creturns is l f s v m \<Longrightarrow> f \<in> fst ` set is"
  using find_from_Nil [of f "is"] by (auto elim: creturns.cases)

lemma creturns_room:
  assumes "creturns is l f s v m"
  shows "unat (rd (entered (unat l) s) sp) \<le> unat (rd s sp)"
proof -
  let ?k = "8 * (unat l + 12)"
  have k: "?k \<le> unat (rd s sp)" using assms by (auto elim: creturns.cases)
  then have "?k < 2 ^ 64" using unat_u64_less le_less_trans by blast
  then have "of_nat ?k \<le> rd s sp" using k by (simp add: word_le_nat_alt unat_of_nat_u64 del: of_nat_add of_nat_mult)
  moreover have "rd (entered (unat l) s) sp = rd s sp - of_nat ?k" by (simp add: entered_def sp_def fp_def)
  ultimately show ?thesis by (metis word_sub_le word_le_nat_alt)
qed

section \<open>A call on the machine\<close>

lemma call_rule:
  assumes "inj_on adr {..length P}" "label_pos P f = Some n" "P = out c @ (as @ [CallInsn f] @ bs) @ es"
    and "exec lab (foreign P ext) as s = Some s1" "exec lab (foreign P ext) bs s2 = Some s3"
    and "reaches_line lab ext adr P (n, wr ra (adr (Suc (length (out c @ as)))) s1) (Suc (length (out c @ as)), s2)"
  shows "reaches_line lab ext adr P (length (out c), s) (length (out c @ as @ [CallInsn f] @ bs), s3)"
proof -
  have "reaches_line lab ext adr P (length (out c), s) (length (out c @ as), s1)"
    by (rule reaches_exec [OF assms(4), of _ "[CallInsn f] @ bs @ es"]) (simp add: assms(3))
  also have "reaches_line lab ext adr P (length (out c @ as), s1) (n, wr ra (adr (Suc (length (out c @ as)))) s1)"
    by (rule reaches_call [OF _ _ assms(2)]) (simp_all add: assms(3) nth_append)
  also note assms(6)
  also have "reaches_line lab ext adr P (Suc (length (out c @ as)), s2) (length (out c @ as @ [CallInsn f] @ bs), s3)"
    using reaches_exec [OF assms(5), of "out c @ as @ [CallInsn f]" es] by (simp add: assms(3))
  finally show ?thesis .
qed

text \<open>The states between the code of a call and its return.\<close>

lemma call_passes:
  assumes "holds s0 (vs @ args, m) c s" "length args = n" "\<forall>i < n. rd s1 (10 + i) = rd s (regs ! (length vs + i))"
    and "unat (rd s1 sp) = unat (rd s sp) - 128 - 8 * unat (l AND 1)" "\<forall>r. r \<noteq> sp \<longrightarrow> r \<notin> set arg_regs \<longrightarrow> rd s1 r = rd s r"
    and "\<forall>x \<ge> unat (rd s sp). cmem s1 x = cmem s x" "length args \<le> 8"
  shows "passes l s0 args m (wr ra w s1)"
proof -
  have h: "rd s sp = rd s0 sp" "rd s gp = rd s0 gp" "\<forall>x \<ge> unat (rd s0 sp). cmem s x = m x"
    "\<forall>i < length vs + length args. rd s (regs ! i) = (vs @ args) ! i"
    using assms(1) by (auto simp: holds_sim agrees_def)
  have "rd (wr ra w s1) (10 + i) = args ! i" if "i < length args" for i
    using assms(2,3) h(4) that by (simp add: ra_def)
  then show ?thesis
    using assms(4-6) h by (auto simp: passes_def ra_def gp_def sp_def arg_regs_def)
qed

text \<open>What a callee promises is what its caller needs.\<close>

lemma callee_spares:
  assumes "passes l s0 args m t" "creturns is l f t v mm" "spared l t mm" "agrees (unat (rd s0 sp)) mm m'"
    and "rd s' sp = rd t sp" "\<forall>q \<in> set saved_regs. rd s' q = rd t q" "\<forall>x \<ge> unat (rd (entered (unat l) t) sp). cmem s' x = mm x"
  shows "spares (8 * unat (l AND 1)) t s'" "\<forall>x \<ge> unat (rd s0 sp). cmem s' x = m' x"
proof -
  have "unat (rd (entered (unat l) t) sp) \<le> unat (rd t sp)" "unat (rd t sp) \<le> unat (rd s0 sp)"
    using creturns_room [OF assms(2)] assms(1) by (simp_all add: passes_def)
  then show "spares (8 * unat (l AND 1)) t s'" "\<forall>x \<ge> unat (rd s0 sp). cmem s' x = m' x"
    using assms(3-7) by (auto simp: spares_def spared_def agrees_def)
qed

context linked_code
begin

lemma offset_call:
  assumes at: "at_code P is l H s0 (off, vs @ args, m) (pc, s)"
    and ff: "find_from off is = (off, Call (Offset f) argc) # (off', i') # rest"
    and len: "unat argc = length args" "length args \<le> 8" "length vs < 11" "length vs + length args \<le> 15"
    and big: "256 \<le> unat (rd s0 sp)" and adr: "inj_on adr {..length P}"
    and callee: "\<And>s1 r. passes l s0 args m s1 \<Longrightarrow> rd s1 ra = adr r \<Longrightarrow> r \<le> length P \<Longrightarrow>
      \<exists>n s2. label_pos P (label_for_ip f) = Some n \<and> reaches_line lab ext adr P (n, s1) (r, s2) \<and>
        spares (8 * unat (l AND 1)) s1 s2 \<and> rd s2 10 = v \<and> (\<forall>x \<ge> unat (rd s0 sp). cmem s2 x = m' x)"
  shows "\<exists>y. reaches_line lab ext adr P (pc, s) y \<and> at_code P is l H s0 (off', vs @ [v], m') y"
proof -
  let ?k = "length vs" and ?al = "l AND 1" and ?a = "unat (rd s0 sp)"
  have code: "code_at False P is l pc off (?k + length args)" and H: "H off = Some (?k + length args)"
    using at by (simp_all add: at_code_def)
  obtain c1 c2 es where c: "reaches_line lab ext adr P (pc, s) (length (out c1), s)"
    "compile_call (Offset f) argc None c1 = Inr c2" "P = out c1 @ new_code c1 c2 @ es" "st_top c1 = ?k + length args"
    "framed l (current_frame c1)" "code_at False P is l (length (out c1 @ new_code c1 c2)) off' (st_top c2)"
    by (rule code_at_step [OF code ff wf]) (rule that, use unif in \<open>auto simp: starts_def\<close>)
  obtain fr where fr: "current_frame c1 = Some fr" "locals_count fr = l" using c(5) by (auto simp: framed_def)
  have hold: "holds s0 (vs @ args, m) c1 s" using at c(4) by (simp add: at_code_def holds_def)
  have spa: "rd s sp = rd s0 sp" using hold by (simp add: holds_sim)
  have k: "?k = st_top c1 - unat argc" "unat argc \<le> 8" "st_top c1 \<le> 15" "?k < 15" "?k + unat argc \<le> 15"
    using c(4) len by simp_all
  define as where "as = emit_addi sp sp 0 @ save_regs call_regs @ map (\<lambda>i. Mv (10 + i) (regs ! (?k + i))) (rev [0..<unat argc])
    @ (if ?al \<noteq> 0 then emit_addi sp sp (- WORD_SIZE) else [])"
  define bs where "bs = (if ?al \<noteq> 0 then emit_addi sp sp WORD_SIZE else []) @ [Mv (regs ! ?k) 10]
    @ restore_args @ restore_temps @ emit_ld ra sp (- WORD_SIZE) @ emit_addi sp sp 0"
  obtain cm where cm: "exec lab (foreign P ext) cm s' = Some s'" "st_top c2 = Suc ?k"
    "new_code c1 c2 = as @ cm @ [CallInsn (label_for_ip f)] @ bs" for s'
    using call_code_eq_offset [OF c(2) fr(1) k(2,3) refl k(1,4)] unfolding as_def bs_def fr(2) by auto
  have al: "?al = 0 \<or> ?al = 1" by (rule u64_and_1_cases)
  obtain s1 where s1: "exec lab (foreign P ext) as s = Some s1" "\<forall>i < unat argc. rd s1 (10 + i) = rd s (regs ! (?k + i))"
    "rd s1 sp = of_nat (?a - 128 - 8 * unat ?al)" "\<forall>r. r \<noteq> sp \<longrightarrow> r \<notin> set arg_regs \<longrightarrow> rd s1 r = rd s r"
    "\<forall>x \<ge> ?a. cmem s1 x = cmem s x" "stored (cmem s1) ?a call_regs s"
    using call_enter [OF _ big k(2,5) al, of s lab "foreign P ext"] unfolding as_def spa by blast
  have a64: "?a < 2 ^ 64" by (rule unat_u64_less)
  have uc: "unat (rd s1 sp) = unat (rd s sp) - 128 - 8 * unat ?al" unfolding s1(3) spa using a64 by (simp add: unat_of_nat_u64)
  let ?r = "Suc (length (out c1 @ as @ cm))"
  let ?s1 = "wr ra (adr ?r) s1"
  have pas: "passes l s0 args m ?s1"
    by (rule call_passes [OF hold len(1) [symmetric] s1(2) uc s1(4) _ len(2)]) (use s1(5) spa in simp)
  have "?r \<le> length P" "rd ?s1 ra = adr ?r" by (simp_all add: c(3) cm(3) ra_def)
  then obtain n s2 where s2: "label_pos P (label_for_ip f) = Some n" "reaches_line lab ext adr P (n, ?s1) (?r, s2)"
    "spares (8 * unat ?al) ?s1 s2" "rd s2 10 = v" "\<forall>x \<ge> ?a. cmem s2 x = m' x"
    using callee [OF pas] by blast
  have sv: "\<forall>r \<in> set saved_regs. rd ?s1 r = rd s r" "rd ?s1 sp = of_nat (?a - 128 - 8 * unat ?al)"
    "stored (cmem ?s1) ?a call_regs s" "rd s sp = of_nat ?a"
    using s1(3,4,6) spa by (auto simp: saved_regs_def sp_def ra_def arg_regs_def)
  obtain s' where s': "exec lab (foreign P ext) bs s2 = Some s'" "cmem s' = cmem s2" "rd s' (regs ! ?k) = v"
    "\<forall>r \<in> set (sp # call_regs @ saved_regs). r \<noteq> regs ! ?k \<longrightarrow> rd s' r = rd s r"
    using call_leave [OF sv(4) big a64 al k(4) sv(2,1,3) s2(3), of lab "foreign P ext"] s2(4) len(3) unfolding bs_def by auto
  have "reaches_line lab ext adr P (length (out c1), s) (length (out c1 @ new_code c1 c2), s')"
    using call_rule [OF adr s2(1) _ exec_appendI [OF s1(1) cm(1)] s'(1), of c1 es] s2(2) c(3) unfolding cm(3) by simp
  moreover have "holds s0 (vs @ [v], m') c2 s'"
    by (rule call_holds [OF hold len(3) cm(2) s'(3,4)]) (use s'(2) s2(5) in simp)
  moreover have "H off' = Some (Suc ?k)" using targets_known(2) [OF H ff] len(1) by simp
  ultimately show ?thesis
    using reaches_line_trans [OF c(1)] c(6) cm(2) by (auto simp: at_code_def holds_def)
qed

text \<open>The two claims, by induction on the run: of an activation, and of a function from its label to its return.\<close>

lemma calls_code:
  assumes adr: "inj_on adr {..length P}" and l: "unat l \<le> 244"
  shows "csteps is l s0 x x' \<Longrightarrow> at_code P is l H s0 x y \<Longrightarrow> 256 \<le> unat (rd s0 sp) \<Longrightarrow>
      \<exists>y'. reaches_line lab ext adr P y y' \<and> at_code P is l H s0 x' y'"
    and "creturns is l f s v m \<Longrightarrow> H f = Some 0 \<Longrightarrow> rd s ra = adr r \<Longrightarrow> r \<le> length P \<Longrightarrow>
      \<exists>n s'. label_pos P (label_for_ip f) = Some n \<and> reaches_line lab ext adr P (n, s) (r, s') \<and> rd s' 10 = v \<and>
        rd s' sp = rd s sp \<and> (\<forall>q \<in> set saved_regs. rd s' q = rd s q) \<and>
        (\<forall>x \<ge> unat (rd (entered (unat l) s) sp). cmem s' x = m x)"
proof (induction arbitrary: y and r rule: csteps_creturns.inducts)
  case (Done s0 x)
  then show ?case by blast
next
  case (Step s0 x x1 x2)
  obtain pc1 s1 where 1: "reaches_line lab ext adr P y (pc1, s1)" "at_code P is l H s0 x1 (pc1, s1)"
    using Step.IH(2) [OF Step.prems] by auto
  show ?case using pstep_code [OF Step.IH(3) 1(2) Step.prems(2), of lab adr] reaches_line_trans [OF 1(1)] by blast
next
  case (Call s0 x off vs args m f argc off' i' rest v m')
  obtain pc1 s1 where 1: "reaches_line lab ext adr P y (pc1, s1)" "at_code P is l H s0 (off, vs @ args, m) (pc1, s1)"
    using Call.IH(2) [OF Call.prems] by auto
  have H: "H off = Some (length vs + length args)" using 1(2) by (simp add: at_code_def)
  have "\<exists>y'. reaches_line lab ext adr P (pc1, s1) y' \<and> at_code P is l H s0 (off', vs @ [v], m') y'"
  proof (rule offset_call [OF 1(2) Call.IH(3) Call.hyps(1-4) Call.prems(2) adr])
    fix t r assume t: "passes l s0 args m t" "rd t ra = adr r" "r \<le> length P"
    then obtain mm where mm: "creturns is l f t v mm" "spared l t mm" "agrees (unat (rd s0 sp)) mm m'"
      and ih: "H f = Some 0 \<Longrightarrow> rd t ra = adr r \<Longrightarrow> r \<le> length P \<Longrightarrow>
        \<exists>n s'. label_pos P (label_for_ip f) = Some n \<and> reaches_line lab ext adr P (n, t) (r, s') \<and> rd s' 10 = v \<and>
          rd s' sp = rd t sp \<and> (\<forall>q \<in> set saved_regs. rd s' q = rd t q) \<and>
          (\<forall>x \<ge> unat (rd (entered (unat l) t) sp). cmem s' x = mm x)"
      using Call.IH(4) by blast
    have "H f = Some 0" using targets_known(1) [OF H Call.IH(3)] creturns_found [OF mm(1)] by simp
    then obtain n s' where s': "label_pos P (label_for_ip f) = Some n" "reaches_line lab ext adr P (n, t) (r, s')"
      "rd s' 10 = v" "rd s' sp = rd t sp" "\<forall>q \<in> set saved_regs. rd s' q = rd t q"
      "\<forall>x \<ge> unat (rd (entered (unat l) t) sp). cmem s' x = mm x"
      using ih t(2,3) by blast
    have "spares (8 * unat (l AND 1)) t s'" "\<forall>x \<ge> unat (rd s0 sp). cmem s' x = m' x"
      by (rule callee_spares [OF t(1) mm s'(4-6)])+
    then show "\<exists>n s2. label_pos P (label_for_ip f) = Some n \<and> reaches_line lab ext adr P (n, t) (r, s2) \<and>
        spares (8 * unat (l AND 1)) t s2 \<and> rd s2 10 = v \<and> (\<forall>x \<ge> unat (rd s0 sp). cmem s2 x = m' x)"
      using s'(1-3) by blast
  qed
  then show ?case using reaches_line_trans [OF 1(1)] by blast
next
  case (Return f i off1 i1 rest s s0 off2 vs v m rest2)
  have room: "8 * (unat l + 12) \<le> unat (rd s sp)" using Return.IH(2) by simp
  note E = function_entry [OF Return.prems(1) Return.IH(1) Return.hyps(1) l room Return.IH(3)]
  have big: "256 \<le> unat (rd s0 sp)" using E(2) Return.IH(2) by simp
  obtain n y1 where 1: "label_pos P (label_for_ip f) = Some n" "reaches_line lab ext adr P (n, s) y1"
    "at_code P is l H s0 (off1, [], cmem s0) y1"
    using E(1) by blast
  obtain pc2 s2 where 2: "reaches_line lab ext adr P y1 (pc2, s2)" "at_code P is l H s0 (off2, vs @ [v], m) (pc2, s2)"
    using Return.IH(5) [OF 1(3) big] by auto
  obtain pc' s' where 3: "reaches_line lab ext adr P (pc2, s2) (pc', s')" "pc' < length P" "P ! pc' = Ret" "rd s' 10 = v"
    "rd s' sp = rd s sp" "\<forall>q \<in> set saved_regs. rd s' q = rd s q" "\<forall>x \<ge> unat (rd s0 sp). cmem s' x = m x" "rd s' ra = rd s ra"
    using function_exit [OF 2(2) Return.IH(6,3) l room E(3,4,2), of lab adr] Return.hyps(2) by blast
  have "reaches_line lab ext adr P (pc', s') (r, s')"
    by (rule reaches_ret [OF 3(2,3) _ Return.prems(3) adr]) (use 3(8) Return.prems(2) in simp)
  then have "reaches_line lab ext adr P (n, s) (r, s')" using 1(2) 2(1) 3(1) reaches_line_trans by blast
  then show ?case using 1(1) 3(4-7) Return.IH(3) by blast
qed

end

section \<open>The whole program\<close>



text \<open>A function of one local variable that calls itself: \<open>f(0)\<close> is 7 and any other \<open>f(x)\<close> is \<open>f(0)\<close>.\<close>

definition calling_program :: program where
  "calling_program =
     [(0, Begin (Name ''f'') 1 1), (9, Load \<lparr>kind = Arg, index = 0\<rparr>), (14, ConditionalJump 38 True),
      (19, Const 1), (24, Call (Offset 0) 1), (33, Jump 43), (38, Const 15), (43, End)]"



lemma successful_output:
  assumes "map_option (\<lambda>r. \<not> isl r \<and> length (out (projr r)) < 1000) r = Some True"
  shows "r = Some (Inr (projr (the r)))" "length (out (projr (the r))) < 1000"
proof -
  obtain x where x: "r = Some x" "\<not> isl x" "length (out (projr x)) < 1000" using assms by auto
  then show "r = Some (Inr (projr (the r)))" by (cases x) simp_all
  show "length (out (projr (the r))) < 1000" using x by simp
qed

definition calling_output :: compiler where
  "calling_output = projr (the (emit_program False hd ''t.bc'' calling_program [] 0 [0]))"

lemma calling_emits: "emit_program False hd ''t.bc'' calling_program [] 0 [0] = Some (Inr calling_output)"
  "length (out calling_output) < 1000"
proof -
  have "map_option (\<lambda>r. \<not> isl r \<and> length (out (projr r)) < 1000) (emit_program False hd ''t.bc'' calling_program [] 0 [0]) = Some True"
    by code_simp
  then show "emit_program False hd ''t.bc'' calling_program [] 0 [0] = Some (Inr calling_output)" "length (out calling_output) < 1000"
    unfolding calling_output_def by (rule successful_output)+
qed

lemma calling_wf: "wf_program calling_program" "uniform 1 calling_program" "starts_at calling_program 0"
  by (auto simp: wf_program_def calling_program_def uniform_def starts_at_def starts_def label_for_ip_def runtime_names_def)

interpretation calling: linked_code runtime_ext "out calling_output" calling_program 1 "map_of (done_at calling_output)"
  using emitted_linked [OF rt.runtime_code_axioms begin_ok_hd_last(1) calling_wf(1,2) _ calling_emits(1)] calling_wf(3) by simp












end
