(* ===== verification/Bytefile.thy ===== *)
theory Bytefile
  imports Instructions
begin

text \<open>
  The bytecode file, \<open>comp/include/bytefile.h\<close> and \<open>comp/src/bytefile.cpp\<close>: its header, the table
  of public symbols, the string table and the code. The file system is a parameter: \<open>read_file\<close> is
  given the bytes of the file. \<open>contents\<close> are the bytes from \<open>stringtab_size\<close> on; the pointers of the
  struct are indices into them. \<open>offsetof(bytefile, stringtab_size)\<close> is 40, \<open>sizeof(bytefile)\<close> is
  56, and \<open>buffer\<close> begins at index 12 on the 64-bit targets the compiler is built for.
\<close>

record bytefile =
  file_size :: i32
  string_ptr :: nat
  public_ptr :: nat
  code_ptr :: nat
  stringtab_size :: i32
  global_area_size :: i32
  public_symbols_number :: i32
  contents :: "byte list"

text \<open>A four-byte little-endian integer; beyond the bytes that exist the behaviour is undefined.\<close>

definition int_at :: "byte list \<Rightarrow> nat \<Rightarrow> i32 res" where
  "int_at bs p =
     (if p + 4 \<le> length bs
      then Inr (ucast (bs ! p) OR push_bit 8 (ucast (bs ! (p + 1))) OR push_bit 16 (ucast (bs ! (p + 2)))
             OR push_bit 24 (ucast (bs ! (p + 3))))
      else Inl Undefined)"

text \<open>The C string at an index: the bytes before the next 0.\<close>

definition string_at :: "byte list \<Rightarrow> nat \<Rightarrow> string res" where
  "string_at bs p = (let s = takeWhile (\<lambda>b. b \<noteq> 0) (drop p bs) in
     if p + length s < length bs then Inr (chars_of s) else Inl Undefined)"

definition check :: "bool \<Rightarrow> string \<Rightarrow> unit res" where
  "check ok message = (if ok then Inr () else Inl (Failure message))"

text \<open>
  \<open>total_sections_size\<close> is an \<open>int\<close> that is given a \<open>size_t\<close> sum; in the comparison it is extended
  to \<open>size_t\<close> again, as is the \<open>int\<close> field \<open>size\<close>. Of a file without a complete header the fields are
  read from memory that was never written.
\<close>

definition total_sections_size :: "i32 \<Rightarrow> i32 \<Rightarrow> i32 \<Rightarrow> i32" where
  "total_sections_size strings publics globals =
     ucast (size_of_int strings + size_of_int publics * 2 * 4 + size_of_int globals * 4)"

definition read_file :: "byte list \<Rightarrow> bytefile res" where
  "read_file bs =
     bindR (int_at bs 0) (\<lambda>strings. bindR (int_at bs 4) (\<lambda>globals. bindR (int_at bs 8) (\<lambda>publics.
     let sz = of_nat (40 + length bs)
     in bindR (check (0 \<le>s strings) ''Negative string section size'') (\<lambda>_.
        bindR (check (0 \<le>s publics) ''Negative public symbols number'') (\<lambda>_.
        bindR (check (0 \<le>s globals) ''Negative global area size'') (\<lambda>_.
        bindR (check (size_of_int (total_sections_size strings publics globals) + 56 \<le> size_of_int sz)
                 ''Invalid sections layout'') (\<lambda>_.
          let sp = 12 + unat publics * 2 * 4
          in Inr \<lparr>file_size = sz, string_ptr = sp, public_ptr = 12, code_ptr = sp + unat strings,
                stringtab_size = strings, global_area_size = globals, public_symbols_number = publics,
                contents = bs\<rparr>)))))))"

definition get_string :: "bytefile \<Rightarrow> i32 \<Rightarrow> string res" where
  "get_string f pos =
     bindR (check (0 \<le>s pos) ''Negative string index'') (\<lambda>_.
     bindR (check (pos <s stringtab_size f) ''Index out of bounds'') (\<lambda>_.
       string_at (contents f) (string_ptr f + unat pos)))"

definition get_public_name :: "bytefile \<Rightarrow> i32 \<Rightarrow> string res" where
  "get_public_name f i =
     bindR (check (0 \<le>s i) ''Negative public symbol index'') (\<lambda>_.
     bindR (check (i <s public_symbols_number f) ''Index out of bounds'') (\<lambda>_.
     bindR (int_at (contents f) (public_ptr f + 4 * (unat i * 2))) (get_string f)))"

definition get_public_offset :: "bytefile \<Rightarrow> i32 \<Rightarrow> i32 res" where
  "get_public_offset f i =
     bindR (check (0 \<le>s i) ''Negative public symbol index'') (\<lambda>_.
     bindR (check (i <s public_symbols_number f) ''Index out of bounds'') (\<lambda>_.
     bindR (int_at (contents f) (public_ptr f + 4 * (unat i * 2 + 1))) (\<lambda>offset.
     bindR (check (offset \<le>s file_size f) ''Invalid public offset'') (\<lambda>_. Inr offset))))"

section \<open>Integers in bytes\<close>

definition int_bytes :: "i32 \<Rightarrow> byte list" where
  "int_bytes v = map (\<lambda>k. ucast (drop_bit (8 * k) v)) [0..<4]"

lemma length_int_bytes [simp]: "length (int_bytes v) = 4"
  by (simp add: int_bytes_def)

lemma int_at_bytes: "int_at (pre @ int_bytes v @ post) (length pre) = Inr v"
proof -
  have b: "int_bytes v ! 0 = ucast v" "int_bytes v ! 1 = ucast (drop_bit 8 v)" "int_bytes v ! 2 = ucast (drop_bit 16 v)"
    "int_bytes v ! 3 = ucast (drop_bit 24 v)" by (simp_all add: int_bytes_def)
  have "(ucast (ucast v :: byte) :: i32) OR push_bit 8 (ucast (ucast (drop_bit 8 v) :: byte))
      OR push_bit 16 (ucast (ucast (drop_bit 16 v) :: byte)) OR push_bit 24 (ucast (ucast (drop_bit 24 v) :: byte)) = v"
    (is "?w = v")
  proof (rule bit_word_eqI)
    fix n assume "n < LENGTH(32)"
    then consider "n < 8" | "8 \<le> n" "n < 16" | "16 \<le> n" "n < 24" | "24 \<le> n" "n < 32" by fastforce
    then show "bit ?w n \<longleftrightarrow> bit v n" by cases (auto simp: bit_simps)
  qed
  then show ?thesis using b by (simp add: int_at_def nth_append)
qed

end
