(* ===== verification/Reader.thy ===== *)
theory Reader
  imports Bytefile
begin

text \<open>
  The decoder of instructions, \<open>InstReader\<close> of \<open>comp/include/inst_reader.h\<close> and
  \<open>comp/src/read.cpp\<close>. \<open>ip\<close> is an index into the contents of the file. The value of the member
  of \<open>CBegin\<close> that is never set is a parameter \<open>junk\<close>, by the position of the instruction.
\<close>

record reader =
  bf :: bytefile
  ip :: nat
  function_index :: i32
  function_names :: "i32 \<rightharpoonup> string"
  strings :: "string list"

text \<open>The loop of the constructor over the public symbols.\<close>

fun public_names :: "bytefile \<Rightarrow> nat list \<Rightarrow> (i32 \<rightharpoonup> string) \<Rightarrow> (i32 \<rightharpoonup> string) res" where
  "public_names f [] names = Inr names"
| "public_names f (i # is) names =
     bindR (get_public_offset f (of_nat i)) (\<lambda>off. bindR (get_public_name f (of_nat i)) (\<lambda>n.
       public_names f is (names(off \<mapsto> n))))"

definition new_reader :: "bytefile \<Rightarrow> reader res" where
  "new_reader f = bindR (public_names f [0..<unat (public_symbols_number f)] (\<lambda>off. None)) (\<lambda>names.
     Inr \<lparr>bf = f, ip = code_ptr f, function_index = 0, function_names = names, strings = []\<rparr>)"

definition get_offset :: "reader \<Rightarrow> i32" where
  "get_offset r = of_nat (ip r - code_ptr (bf r))"

definition assert_can_read :: "nat \<Rightarrow> reader \<Rightarrow> unit res" where
  "assert_can_read n r =
     bindR (check (code_ptr (bf r) \<le> ip r) ''ip is out of code section'') (\<lambda>_.
       check (int (40 + ip r + n) \<le> sint (file_size (bf r))) ''ip is out of code section'')"

definition read_byte :: "reader \<Rightarrow> (byte \<times> reader) res" where
  "read_byte r = bindR (assert_can_read 1 r) (\<lambda>_.
     if ip r < length (contents (bf r)) then Inr (contents (bf r) ! ip r, r\<lparr>ip := ip r + 1\<rparr>) else Inl Undefined)"

definition read_int :: "reader \<Rightarrow> (i32 \<times> reader) res" where
  "read_int r = bindR (assert_can_read 4 r) (\<lambda>_.
     bindR (int_at (contents (bf r)) (ip r)) (\<lambda>v. Inr (v, r\<lparr>ip := ip r + 4\<rparr>)))"

definition read_string :: "i32 \<Rightarrow> reader \<Rightarrow> (string \<times> reader) res" where
  "read_string pos r =
     bindR (if pos = - 1 then read_int r else Inr (pos, r)) (\<lambda>(pos, r).
     bindR (get_string (bf r) pos) (\<lambda>s. Inr (s, r)))"

definition read_loc :: "reader \<Rightarrow> (location_entry \<times> reader) res" where
  "read_loc r = bindR (read_byte r) (\<lambda>(k, r). bindR (read_int r) (\<lambda>(i, r).
     Inr (\<lparr>kind = Location (unat k), index = i\<rparr>, r)))"

fun read_locs :: "nat \<Rightarrow> reader \<Rightarrow> (location_entry list \<times> reader) res" where
  "read_locs 0 r = Inr ([], r)"
| "read_locs (Suc n) r = bindR (read_loc r) (\<lambda>(e, r). bindR (read_locs n r) (\<lambda>(es, r). Inr (e # es, r)))"

section \<open>Instructions\<close>

text \<open>Instructions with one and two integers.\<close>

definition with_int :: "(i32 \<Rightarrow> instr) \<Rightarrow> reader \<Rightarrow> (instr option \<times> reader) res" where
  "with_int mk r = bindR (read_int r) (\<lambda>(v, r). Inr (Some (mk v), r))"

definition with_ints :: "(i32 \<Rightarrow> i32 \<Rightarrow> instr) \<Rightarrow> reader \<Rightarrow> (instr option \<times> reader) res" where
  "with_ints mk r = bindR (read_int r) (\<lambda>(v, r). bindR (read_int r) (\<lambda>(w, r). Inr (Some (mk v w), r)))"

definition with_string_int :: "(string \<Rightarrow> i32 \<Rightarrow> instr) \<Rightarrow> reader \<Rightarrow> (instr option \<times> reader) res" where
  "with_string_int mk r = bindR (read_string (- 1) r) (\<lambda>(s, r). bindR (read_int r) (\<lambda>(v, r). Inr (Some (mk s v), r)))"

definition read_String :: "reader \<Rightarrow> (instr option \<times> reader) res" where
  "read_String r = bindR (read_int r) (\<lambda>(ind, r). bindR (read_string ind r) (\<lambda>(s, r).
     Inr (Some (String (of_nat (length (strings r))) s), r\<lparr>strings := strings r @ [s]\<rparr>)))"

definition read_Begin :: "reader \<Rightarrow> (instr option \<times> reader) res" where
  "read_Begin r =
     (let index = function_index r;
          r = r\<lparr>function_index := index + 1\<rparr>;
          is_public = index <s public_symbols_number (bf r);
          offset = size_of_int (get_offset r - 1)
      in bindR (read_int r) (\<lambda>(argc, r). bindR (read_int r) (\<lambda>(locc, r).
           if is_public
           then bindR (get_public_offset (bf r) index) (\<lambda>off.
                if size_of_int off \<noteq> offset then Inl AssertFailed
                else bindR (get_public_name (bf r) index) (\<lambda>n. Inr (Some (mk_Begin (Name n) argc locc), r)))
           else Inr (Some (mk_Begin (Offset offset) argc locc), r))))"

text \<open>\<open>iota(0, n)\<close> requires \<open>0 \<le> n\<close>.\<close>

definition read_Closure :: "reader \<Rightarrow> (instr option \<times> reader) res" where
  "read_Closure r = bindR (read_int r) (\<lambda>(entry, r). bindR (read_int r) (\<lambda>(n, r).
     if n <s 0 then Inl Undefined
     else bindR (read_locs (unat n) r) (\<lambda>(captured, r). Inr (Some (mk_Closure entry captured), r))))"

definition read_LCall :: "nat \<Rightarrow> reader \<Rightarrow> (instr option \<times> reader) res" where
  "read_LCall l r =
     (if l = 0 then Inr (Some BuiltinRead, r)
      else if l = 1 then Inr (Some BuiltinWrite, r)
      else if l = 2 then Inr (Some BuiltinLength, r)
      else if l = 3 then Inr (Some BuiltinString, r)
      else if l = 4 then with_int mk_BuiltinArray r
      else Inl (Failure (''Unknown LCall '' @ show_nat l)))"

definition read_composed :: "nat \<Rightarrow> nat \<Rightarrow> reader \<Rightarrow> (instr option \<times> reader) res" where
  "read_composed h l r =
     (if h = 0 then Inr (Some (Binop (BinopKind l)), r)
      else if h = 2 then with_int (\<lambda>i. Load \<lparr>kind = Location l, index = i\<rparr>) r
      else if h = 3 then with_int (\<lambda>i. mk_LoadArray i l) r
      else if h = 4 then with_int (\<lambda>i. Store \<lparr>kind = Location l, index = i\<rparr>) r
      else if h = 6 then Inr (Some (PatternInst (Pattern l)), r)
      else if h = 7 then read_LCall l r
      else if h = 15 then Inr (None, r)
      else Inl (Failure (''Unknown opcode '' @ show_nat (16 * h + l))))"

definition read_code :: "(nat \<Rightarrow> u64) \<Rightarrow> nat \<Rightarrow> reader \<Rightarrow> (instr option \<times> reader) res" where
  "read_code junk x r =
     (if x = 16 then with_int mk_Const r
      else if x = 17 then read_String r
      else if x = 18 then with_string_int mk_SExpression r
      else if x = 19 then Inr (Some StoreStack, r)
      else if x = 20 then Inr (Some StoreArray, r)
      else if x = 21 then with_int mk_Jump r
      else if x = 22 then Inr (Some End, r)
      else if x = 23 then Inr (Some Return, r)
      else if x = 24 then Inr (Some Drop, r)
      else if x = 25 then Inr (Some Duplicate, r)
      else if x = 26 then Inr (Some Swap, r)
      else if x = 27 then Inr (Some Elem, r)
      else if x = 80 then with_int (\<lambda>t. mk_ConditionalJump t True) r
      else if x = 81 then with_int (\<lambda>t. mk_ConditionalJump t False) r
      else if x = 82 then read_Begin r
      else if x = 83 then with_ints (mk_CBegin (junk (ip r))) r
      else if x = 84 then read_Closure r
      else if x = 85 then with_int mk_CallClosure r
      else if x = 86 then with_ints mk_Call r
      else if x = 87 then with_string_int mk_Tag r
      else if x = 88 then with_int mk_Array r
      else if x = 89 then with_ints mk_Fail r
      else if x = 90 then with_int mk_Line r
      else read_composed (x div 16) (x mod 16) r)"

definition read_inst :: "(nat \<Rightarrow> u64) \<Rightarrow> reader \<Rightarrow> (instr option \<times> reader) res" where
  "read_inst junk r = bindR (read_byte r) (\<lambda>(x, r). read_code junk (unat x) r)"

end
