(* ===== verification/Reader_Correct.thy ===== *)
theory Reader_Correct
  imports Reader Driver
begin

text \<open>
  The decoder reads forward within the file, so the loop of the compiler's \<open>main\<close> ends; and it
  recovers every instruction from its encoding.
\<close>

section \<open>Progress\<close>

text \<open>\<open>forward r r'\<close>: the reader moved on within the same file.\<close>

definition forward :: "reader \<Rightarrow> reader \<Rightarrow> bool" where
  "forward r r' \<longleftrightarrow> bf r' = bf r \<and> ip r \<le> ip r' \<and> (ip r' = ip r \<or> ip r' \<le> length (contents (bf r)))"

lemma forward_trans: "forward r r1 \<Longrightarrow> forward r1 r2 \<Longrightarrow> forward r r2"
  by (auto simp: forward_def)

lemma forward_refl [simp]: "forward r r" by (simp add: forward_def)

lemma forward_update [simp]:
  "forward (r\<lparr>function_index := k\<rparr>) r' = forward r r'" "forward r (r'\<lparr>strings := ss\<rparr>) = forward r r'"
  by (simp_all add: forward_def)

lemma read_byte_forward: "read_byte r = Inr (b, r') \<Longrightarrow> forward r r' \<and> ip r' = ip r + 1"
  by (auto simp: read_byte_def res_simps forward_def split: if_splits)

lemma read_int_forward: "read_int r = Inr (v, r') \<Longrightarrow> forward r r'"
  by (auto simp: read_int_def res_simps forward_def int_at_def split: if_splits)

lemma read_string_forward: "read_string pos r = Inr (s, r') \<Longrightarrow> forward r r'"
  by (auto simp: read_string_def res_simps split: if_splits dest: read_int_forward)

lemma read_loc_forward: "read_loc r = Inr (e, r') \<Longrightarrow> forward r r'"
  by (auto simp: read_loc_def res_simps dest!: read_byte_forward read_int_forward intro: forward_trans)

lemma read_locs_forward: "read_locs n r = Inr (es, r') \<Longrightarrow> forward r r'"
  by (induction n arbitrary: r es) (auto simp: res_simps dest!: read_loc_forward intro: forward_trans)

lemma with_forward:
  "with_int mk r = Inr (i, r') \<Longrightarrow> forward r r'" "with_ints mk2 r = Inr (i, r') \<Longrightarrow> forward r r'"
  "with_string_int mk3 r = Inr (i, r') \<Longrightarrow> forward r r'" "read_String r = Inr (i, r') \<Longrightarrow> forward r r'"
  "read_Begin r = Inr (i, r') \<Longrightarrow> forward r r'" "read_Closure r = Inr (i, r') \<Longrightarrow> forward r r'"
  by (auto simp: with_int_def with_ints_def with_string_int_def read_String_def read_Begin_def read_Closure_def Let_def res_simps
      split: if_splits dest!: read_int_forward read_string_forward read_locs_forward intro: forward_trans)

lemma read_code_forward: "read_code junk x r = Inr (i, r') \<Longrightarrow> forward r r'"
  by (auto simp: read_code_def read_composed_def read_LCall_def split: if_splits dest: with_forward)

lemma read_inst_forward: "read_inst junk r = Inr (i, r') \<Longrightarrow> forward r r' \<and> ip r < ip r' \<and> ip r' \<le> length (contents (bf r))"
  by (auto simp: read_inst_def res_simps forward_def dest!: read_byte_forward read_code_forward)

section \<open>The loop of main\<close>

text \<open>
  The instructions by their offsets, in the order of the \<open>std::map\<close>; \<open>emplace\<close> of an offset that is
  there fails the check.
\<close>

function read_all :: "(nat \<Rightarrow> u64) \<Rightarrow> reader \<Rightarrow> program \<Rightarrow> (program \<times> reader) res" where
  "read_all junk r is =
     (case read_inst junk r of
        Inl e \<Rightarrow> Inl e
      | Inr (inst, r') \<Rightarrow> (case inst of
          None \<Rightarrow> Inr (is, r')
        | Some i \<Rightarrow>
            let offset = size_of_int (get_offset r)
            in if offset \<in> fst ` set is then Inl AssertFailed else read_all junk r' (insort_key fst (offset, i) is)))"
  by pat_completeness auto
termination
  by (relation "measure (\<lambda>(junk, r, is). length (contents (bf r)) + 1 - ip r)")
    (auto dest!: read_inst_forward simp: forward_def)

declare read_all.simps [simp del]

text \<open>\<open>main\<close>, with \<open>emit\<close> on the offsets of the public symbols.\<close>

fun public_offsets :: "bytefile \<Rightarrow> nat list \<Rightarrow> u64 list res" where
  "public_offsets f [] = Inr []"
| "public_offsets f (i # is) = bindR (get_public_offset f (of_nat i)) (\<lambda>off. bindR (public_offsets f is) (\<lambda>offs.
     Inr (size_of_int off # offs)))"

definition compile_file ::
  "bool \<Rightarrow> ((u64 \<times> nat) list \<Rightarrow> u64 \<times> nat) \<Rightarrow> (nat \<Rightarrow> u64) \<Rightarrow> string \<Rightarrow> byte list \<Rightarrow> compiler res option" where
  "compile_file af begin_of junk name bs =
     (case bindR (read_file bs) (\<lambda>f. bindR (new_reader f) (\<lambda>r. bindR (read_all junk r []) (\<lambda>(is, r).
             bindR (public_offsets f [0..<unat (public_symbols_number f)]) (\<lambda>publics. Inr (f, is, strings r, publics))))) of
        Inl e \<Rightarrow> Some (Inl e)
      | Inr (f, is, ss, publics) \<Rightarrow>
          emit_program af begin_of name is ss (size_of_int (global_area_size f)) publics)"

section \<open>Encodings\<close>

text \<open>
  The specification of the format: the bytes of an instruction, given the positions of strings in
  the string table.
\<close>

definition int_of_size :: "u64 \<Rightarrow> i32" where "int_of_size w = ucast w"

fun location_code :: "location \<Rightarrow> nat" where
  "location_code Global = 0"
| "location_code Local = 1"
| "location_code Arg = 2"
| "location_code Captured = 3"
| "location_code (UnknownLocation l) = l"

fun binop_code_of :: "binop_kind \<Rightarrow> nat" where
  "binop_code_of Add = 1"
| "binop_code_of Sub = 2"
| "binop_code_of Mul = 3"
| "binop_code_of Div = 4"
| "binop_code_of Rem = 5"
| "binop_code_of LessThan = 6"
| "binop_code_of LessEqual = 7"
| "binop_code_of GreaterThan = 8"
| "binop_code_of GreaterEqual = 9"
| "binop_code_of Equal = 10"
| "binop_code_of NotEqual = 11"
| "binop_code_of And = 12"
| "binop_code_of Or = 13"
| "binop_code_of (UnknownBinop l) = l"

fun pattern_code :: "patt_kind \<Rightarrow> nat" where
  "pattern_code PString = 0"
| "pattern_code StringTag = 1"
| "pattern_code ArrayTag = 2"
| "pattern_code SExpTag = 3"
| "pattern_code Boxed = 4"
| "pattern_code Unboxed = 5"
| "pattern_code ClosureTag = 6"
| "pattern_code (UnknownPattern l) = l"

definition entry_bytes :: "location_entry \<Rightarrow> byte list" where
  "entry_bytes e = of_nat (location_code (kind e)) # int_bytes (index e)"

definition size_bytes :: "u64 \<Rightarrow> byte list" where "size_bytes w = int_bytes (int_of_size w)"

fun encode :: "(string \<Rightarrow> i32) \<Rightarrow> instr \<Rightarrow> byte list" where
  "encode pos (Const v) = 16 # int_bytes (signed_drop_bit 1 v)"
| "encode pos (String ind s) = 17 # int_bytes (pos s)"
| "encode pos (SExpression n s) = 18 # int_bytes (pos n) @ size_bytes s"
| "encode pos StoreStack = [19]"
| "encode pos StoreArray = [20]"
| "encode pos (Jump t) = 21 # size_bytes t"
| "encode pos End = [22]"
| "encode pos Return = [23]"
| "encode pos Drop = [24]"
| "encode pos Duplicate = [25]"
| "encode pos Swap = [26]"
| "encode pos Elem = [27]"
| "encode pos (ConditionalJump t z) = (if z then 80 else 81) # size_bytes t"
| "encode pos (Begin i argc locc) = 82 # size_bytes argc @ size_bytes locc"
| "encode pos (CBegin off argc locc) = 83 # size_bytes argc @ size_bytes locc"
| "encode pos (Closure off es) = 84 # size_bytes off @ int_bytes (of_nat (length es)) @ concat (map entry_bytes es)"
| "encode pos (CallClosure argc) = 85 # size_bytes argc"
| "encode pos (Call f argc) = 86 # (case f of Offset off \<Rightarrow> size_bytes off | Name n \<Rightarrow> []) @ size_bytes argc"
| "encode pos (Tag t s) = 87 # int_bytes (pos t) @ size_bytes s"
| "encode pos (Array s) = 88 # size_bytes s"
| "encode pos (Fail l c) = 89 # size_bytes l @ size_bytes c"
| "encode pos (Line l) = 90 # size_bytes l"
| "encode pos (Binop op) = [of_nat (binop_code_of op)]"
| "encode pos (Load e) = of_nat (32 + location_code (kind e)) # int_bytes (index e)"
| "encode pos (LoadArray i l) = of_nat (48 + location_code l) # size_bytes i"
| "encode pos (Store e) = of_nat (64 + location_code (kind e)) # int_bytes (index e)"
| "encode pos (PatternInst p) = [of_nat (96 + pattern_code p)]"
| "encode pos BuiltinRead = [112]"
| "encode pos BuiltinWrite = [113]"
| "encode pos BuiltinLength = [114]"
| "encode pos BuiltinString = [115]"
| "encode pos (BuiltinArray n) = 116 # size_bytes n"

text \<open>The instructions the format can express, with the names a reader at \<open>r\<close> gives them.\<close>

definition int_size :: "u64 \<Rightarrow> bool" where "int_size w \<longleftrightarrow> size_of_int (int_of_size w) = w"

definition known_string :: "(string \<Rightarrow> i32) \<Rightarrow> reader \<Rightarrow> string \<Rightarrow> bool" where
  "known_string pos r s \<longleftrightarrow> pos s \<noteq> - 1 \<and> get_string (bf r) (pos s) = Inr s"

fun location_ok :: "nat \<Rightarrow> location \<Rightarrow> bool" where
  "location_ok n (UnknownLocation l) \<longleftrightarrow> 4 \<le> l \<and> l < n"
| "location_ok n _ \<longleftrightarrow> True"

fun binop_ok :: "binop_kind \<Rightarrow> bool" where
  "binop_ok (UnknownBinop l) \<longleftrightarrow> l = 0 \<or> l = 14 \<or> l = 15"
| "binop_ok _ \<longleftrightarrow> True"

fun pattern_ok :: "patt_kind \<Rightarrow> bool" where
  "pattern_ok (UnknownPattern l) \<longleftrightarrow> 7 \<le> l \<and> l < 16"
| "pattern_ok _ \<longleftrightarrow> True"

definition begin_ident :: "reader \<Rightarrow> ident \<Rightarrow> bool" where
  "begin_ident r i \<longleftrightarrow> (let k = function_index r; off = size_of_int (get_offset r) in
     if k <s public_symbols_number (bf r)
     then (\<exists>n o'. i = Name n \<and> get_public_name (bf r) k = Inr n \<and> get_public_offset (bf r) k = Inr o' \<and> size_of_int o' = off)
     else i = Offset off)"

fun encodable :: "(nat \<Rightarrow> u64) \<Rightarrow> (string \<Rightarrow> i32) \<Rightarrow> reader \<Rightarrow> instr \<Rightarrow> bool" where
  "encodable junk pos r (Const v) \<longleftrightarrow> odd v"
| "encodable junk pos r (String ind s) \<longleftrightarrow> known_string pos r s \<and> ind = of_nat (length (strings r))"
| "encodable junk pos r (SExpression n s) \<longleftrightarrow> known_string pos r n \<and> int_size s"
| "encodable junk pos r (Jump t) \<longleftrightarrow> int_size t"
| "encodable junk pos r (ConditionalJump t z) \<longleftrightarrow> int_size t"
| "encodable junk pos r (Begin i argc locc) \<longleftrightarrow> begin_ident r i \<and> int_size argc \<and> int_size locc"
| "encodable junk pos r (CBegin off argc locc) \<longleftrightarrow> off = junk (ip r + 1) \<and> int_size argc \<and> int_size locc"
| "encodable junk pos r (Closure off es) \<longleftrightarrow> int_size off \<and> length es < 2 ^ 31 \<and> (\<forall>e \<in> set es. location_ok 256 (kind e))"
| "encodable junk pos r (CallClosure argc) \<longleftrightarrow> int_size argc"
| "encodable junk pos r (Call f argc) \<longleftrightarrow> (\<exists>off. f = Offset off \<and> int_size off) \<and> int_size argc"
| "encodable junk pos r (Tag t s) \<longleftrightarrow> known_string pos r t \<and> int_size s"
| "encodable junk pos r (Array s) \<longleftrightarrow> int_size s"
| "encodable junk pos r (Fail l c) \<longleftrightarrow> int_size l \<and> int_size c"
| "encodable junk pos r (Line l) \<longleftrightarrow> int_size l"
| "encodable junk pos r (Binop op) \<longleftrightarrow> binop_ok op"
| "encodable junk pos r (Load e) \<longleftrightarrow> location_ok 16 (kind e)"
| "encodable junk pos r (LoadArray i l) \<longleftrightarrow> int_size i \<and> location_ok 16 l"
| "encodable junk pos r (Store e) \<longleftrightarrow> location_ok 16 (kind e)"
| "encodable junk pos r (PatternInst p) \<longleftrightarrow> pattern_ok p"
| "encodable junk pos r (BuiltinArray n) \<longleftrightarrow> int_size n"
| "encodable junk pos r _ \<longleftrightarrow> True"

section \<open>Reading an encoding\<close>

text \<open>\<open>facing r bs\<close>: the rest of the file, which the reader has a correct size of, is \<open>bs\<close>.\<close>

definition facing :: "reader \<Rightarrow> byte list \<Rightarrow> bool" where
  "facing r bs \<longleftrightarrow> code_ptr (bf r) \<le> ip r \<and> 40 + length (contents (bf r)) < 2 ^ 31 \<and>
     file_size (bf r) = of_nat (40 + length (contents (bf r))) \<and> (\<exists>pre. contents (bf r) = pre @ bs \<and> ip r = length pre)"

lemma facing_update [simp]:
  "facing (r\<lparr>function_index := k\<rparr>) bs = facing r bs" "facing (r\<lparr>strings := ss\<rparr>) bs = facing r bs"
  by (simp_all add: facing_def)

lemma facing_can_read:
  assumes "facing r bs" "n \<le> length bs"
  shows "assert_can_read n r = Inr ()"
proof -
  obtain pre where pre: "contents (bf r) = pre @ bs" "ip r = length pre" using assms(1) by (auto simp: facing_def)
  have "sint (file_size (bf r)) = int (40 + length (contents (bf r)))"
  proof -
    have "sint (of_nat n :: i32) = int n" if "n < 2 ^ 31" for n
      using that by (simp add: signed_of_nat signed_take_bit_int_eq_self)
    then show ?thesis using assms(1) unfolding facing_def by metis
  qed
  then show ?thesis using assms pre by (simp add: assert_can_read_def check_def facing_def)
qed

lemma facing_byte:
  assumes "facing r (b # bs)"
  shows "read_byte r = Inr (b, r\<lparr>ip := ip r + 1\<rparr>)" "facing (r\<lparr>ip := ip r + 1\<rparr>) bs"
proof -
  obtain pre where pre: "contents (bf r) = pre @ b # bs" "ip r = length pre" using assms by (auto simp: facing_def)
  show "read_byte r = Inr (b, r\<lparr>ip := ip r + 1\<rparr>)"
    using facing_can_read [OF assms, of 1] pre by (simp add: read_byte_def)
  show "facing (r\<lparr>ip := ip r + 1\<rparr>) bs"
    using assms pre unfolding facing_def by (intro conjI exI [of _ "pre @ [b]"]) simp_all
qed

lemma facing_int:
  assumes "facing r (int_bytes v @ bs)"
  shows "read_int r = Inr (v, r\<lparr>ip := ip r + 4\<rparr>)" "facing (r\<lparr>ip := ip r + 4\<rparr>) bs"
proof -
  obtain pre where pre: "contents (bf r) = pre @ int_bytes v @ bs" "ip r = length pre" using assms by (auto simp: facing_def)
  show "read_int r = Inr (v, r\<lparr>ip := ip r + 4\<rparr>)"
    using facing_can_read [OF assms, of 4] pre int_at_bytes [of pre v bs] by (simp add: read_int_def)
  show "facing (r\<lparr>ip := ip r + 4\<rparr>) bs"
    using assms pre unfolding facing_def by (intro conjI exI [of _ "pre @ int_bytes v"]) simp_all
qed

lemma facing_locs:
  assumes "facing r (concat (map entry_bytes es) @ bs)" "\<forall>e \<in> set es. location_ok 256 (kind e)"
  shows "read_locs (length es) r = Inr (es, r\<lparr>ip := ip r + 5 * length es\<rparr>) \<and> facing (r\<lparr>ip := ip r + 5 * length es\<rparr>) bs"
  using assms
proof (induction es arbitrary: r)
  case Nil
  then show ?case by simp
next
  case (Cons e es)
  have k: "Location (unat (of_nat (location_code (kind e)) :: byte)) = kind e"
    using Cons.prems(2) by (cases "kind e") (auto simp: Location_def unat_of_nat)
  have f: "facing r (of_nat (location_code (kind e)) # int_bytes (index e) @ concat (map entry_bytes es) @ bs)"
    using Cons.prems(1) by (simp add: entry_bytes_def [of e])
  note b = facing_byte [OF f]
  note i = facing_int [OF b(2)]
  have l: "read_loc r = Inr (e, r\<lparr>ip := ip r + 5\<rparr>)"
    using b(1) i(1) k by (simp add: read_loc_def)
  have "facing (r\<lparr>ip := ip r + 5\<rparr>) (concat (map entry_bytes es) @ bs)" using i(2) by (simp add: add.commute)
  from Cons.IH [OF this] show ?case using Cons.prems(2) l by (simp add: algebra_simps)
qed

lemma location_code_ok: "location_ok 16 l \<Longrightarrow> location_code l < 16 \<and> Location (location_code l) = l"
  by (cases l) (auto simp: Location_def)

lemma binop_code_ok: "binop_ok op \<Longrightarrow> binop_code_of op < 16 \<and> BinopKind (binop_code_of op) = op"
  by (cases op) (auto simp: BinopKind_def)

lemma pattern_code_ok: "pattern_ok p \<Longrightarrow> pattern_code p < 16 \<and> Pattern (pattern_code p) = p"
  by (cases p) (auto simp: Pattern_def)

lemma read_code_composed:
  "h \<noteq> 1 \<Longrightarrow> h \<noteq> 5 \<Longrightarrow> l < 16 \<Longrightarrow> read_code junk (16 * h + l) r = read_composed h l r"
proof -
  assume h: "h \<noteq> 1" "h \<noteq> 5" "l < 16"
  have d: "(16 * h + l) div 16 = h" "(16 * h + l) mod 16 = l" using h(3) by simp_all
  have n: "16 * h + l \<noteq> k" if "k div 16 = 1 \<or> k div 16 = 5" for k using that d h by auto
  show ?thesis
    unfolding read_code_def d using n [of 16] n [of 17] n [of 18] n [of 19] n [of 20] n [of 21] n [of 22] n [of 23] n [of 24]
      n [of 25] n [of 26] n [of 27] n [of 80] n [of 81] n [of 82] n [of 83] n [of 84] n [of 85] n [of 86] n [of 87]
      n [of 88] n [of 89] n [of 90] by simp
qed

lemma code_byte:
  assumes "n < 16"
  shows "unat (32 + of_nat n :: byte) = 32 + n" "unat (48 + of_nat n :: byte) = 48 + n" "unat (64 + of_nat n :: byte) = 64 + n"
    "unat (96 + of_nat n :: byte) = 96 + n"
proof -
  have "unat (of_nat k + of_nat n :: byte) = k + n" if "k < 240" for k
    using that assms unat_of_nat [of "k + n", where 'a = 8] by simp
  from this [of 32] this [of 48] this [of 64] this [of 96] show "unat (32 + of_nat n :: byte) = 32 + n"
    "unat (48 + of_nat n :: byte) = 48 + n" "unat (64 + of_nat n :: byte) = 64 + n" "unat (96 + of_nat n :: byte) = 96 + n"
    by simp_all
qed

lemma size_back: "int_size w \<Longrightarrow> size_of_int (int_of_size w) = w"
  by (simp add: int_size_def)

lemma mk_Const_back: "odd v \<Longrightarrow> mk_Const (signed_drop_bit 1 v) = Const v"
proof -
  assume v: "odd v"
  have ws: "word_of_int (sint w) = w" for w :: i32 by simp
  have "(signed_drop_bit 1 v :: i32) = word_of_int (sint v div 2)"
  proof -
    have "sint (signed_drop_bit 1 v) = sint v div 2" by (simp add: sint_signed_drop_bit_eq drop_bit_eq_div)
    then show ?thesis by (metis ws)
  qed
  moreover have "odd (sint v)" using v bit_sint_iff [of v 0] by (simp add: bit_0)
  then have "2 * (sint v div 2) + 1 = sint v" by simp
  then have "2 * word_of_int (sint v div 2) + 1 = (v :: i32)"
    by (metis ws of_int_add of_int_mult of_int_numeral of_int_1)
  ultimately show ?thesis by (simp add: mk_Const_def)
qed

text \<open>What the reader is after an instruction of \<open>n\<close> bytes.\<close>

definition read_past :: "reader \<Rightarrow> reader \<Rightarrow> nat \<Rightarrow> byte list \<Rightarrow> bool" where
  "read_past r r' n bs \<longleftrightarrow> facing r' bs \<and> bf r' = bf r \<and> ip r' = ip r + n"

lemma with_int_reads:
  assumes "facing r (int_bytes v @ bs)"
  shows "\<exists>r'. with_int mk r = Inr (Some (mk v), r') \<and> read_past r r' 4 bs"
  using facing_int [OF assms] by (simp add: with_int_def read_past_def)

lemma with_ints_reads:
  assumes "facing r (int_bytes v @ int_bytes w @ bs)"
  shows "\<exists>r'. with_ints mk r = Inr (Some (mk v w), r') \<and> read_past r r' 8 bs"
proof -
  note a = facing_int [OF assms]
  note b = facing_int [OF a(2)]
  show ?thesis using a(1) b by (simp add: with_ints_def read_past_def)
qed

lemma with_string_int_reads:
  assumes "facing r (int_bytes (pos s) @ int_bytes w @ bs)" "known_string pos r s"
  shows "\<exists>r'. with_string_int mk r = Inr (Some (mk s w), r') \<and> read_past r r' 8 bs"
proof -
  note a = facing_int [OF assms(1)]
  note b = facing_int [OF a(2)]
  show ?thesis using a(1) b assms(2) by (simp add: with_string_int_def read_string_def known_string_def read_past_def)
qed

lemma read_String_reads:
  assumes "facing r (int_bytes (pos s) @ bs)" "known_string pos r s"
  shows "\<exists>r'. read_String r = Inr (Some (String (of_nat (length (strings r))) s), r') \<and> read_past r r' 4 bs"
  using facing_int [OF assms(1)] assms(2)
  by (simp add: read_String_def read_string_def known_string_def read_past_def)

lemma read_Begin_reads:
  assumes "facing r (int_bytes v @ int_bytes w @ bs)" "ip r0 + 1 = ip r" "bf r0 = bf r" "function_index r0 = function_index r"
    and "code_ptr (bf r0) \<le> ip r0" "begin_ident r0 i"
  shows "\<exists>r'. read_Begin r = Inr (Some (mk_Begin i v w), r') \<and> read_past r r' 8 bs"
proof -
  let ?r = "r\<lparr>function_index := function_index r + 1\<rparr>"
  have f: "facing ?r (int_bytes v @ int_bytes w @ bs)" using assms(1) by simp
  note a = facing_int [OF f]
  note b = facing_int [OF a(2)]
  have "ip r - code_ptr (bf r) = Suc (ip r0 - code_ptr (bf r0))" using assms(2,3,5) by simp
  then have "get_offset ?r - 1 = get_offset r0" using assms(3) by (simp add: get_offset_def)
  then show ?thesis
    using a(1) b assms(3,4,6) by (auto simp: read_Begin_def begin_ident_def Let_def read_past_def)
qed

lemma read_Closure_reads:
  assumes "facing r (int_bytes v @ int_bytes (of_nat (length es)) @ concat (map entry_bytes es) @ bs)" "length es < 2 ^ 31"
    and "\<forall>e \<in> set es. location_ok 256 (kind e)"
  shows "\<exists>r'. read_Closure r = Inr (Some (mk_Closure v es), r') \<and> read_past r r' (8 + 5 * length es) bs"
proof -
  note a = facing_int [OF assms(1)]
  note b = facing_int [OF a(2)]
  note c = facing_locs [OF b(2) assms(3)]
  have n: "unat (of_nat (length es) :: i32) = length es" using assms(2) by (simp add: unat_of_nat)
  have s: "\<not> (of_nat (length es) :: i32) <s 0"
    using assms(2) by (simp add: word_sless_alt signed_of_nat signed_take_bit_int_eq_self)
  show ?thesis using a(1) b(1) c n s by (simp add: read_Closure_def read_past_def add.assoc)
qed

lemma length_entry_bytes: "length (concat (map entry_bytes es)) = 5 * length es"
  by (induction es) (simp_all add: entry_bytes_def)

lemmas mk_defs = mk_SExpression_def mk_Jump_def mk_ConditionalJump_def mk_CBegin_def mk_Begin_def mk_Closure_def
  mk_CallClosure_def mk_Call_def mk_Tag_def mk_Array_def mk_Fail_def mk_Line_def mk_LoadArray_def mk_BuiltinArray_def

text \<open>The instructions with one number after the opcode, those with two, and those whose opcode says what they work on.\<close>

fun one_operand :: "instr \<Rightarrow> bool" where
  "one_operand (Const v) \<longleftrightarrow> True"
| "one_operand (Jump t) \<longleftrightarrow> True"
| "one_operand (ConditionalJump t z) \<longleftrightarrow> True"
| "one_operand (CallClosure argc) \<longleftrightarrow> True"
| "one_operand (Array s) \<longleftrightarrow> True"
| "one_operand (Line l) \<longleftrightarrow> True"
| "one_operand (BuiltinArray n) \<longleftrightarrow> True"
| "one_operand _ \<longleftrightarrow> False"

fun two_operands :: "instr \<Rightarrow> bool" where
  "two_operands (CBegin off argc locc) \<longleftrightarrow> True"
| "two_operands (Begin k argc locc) \<longleftrightarrow> True"
| "two_operands (Call k argc) \<longleftrightarrow> True"
| "two_operands (Fail l k) \<longleftrightarrow> True"
| "two_operands _ \<longleftrightarrow> False"

fun composed :: "instr \<Rightarrow> bool" where
  "composed (Binop op) \<longleftrightarrow> True"
| "composed (Load e) \<longleftrightarrow> True"
| "composed (LoadArray k l) \<longleftrightarrow> True"
| "composed (Store e) \<longleftrightarrow> True"
| "composed (PatternInst p) \<longleftrightarrow> True"
| "composed _ \<longleftrightarrow> False"

text \<open>After the opcode has been read.\<close>

abbreviation past_opcode :: "reader \<Rightarrow> reader" where
  "past_opcode r \<equiv> r\<lparr>ip := ip r + 1\<rparr>"

definition reads_as :: "(nat \<Rightarrow> u64) \<Rightarrow> reader \<Rightarrow> byte \<Rightarrow> instr \<Rightarrow> nat \<Rightarrow> byte list \<Rightarrow> bool" where
  "reads_as junk r x i n bs \<longleftrightarrow> (\<exists>r'. read_code junk (unat x) r = Inr (Some i, r') \<and> read_past r r' n bs)"

lemma read_one_operand:
  assumes "facing (past_opcode r) (ys @ bs)" "encode pos i = x # ys" "encodable junk pos r i" "one_operand i"
  shows "reads_as junk (past_opcode r) x i (length ys) bs"
  using assms(4)
proof (cases i)
  case (Const v)
  then show ?thesis using assms(1-3) with_int_reads [of "past_opcode r" "signed_drop_bit 1 v" bs "mk_Const"]
    by (auto simp: reads_as_def read_code_def size_bytes_def size_back mk_Const_back [simplified] mk_defs)
next
  case (Jump t)
  then show ?thesis using assms(1-3) with_int_reads [of "past_opcode r" "int_of_size t" bs "mk_Jump"]
    by (auto simp: reads_as_def read_code_def size_bytes_def size_back mk_Const_back [simplified] mk_defs)
next
  case (ConditionalJump t z)
  then show ?thesis using assms(1-3) with_int_reads [of "past_opcode r" "int_of_size t" bs "\<lambda>t. mk_ConditionalJump t z"]
    by (cases z) (auto simp: reads_as_def read_code_def size_bytes_def size_back mk_defs)
next
  case (CallClosure argc)
  then show ?thesis using assms(1-3) with_int_reads [of "past_opcode r" "int_of_size argc" bs "mk_CallClosure"]
    by (auto simp: reads_as_def read_code_def size_bytes_def size_back mk_Const_back [simplified] mk_defs)
next
  case (Array s)
  then show ?thesis using assms(1-3) with_int_reads [of "past_opcode r" "int_of_size s" bs "mk_Array"]
    by (auto simp: reads_as_def read_code_def size_bytes_def size_back mk_Const_back [simplified] mk_defs)
next
  case (Line l)
  then show ?thesis using assms(1-3) with_int_reads [of "past_opcode r" "int_of_size l" bs "mk_Line"]
    by (auto simp: reads_as_def read_code_def size_bytes_def size_back mk_Const_back [simplified] mk_defs)
next
  case (BuiltinArray n)
  then show ?thesis using assms(1-3) with_int_reads [of "past_opcode r" "int_of_size n" bs mk_BuiltinArray] read_code_composed [of 7 4]
    by (auto simp: reads_as_def read_composed_def read_LCall_def size_bytes_def size_back mk_defs)
qed simp_all

lemma read_two_operands:
  assumes "facing (past_opcode r) (ys @ bs)" "encode pos i = x # ys" "encodable junk pos r i" "two_operands i" "code_ptr (bf r) \<le> ip r"
  shows "reads_as junk (past_opcode r) x i (length ys) bs"
  using assms(4)
proof (cases i)
  case (CBegin off argc locc)
  then show ?thesis using assms(1-3) with_ints_reads [of "past_opcode r" "int_of_size argc" "int_of_size locc" bs "mk_CBegin (junk (ip (past_opcode r)))"]
    by (auto simp: reads_as_def read_code_def size_bytes_def size_back mk_defs)
next
  case (Begin k argc locc)
  then show ?thesis using assms(1-3,5) read_Begin_reads [of "past_opcode r" "int_of_size argc" "int_of_size locc" bs r k]
    by (auto simp: reads_as_def read_code_def size_bytes_def size_back mk_defs)
next
  case (Call k argc)
  then obtain off where "k = Offset off" "int_size off" using assms(3) by auto
  then show ?thesis using Call assms(1-3) with_ints_reads [of "past_opcode r" "int_of_size off" "int_of_size argc" bs mk_Call]
    by (auto simp: reads_as_def read_code_def size_bytes_def size_back mk_defs)
next
  case (Fail l k)
  then show ?thesis using assms(1-3) with_ints_reads [of "past_opcode r" "int_of_size l" "int_of_size k" bs "mk_Fail"]
    by (auto simp: reads_as_def read_code_def size_bytes_def size_back mk_defs)
qed simp_all

lemma read_composed_operand:
  assumes "facing (past_opcode r) (ys @ bs)" "encode pos i = x # ys" "encodable junk pos r i" "composed i"
  shows "reads_as junk (past_opcode r) x i (length ys) bs"
  using assms(4)
proof (cases i)
  case (Binop op)
  then show ?thesis using assms(1-3) binop_code_ok [of op] read_code_composed [of 0 "binop_code_of op"]
    by (auto simp: reads_as_def unat_of_nat code_byte read_composed_def read_past_def)
next
  case (Load e)
  then show ?thesis using assms(1-3) location_code_ok [of "kind e"] read_code_composed [of 2 "location_code (kind e)"]
    with_int_reads [of "past_opcode r" "index e" bs "\<lambda>i. Load \<lparr>kind = kind e, index = i\<rparr>"]
    by (auto simp: reads_as_def unat_of_nat code_byte read_composed_def)
next
  case (LoadArray k l)
  then show ?thesis using assms(1-3) location_code_ok [of l] read_code_composed [of 3 "location_code l"]
    with_int_reads [of "past_opcode r" "int_of_size k" bs "\<lambda>i. LoadArray (size_of_int i) l"]
    by (auto simp: reads_as_def unat_of_nat code_byte read_composed_def size_bytes_def size_back mk_LoadArray_def)
next
  case (Store e)
  then show ?thesis using assms(1-3) location_code_ok [of "kind e"] read_code_composed [of 4 "location_code (kind e)"]
    with_int_reads [of "past_opcode r" "index e" bs "\<lambda>i. Store \<lparr>kind = kind e, index = i\<rparr>"]
    by (auto simp: reads_as_def unat_of_nat code_byte read_composed_def)
next
  case (PatternInst p)
  then show ?thesis using assms(1-3) pattern_code_ok [of p] read_code_composed [of 6 "pattern_code p"]
    by (auto simp: reads_as_def unat_of_nat code_byte read_composed_def read_past_def)
qed simp_all

lemma read_encoding:
  assumes "facing r (encode pos i @ bs)" "encodable junk pos r i"
  shows "\<exists>r'. read_inst junk r = Inr (Some i, r') \<and> read_past r r' (length (encode pos i)) bs"
proof -
  obtain x ys where x: "encode pos i = x # ys" by (cases "encode pos i") (cases i; auto split: if_splits)+
  have f: "facing r (x # ys @ bs)" using assms(1) x by simp
  let ?r1 = "r\<lparr>ip := ip r + 1\<rparr>"
  note b = facing_byte [OF f]
  note groups = read_one_operand [OF b(2) x assms(2)] read_two_operands [OF b(2) x assms(2)] read_composed_operand [OF b(2) x assms(2)]
  have c: "code_ptr (bf r) \<le> ip r" using assms(1) by (simp add: facing_def)
  have "reads_as junk ?r1 x i (length ys) bs"
  proof (cases i)
    case (String ind s)
    then show ?thesis using b(2) x assms(2) read_String_reads [of ?r1 pos s bs]
      by (auto simp: reads_as_def read_code_def known_string_def)
  next
    case (SExpression n s)
    then show ?thesis using b(2) x assms(2) with_string_int_reads [of ?r1 pos "n" "int_of_size s" bs "mk_SExpression"]
      by (auto simp: reads_as_def read_code_def size_bytes_def size_back known_string_def mk_defs)
  next
    case (Closure off es)
    then show ?thesis using b(2) x assms(2) read_Closure_reads [of ?r1 "int_of_size off" es bs]
      by (auto simp: reads_as_def read_code_def size_bytes_def size_back mk_defs length_entry_bytes simp del: length_concat)
  next
    case (Tag t s)
    then show ?thesis using b(2) x assms(2) with_string_int_reads [of ?r1 pos "t" "int_of_size s" bs "mk_Tag"]
      by (auto simp: reads_as_def read_code_def size_bytes_def size_back known_string_def mk_defs)
  qed (use b(2) x groups c in \<open>auto simp: reads_as_def read_code_def read_composed_def read_LCall_def read_past_def\<close>)
  then show ?thesis using b(1) x by (auto simp: reads_as_def read_inst_def read_past_def)
qed

section \<open>Programs\<close>

text \<open>The instructions of a program one after the other, each of which the format can express.\<close>

fun encodable_all :: "(nat \<Rightarrow> u64) \<Rightarrow> (string \<Rightarrow> i32) \<Rightarrow> reader \<Rightarrow> instr list \<Rightarrow> bool" where
  "encodable_all junk pos r [] \<longleftrightarrow> True"
| "encodable_all junk pos r (i # is) \<longleftrightarrow> encodable junk pos r i \<and>
     (\<forall>r'. read_inst junk r = Inr (Some i, r') \<longrightarrow> encodable_all junk pos r' is)"

definition code_bytes :: "(string \<Rightarrow> i32) \<Rightarrow> instr list \<Rightarrow> byte list" where
  "code_bytes pos is = concat (map (encode pos) is)"

text \<open>The program these bytes are, with the offsets of its instructions.\<close>

fun located :: "nat \<Rightarrow> (string \<Rightarrow> i32) \<Rightarrow> instr list \<Rightarrow> program" where
  "located n pos [] = []"
| "located n pos (i # is) = (of_nat n, i) # located (n + length (encode pos i)) pos is"

lemma read_stop:
  assumes "facing r (x # bs)" "unat x div 16 = 15"
  shows "read_inst junk r = Inr (None, r\<lparr>ip := ip r + 1\<rparr>)"
proof -
  have "read_code junk (16 * 15 + unat x mod 16) q = read_composed 15 (unat x mod 16) q" for q
    by (rule read_code_composed) simp_all
  moreover have "16 * 15 + unat x mod 16 = unat x" using assms(2) by (metis mult_div_mod_eq)
  ultimately show ?thesis using facing_byte(1) [OF assms(1)] by (simp add: read_inst_def read_composed_def)
qed

lemma get_offset_size:
  assumes "facing r bs"
  shows "size_of_int (get_offset r) = of_nat (ip r - code_ptr (bf r))" "sint (get_offset r) = int (ip r - code_ptr (bf r))"
proof -
  have n: "ip r - code_ptr (bf r) < 2 ^ 31" using assms by (auto simp: facing_def)
  then show s: "sint (get_offset r) = int (ip r - code_ptr (bf r))"
    by (simp add: get_offset_def signed_of_nat signed_take_bit_int_eq_self)
  then show "size_of_int (get_offset r) = of_nat (ip r - code_ptr (bf r))"
    unfolding size_of_int_def scast_eq by simp
qed

lemma insort_last: "\<forall>x \<in> set xs. f x < f y \<Longrightarrow> insort_key f y xs = xs @ [y]"
  by (induction xs) (auto simp: not_le)

lemma read_all_encoded:
  assumes "facing r (code_bytes pos is @ x # bs)" "unat x div 16 = 15" "encodable_all junk pos r is"
    and "\<forall>o' \<in> fst ` set acc. o' < of_nat (ip r - code_ptr (bf r))"
  shows "\<exists>r'. read_all junk r acc = Inr (acc @ located (ip r - code_ptr (bf r)) pos is, r')"
  using assms
proof (induction "is" arbitrary: r acc)
  case Nil
  then show ?case using read_stop [of r x bs junk] by (subst read_all.simps) (simp add: code_bytes_def)
next
  case (Cons i "is")
  let ?n = "ip r - code_ptr (bf r)"
  have f: "facing r (encode pos i @ code_bytes pos is @ x # bs)" using Cons.prems(1) by (simp add: code_bytes_def)
  obtain r' where r': "read_inst junk r = Inr (Some i, r')" "facing r' (code_bytes pos is @ x # bs)" "bf r' = bf r"
    "ip r' = ip r + length (encode pos i)"
    using read_encoding [OF f] Cons.prems(3) by (auto simp: read_past_def)
  have pos_len: "0 < length (encode pos i)" by (cases i) simp_all
  have n': "ip r' - code_ptr (bf r') = ?n + length (encode pos i)"
    using f r'(3,4) by (simp add: facing_def)
  have b: "?n + length (encode pos i) < 2 ^ 31" using r'(2) n' by (auto simp: facing_def)
  have lt: "(of_nat ?n :: u64) < of_nat (?n + length (encode pos i))"
    using b pos_len unat_of_nat_u64 [of ?n] unat_of_nat_u64 [of "?n + length (encode pos i)"] by (simp add: word_less_nat_alt del: of_nat_add)
  have acc: "\<forall>o' \<in> fst ` set (acc @ [(of_nat ?n, i)]). o' < of_nat (ip r' - code_ptr (bf r'))"
    using Cons.prems(4) lt unfolding n' by (auto intro: less_trans)
  have enc: "encodable_all junk pos r' is" using Cons.prems(3) r'(1) by simp
  obtain r2 where r2: "read_all junk r' (acc @ [(of_nat ?n, i)]) = Inr ((acc @ [(of_nat ?n, i)]) @ located (?n + length (encode pos i)) pos is, r2)"
    using Cons.IH [OF r'(2) Cons.prems(2) enc acc] unfolding n' by blast
  have new: "of_nat ?n \<notin> fst ` set acc" "insort_key fst (of_nat ?n, i) acc = acc @ [(of_nat ?n, i)]"
    using Cons.prems(4) by (auto intro!: insort_last)
  show ?case
    using r'(1) r2 new get_offset_size(1) [OF f] by (subst read_all.simps) (simp add: Let_def)
qed

end
