(* ===== verification/Disasm.thy ===== *)
theory Disasm
  imports Reader_Correct Print_Inst
begin

text \<open>
  The two programs that print a bytecode file: \<open>comp/src/disasm.cpp\<close>, which decodes the bytes
  itself, without checks, and \<open>comp/src/dump.cpp\<close>, which prints the instructions the compiler's reader
  returns. A text is what is written to the output stream; the messages of \<open>FAIL\<close> go to the error
  stream and are a flag of the result. Bytes beyond the file and entries beyond a table are
  undefined behaviour.
\<close>

section \<open>Formats\<close>

text \<open>\<open>{:#010x}\<close> of an \<open>int\<close>: the width counts the sign and the prefix.\<close>

definition hex_int :: "int \<Rightarrow> string" where
  "hex_int i = (if i < 0 then ''-0x'' @ zeros 7 (show_hex (nat (- i))) else ''0x'' @ zeros 8 (show_hex (nat i)))"

definition dec :: "i32 \<Rightarrow> string" where "dec v = show_int (sint v)"
definition hex :: "i32 \<Rightarrow> string" where "hex v = hex_int (sint v)"

definition endl :: string where "endl = [CHR 0x0A]"

definition ops :: "string list" where
  "ops = [''+'', ''-'', ''*'', ''/'', ''%'', ''<'', ''<='', ''>'', ''>='', ''=='', ''!='', ''&&'', ''!!'']"

definition pats :: "string list" where
  "pats = [''=str'', ''#string'', ''#array'', ''#sexp'', ''#ref'', ''#val'', ''#fun'']"

section \<open>Decoding\<close>

text \<open>A step of the disassembler: the text, whether \<open>FAIL\<close> was called, and the next position.\<close>

type_synonym step = "string \<times> bool \<times> nat"

definition BYTE_at :: "bytefile \<Rightarrow> nat \<Rightarrow> (byte \<times> nat) res" where
  "BYTE_at f p = (if p < length (contents f) then Inr (contents f ! p, p + 1) else Inl Undefined)"

definition INT_at :: "bytefile \<Rightarrow> nat \<Rightarrow> (i32 \<times> nat) res" where
  "INT_at f p = bindR (int_at (contents f) p) (\<lambda>v. Inr (v, p + 4))"

definition STRING_at :: "bytefile \<Rightarrow> nat \<Rightarrow> (string \<times> nat) res" where
  "STRING_at f p = bindR (INT_at f p) (\<lambda>(v, p). bindR (get_string f v) (\<lambda>s. Inr (s, p)))"

definition FAIL :: "nat \<Rightarrow> step res" where "FAIL p = Inr ([], True, p)"
definition done_text :: "string \<Rightarrow> nat \<Rightarrow> step res" where "done_text t p = Inr (t, False, p)"

definition text_int :: "(i32 \<Rightarrow> string) \<Rightarrow> bytefile \<Rightarrow> nat \<Rightarrow> step res" where
  "text_int t f p = bindR (INT_at f p) (\<lambda>(v, p). done_text (t v) p)"

definition text_ints :: "(i32 \<Rightarrow> i32 \<Rightarrow> string) \<Rightarrow> bytefile \<Rightarrow> nat \<Rightarrow> step res" where
  "text_ints t f p = bindR (INT_at f p) (\<lambda>(v, p). bindR (INT_at f p) (\<lambda>(w, p). done_text (t v w) p))"

definition text_string_int :: "(string \<Rightarrow> i32 \<Rightarrow> string) \<Rightarrow> bytefile \<Rightarrow> nat \<Rightarrow> step res" where
  "text_string_int t f p = bindR (STRING_at f p) (\<lambda>(s, p). bindR (INT_at f p) (\<lambda>(v, p). done_text (t s v) p))"

definition text_table :: "string list \<Rightarrow> nat \<Rightarrow> string \<Rightarrow> nat \<Rightarrow> step res" where
  "text_table table k prefix p = (if k < length table then done_text (prefix @ table ! k) p else Inl Undefined)"

text \<open>A location by its code; for another code the integer is not read.\<close>

definition text_location :: "nat \<Rightarrow> bytefile \<Rightarrow> nat \<Rightarrow> step res" where
  "text_location l f p =
     (if l = 0 then text_int (\<lambda>v. ''G('' @ dec v @ '')'') f p
      else if l = 1 then text_int (\<lambda>v. ''L('' @ dec v @ '')'') f p
      else if l = 2 then text_int (\<lambda>v. ''A('' @ dec v @ '')'') f p
      else if l = 3 then text_int (\<lambda>v. ''C('' @ dec v @ '')'') f p
      else FAIL p)"

definition after_text :: "string \<Rightarrow> step res \<Rightarrow> step res" where
  "after_text t r = bindR r (\<lambda>(u, e, p). Inr (t @ u, e, p))"

text \<open>The comments of a function: all public symbols at its offset.\<close>

fun public_comments :: "bytefile \<Rightarrow> int \<Rightarrow> nat list \<Rightarrow> string res" where
  "public_comments f offset [] = Inr []"
| "public_comments f offset (i # is) =
     bindR (get_public_offset f (of_nat i)) (\<lambda>off.
     bindR (if sint off = offset then bindR (get_public_name f (of_nat i)) (\<lambda>n. Inr (tab @ ''# '' @ n)) else Inr []) (\<lambda>t.
     bindR (public_comments f offset is) (\<lambda>ts. Inr (t @ ts))))"

definition text_begin :: "bytefile \<Rightarrow> nat \<Rightarrow> step res" where
  "text_begin f p =
     (let offset = int p - int (code_ptr f) - 1
      in bindR (text_ints (\<lambda>v w. ''BEGIN'' @ tab @ dec v @ '' '' @ dec w) f p) (\<lambda>(t, e, p).
         bindR (public_comments f offset [0..<unat (public_symbols_number f)]) (\<lambda>ts. Inr (t @ ts, e, p))))"

fun text_captured :: "nat \<Rightarrow> bytefile \<Rightarrow> nat \<Rightarrow> step res" where
  "text_captured 0 f p = done_text [] p"
| "text_captured (Suc n) f p =
     bindR (BYTE_at f p) (\<lambda>(b, p). bindR (text_location (unat b) f p) (\<lambda>(t, e, p).
     bindR (text_captured n f p) (\<lambda>(ts, es, p). Inr (t @ ts, e \<or> es, p))))"

definition text_closure :: "bytefile \<Rightarrow> nat \<Rightarrow> step res" where
  "text_closure f p = bindR (INT_at f p) (\<lambda>(v, p). bindR (INT_at f p) (\<lambda>(n, p).
     after_text (''CLOSURE'' @ tab @ hex v) (text_captured (nat (sint n)) f p)))"

definition text_1 :: "nat \<Rightarrow> bytefile \<Rightarrow> nat \<Rightarrow> step res" where
  "text_1 l f p =
     (if l = 0 then text_int (\<lambda>v. ''CONST'' @ tab @ dec v) f p
      else if l = 1 then bindR (STRING_at f p) (\<lambda>(s, p). done_text (''STRING'' @ tab @ s) p)
      else if l = 2 then text_string_int (\<lambda>s v. ''SEXP'' @ tab @ s @ '' '' @ dec v) f p
      else if l = 3 then done_text ''STI'' p
      else if l = 4 then done_text ''STA'' p
      else if l = 5 then text_int (\<lambda>v. ''JMP'' @ tab @ hex v) f p
      else if l = 6 then done_text ''END'' p
      else if l = 7 then done_text ''RET'' p
      else if l = 8 then done_text ''DROP'' p
      else if l = 9 then done_text ''DUP'' p
      else if l = 10 then done_text ''SWAP'' p
      else if l = 11 then done_text ''ELEM'' p
      else FAIL p)"

definition text_5 :: "nat \<Rightarrow> bytefile \<Rightarrow> nat \<Rightarrow> step res" where
  "text_5 l f p =
     (if l = 0 then text_int (\<lambda>v. ''CJMPz'' @ tab @ hex v) f p
      else if l = 1 then text_int (\<lambda>v. ''CJMPnz'' @ tab @ hex v) f p
      else if l = 2 then text_begin f p
      else if l = 3 then text_ints (\<lambda>v w. ''CBEGIN'' @ tab @ dec v @ '' '' @ dec w) f p
      else if l = 4 then text_closure f p
      else if l = 5 then text_int (\<lambda>v. ''CALLC'' @ tab @ dec v) f p
      else if l = 6 then text_ints (\<lambda>v w. ''CALL'' @ tab @ hex v @ '' '' @ dec w) f p
      else if l = 7 then text_string_int (\<lambda>s v. ''TAG'' @ tab @ s @ '' '' @ dec v) f p
      else if l = 8 then text_int (\<lambda>v. ''ARRAY'' @ tab @ dec v) f p
      else if l = 9 then text_ints (\<lambda>v w. ''FAIL'' @ tab @ dec v @ '':'' @ dec w) f p
      else if l = 10 then text_int (\<lambda>v. ''LINE'' @ tab @ dec v) f p
      else FAIL p)"

definition text_7 :: "nat \<Rightarrow> bytefile \<Rightarrow> nat \<Rightarrow> step res" where
  "text_7 l f p =
     (if l = 0 then done_text (''CALL'' @ tab @ ''Lread'') p
      else if l = 1 then done_text (''CALL'' @ tab @ ''Lwrite'') p
      else if l = 2 then done_text (''CALL'' @ tab @ ''Llength'') p
      else if l = 3 then done_text (''CALL'' @ tab @ ''Lstring'') p
      else if l = 4 then text_int (\<lambda>v. ''CALL'' @ tab @ ''Barray'' @ tab @ dec v) f p
      else FAIL p)"

text \<open>The body of the loop after the opcode byte; \<open>None\<close> at the stop code.\<close>

definition disasm_inst :: "nat \<Rightarrow> nat \<Rightarrow> bytefile \<Rightarrow> nat \<Rightarrow> step option res" where
  "disasm_inst h l f p =
     (if h = 15 then Inr None
      else bindR (
        if h = 0 then (if l = 0 then Inl Undefined else text_table ops (l - 1) (''BINOP'' @ tab) p)
        else if h = 1 then text_1 l f p
        else if h = 2 then after_text (''LD'' @ tab) (text_location l f p)
        else if h = 3 then after_text (''LDA'' @ tab) (text_location l f p)
        else if h = 4 then after_text (''ST'' @ tab) (text_location l f p)
        else if h = 5 then text_5 l f p
        else if h = 6 then text_table pats l (''PATT'' @ tab) p
        else if h = 7 then text_7 l f p
        else FAIL p) (\<lambda>s. Inr (Some s)))"

section \<open>The loops\<close>

lemma step_forward:
  "INT_at f p = Inr (v, q) \<Longrightarrow> p \<le> q" "STRING_at f p = Inr (s, q) \<Longrightarrow> p \<le> q" "BYTE_at f p = Inr (b, q) \<Longrightarrow> p \<le> q \<and> p < length (contents f) \<and> q = p + 1"
  by (auto simp: INT_at_def STRING_at_def BYTE_at_def res_simps split: if_splits)

lemma text_forward:
  "text_int t1 f p = Inr (u, e, q) \<Longrightarrow> p \<le> q" "text_ints t2 f p = Inr (u, e, q) \<Longrightarrow> p \<le> q"
  "text_string_int t3 f p = Inr (u, e, q) \<Longrightarrow> p \<le> q" "text_location l f p = Inr (u, e, q) \<Longrightarrow> p \<le> q"
  by (auto simp: text_int_def text_ints_def text_string_int_def text_location_def FAIL_def done_text_def res_simps
      split: if_splits dest!: step_forward)

lemma text_captured_forward: "text_captured n f p = Inr (u, e, q) \<Longrightarrow> p \<le> q"
proof (induction n arbitrary: p u e)
  case (Suc n)
  obtain b p1 t d p2 us ds where "BYTE_at f p = Inr (b, p1)" "text_location (unat b) f p1 = Inr (t, d, p2)"
    "text_captured n f p2 = Inr (us, ds, q)"
    using Suc.prems by (clarsimp simp: res_simps)
  then show ?case using step_forward(3) text_forward(4) Suc.IH by (meson le_trans)
qed (simp add: done_text_def)

lemma disasm_inst_forward: "disasm_inst h l f p = Inr (Some (t, e, q)) \<Longrightarrow> p \<le> q"
  by (auto simp: disasm_inst_def text_1_def text_5_def text_7_def text_begin_def text_closure_def text_table_def after_text_def
      Let_def FAIL_def done_text_def res_simps split: if_splits dest!: step_forward text_forward text_captured_forward)

function disassemble :: "bytefile \<Rightarrow> nat \<Rightarrow> (string \<times> bool) res" where
  "disassemble f p =
     (case BYTE_at f p of
        Inl e \<Rightarrow> Inl e
      | Inr (x, q) \<Rightarrow>
          (case disasm_inst (unat x div 16) (unat x mod 16) f q of
             Inl e \<Rightarrow> Inl e
           | Inr None \<Rightarrow> Inr (hex_int (int q - int (code_ptr f) - 1) @ '':'' @ tab @ ''<end>'' @ endl, False)
           | Inr (Some (t, failed, q')) \<Rightarrow>
               (case disassemble f q' of
                  Inl e \<Rightarrow> Inl e
                | Inr (ts, fs) \<Rightarrow> Inr (hex_int (int q - int (code_ptr f) - 1) @ '':'' @ tab @ t @ endl @ ts, failed \<or> fs))))"
  by pat_completeness auto
termination
  by (relation "measure (\<lambda>(f, p). length (contents f) - p)") (auto dest!: step_forward(3) disasm_inst_forward)

declare disassemble.simps [simp del]

text \<open>\<open>dump\<close>: the same listing through the reader and \<open>print\<close>.\<close>

function dump_code :: "(nat \<Rightarrow> u64) \<Rightarrow> reader \<Rightarrow> string res" where
  "dump_code junk r =
     (case read_inst junk r of
        Inl e \<Rightarrow> Inl e
      | Inr (None, r') \<Rightarrow> Inr (hex (get_offset r) @ '':'' @ tab @ ''<end>'' @ endl)
      | Inr (Some i, r') \<Rightarrow>
          (case print_inst i of
             Inl e \<Rightarrow> Inl e
           | Inr t \<Rightarrow> (case dump_code junk r' of
               Inl e \<Rightarrow> Inl e
             | Inr ts \<Rightarrow> Inr (hex (get_offset r) @ '':'' @ tab @ t @ endl @ ts))))"
  by pat_completeness auto
termination
  by (relation "measure (\<lambda>(junk, r). length (contents (bf r)) + 1 - ip r)") (auto dest!: read_inst_forward simp: forward_def)

declare dump_code.simps [simp del]

text \<open>The head of both listings.\<close>

fun public_lines :: "bytefile \<Rightarrow> nat list \<Rightarrow> string res" where
  "public_lines f [] = Inr []"
| "public_lines f (i # is) =
     bindR (get_public_offset f (of_nat i)) (\<lambda>off. bindR (get_public_name f (of_nat i)) (\<lambda>n.
     bindR (public_lines f is) (\<lambda>ts. Inr (''   '' @ hex off @ '': '' @ n @ endl @ ts))))"

definition head_text :: "bytefile \<Rightarrow> string res" where
  "head_text f = bindR (public_lines f [0..<unat (public_symbols_number f)]) (\<lambda>ls. Inr (
     ''String table size       : '' @ dec (stringtab_size f) @ endl @
     ''Global area size        : '' @ dec (global_area_size f) @ endl @
     ''Number of public symbols: '' @ dec (public_symbols_number f) @ endl @
     ''Public symbols          :'' @ endl @ ls @ ''Code:'' @ endl))"

definition dump_file :: "bytefile \<Rightarrow> (string \<times> bool) res" where
  "dump_file f = bindR (head_text f) (\<lambda>t. bindR (disassemble f (code_ptr f)) (\<lambda>(ts, e). Inr (t @ ts, e)))"

definition dump :: "(nat \<Rightarrow> u64) \<Rightarrow> bytefile \<Rightarrow> string res" where
  "dump junk f = bindR (head_text f) (\<lambda>t. bindR (new_reader f) (\<lambda>r. bindR (dump_code junk r) (\<lambda>ts. Inr (t @ ts))))"

end
