(* ===== verification/Disasm_Correct.thy ===== *)
theory Disasm_Correct
  imports Disasm
begin

text \<open>
  The two listings agree: on a file whose code is a sequence of instructions, the disassembler prints
  what the compiler's reader and printer produce, for the instructions on which they are meant to.
\<close>

section \<open>Formats\<close>

definition small :: "u64 \<Rightarrow> bool" where "small w \<longleftrightarrow> unat w < 2 ^ 31"

lemma sint_int_of_size: "small w \<Longrightarrow> sint (int_of_size w) = int (unat w)"
proof -
  assume w: "small w"
  have "int_of_size w = of_nat (unat w)" unfolding int_of_size_def by (rule bit_word_eqI) (simp add: bit_simps)
  moreover have "sint (of_nat n :: i32) = int n" if "n < 2 ^ 31" for n
    using that by (simp add: signed_of_nat signed_take_bit_int_eq_self)
  ultimately show ?thesis using w by (simp only: small_def)
qed

lemma dec_size: "small w \<Longrightarrow> dec (int_of_size w) = show_size w"
  by (simp only: dec_def sint_int_of_size show_int_def show_size_def) simp

lemma hex_size: "small w \<Longrightarrow> hex (int_of_size w) = ip_to_string w"
  by (simp only: hex_def sint_int_of_size hex_int_def ip_to_string_def) simp

section \<open>Steps on encodings\<close>

lemma facing_INT: "facing r (int_bytes v @ bs) \<Longrightarrow> INT_at (bf r) (ip r) = Inr (v, ip r + 4)"
  using int_at_bytes by (auto simp: facing_def INT_at_def)

lemma facing_BYTE: "facing r (b # bs) \<Longrightarrow> BYTE_at (bf r) (ip r) = Inr (b, ip r + 1)"
  by (auto simp: facing_def BYTE_at_def)

lemma text_int_at: "facing r (int_bytes v @ bs) \<Longrightarrow> text_int t (bf r) (ip r) = Inr (t v, False, ip r + 4)"
  using facing_INT by (simp add: text_int_def done_text_def)

lemma text_ints_at:
  "facing r (int_bytes v @ int_bytes w @ bs) \<Longrightarrow> text_ints t (bf r) (ip r) = Inr (t v w, False, ip r + 8)"
  using facing_INT [of r v] facing_INT [of "r\<lparr>ip := ip r + 4\<rparr>" w bs] facing_int(2) [of r v "int_bytes w @ bs"]
  by (simp add: text_ints_def done_text_def)

lemma text_string_int_at:
  "facing r (int_bytes (pos s) @ int_bytes w @ bs) \<Longrightarrow> known_string pos r s \<Longrightarrow>
     text_string_int t (bf r) (ip r) = Inr (t s w, False, ip r + 8)"
  using facing_INT [of r "pos s"] facing_INT [of "r\<lparr>ip := ip r + 4\<rparr>" w bs] facing_int(2) [of r "pos s" "int_bytes w @ bs"]
  by (simp add: text_string_int_def STRING_at_def known_string_def done_text_def)

text \<open>The locations that have a name.\<close>

fun named :: "location \<Rightarrow> bool" where
  "named (UnknownLocation l) = False"
| "named _ = True"

lemma named_code: "named l \<Longrightarrow> location_code l < 4 \<and> location_ok n l"
  by (cases l) simp_all

lemma text_location_at:
  assumes "facing r (int_bytes (index e) @ bs)" "named (kind e)"
  shows "text_location (location_code (kind e)) (bf r) (ip r) = Inr (show_entry e, False, ip r + 4)"
  using text_int_at [OF assms(1)] assms(2) by (cases "kind e") (simp_all add: text_location_def show_entry_def dec_def)

lemma text_captured_at:
  assumes "facing r (concat (map entry_bytes es) @ bs)" "\<forall>e \<in> set es. named (kind e)"
  shows "text_captured (length es) (bf r) (ip r) = Inr (concat (map show_entry es), False, ip r + 5 * length es)"
  using assms
proof (induction es arbitrary: r)
  case (Cons e es)
  have c: "unat (of_nat (location_code (kind e)) :: byte) = location_code (kind e)"
    using Cons.prems(2) named_code [of "kind e" 16] by (simp add: unat_of_nat)
  have f: "facing r (of_nat (location_code (kind e)) # int_bytes (index e) @ concat (map entry_bytes es) @ bs)"
    using Cons.prems(1) by (simp add: entry_bytes_def [of e])
  note b = facing_byte(2) [OF f]
  have 1: "text_location (location_code (kind e)) (bf r) (ip r + 1) = Inr (show_entry e, False, ip r + 5)"
    using text_location_at [OF b] Cons.prems(2) by simp
  have "facing (r\<lparr>ip := ip r + 5\<rparr>) (concat (map entry_bytes es) @ bs)"
    using facing_int(2) [OF b] by (simp add: add.commute)
  from Cons.IH [OF this]
  have 2: "text_captured (length es) (bf r) (ip r + 5) = Inr (concat (map show_entry es), False, ip r + 5 + 5 * length es)"
    using Cons.prems(2) by simp
  show ?case using 1 2 c facing_BYTE [OF f] by simp
qed (simp add: done_text_def)

section \<open>Instructions\<close>

text \<open>
  The instructions that both programs print alike. The printer has no text for \<open>STI\<close>, \<open>RET\<close>, \<open>SWAP\<close>
  and \<open>LDA\<close>; the disassembler writes \<open>||\<close> as \<open>!!\<close> and prints sizes as signed numbers; it takes the
  comment of a function from the offsets of the public symbols, the reader from their order.
\<close>

fun same_text :: "reader \<Rightarrow> instr \<Rightarrow> bool" where
  "same_text r (SExpression n s) \<longleftrightarrow> small s"
| "same_text r StoreStack \<longleftrightarrow> False"
| "same_text r Return \<longleftrightarrow> False"
| "same_text r Swap \<longleftrightarrow> False"
| "same_text r (LoadArray i l) \<longleftrightarrow> False"
| "same_text r (Jump t) \<longleftrightarrow> small t"
| "same_text r (ConditionalJump t z) \<longleftrightarrow> small t"
| "same_text r (Begin i argc locc) \<longleftrightarrow> small argc \<and> small locc \<and>
     public_comments (bf r) (int (ip r) - int (code_ptr (bf r))) [0..<unat (public_symbols_number (bf r))] =
       Inr (case i of Name n \<Rightarrow> tab @ ''# '' @ n | Offset off \<Rightarrow> [])"
| "same_text r (CBegin off argc locc) \<longleftrightarrow> small argc \<and> small locc"
| "same_text r (Closure off es) \<longleftrightarrow> small off \<and> (\<forall>e \<in> set es. named (kind e))"
| "same_text r (CallClosure argc) \<longleftrightarrow> small argc"
| "same_text r (Call f argc) \<longleftrightarrow> (\<forall>off. f = Offset off \<longrightarrow> small off) \<and> small argc"
| "same_text r (Tag t s) \<longleftrightarrow> small s"
| "same_text r (Array s) \<longleftrightarrow> small s"
| "same_text r (Fail l c) \<longleftrightarrow> small l \<and> small c"
| "same_text r (Line l) \<longleftrightarrow> small l"
| "same_text r (Binop op) \<longleftrightarrow> op \<noteq> Or \<and> (\<forall>l. op \<noteq> UnknownBinop l)"
| "same_text r (Load e) \<longleftrightarrow> named (kind e)"
| "same_text r (Store e) \<longleftrightarrow> named (kind e)"
| "same_text r (PatternInst p) \<longleftrightarrow> (\<forall>l. p \<noteq> UnknownPattern l)"
| "same_text r (BuiltinArray n) \<longleftrightarrow> small n"
| "same_text r _ \<longleftrightarrow> True"

lemma odd_and_1: "odd (v :: i32) \<Longrightarrow> v AND 1 \<noteq> 0"
  by (simp add: and_one_eq mod_2_eq_odd)

lemma code_low: "n < 4 \<Longrightarrow> (32 + n) mod 16 = n" "n < 4 \<Longrightarrow> (64 + n) mod 16 = n" for n :: nat
  by presburger+

definition prints_as :: "reader \<Rightarrow> byte \<Rightarrow> nat \<Rightarrow> string \<Rightarrow> bool" where
  "prints_as r x n t \<longleftrightarrow> disasm_inst (unat x div 16) (unat x mod 16) (bf r) (ip r) = Inr (Some (t, False, ip r + n))"

lemma disasm_one_operand:
  assumes "facing (past_opcode r) (ys @ bs)" "encodable junk pos r i" "same_text r i" "encode pos i = x # ys" "one_operand i"
  shows "\<exists>t. print_inst i = Inr t \<and> prints_as (past_opcode r) x (length ys) t"
  using assms(5)
proof (cases i)
  case (Const v)
  then show ?thesis using assms(1-4) text_int_at [of "past_opcode r" "signed_drop_bit 1 v" bs "\<lambda>v. ''CONST'' @ tab @ dec v"]
    by (auto simp: prints_as_def disasm_inst_def text_1_def text_5_def text_7_def size_bytes_def dec_size hex_size dec_def odd_and_1)
next
  case (Jump t)
  then show ?thesis using assms(1-4) text_int_at [of "past_opcode r" "int_of_size t" bs "\<lambda>v. ''JMP'' @ tab @ hex v"]
    by (auto simp: prints_as_def disasm_inst_def text_1_def text_5_def text_7_def size_bytes_def dec_size hex_size)
next
  case (ConditionalJump t z)
  then show ?thesis using assms(1-4) text_int_at [of "past_opcode r" "int_of_size t" bs "\<lambda>v. ''CJMPz'' @ tab @ hex v"]
      text_int_at [of "past_opcode r" "int_of_size t" bs "\<lambda>v. ''CJMPnz'' @ tab @ hex v"]
    by (cases z) (auto simp: prints_as_def disasm_inst_def text_5_def size_bytes_def hex_size)
next
  case (CallClosure argc)
  then show ?thesis using assms(1-4) text_int_at [of "past_opcode r" "int_of_size argc" bs "\<lambda>v. ''CALLC'' @ tab @ dec v"]
    by (auto simp: prints_as_def disasm_inst_def text_1_def text_5_def text_7_def size_bytes_def dec_size hex_size)
next
  case (Array s)
  then show ?thesis using assms(1-4) text_int_at [of "past_opcode r" "int_of_size s" bs "\<lambda>v. ''ARRAY'' @ tab @ dec v"]
    by (auto simp: prints_as_def disasm_inst_def text_1_def text_5_def text_7_def size_bytes_def dec_size hex_size)
next
  case (Line l)
  then show ?thesis using assms(1-4) text_int_at [of "past_opcode r" "int_of_size l" bs "\<lambda>v. ''LINE'' @ tab @ dec v"]
    by (auto simp: prints_as_def disasm_inst_def text_1_def text_5_def text_7_def size_bytes_def dec_size hex_size)
next
  case (BuiltinArray n)
  then show ?thesis using assms(1-4) text_int_at [of "past_opcode r" "int_of_size n" bs "\<lambda>v. ''CALL'' @ tab @ ''Barray'' @ tab @ dec v"]
    by (auto simp: prints_as_def disasm_inst_def text_1_def text_5_def text_7_def size_bytes_def dec_size hex_size)
qed (use assms(2-4) in auto)

lemma disasm_two_operands:
  assumes "facing (past_opcode r) (ys @ bs)" "encodable junk pos r i" "same_text r i" "encode pos i = x # ys" "two_operands i"
  shows "\<exists>t. print_inst i = Inr t \<and> prints_as (past_opcode r) x (length ys) t"
  using assms(5)
proof (cases i)
  case (CBegin off argc locc)
  then show ?thesis using assms(1-4) text_ints_at [of "past_opcode r" "int_of_size argc" "int_of_size locc" bs "\<lambda>v w. ''CBEGIN'' @ tab @ dec v @ '' '' @ dec w"]
    by (auto simp: prints_as_def disasm_inst_def text_5_def size_bytes_def dec_size hex_size)
next
  case (Begin k argc locc)
  have "int (ip r + 1) - int (code_ptr (bf r)) - 1 = int (ip r) - int (code_ptr (bf r))" by simp
  then show ?thesis using Begin assms(1-4)
      text_ints_at [of "past_opcode r" "int_of_size argc" "int_of_size locc" bs "\<lambda>v w. ''BEGIN'' @ tab @ dec v @ '' '' @ dec w"]
    by (cases k) (auto simp: prints_as_def disasm_inst_def text_5_def text_begin_def Let_def size_bytes_def dec_size)
next
  case (Call k argc)
  then obtain off where "k = Offset off" "small off" using assms(2,3) by auto
  then show ?thesis using Call assms(1-4)
      text_ints_at [of "past_opcode r" "int_of_size off" "int_of_size argc" bs "\<lambda>v w. ''CALL'' @ tab @ hex v @ '' '' @ dec w"]
    by (auto simp: prints_as_def disasm_inst_def text_5_def size_bytes_def dec_size hex_size)
next
  case (Fail l k)
  then show ?thesis using assms(1-4) text_ints_at [of "past_opcode r" "int_of_size l" "int_of_size k" bs "\<lambda>v w. ''FAIL'' @ tab @ dec v @ '':'' @ dec w"]
    by (auto simp: prints_as_def disasm_inst_def text_5_def size_bytes_def dec_size hex_size)
qed (use assms(2-4) in auto)

lemma disasm_composed:
  assumes "facing (past_opcode r) (ys @ bs)" "encodable junk pos r i" "same_text r i" "encode pos i = x # ys" "composed i"
  shows "\<exists>t. print_inst i = Inr t \<and> prints_as (past_opcode r) x (length ys) t"
  using assms(5)
proof (cases i)
  case (Binop op)
  then show ?thesis using assms(1-4)
    by (cases op) (auto simp: prints_as_def disasm_inst_def text_table_def ops_def done_text_def)
next
  case (Load e)
  then show ?thesis using assms(1-4) text_location_at [of "past_opcode r" e bs] named_code [of "kind e" 16]
    by (auto simp: prints_as_def disasm_inst_def after_text_def code_byte code_low)
next
  case (Store e)
  then show ?thesis using assms(1-4) text_location_at [of "past_opcode r" e bs] named_code [of "kind e" 16]
    by (auto simp: prints_as_def disasm_inst_def after_text_def code_byte code_low)
next
  case (PatternInst p)
  then show ?thesis using assms(1-4)
    by (cases p) (auto simp: prints_as_def disasm_inst_def text_table_def pats_def done_text_def)
qed (use assms(2-4) in auto)

lemma disasm_encoding:
  assumes "facing r (encode pos i @ bs)" "encodable junk pos r i" "same_text r i" "encode pos i = x # ys"
  shows "\<exists>t. print_inst i = Inr t \<and> prints_as (r\<lparr>ip := ip r + 1\<rparr>) x (length ys) t"
proof -
  let ?r1 = "r\<lparr>ip := ip r + 1\<rparr>"
  have b: "facing ?r1 (ys @ bs)" using facing_byte(2) [of r x "ys @ bs"] assms(1,4) by simp
  note groups = disasm_one_operand [OF b assms(2-4)] disasm_two_operands [OF b assms(2-4)] disasm_composed [OF b assms(2-4)]
  show ?thesis
  proof (cases i)
    case (String ind s)
    then show ?thesis using b assms(2-4) facing_INT [of ?r1 "pos s" bs]
      by (auto simp: prints_as_def disasm_inst_def text_1_def STRING_at_def known_string_def done_text_def)
  next
    case (SExpression n s)
    then show ?thesis using b assms(2-4) text_string_int_at [of ?r1 pos "n" "int_of_size s" bs "\<lambda>s v. ''SEXP'' @ tab @ s @ '' '' @ dec v"]
      by (auto simp: prints_as_def disasm_inst_def text_1_def text_5_def size_bytes_def dec_size known_string_def)
  next
    case (Closure off es)
    then have f: "facing ?r1 (int_bytes (int_of_size off) @ int_bytes (of_nat (length es)) @ concat (map entry_bytes es) @ bs)"
      using b assms(4) by (auto simp: size_bytes_def)
    have n: "nat (sint (of_nat (length es) :: i32)) = length es"
      using Closure assms(2) by (simp add: signed_of_nat signed_take_bit_int_eq_self)
    show ?thesis using Closure assms(2-4) facing_INT [OF f] facing_INT [OF facing_int(2) [OF f]]
        text_captured_at [OF facing_int(2) [OF facing_int(2) [OF f]]] n
      by (auto simp: prints_as_def disasm_inst_def text_5_def text_closure_def after_text_def size_bytes_def hex_size
          length_entry_bytes simp del: length_concat)
  next
    case (Tag t s)
    then show ?thesis using b assms(2-4) text_string_int_at [of ?r1 pos "t" "int_of_size s" bs "\<lambda>s v. ''TAG'' @ tab @ s @ '' '' @ dec v"]
      by (auto simp: prints_as_def disasm_inst_def text_1_def text_5_def size_bytes_def dec_size known_string_def)
  qed (use assms(2-4) groups in \<open>auto simp: prints_as_def disasm_inst_def text_1_def text_7_def done_text_def\<close>)
qed

section \<open>Listings\<close>

fun same_text_all :: "(nat \<Rightarrow> u64) \<Rightarrow> reader \<Rightarrow> instr list \<Rightarrow> bool" where
  "same_text_all junk r [] \<longleftrightarrow> True"
| "same_text_all junk r (i # is) \<longleftrightarrow> same_text r i \<and>
     (\<forall>r'. read_inst junk r = Inr (Some i, r') \<longrightarrow> same_text_all junk r' is)"

lemma offset_text: "facing r bs \<Longrightarrow> hex (get_offset r) = hex_int (int (ip r + 1) - int (code_ptr (bf r)) - 1)"
  using get_offset_size(2) [of r bs] by (auto simp: hex_def facing_def of_nat_diff)

lemma listing:
  assumes "facing r (code_bytes pos is @ x # bs)" "unat x div 16 = 15" "encodable_all junk pos r is" "same_text_all junk r is"
  shows "\<exists>t. dump_code junk r = Inr t \<and> disassemble (bf r) (ip r) = Inr (t, False)"
  using assms
proof (induction "is" arbitrary: r)
  case Nil
  then have f: "facing r (x # bs)" by (simp add: code_bytes_def)
  show ?case
    using read_stop [OF f Nil.prems(2), of junk] facing_BYTE [OF f] offset_text [OF f] Nil.prems(2)
    by (subst dump_code.simps, subst disassemble.simps) (simp add: disasm_inst_def)
next
  case (Cons i "is")
  have f: "facing r (encode pos i @ code_bytes pos is @ x # bs)" using Cons.prems(1) by (simp add: code_bytes_def)
  obtain y ys where y: "encode pos i = y # ys" by (cases "encode pos i") (cases i; auto split: if_splits)+
  obtain r' where r': "read_inst junk r = Inr (Some i, r')" "facing r' (code_bytes pos is @ x # bs)" "bf r' = bf r"
    "ip r' = ip r + length (encode pos i)"
    using read_encoding [OF f] Cons.prems(3) by (auto simp: read_past_def)
  obtain t where t: "print_inst i = Inr t" "prints_as (r\<lparr>ip := ip r + 1\<rparr>) y (length ys) t"
    using disasm_encoding [OF f _ _ y, of junk] Cons.prems(3,4) by auto
  obtain ts where ts: "dump_code junk r' = Inr ts" "disassemble (bf r') (ip r') = Inr (ts, False)"
    using Cons.IH [OF r'(2) Cons.prems(2)] Cons.prems(3,4) r'(1) by auto
  have "disasm_inst (unat y div 16) (unat y mod 16) (bf r) (ip r + 1) = Inr (Some (t, False, ip r'))"
    using t(2) r'(4) y by (simp add: prints_as_def)
  moreover have "BYTE_at (bf r) (ip r) = Inr (y, ip r + 1)" using f y by (intro facing_BYTE) simp
  ultimately have "disassemble (bf r) (ip r) = Inr (hex (get_offset r) @ '':'' @ tab @ t @ endl @ ts, False)"
    using ts(2) r'(3) offset_text [OF f] by (subst disassemble.simps) simp
  moreover have "dump_code junk r = Inr (hex (get_offset r) @ '':'' @ tab @ t @ endl @ ts)"
    using r'(1) t(1) ts(1) by (subst dump_code.simps) simp
  ultimately show ?case by blast
qed

lemma public_lines_ok: "public_names f is names = Inr names' \<Longrightarrow> \<exists>t. public_lines f is = Inr t"
  by (induction "is" arbitrary: names) (auto simp: res_simps)

lemma new_reader_sel:
  assumes "new_reader f = Inr r"
  shows "bf r = f" "ip r = code_ptr f" "function_index r = 0" "strings r = []" "\<exists>t. head_text f = Inr t"
  using assms public_lines_ok [of f] by (auto simp: new_reader_def head_text_def res_simps)

end
