(* ===== verification/Main_Properties.thy ===== *)
theory Main_Properties
  imports Disasm_Correct Driver_Properties
begin

text \<open>
  The properties of the programs as a whole: the compiler on the bytes of a file, and the two
  listings of a file.
\<close>

section \<open>A sample file\<close>

text \<open>\<open>main\<close>, whose name is at 0 of the string table, pushes 7 and ends.\<close>

definition sample_code :: "instr list" where
  "sample_code = [Begin (Name ''main'') 2 0, Line 1, Const 15, End]"

definition sample_pos :: "string \<Rightarrow> i32" where "sample_pos s = 0"

definition sample_bytes :: "byte list" where
  "sample_bytes = int_bytes 5 @ int_bytes 0 @ int_bytes 1 @ int_bytes 0 @ int_bytes 0 @ bytes_of ''main'' @ [0]
     @ code_bytes sample_pos sample_code @ [255]"

definition sample_file :: bytefile where
  "sample_file = \<lparr>file_size = 86, string_ptr = 20, public_ptr = 12, code_ptr = 25, stringtab_size = 5,
     global_area_size = 0, public_symbols_number = 1, contents = sample_bytes\<rparr>"

lemma sample_read_file: "read_file sample_bytes = Inr sample_file"
  by code_simp

definition sample_reader :: reader where
  "sample_reader = \<lparr>bf = sample_file, ip = 25, function_index = 0, function_names = [0 \<mapsto> ''main''], strings = []\<rparr>"

lemma sample_public: "get_public_offset sample_file 0 = Inr 0" "get_public_name sample_file 0 = Inr ''main''"
  "public_comments sample_file 0 [0..<1] = Inr (tab @ ''# main'')"
  by code_simp+

lemma sample_new_reader: "new_reader sample_file = Inr sample_reader"
  using sample_public by (simp add: new_reader_def sample_reader_def) (simp add: sample_file_def)

lemma sample_facing: "facing sample_reader (code_bytes sample_pos sample_code @ 255 # [])"
proof -
  have "length sample_bytes = 46" by code_simp
  then show ?thesis
    unfolding facing_def
    by (intro conjI exI [of _ "int_bytes 5 @ int_bytes 0 @ int_bytes 1 @ int_bytes 0 @ int_bytes 0 @ bytes_of ''main'' @ [0]"])
      (simp_all add: sample_reader_def sample_file_def sample_bytes_def bytes_of_def)
qed

lemma sample_encodable: "encodable_all junk sample_pos sample_reader sample_code"
proof -
  have "begin_ident sample_reader (Name ''main'')"
    using sample_public by (simp add: begin_ident_def sample_reader_def get_offset_def size_of_int_def)
      (simp add: sample_file_def word_sless_alt)
  then show ?thesis by (simp add: sample_code_def int_size_def size_of_int_def int_of_size_def)
qed


lemma size_of_int_nat: "n < 2 ^ 31 \<Longrightarrow> size_of_int (of_nat n) = of_nat n" "n < 2 ^ 31 \<Longrightarrow> 0 \<le>s (of_nat n :: i32)"
proof -
  assume "n < 2 ^ 31"
  then have s: "sint (of_nat n :: i32) = int n" by (simp add: signed_of_nat signed_take_bit_int_eq_self)
  then show "size_of_int (of_nat n) = of_nat n" unfolding size_of_int_def scast_eq by simp
  show "0 \<le>s (of_nat n :: i32)" using s by (simp add: word_sle_eq)
qed

lemma narrow_of_nat: "(ucast (of_nat n :: u64) :: i32) = of_nat n"
  by (rule bit_word_eqI) (simp add: bit_simps)

section \<open>Properties\<close>

text \<open>
  C18: The compiler ends on every file, well-formed or not, and whichever pending target its
  unordered map yields next: it rejects the file or a program, or it ends with code for everything
  that was pending.
\<close>

theorem compile_file_terminates:
  assumes "begin_ok begin_of"
  shows "\<exists>r. compile_file af begin_of junk name bs = Some r \<and> (\<forall>c. r = Inr c \<longrightarrow> todo c = [])"
  using emit_terminates [OF assms] by (auto simp: compile_file_def split: sum.splits prod.splits)

theorem compile_file_terminates_witness: "\<exists>r. compile_file True last (\<lambda>p. 7) ''a.bc'' sample_bytes = Some r"
  using compile_file_terminates [OF begin_ok_hd_last(2)] by blast

text \<open>
  C16: The reader recovers a program from its encoding: from the code section of a file that consists
  of the encodings of instructions and a stop code, it returns exactly these instructions at their
  offsets.
\<close>

theorem decode_roundtrip:
  assumes "new_reader f = Inr r" "facing r (code_bytes pos is @ x # bs)" "unat x div 16 = 15" "encodable_all junk pos r is"
  shows "\<exists>r'. read_all junk r [] = Inr (located 0 pos is, r')"
  using read_all_encoded [OF assms(2-4), of "[]"] new_reader_sel [OF assms(1)] by simp

theorem decode_roundtrip_witness:
  "\<exists>r'. read_all (\<lambda>p. 0) sample_reader [] = Inr ([(0, Begin (Name ''main'') 2 0), (9, Line 1), (14, Const 15), (19, End)], r')"
proof -
  have "located 0 sample_pos sample_code = [(0, Begin (Name ''main'') 2 0), (9, Line 1), (14, Const 15), (19, End)]"
    by (simp add: sample_code_def size_bytes_def)
  then show ?thesis using decode_roundtrip [OF sample_new_reader sample_facing _ sample_encodable] by simp
qed



text \<open>
  The check of a file's layout counts the global area, which is not in the file: a file whose
  sections fit is accepted exactly when its code has at least four bytes and four more for every
  global variable.
\<close>

theorem file_layout_check:
  assumes "int_at bs 0 = Inr s" "int_at bs 4 = Inr g" "int_at bs 8 = Inr p"
    and "unat s + 8 * unat p + 4 * unat g + 56 < 2 ^ 31" "length bs + 40 < 2 ^ 31" "length bs = 12 + 8 * unat p + unat s + code"
  shows "(\<exists>f. read_file bs = Inr f) \<longleftrightarrow> 4 + 4 * unat g \<le> code"
proof -
  let ?n = "unat s + 8 * unat p + 4 * unat g"
  have sz: "size_of_int s = of_nat (unat s)" "size_of_int p = of_nat (unat p)" "size_of_int g = of_nat (unat g)"
    "0 \<le>s s" "0 \<le>s p" "0 \<le>s g"
    using assms(4) size_of_int_nat [of "unat s"] size_of_int_nat [of "unat p"] size_of_int_nat [of "unat g"] by simp_all
  have "size_of_int s + size_of_int p * 2 * 4 + size_of_int g * 4 = of_nat ?n" by (simp add: sz)
  then have "total_sections_size s p g = of_nat ?n"
    unfolding total_sections_size_def by (simp only: narrow_of_nat)
  then have "size_of_int (total_sections_size s p g) + 56 = of_nat (?n + 56)"
    using assms(4) size_of_int_nat(1) [of ?n] by simp
  moreover have "size_of_int (of_nat (40 + length bs)) = of_nat (40 + length bs)"
    using assms(5) by (intro size_of_int_nat(1)) simp
  moreover have "(of_nat (?n + 56) :: u64) \<le> of_nat (40 + length bs) \<longleftrightarrow> ?n + 56 \<le> 40 + length bs"
    using assms(4,5) unat_of_nat_u64 [of "?n + 56"] unat_of_nat_u64 [of "40 + length bs"]
    by (simp add: word_le_nat_alt del: of_nat_add)
  ultimately have "size_of_int (total_sections_size s p g) + 56 \<le> size_of_int (of_nat (40 + length bs)) \<longleftrightarrow>
      ?n + 56 \<le> 40 + length bs" by simp
  also have "\<dots> \<longleftrightarrow> 4 + 4 * unat g \<le> code" using assms(6) by simp
  finally show ?thesis
    unfolding read_file_def assms(1-3) Let_def check_def using sz(4-6) by simp
qed

definition small_file :: "byte list" where
  "small_file = int_bytes 0 @ int_bytes 3 @ int_bytes 0 @ replicate 15 22"

theorem file_layout_check_witness:
  "length small_file = 12 + 15 \<and> int_at small_file 4 = Inr 3 \<and> \<not> (\<exists>f. read_file small_file = Inr f)"
proof -
  have a: "int_at small_file 0 = Inr 0" "int_at small_file 4 = Inr 3" "int_at small_file 8 = Inr 0" "length small_file = 27"
    by code_simp+
  show ?thesis using file_layout_check [OF a(1,2,3), of 15] a by simp
qed

end
