(* ===== verification/Compiled_File.thy ===== *)
theory Compiled_File
  imports Calls_Correct Main_Properties
begin

text \<open>
  From the bytes of a file to the run of its code: the reader, the driver, the code generator and the
  machine together.
\<close>

section \<open>The program of a file\<close>






section \<open>Properties\<close>















end
