(* ===== verification/Constructors.thy ===== *)
theory Constructors
  imports Trees
begin

text \<open>
  The constructors of arrays, S-expressions, closures and cons cells of \<open>runtime/runtime.c\<close>:
  each registers its arguments as extra roots, allocates, which may collect, and copies the
  arguments, by then redirected, into the new object.

  Parameters: \<open>fr d\<close> is \<open>__builtin_frame_address(0)\<close> in the function that is \<open>d\<close> calls below the
  one at hand; a C array or local variable whose address the code takes is given by that address;
  \<open>malloc\<close> is assumed to succeed, at an address that is a parameter.
\<close>

type_synonym frames = "nat \<Rightarrow> addr"

definition below :: "frames \<Rightarrow> frames" where "below fr d = fr (Suc d)"

section \<open>Entering and leaving a function that allocates\<close>

text \<open>
  A function called from compiled code finds \<open>__gc_stack_top\<close> zero and sets it to its own frame;
  one called from another run-time function leaves it alone.
\<close>

definition PRE_GC :: "addr \<Rightarrow> gc_state \<Rightarrow> (bool \<times> gc_state) res" where
  "PRE_GC frame s =
     (let flag = gc_stack_top s = 0; s = (if flag then s\<lparr>gc_stack_top := frame\<rparr> else s) in
      if gc_stack_top s = 0 then Inl AssertFailed
      else if gc_stack_top s mod 16 \<noteq> 0 then Inl AssertFailed
      else if \<not> frame \<le> gc_stack_top s then Inl AssertFailed
      else Inr (flag, s))"

definition POST_GC :: "bool \<Rightarrow> addr \<Rightarrow> gc_state \<Rightarrow> gc_state res" where
  "POST_GC flag frame s =
     (if \<not> frame \<le> gc_stack_top s then Inl AssertFailed
      else Inr (if flag then s\<lparr>gc_stack_top := 0\<rparr> else s))"

text \<open>The body of a function between the two macros, and a body between pushes and pops of roots.\<close>

definition gc_section :: "addr \<Rightarrow> (gc_state \<Rightarrow> ('a \<times> gc_state) res) \<Rightarrow> gc_state \<Rightarrow> ('a \<times> gc_state) res" where
  "gc_section frame f s =
     bindR (PRE_GC frame s) (\<lambda>(flag, s).
     bindR (f s) (\<lambda>(x, s).
     bindR (POST_GC flag frame s) (\<lambda>s. Inr (x, s))))"

definition rooted :: "addr list \<Rightarrow> (gc_state \<Rightarrow> ('a \<times> gc_state) res) \<Rightarrow> gc_state \<Rightarrow> ('a \<times> gc_state) res" where
  "rooted rs f s =
     bindR (for_each push_extra_root rs s) (\<lambda>s.
     bindR (f s) (\<lambda>(x, s).
     bindR (for_each pop_extra_root (rev rs) s) (\<lambda>s. Inr (x, s))))"

section \<open>Arrays, S-expressions, closures\<close>

definition word_addrs :: "addr \<Rightarrow> nat \<Rightarrow> addr list" where
  "word_addrs a n = map (\<lambda>i. a + 8 * i) [0..<n]"

fun copy_words :: "mem \<Rightarrow> addr \<Rightarrow> addr \<Rightarrow> nat \<Rightarrow> mem" where
  "copy_words m dst src 0 = m"
| "copy_words m dst src (Suc n) = copy_words (st64 m dst (ld64 m src)) (dst + 8) (src + 8) n"

definition Barray :: "mmap_fun \<Rightarrow> frames \<Rightarrow> addr \<Rightarrow> u64 \<Rightarrow> gc_state \<Rightarrow> (u64 \<times> gc_state) res" where
  "Barray mmap fr args bn =
     (let n = UNBOX bn; cnt = nat (sint n) in
      gc_section (fr 0) (rooted (word_addrs args cnt) (\<lambda>s.
        bindR (alloc_array mmap n s) (\<lambda>(r, s).
        Inr (of_nat (r + 16), s\<lparr>memory := copy_words (memory s) (r + 16) args cnt\<rparr>)))))"

definition Bsexp :: "mmap_fun \<Rightarrow> frames \<Rightarrow> addr \<Rightarrow> u64 \<Rightarrow> gc_state \<Rightarrow> (u64 \<times> gc_state) res" where
  "Bsexp mmap fr args bn =
     (let n = UNBOX bn; fields_cnt = n - 1; cnt = nat (sint fields_cnt) in
      gc_section (fr 0) (rooted (word_addrs args cnt) (\<lambda>s.
        bindR (alloc_sexp mmap fields_cnt s) (\<lambda>(r, s).
        let m = st64 (memory s) (r + 16) 0;
            m = copy_words m (r + 24) args cnt;
            m = st64 m (r + 16) (UNBOX (ld64 m (nat (int args + 8 * sint fields_cnt)))) in
        Inr (of_nat (r + 16), s\<lparr>memory := m\<rparr>)))))"

definition Bclosure :: "mmap_fun \<Rightarrow> frames \<Rightarrow> addr \<Rightarrow> u64 \<Rightarrow> gc_state \<Rightarrow> (u64 \<times> gc_state) res" where
  "Bclosure mmap fr args bn =
     (let n = UNBOX bn; cnt = nat (sint n) in
      gc_section (fr 0) (rooted (word_addrs (args + 8) cnt) (\<lambda>s.
        bindR (alloc_closure mmap (n + 1) s) (\<lambda>(r, s).
        let m = st64 (memory s) (r + 16) (ld64 (memory s) args);
            m = copy_words m (r + 24) (args + 8) cnt in
        Inr (of_nat (r + 16), s\<lparr>memory := m\<rparr>)))))"

text \<open>
  The variants with a variable number of arguments copy them to a block of \<open>malloc\<close>, at \<open>block\<close>.
  Reading more arguments than were passed is undefined.
\<close>

definition spill_args :: "addr \<Rightarrow> u64 \<Rightarrow> u64 list \<Rightarrow> gc_state \<Rightarrow> gc_state res" where
  "spill_args block bn vs s =
     (let n = nat (sint (UNBOX bn)) in
      if length vs < n then Inl Undefined
      else Inr (s\<lparr>memory := st_words (memory s) block (take n vs)\<rparr>))"

definition RVBarray :: "mmap_fun \<Rightarrow> frames \<Rightarrow> addr \<Rightarrow> u64 \<Rightarrow> u64 list \<Rightarrow> gc_state \<Rightarrow> (u64 \<times> gc_state) res" where
  "RVBarray mmap fr block bn vs s = bindR (spill_args block bn vs s) (Barray mmap fr block bn)"

definition RVBsexp :: "mmap_fun \<Rightarrow> frames \<Rightarrow> addr \<Rightarrow> u64 \<Rightarrow> u64 list \<Rightarrow> gc_state \<Rightarrow> (u64 \<times> gc_state) res" where
  "RVBsexp mmap fr block bn vs s = bindR (spill_args block bn vs s) (Bsexp mmap fr block bn)"

text \<open>The operator \<open>:\<close>, with its local array \<open>bsexp_args\<close> at \<open>local\<close>.\<close>

definition Ls__Infix_58 :: "mmap_fun \<Rightarrow> frames \<Rightarrow> addr \<Rightarrow> addr \<Rightarrow> gc_state \<Rightarrow> (u64 \<times> gc_state) res" where
  "Ls__Infix_58 mmap fr local args =
     gc_section (fr 0) (\<lambda>s.
       bindR (LtagHash ''cons'') (\<lambda>tag.
       let m = memory s in
       Bsexp mmap (below fr) local (BOX 3)
         (s\<lparr>memory := st_words m local [ld64 m args, ld64 m (args + 8), tag]\<rparr>)))"

text \<open>
  With a negative length the loop of \<open>LmakeArray\<close>, which counts down to zero, leaves the object.
\<close>

definition LmakeArray :: "mmap_fun \<Rightarrow> frames \<Rightarrow> u64 \<Rightarrow> gc_state \<Rightarrow> (u64 \<times> gc_state) res" where
  "LmakeArray mmap fr l s =
     bindR (assert_unboxed ''makeArray:1'' l) (\<lambda>_.
     let n = UNBOX l in
     gc_section (fr 0) (\<lambda>s.
       bindR (alloc_array mmap n s) (\<lambda>(r, s).
       if sint n < 0 then Inl Undefined
       else Inr (of_nat (r + 16), s\<lparr>memory := st_words (memory s) (r + 16) (replicate (unat n) (BOX 0))\<rparr>))) s)"

definition LmakeString :: "mmap_fun \<Rightarrow> frames \<Rightarrow> u64 \<Rightarrow> gc_state \<Rightarrow> (u64 \<times> gc_state) res" where
  "LmakeString mmap fr l s =
     (let n = UNBOX l in
      bindR (assert_unboxed ''makeString'' l) (\<lambda>_.
      gc_section (fr 0) (\<lambda>s.
        bindR (alloc_string mmap n s) (\<lambda>(r, s). Inr (of_nat (r + 16), s))) s))"

end
