(* ===== verification/Strings.thy ===== *)
theory Strings
  imports Constructors Printing
begin

text \<open>
  The operations of \<open>runtime/runtime.c\<close> that make a string or copy a value: \<open>Bstring\<close>,
  \<open>Lsubstring\<close>, \<open>Li__Infix_4343\<close> (\<open>++\<close>), \<open>Lclone\<close>, \<open>Lstring\<close>, \<open>Lstringcat\<close>; the string
  pattern and the substring match; \<open>set_args\<close> and the access to the environment. The conventions
  are those of \<open>Constructors\<close>: frame addresses and addresses of local variables are parameters. A
  read that runs on without a NUL, and a value whose printing does not end, is \<open>Killed\<close>.
\<close>

section \<open>C string functions\<close>

fun strncpy :: "mem \<Rightarrow> addr \<Rightarrow> addr \<Rightarrow> nat \<Rightarrow> mem" where
  "strncpy m dst src 0 = m"
| "strncpy m dst src (Suc n) =
     (if m src = 0 then memset m dst 0 (Suc n) else strncpy (m(dst := m src)) (dst + 1) (src + 1) n)"

text \<open>Whether \<open>strncmp\<close> returns 0.\<close>

fun strncmp_0 :: "mem \<Rightarrow> addr \<Rightarrow> addr \<Rightarrow> nat \<Rightarrow> bool" where
  "strncmp_0 m a b 0 \<longleftrightarrow> True"
| "strncmp_0 m a b (Suc n) \<longleftrightarrow> m a = m b \<and> (m a = 0 \<or> strncmp_0 m (a + 1) (b + 1) n)"

fun store_bytes :: "mem \<Rightarrow> addr \<Rightarrow> byte list \<Rightarrow> mem" where
  "store_bytes m a [] = m"
| "store_bytes m a (b # bs) = store_bytes (m(a := b)) (a + 1) bs"

section \<open>Making strings\<close>

text \<open>\<open>args\<close> is the address of a variable that holds the pointer to the characters.\<close>

definition Bstring :: "mmap_fun \<Rightarrow> frames \<Rightarrow> addr \<Rightarrow> gc_state \<Rightarrow> (u64 \<times> gc_state) res" where
  "Bstring mmap fr args s =
     (case cstring (memory s) (unat (ld64 (memory s) args)) of
        None \<Rightarrow> Inl Killed
      | Some bs \<Rightarrow>
          let n = length bs in
          gc_section (fr 0) (\<lambda>s.
            bindR (rooted [args] (LmakeString mmap (below fr) (BOX (of_nat n))) s) (\<lambda>(v, s).
            Inr (v, s\<lparr>memory := strncpy (memory s) (unat v) (unat (ld64 (memory s) args)) (n + 1)\<rparr>))) s)"

text \<open>The parameter of \<open>RVBstring\<close> is kept at \<open>local\<close>.\<close>

definition RVBstring :: "mmap_fun \<Rightarrow> frames \<Rightarrow> addr \<Rightarrow> u64 \<Rightarrow> gc_state \<Rightarrow> (u64 \<times> gc_state) res" where
  "RVBstring mmap fr local p s = Bstring mmap fr local (s\<lparr>memory := st64 (memory s) local p\<rparr>)"

text \<open>
  The bounds check adds the signed position and length and compares the sum, unsigned, with the
  length of the subject. With a negative length that passes it, the copy leaves the object.
\<close>

definition Lsubstring :: "mmap_fun \<Rightarrow> frames \<Rightarrow> addr \<Rightarrow> gc_state \<Rightarrow> (u64 \<times> gc_state) res" where
  "Lsubstring mmap fr args s =
     (let m = memory s; a0 = ld64 m args; a1 = ld64 m (args + 8); a2 = ld64 m (args + 16);
          pp = UNBOX a1; ll = UNBOX a2 in
      bindR (assert_string m ''substring:1'' a0) (\<lambda>_.
      bindR (assert_unboxed ''substring:2'' a1) (\<lambda>_.
      bindR (assert_unboxed ''substring:3'' a2) (\<lambda>_.
      if pp + ll \<le> LEN (data_header m a0)
      then gc_section (fr 0) (\<lambda>s.
        bindR (rooted [args] (alloc_string mmap ll) s) (\<lambda>(r, s).
        if sint ll < 0 then Inl Undefined
        else Inr (of_nat (r + 16),
          s\<lparr>memory := strncpy (memory s) (r + 16) (unat (ld64 (memory s) args + pp)) (unat ll)\<rparr>))) s
      else Inl (Failure (''substring: index out of bounds (position='' @ show_int (sint pp) @ '', length='' @
        show_int (sint ll) @ '', subject length='' @ show_int (sint (LEN (data_header m a0))) @ '')''))))))"

definition Li__Infix_4343 :: "mmap_fun \<Rightarrow> frames \<Rightarrow> addr \<Rightarrow> gc_state \<Rightarrow> (u64 \<times> gc_state) res" where
  "Li__Infix_4343 mmap fr args s =
     (let m = memory s; a = ld64 m args; b = ld64 m (args + 8) in
      bindR (assert_string m ''++:1'' a) (\<lambda>_.
      bindR (assert_string m ''++:2'' b) (\<lambda>_.
      gc_section (fr 0) (\<lambda>s.
        bindR (rooted [args, args + 8] (alloc_string mmap (LEN (data_header m a) + LEN (data_header m b))) s) (\<lambda>(d, s).
        let m = memory s; da = ld64 m args; db = ld64 m (args + 8);
            la = unat (LEN (data_header m da)); lb = unat (LEN (data_header m db));
            m = strncpy m (d + 16) (unat da) la;
            m = strncpy m (d + 16 + la) (unat db) lb in
        Inr (of_nat (d + 16), s\<lparr>memory := m(d + 16 + unat (LEN (data_header m da) + LEN (data_header m db)) := 0)\<rparr>))) s)))"

section \<open>Cloning\<close>

text \<open>The pointer to the characters of a string to clone is a local variable, at \<open>local\<close>.\<close>

definition Lclone :: "mmap_fun \<Rightarrow> frames \<Rightarrow> addr \<Rightarrow> addr \<Rightarrow> gc_state \<Rightarrow> (u64 \<times> gc_state) res" where
  "Lclone mmap fr local args s =
     (if unboxed (ld64 (memory s) args) then Inr (ld64 (memory s) args, s)
      else gc_section (fr 0) (\<lambda>s.
        let a = ld64 (memory s) args; t = TAG (data_header (memory s) a); l = LEN (data_header (memory s) a);
            copy = (\<lambda>sz (obj, s). Inr (of_nat (obj + 16),
              s\<lparr>memory := memmove (memory s) obj (TO_DATA (unat (ld64 (memory s) args))) (unat sz)\<rparr>)) in
        rooted [args] (\<lambda>s.
          if t = STRING_TAG then Bstring mmap (below fr) local (s\<lparr>memory := st64 (memory s) local (ld64 (memory s) args)\<rparr>)
          else if t = ARRAY_TAG then bindR (alloc_array mmap l s) (copy (array_size l))
          else if t = CLOSURE_TAG then bindR (alloc_closure mmap l s) (copy (closure_size l))
          else if t = SEXP_TAG then bindR (alloc_sexp mmap l s) (copy (sexp_size l))
          else Inl (Failure (''invalid data_header '' @ show_int (sint t) @ '' in clone *****'' @ [CHR 0x0A]))) s) s)"

section \<open>Values as strings\<close>

text \<open>
  The text collected in the buffer is at \<open>buf\<close>, the address \<open>malloc\<close> gave for it; the local variable
  \<open>content\<close> that points to it is at \<open>local\<close>.
\<close>

definition string_of_buf :: "mmap_fun \<Rightarrow> frames \<Rightarrow> addr \<Rightarrow> addr \<Rightarrow> addr \<Rightarrow> string_buf \<Rightarrow> gc_state \<Rightarrow> (u64 \<times> gc_state) res" where
  "string_of_buf mmap fr buf local args b =
     rooted [args] (\<lambda>s. Bstring mmap fr local
       (s\<lparr>memory := st64 (store_bytes (memory s) buf (bytes_of (contents b) @ [0])) local (of_nat buf)\<rparr>))"

definition Lstring :: "mmap_fun \<Rightarrow> frames \<Rightarrow> addr \<Rightarrow> addr \<Rightarrow> addr \<Rightarrow> gc_state \<Rightarrow> (u64 \<times> gc_state) res" where
  "Lstring mmap fr buf local args =
     gc_section (fr 0) (\<lambda>s.
       case printValue s (ld64 (memory s) args) createStringBuf of
         None \<Rightarrow> Inl Killed
       | Some b \<Rightarrow> string_of_buf mmap (below fr) buf local args b s)"

definition RVLstring :: "mmap_fun \<Rightarrow> frames \<Rightarrow> addr \<Rightarrow> addr \<Rightarrow> addr \<Rightarrow> u64 \<Rightarrow> gc_state \<Rightarrow> (u64 \<times> gc_state) res" where
  "RVLstring mmap fr buf local args p s = Lstring mmap fr buf local args (s\<lparr>memory := st64 (memory s) args p\<rparr>)"

definition Lstringcat :: "mmap_fun \<Rightarrow> frames \<Rightarrow> addr \<Rightarrow> addr \<Rightarrow> addr \<Rightarrow> gc_state \<Rightarrow> (u64 \<times> gc_state) res" where
  "Lstringcat mmap fr buf local args =
     gc_section (fr 0) (\<lambda>s.
       case stringcat (memory s) (ld64 (memory s) args) createStringBuf of
         None \<Rightarrow> Inl Killed
       | Some b \<Rightarrow> string_of_buf mmap (below fr) buf local args b s)"

definition Bmatch_failure :: "u64 \<Rightarrow> string \<Rightarrow> u64 \<Rightarrow> u64 \<Rightarrow> gc_state \<Rightarrow> unit res" where
  "Bmatch_failure v fname line col s =
     (case printValue s v createStringBuf of
        None \<Rightarrow> Inl Killed
      | Some b \<Rightarrow> Inl (Failure (''match failure at '' @ fname @ '':'' @ show_int (sint (UNBOX line)) @ '':'' @
          show_int (sint (UNBOX col)) @ '', value '' @ [CHR 0x27] @ contents b @ [CHR 0x27, CHR 0x0A])))"

section \<open>Matching\<close>

definition LmatchSubString :: "mem \<Rightarrow> u64 \<Rightarrow> u64 \<Rightarrow> u64 \<Rightarrow> u64 res" where
  "LmatchSubString m subj patt off =
     bindR (assert_string m ''matchSubString:1'' subj) (\<lambda>_.
     bindR (assert_string m ''matchSubString:2'' patt) (\<lambda>_.
     bindR (assert_unboxed ''matchSubString:3'' off) (\<lambda>_.
     let n = LEN (data_header m patt) in
     if LEN (data_header m subj) < n + UNBOX off then Inr (BOX 0)
     else Inr (boxB (strncmp_0 m (unat (subj + UNBOX off)) (unat patt) (unat n))))))"

definition Bstring_patt :: "mem \<Rightarrow> u64 \<Rightarrow> u64 \<Rightarrow> u64 res" where
  "Bstring_patt m x y =
     bindR (assert_string m ''.string_patt:2'' y) (\<lambda>_.
     if unboxed x then Inr (BOX 0)
     else if TAG (data_header m x) \<noteq> STRING_TAG then Inr (BOX 0)
     else case strcmp m (unat x) (unat y) of None \<Rightarrow> Inl Killed | Some d \<Rightarrow> Inr (boxB (d = 0)))"

section \<open>The environment\<close>

text \<open>\<open>getenv\<close> is a parameter: the address of the value of a variable, if it is set.\<close>

definition LgetEnv :: "mmap_fun \<Rightarrow> (string \<Rightarrow> addr option) \<Rightarrow> frames \<Rightarrow> addr \<Rightarrow> u64 \<Rightarrow> gc_state \<Rightarrow> (u64 \<times> gc_state) res" where
  "LgetEnv mmap env fr local var s =
     (case cstring (memory s) (unat var) of
        None \<Rightarrow> Inl Killed
      | Some name \<Rightarrow> case env (chars_of name) of
          None \<Rightarrow> Inr (BOX 0, s)
        | Some e \<Rightarrow> gc_section (fr 0) (\<lambda>s. Bstring mmap (below fr) local (s\<lparr>memory := st64 (memory s) local (of_nat e)\<rparr>)) s)"

text \<open>
  In \<open>((aint *)p)[i] = (aint)Bstring(\<dots>)\<close> C does not say whether \<open>p\<close>, a root at \<open>local\<close>, is read before
  the call or \<open>late\<close>.
\<close>

fun set_args_loop :: "mmap_fun \<Rightarrow> frames \<Rightarrow> bool \<Rightarrow> addr \<Rightarrow> addr \<Rightarrow> nat \<Rightarrow> nat \<Rightarrow> gc_state \<Rightarrow> gc_state res" where
  "set_args_loop mmap fr late local argv i 0 s = Inr s"
| "set_args_loop mmap fr late local argv i (Suc n) s =
     bindR (Bstring mmap (below fr) (argv + 8 * i) s) (\<lambda>(v, s').
     let p = unat (ld64 (memory (if late then s' else s)) local) in
     set_args_loop mmap fr late local argv (Suc i) n (s'\<lparr>memory := st64 (memory s') (p + 8 * i) v\<rparr>))"

definition set_args :: "mmap_fun \<Rightarrow> frames \<Rightarrow> bool \<Rightarrow> addr \<Rightarrow> addr \<Rightarrow> u64 \<Rightarrow> addr \<Rightarrow> gc_state \<Rightarrow> gc_state res" where
  "set_args mmap fr late local global_sysargs argc argv s =
     bindR (gc_section (fr 0) (\<lambda>s.
       bindR (LmakeArray mmap (below fr) (BOX argc) s) (\<lambda>(p, s).
       bindR (rooted [local] (\<lambda>s.
         bindR (set_args_loop mmap fr late local argv 0 (nat (sint argc)) s) (\<lambda>s. Inr ((), s)))
         (s\<lparr>memory := st64 (memory s) local p\<rparr>)) (\<lambda>(_, s).
       Inr (ld64 (memory s) local, s)))) s) (\<lambda>(p, s).
     push_extra_root global_sysargs (s\<lparr>memory := st64 (memory s) global_sysargs p\<rparr>))"

text \<open>\<open>random\<close> and \<open>clock_gettime\<close> are parameters.\<close>

definition Lrandom :: "u64 \<Rightarrow> u64 \<Rightarrow> u64 res" where
  "Lrandom random n =
     bindR (assert_unboxed ''Lrandom, 0'' n) (\<lambda>_.
     if sint (UNBOX n) \<le> 0 then Inl (Failure (''invalid range in random: '' @ show_int (sint (UNBOX n)) @ [CHR 0x0A]))
     else Inr (BOX (word_of_int (sint random smod sint (UNBOX n)))))"

definition Ltime :: "u64 \<Rightarrow> u64 \<Rightarrow> u64" where
  "Ltime tv_sec tv_nsec = BOX (tv_sec * 1000000 + word_of_int (sint tv_nsec sdiv 1000))"

end
