(* ===== verification/Io.thy ===== *)
theory Io
  imports Strings
begin

text \<open>
  The built-ins of \<open>runtime/runtime.c\<close> that read and write numbers: \<open>LstringInt\<close>, \<open>Lread\<close> and
  \<open>Lwrite\<close>. The standard input is the list of the characters not yet read; a conversion \<open>%ld\<close> of
  \<open>scanf\<close> skips white space and takes an optional sign and the digits that follow. A number that does
  not fit a \<open>long\<close> is undefined.
\<close>

section \<open>The operations\<close>

definition isspace :: "char \<Rightarrow> bool" where
  "isspace c \<longleftrightarrow> c \<in> {CHR '' '', CHR 0x09, CHR 0x0A, CHR 0x0B, CHR 0x0C, CHR 0x0D}"

definition isdigit :: "char \<Rightarrow> bool" where
  "isdigit c \<longleftrightarrow> 48 \<le> (of_char c :: nat) \<and> (of_char c :: nat) \<le> 57"

definition scan_int :: "string \<Rightarrow> int option \<times> string" where
  "scan_int cs =
     (let cs = dropWhile isspace cs; neg = (cs \<noteq> [] \<and> hd cs = CHR ''-'');
          cs = (if cs \<noteq> [] \<and> hd cs \<in> {CHR ''-'', CHR ''+''} then tl cs else cs);
          ds = takeWhile isdigit cs; v = int (read_base 10 ds) in
      (if ds = [] then None else Some (if neg then - v else v), dropWhile isdigit cs))"

definition fits_long :: "int \<Rightarrow> bool" where
  "fits_long i \<longleftrightarrow> - (2 ^ 63) \<le> i \<and> i < 2 ^ 63"

text \<open>When there is no number, \<open>LstringInt\<close> reads an uninitialised variable.\<close>

definition LstringInt :: "mem \<Rightarrow> u64 \<Rightarrow> u64 res" where
  "LstringInt m b =
     (case cstring m (unat b) of
        None \<Rightarrow> Inl Killed
      | Some bs \<Rightarrow>
          (case fst (scan_int (chars_of bs)) of
             None \<Rightarrow> Inl Undefined
           | Some i \<Rightarrow> if fits_long i then Inr (BOX (word_of_int i)) else Inl Undefined))"

text \<open>
  \<open>Lread\<close> writes its prompt and returns the rest of the input; when there is no number, the variable
  keeps its initial value, which is boxed once more.
\<close>

definition Lread :: "string \<Rightarrow> (u64 \<times> string \<times> string) res" where
  "Lread inp =
     (case scan_int inp of
        (None, rest) \<Rightarrow> Inr (BOX (BOX 0), ''> '', rest)
      | (Some i, rest) \<Rightarrow> if fits_long i then Inr (BOX (word_of_int i), ''> '', rest) else Inl Undefined)"

definition Lwrite :: "u64 \<Rightarrow> u64 \<times> string" where
  "Lwrite n = (0, show_int (sint (UNBOX n)) @ [CHR 0x0A])"

section \<open>Numbers are read back\<close>

lemma digit_char_isdigit: "d < 10 \<Longrightarrow> isdigit (digit_char d)"
  by (simp add: isdigit_def digit_char_def)

lemma show_nat_digits: "\<forall>c \<in> set (show_nat n). isdigit c"
  using show_base_chars [of 10 n] digit_char_isdigit by (fastforce simp: show_nat_def)

lemma isdigit_plain: "isdigit c \<Longrightarrow> \<not> isspace c \<and> c \<noteq> CHR ''-'' \<and> c \<noteq> CHR ''+''"
  by (auto simp: isdigit_def isspace_def)

lemma scan_show_nat:
  assumes "rest = [] \<or> \<not> isdigit (hd rest)"
  shows "takeWhile isdigit (show_nat n @ rest) = show_nat n" "dropWhile isdigit (show_nat n @ rest) = rest"
  using assms show_nat_digits [of n] by (cases rest; simp add: takeWhile_append2 dropWhile_append2)+

lemma show_nat_Cons: "\<exists>c cs. show_nat n = c # cs \<and> isdigit c"
  using show_nat_digits [of n] by (cases "show_nat n") auto

lemma scan_show_int:
  assumes "rest = [] \<or> \<not> isdigit (hd rest)"
  shows "scan_int (show_int i @ rest) = (Some i, rest)"
proof -
  note S = scan_show_nat [OF assms]
  have r: "read_base 10 (show_nat n) = n" for n by (simp add: show_nat_def read_show_base)
  show ?thesis
  proof (cases "i < 0")
    case True
    then show ?thesis using S [of "nat (- i)"] by (simp add: scan_int_def show_int_def isspace_def r)
  next
    case False
    obtain c cs where c: "show_nat (nat i) = c # cs" "isdigit c" using show_nat_Cons by blast
    then show ?thesis
      using False S [of "nat i"] r [of "nat i"] isdigit_plain [OF c(2)]
      by (simp add: scan_int_def show_int_def)
  qed
qed

lemma fits63_long: "fits63 i \<Longrightarrow> fits_long i"
  by (auto simp: fits63_def fits_long_def)

text \<open>
  C39: \<open>Lread\<close> inverts \<open>Lwrite\<close>: of the text that \<open>Lwrite\<close> prints for a boxed integer, \<open>Lread\<close>
  returns that integer and leaves the newline and what follows in the input.
\<close>

theorem write_read:
  assumes "unboxed v"
  shows "Lread (snd (Lwrite v) @ rest) = Inr (v, ''> '', CHR 0x0A # rest)"
proof -
  have "scan_int (show_int (sint (UNBOX v)) @ CHR 0x0A # rest) = (Some (sint (UNBOX v)), CHR 0x0A # rest)"
    by (rule scan_show_int) (simp add: isdigit_def)
  then show ?thesis using BOX_UNBOX [OF assms] fits63_long [OF fits63_UNBOX] by (simp add: Lread_def Lwrite_def)
qed

theorem write_read_witness: "Lread (snd (Lwrite 85)) = Inr (85, ''> '', [CHR 0x0A])"
  using write_read [of 85 "[]"] by (simp add: unboxed_iff)

text \<open>\<open>LstringInt\<close> inverts the text of an integer.\<close>

lemma stringInt_of_text:
  assumes "unboxed v" "cstring m (unat a) = Some (bytes_of (show_int (sint (UNBOX v))))"
  shows "LstringInt m a = Inr v"
  using scan_show_int [of "[]" "sint (UNBOX v)"] assms(2) BOX_UNBOX [OF assms(1)] fits63_long [OF fits63_UNBOX]
  by (simp add: LstringInt_def)

text \<open>Without a number in the input, \<open>Lread\<close> returns 1.\<close>

lemma read_no_number: "fst (scan_int inp) = None \<Longrightarrow> \<exists>rest. Lread inp = Inr (BOX 1, ''> '', rest)"
  by (cases "scan_int inp") (simp add: Lread_def BOX_def)

end
