(* ===== verification/Files.thy ===== *)
theory Files
  imports Io
begin

text \<open>
  Formatted output and files of \<open>runtime/runtime.c\<close>, as they are compiled for a 64-bit machine:
  \<open>Bsprintf\<close>, \<open>Bprintf\<close>, \<open>Bfprintf\<close>, \<open>Lfopen\<close>, \<open>Lfclose\<close>, \<open>LreadLine\<close>, \<open>Lfread\<close>, \<open>Lfwrite\<close>,
  \<open>Lfexists\<close>, \<open>Lsystem\<close>. The variable arguments are the list of the machine words that were passed.
  The operating system is a parameter: which files may be opened, whether writing succeeds, the
  message of \<open>strerror\<close>, the stream \<open>fopen\<close> returns.
\<close>

section \<open>Conversions\<close>

text \<open>
  The conversions \<open>%d\<close>, \<open>%i\<close>, \<open>%x\<close>, \<open>%c\<close>, \<open>%s\<close>, \<open>%ld\<close>, \<open>%lx\<close> and \<open>%%\<close>. The model ends there: others
  have the result \<open>Undefined\<close>, as have conversions without an argument, which C does not define.
\<close>

fun conversion :: "mem \<Rightarrow> char \<Rightarrow> u64 \<Rightarrow> string res" where
  "conversion m c v =
     (if c = CHR ''d'' \<or> c = CHR ''i'' then Inr (show_int (sint (ucast v :: 32 word)))
      else if c = CHR ''x'' then Inr (show_hex (unat v mod 2 ^ 32))
      else if c = CHR ''c'' then Inr (chars_of [ucast v])
      else if c = CHR ''s'' then (case cstring m (unat v) of None \<Rightarrow> Inl Killed | Some bs \<Rightarrow> Inr (chars_of bs))
      else Inl Undefined)"

definition long_conversion :: "char \<Rightarrow> u64 \<Rightarrow> string res" where
  "long_conversion c v =
     (if c = CHR ''d'' \<or> c = CHR ''i'' then Inr (show_int (sint v))
      else if c = CHR ''x'' then Inr (show_hex (unat v))
      else Inl Undefined)"

fun vformat :: "mem \<Rightarrow> string \<Rightarrow> u64 list \<Rightarrow> string res" where
  "vformat m [] vs = Inr []"
| "vformat m [c] vs = (if c = CHR ''%'' then Inl Undefined else Inr [c])"
| "vformat m (c # d # f) vs =
     (if c \<noteq> CHR ''%'' then bindR (vformat m (d # f) vs) (\<lambda>t. Inr (c # t))
      else if d = CHR ''%'' then bindR (vformat m f vs) (\<lambda>t. Inr (CHR ''%'' # t))
      else case vs of
        [] \<Rightarrow> Inl Undefined
      | v # vs \<Rightarrow>
          if d = CHR ''l'' then (case f of
              [] \<Rightarrow> Inl Undefined
            | e # g \<Rightarrow> bindR (long_conversion e v) (\<lambda>t. bindR (vformat m g vs) (\<lambda>u. Inr (t @ u))))
          else bindR (conversion m d v) (\<lambda>t. bindR (vformat m f vs) (\<lambda>u. Inr (t @ u))))"

definition text_at :: "mem \<Rightarrow> u64 \<Rightarrow> string res" where
  "text_at m v = (case cstring m (unat v) of None \<Rightarrow> Inl Killed | Some bs \<Rightarrow> Inr (chars_of bs))"

section \<open>Formatted output\<close>

text \<open>
  The parameter \<open>fmt\<close> is at \<open>args\<close>, the local variable \<open>content\<close> at \<open>local\<close>, the text at \<open>buf\<close>. The
  string is read before \<open>PRE_GC\<close>.
\<close>

definition Bsprintf :: "mmap_fun \<Rightarrow> frames \<Rightarrow> addr \<Rightarrow> addr \<Rightarrow> addr \<Rightarrow> u64 list \<Rightarrow> gc_state \<Rightarrow> (u64 \<times> gc_state) res" where
  "Bsprintf mmap fr buf local args vs s =
     (let m = memory s; fmt = ld64 m args in
      bindR (assert_string m ''sprintf:1'' fmt) (\<lambda>_.
      bindR (text_at m fmt) (\<lambda>f.
      bindR (vformat m f vs) (\<lambda>text.
      case vprintStringBuf text createStringBuf of
        None \<Rightarrow> Inl Killed
      | Some b \<Rightarrow> gc_section (fr 0) (string_of_buf mmap (below fr) buf local args b) s))))"

text \<open>What is written to the standard output.\<close>

definition Bprintf :: "mem \<Rightarrow> u64 \<Rightarrow> u64 list \<Rightarrow> string res" where
  "Bprintf m fmt vs =
     bindR (assert_string m ''printf:1'' fmt) (\<lambda>_. bindR (text_at m fmt) (\<lambda>f. vformat m f vs))"

text \<open>What is written to the stream \<open>file\<close>; \<open>may_write\<close> and \<open>error\<close> are the operating system's.\<close>

definition Bfprintf :: "bool \<Rightarrow> string \<Rightarrow> mem \<Rightarrow> u64 \<Rightarrow> u64 \<Rightarrow> u64 list \<Rightarrow> (u64 \<times> string) res" where
  "Bfprintf may_write error m file fmt vs =
     bindR (assert_boxed ''fprintf:1'' file) (\<lambda>_.
     bindR (assert_string m ''fprintf:2'' fmt) (\<lambda>_.
     bindR (text_at m fmt) (\<lambda>f.
     bindR (vformat m f vs) (\<lambda>text.
     if \<not> may_write then Inl (Failure (''fprintf (...): '' @ error @ [CHR 0x0A])) else Inr (file, text)))))"

section \<open>Files\<close>

type_synonym files = "string \<Rightarrow> byte list option"

record os =
  may_open :: "string \<Rightarrow> string \<Rightarrow> bool"
  may_write :: bool
  stream :: "string \<Rightarrow> u64"
  error_text :: string

text \<open>Opening for reading needs the file, opening for writing creates or empties it.\<close>

definition fopen :: "os \<Rightarrow> string \<Rightarrow> string \<Rightarrow> files \<Rightarrow> files option" where
  "fopen os f mode fs =
     (if \<not> may_open os f mode then None
      else if mode = ''r'' then (if fs f = None then None else Some fs)
      else if mode = ''w'' then Some (fs(f := Some []))
      else if mode = ''a'' then Some (if fs f = None then fs(f := Some []) else fs)
      else None)"

text \<open>The message of \<open>Lfopen\<close> has five conversions for three arguments: its text is undefined.\<close>

definition Lfopen :: "os \<Rightarrow> mem \<Rightarrow> u64 \<Rightarrow> u64 \<Rightarrow> files \<Rightarrow> (u64 \<times> files) res" where
  "Lfopen os m f mode fs =
     bindR (assert_string m ''fopen:1'' f) (\<lambda>_.
     bindR (assert_string m ''fopen:2'' mode) (\<lambda>_.
     bindR (text_at m f) (\<lambda>name.
     bindR (text_at m mode) (\<lambda>md.
     case fopen os name md fs of None \<Rightarrow> Inl Undefined | Some fs \<Rightarrow> Inr (stream os name, fs)))))"

definition Lfclose :: "u64 \<Rightarrow> unit res" where
  "Lfclose f = assert_boxed ''fclose'' f"

definition Lfexists :: "os \<Rightarrow> mem \<Rightarrow> u64 \<Rightarrow> files \<Rightarrow> u64 res" where
  "Lfexists os m fname fs =
     bindR (assert_string m ''fexists'' fname) (\<lambda>_.
     bindR (text_at m fname) (\<lambda>f. Inr (if fopen os f ''r'' fs = None then BOX 0 else BOX 1)))"

definition Lfwrite :: "os \<Rightarrow> mem \<Rightarrow> u64 \<Rightarrow> u64 \<Rightarrow> files \<Rightarrow> files res" where
  "Lfwrite os m fname str fs =
     bindR (assert_string m ''fwrite:1'' fname) (\<lambda>_.
     bindR (assert_string m ''fwrite:2'' str) (\<lambda>_.
     bindR (text_at m fname) (\<lambda>f.
     let failed = Inl (Failure (''fwrite ('' @ [CHR 0x22] @ f @ [CHR 0x22] @ ''): '' @ error_text os @ [CHR 0x0A])) in
     case fopen os f ''w'' fs of
       None \<Rightarrow> failed
     | Some fs \<Rightarrow>
         (case cstring m (unat str) of
            None \<Rightarrow> Inl Killed
          | Some bs \<Rightarrow> if may_write os then Inr (fs(f := Some bs)) else failed))))"

text \<open>The bytes are read into a new string, whose last byte the allocator has cleared.\<close>

definition Lfread :: "os \<Rightarrow> mmap_fun \<Rightarrow> frames \<Rightarrow> u64 \<Rightarrow> files \<Rightarrow> gc_state \<Rightarrow> (u64 \<times> gc_state) res" where
  "Lfread os mmap fr fname fs s =
     bindR (assert_string (memory s) ''fread'' fname) (\<lambda>_.
     bindR (text_at (memory s) fname) (\<lambda>f.
     case (fopen os f ''r'' fs, fs f) of
       (Some _, Some bs) \<Rightarrow>
         bindR (LmakeString mmap (below fr) (BOX (of_nat (length bs))) s) (\<lambda>(v, s).
         Inr (v, s\<lparr>memory := store_bytes (memory s) (unat v) bs\<rparr>))
     | _ \<Rightarrow> Inl (Failure (''fread ('' @ [CHR 0x22] @ f @ [CHR 0x22] @ ''): '' @ error_text os @ [CHR 0x0A]))))"

text \<open>
  \<open>scanf("%m[^\n]")\<close> takes the characters before the next newline, at least one of them, into a
  buffer of \<open>malloc\<close>, at \<open>buf\<close>; the variable that points to it is at \<open>local\<close>. The input that is
  left is returned; \<open>errno\<close> tells whether reading failed.
\<close>

definition LreadLine :: "mmap_fun \<Rightarrow> frames \<Rightarrow> addr \<Rightarrow> addr \<Rightarrow> bool \<Rightarrow> string \<Rightarrow> string \<Rightarrow> gc_state \<Rightarrow> (u64 \<times> string \<times> gc_state) res" where
  "LreadLine mmap fr buf local errno error inp s =
     (let line = takeWhile (\<lambda>c. c \<noteq> CHR 0x0A) inp in
      if line \<noteq> [] then
        bindR (Bstring mmap (below fr) local
          (s\<lparr>memory := st64 (store_bytes (memory s) buf (bytes_of line @ [0])) local (of_nat buf)\<rparr>)) (\<lambda>(v, s).
        Inr (v, drop (length line + 1) inp, s))
      else if errno then Inl (Failure (''readLine (): '' @ error @ [CHR 0x0A]))
      else Inr (BOX 0, inp, s))"

text \<open>\<open>status\<close> is what \<open>system\<close> returns.\<close>

definition Lsystem :: "32 word \<Rightarrow> u64" where "Lsystem status = BOX (scast status)"

section \<open>Regular expressions\<close>

text \<open>
  \<open>regcomp\<close> and \<open>regexec\<close> are parameters: the compiled expression or the message of \<open>regerror\<close>,
  of which the buffer holds 99 characters, and
  the bounds of the match, if there is one, in the characters from the position on.
\<close>

definition Lregexp :: "(string \<Rightarrow> string + u64) \<Rightarrow> mem \<Rightarrow> u64 \<Rightarrow> u64 res" where
  "Lregexp regcomp m regexp =
     bindR (text_at m regexp) (\<lambda>r. case regcomp r of Inl e \<Rightarrow> Inl (Failure (take 99 e)) | Inr b \<Rightarrow> Inr b)"

definition LregexpMatch :: "(u64 \<Rightarrow> string \<Rightarrow> (32 word \<times> 32 word) option) \<Rightarrow> mem \<Rightarrow> u64 \<Rightarrow> u64 \<Rightarrow> u64 \<Rightarrow> u64 res" where
  "LregexpMatch regexec m b s off =
     bindR (assert_boxed ''regexpMatch:1'' b) (\<lambda>_.
     bindR (assert_string m ''regexpMatch:2'' s) (\<lambda>_.
     bindR (assert_unboxed ''regexpMatch:3'' off) (\<lambda>_.
     bindR (text_at m (s + UNBOX off)) (\<lambda>t.
     case regexec b t of
       None \<Rightarrow> Inr (BOX (- 1))
     | Some (so, eo) \<Rightarrow> Inr (if so = 0 then BOX (scast eo) else BOX (- 1))))))"

end
