(* ===== verification/Alloc_Contract.thy ===== *)
theory Alloc_Contract
  imports Constructors
begin

text \<open>
  What a constructor relies on. From the allocator: the new object comes after a closed heap, which
  is the old one or the old one collected, and every word the collector knows denotes there the tree
  it denoted before. From the pool of extra roots: what is pushed around the allocation is popped
  again, and the heap is well formed on both sides of it.
\<close>

section \<open>Trees below the new object\<close>

definition fits :: "gc_state \<Rightarrow> lama_type \<Rightarrow> u64 \<Rightarrow> bool" where
  "fits s t len \<longleftrightarrow> unat len < 2 ^ 60 \<and> c_current (heap s) + 8 * type_words t (unat len) \<le> c_end (heap s)"

text \<open>
  \<open>grown s s' t len\<close>: the heap of \<open>s'\<close> is that of \<open>s\<close> with room for one more object, and the memory
  below that object is the same.
\<close>

definition grown :: "gc_state \<Rightarrow> gc_state \<Rightarrow> nat \<Rightarrow> bool" where
  "grown s s' w \<longleftrightarrow>
     heap s' = (heap s)\<lparr>c_current := c_current (heap s) + 8 * w\<rparr> \<and>
     c_current (heap s) + 8 * w \<le> c_end (heap s) \<and>
     (\<forall>x. c_begin (heap s) \<le> x \<longrightarrow> x < c_current (heap s) \<longrightarrow> memory s' x = memory s x)"

lemma grown_word:
  assumes "gc_ok s os" "grown s s' w" "h \<in> set os" "h \<le> a" "a + 8 \<le> h + 8 * obj_words (memory s) h"
  shows "ld64 (memory s') a = ld64 (memory s) a"
proof (rule ld64_cong)
  fix i :: nat assume "i < 8"
  then have "c_begin (heap s) \<le> a + i" "a + i < c_current (heap s)"
    using heap_seg_in [OF gc_okD(1) [OF assms(1)] assms(3)] assms(4,5) by linarith+
  then show "memory s' (a + i) = memory s (a + i)" using assms(2) by (simp add: grown_def)
qed

lemma grown_pointer:
  assumes ok: "gc_ok s os" and g: "grown s s' w" and v: "val_ok (whole (heap s)) os v"
  shows "is_valid_heap_pointer (heap s') v = is_valid_heap_pointer (heap s) v"
    and "is_valid_heap_pointer (heap s) v \<Longrightarrow> \<exists>h \<in> set os. unat v = h + 16"
    and "is_valid_heap_pointer (heap s) v \<Longrightarrow> data_header (memory s') v = data_header (memory s) v"
proof -
  note D = gc_okD [OF ok]
  have w: "is_valid_heap_pointer (heap s) v \<Longrightarrow> is_valid_heap_pointer (whole (heap s)) v"
    "is_valid_heap_pointer (heap s') v \<Longrightarrow> is_valid_heap_pointer (whole (heap s)) v"
    "is_valid_heap_pointer (heap s) v \<Longrightarrow> is_valid_heap_pointer (heap s') v"
    using g D(3) by (auto simp: is_valid_heap_pointer_def whole_def grown_def chunk_ok_def)
  show 1: "\<exists>h \<in> set os. unat v = h + 16" if "is_valid_heap_pointer (heap s) v"
    using v w(1) [OF that] by (simp add: val_ok_def)
  show "is_valid_heap_pointer (heap s') v = is_valid_heap_pointer (heap s) v"
  proof
    assume a: "is_valid_heap_pointer (heap s') v"
    then obtain h where "h \<in> set os" "unat v = h + 16" using v w(2) by (auto simp: val_ok_def)
    then show "is_valid_heap_pointer (heap s) v"
      using a heap_seg_header_bound [OF D(1)] heap_seg_in [OF D(1)] by (fastforce simp: is_valid_heap_pointer_def)
  qed (rule w(3))
  assume "is_valid_heap_pointer (heap s) v"
  then obtain h where h: "h \<in> set os" "unat v = h + 16" using 1 by blast
  have "ld64 (memory s') h = ld64 (memory s) h"
    using obj_words_ge_2 [OF heap_seg_ok [OF D(1) h(1)]] by (intro grown_word [OF ok g h(1)]) simp_all
  then show "data_header (memory s') v = data_header (memory s) v" by (simp add: data_header_def TO_DATA_def h(2))
qed

lemma grown_words:
  assumes ok: "gc_ok s os" and g: "grown s s' w" and h: "h \<in> set os"
    and sl: "slots (memory s) h = map (\<lambda>i. a + 8 * i) [0..<length ts]" and ts: "denote_words s ts a"
    and IH: "\<And>t v. t \<in> set ts \<Longrightarrow> denotes s t v \<Longrightarrow> val_ok (whole (heap s)) os v \<Longrightarrow> denotes s' t v"
  shows "denote_words s' ts a"
  unfolding denote_words_iff
proof (intro allI impI)
  fix i assume i: "i < length ts"
  then have a: "a + 8 * i \<in> set (slots (memory s) h)" by (simp add: sl)
  have "ld64 (memory s') (a + 8 * i) = ld64 (memory s) (a + 8 * i)"
    using slot_in_object [OF a] by (intro grown_word [OF ok g h]) simp_all
  moreover have "denotes s' (ts ! i) (ld64 (memory s) (a + 8 * i))"
    using ts i gc_okD(9) [OF ok h a] by (intro IH) (auto simp: denote_words_iff)
  ultimately show "denotes s' (ts ! i) (ld64 (memory s') (a + 8 * i))" by simp
qed

lemma grown_text:
  assumes ok: "gc_ok s os" and g: "grown s s' w" and d: "denotes s (VStr n bs) v" and h: "h \<in> set os" "unat v = h + 16"
  shows "cstring (memory s') (unat v) = Some bs"
proof (rule cstring_cong)
  show "cstring (memory s) (unat v) = Some bs" using d by simp
  fix i assume i: "i \<le> length bs"
  have "obj_bytes (memory s) h = 17 + unat n" "length bs \<le> unat n"
    using d header_fields(2,5) [OF h(2)] by (auto simp: is_obj_def obj_bytes_def)
  then have "h + 16 + i < h + 8 * obj_words (memory s) h" using obj_bytes_le_words [of "memory s" h] i by linarith
  then have "c_begin (heap s) \<le> unat v + i" "unat v + i < c_current (heap s)"
    using heap_seg_in [OF gc_okD(1) [OF ok] h(1)] h(2) by linarith+
  then show "memory s' (unat v + i) = memory s (unat v + i)" using g unfolding grown_def by blast
qed

lemma denotes_grown:
  assumes ok: "gc_ok s os" and g: "grown s s' w"
  shows "denotes s t v \<Longrightarrow> val_ok (whole (heap s)) os v \<Longrightarrow> denotes s' t v"
proof (induction t arbitrary: v)
  case (VRaw x)
  then show ?case using grown_pointer(1) [OF ok g VRaw.prems(2)] by auto
next
  case (VStr n bs)
  note P = grown_pointer [OF ok g VStr.prems(2)]
  obtain h where "h \<in> set os" "unat v = h + 16" using VStr.prems(1) P(2) by (auto simp: is_obj_def)
  then have "cstring (memory s') (unat v) = Some bs" by (rule grown_text [OF ok g VStr.prems(1)])
  then show ?case using VStr.prems(1) P(1,3) by (auto simp: is_obj_def)
next
  case (VArr ts)
  note P = grown_pointer [OF ok g VArr.prems(2)]
  obtain h where h: "h \<in> set os" "unat v = h + 16" using VArr.prems(1) P(2) by (auto simp: is_obj_def)
  have sl: "slots (memory s) h = map (\<lambda>i. unat v + 8 * i) [0..<length ts]"
    using VArr.prems(1) header_fields(1,5) [OF h(2), of "memory s"] h(2)
    by (simp add: is_obj_def slots_def slot0_def nslots_def unat_of_nat_u64)
  have "denote_words s' ts (unat v)"
    by (rule grown_words [OF ok g h(1) sl _ VArr.IH]) (use VArr.prems(1) in simp_all)
  then show ?case using VArr.prems(1) P(1,3) by (simp add: is_obj_def)
next
  case (VSexp tg ts)
  note P = grown_pointer [OF ok g VSexp.prems(2)]
  obtain h where h: "h \<in> set os" "unat v = h + 16" using VSexp.prems(1) P(2) by (auto simp: is_obj_def)
  have ty: "obj_type (memory s) h = SEXP" "obj_len (memory s) h = length ts"
    using VSexp.prems(1) header_fields(3,5) [OF h(2), of "memory s"] by (simp_all add: is_obj_def unat_of_nat_u64)
  then have sl: "slots (memory s) h = map (\<lambda>i. unat v + 8 + 8 * i) [0..<length ts]"
    by (simp add: slots_def slot0_def nslots_def h(2))
  have "denote_words s' ts (unat v + 8)"
    by (rule grown_words [OF ok g h(1) sl _ VSexp.IH]) (use VSexp.prems(1) in simp_all)
  moreover have "ld64 (memory s') (h + 16) = ld64 (memory s) (h + 16)"
    using obj_bytes_le_words [of "memory s" h] by (intro grown_word [OF ok g h(1)]) (simp_all add: obj_bytes_def ty)
  ultimately show ?case using VSexp.prems(1) P(1,3) by (simp add: is_obj_def sexp_tag_def TO_SEXP_def h(2))
next
  case (VClo c ts)
  note P = grown_pointer [OF ok g VClo.prems(2)]
  obtain h where h: "h \<in> set os" "unat v = h + 16" using VClo.prems(1) P(2) by (auto simp: is_obj_def)
  have "unat (of_nat (Suc (length ts)) :: u64) = Suc (length ts)" by (rule unat_of_nat_u64) (use VClo.prems(1) in simp)
  then have ty: "obj_type (memory s) h = CLOSURE" "obj_len (memory s) h = Suc (length ts)"
    using VClo.prems(1) header_fields(4,5) [OF h(2), of "memory s"] by (simp_all add: is_obj_def)
  then have sl: "slots (memory s) h = map (\<lambda>i. unat v + 8 + 8 * i) [0..<length ts]"
    by (simp add: slots_def slot0_def nslots_def h(2))
  have "denote_words s' ts (unat v + 8)"
    by (rule grown_words [OF ok g h(1) sl _ VClo.IH]) (use VClo.prems(1) in simp_all)
  moreover have "ld64 (memory s') (h + 16) = ld64 (memory s) (h + 16)"
    using obj_bytes_le_words [of "memory s" h] by (intro grown_word [OF ok g h(1)]) (simp_all add: obj_bytes_def ty)
  ultimately show ?case using VClo.prems(1) P(1,3) by (simp add: is_obj_def h(2))
qed simp

section \<open>Writing into an object\<close>

lemma gc_ok_update:
  assumes ok: "gc_ok s os" and h: "h \<in> set os"
    and out: "\<And>x. x < h + 8 \<or> h + 8 * obj_words (memory s) h \<le> x \<Longrightarrow> m' x = memory s x"
    and fw: "\<not> marked m' h" "\<not> enqd m' h"
    and vals: "\<And>a. a \<in> set (slots (memory s) h) \<Longrightarrow> val_ok (whole (heap s)) os (ld64 m' a)"
  shows "gc_ok (s\<lparr>memory := m'\<rparr>) os"
proof -
  note D = gc_okD [OF ok]
  have w: "c_begin (heap s) \<le> h" "h + 8 * obj_words (memory s) h \<le> c_end (heap s)"
    using heap_seg_in [OF D(1) h] D(3) by (auto simp: chunk_ok_def)
  have ld: "ld64 m' a = ld64 (memory s) a" if "a + 8 \<le> h + 8 \<or> h + 8 * obj_words (memory s) h \<le> a" for a
    using that by (intro ld64_cong out) auto
  have hd: "ld64 m' k = ld64 (memory s) k" if k: "k \<in> set os" for k
    using heap_seg_disjoint [OF D(1) h k] obj_words_ge_2 [OF heap_seg_ok [OF D(1) k]] by (cases "k = h"; intro ld; auto)
  have fd: "ld64 m' (k + 8) = ld64 (memory s) (k + 8)" if k: "k \<in> set os" "k \<noteq> h" for k
    using heap_seg_disjoint [OF D(1) h k(1)] obj_words_ge_2 [OF heap_seg_ok [OF D(1) k(1)]] k(2) by (intro ld) auto
  note sl = slots_header_cong(3) [OF hd]
  have v: "val_ok (whole (heap s)) os (ld64 m' a)" if k: "k \<in> set os" "a \<in> set (slots (memory s) k)" for k a
  proof (cases "k = h")
    case True
    then show ?thesis using vals k by simp
  next
    case False
    then have "ld64 m' a = ld64 (memory s) a"
      using heap_seg_disjoint [OF D(1) h k(1)] slot_in_object [OF k(2)] by (intro ld) auto
    then show ?thesis using D(9) [OF k] by simp
  qed
  have r: "ld64 m' a = ld64 (memory s) a" if "a \<in> set (fix_addrs s)" for a
    using D(10) [OF that] w by (intro ld) (auto simp: root_word_ok_def off_heap_def)
  have adr: "root_addrs (s\<lparr>memory := m'\<rparr>) = root_addrs s" "fix_addrs (s\<lparr>memory := m'\<rparr>) = fix_addrs s"
    by (simp_all add: root_addrs_def fix_addrs_def pool_def in_scanned_region_def)
  have um: "unmarked_heap m' os"
    unfolding unmarked_heap_def
  proof
    fix k assume k: "k \<in> set os"
    show "\<not> marked m' k \<and> \<not> enqd m' k"
      using fw D(2) fwd_word_cong(1,2) [OF fd [OF k]] k by (cases "k = h") (simp_all add: unmarked_heap_def)
  qed
  have seg: "heap_seg m' (c_begin (heap s)) os (c_current (heap s))" by (rule heap_seg_cong [OF D(1) hd])
  have "root_word_ok (s\<lparr>memory := m'\<rparr>) os a" if "a \<in> set (fix_addrs s)" for a
    using D(10) [OF that] r [OF that] by (simp add: root_word_ok_def adr)
  then show ?thesis
    unfolding gc_ok_def adr using D(3-8) um seg v sl by simp
qed

section \<open>The contract of the allocator\<close>

definition new_size :: "gc_state \<Rightarrow> addr list \<Rightarrow> lama_type \<Rightarrow> u64 \<Rightarrow> nat" where
  "new_size s os t len = next_heap_words (live_size s os) (type_words t (unat len)) (c_size (heap s))"

text \<open>Either the object fits, or \<open>mmap\<close> gives a fresh heap at \<open>b\<close>.\<close>

definition can_alloc :: "mmap_fun \<Rightarrow> gc_state \<Rightarrow> addr list \<Rightarrow> addr \<Rightarrow> lama_type \<Rightarrow> u64 \<Rightarrow> bool" where
  "can_alloc mmap s os b t len \<longleftrightarrow> unat len < 2 ^ 60 \<and>
     (c_current (heap s) + 8 * type_words t (unat len) \<le> c_end (heap s) \<or>
      c_current (heap s) + 8 * type_words t (unat len) < 2 ^ 64 \<and> maps_fresh mmap s os b (new_size s os t len))"

text \<open>A byte that neither the allocator nor the collector writes.\<close>

definition outside :: "gc_state \<Rightarrow> addr \<Rightarrow> nat \<Rightarrow> addr \<Rightarrow> bool" where
  "outside s b n x \<longleftrightarrow> off_heap (heap s) x \<and> (x < b \<or> b + 8 * n \<le> x) \<and> (\<forall>p \<in> set (fix_addrs s). x < p \<or> p + 8 \<le> x)"

text \<open>The state before the new object is added.\<close>

definition settled :: "gc_state \<Rightarrow> addr list \<Rightarrow> addr \<Rightarrow> nat \<Rightarrow> gc_state \<Rightarrow> addr list \<Rightarrow> bool" where
  "settled s os b n s1 os1 \<longleftrightarrow>
     gc_ok s1 os1 \<and> s1 = s\<lparr>memory := memory s1, heap := heap s1\<rparr> \<and>
     (\<forall>a \<in> set (fix_addrs s). \<forall>t. denotes s t (ld64 (memory s) a) \<longrightarrow> denotes s1 t (ld64 (memory s1) a)) \<and>
     (\<forall>a \<in> set (fix_addrs s). \<not> is_valid_heap_pointer (heap s) (ld64 (memory s) a) \<longrightarrow>
        ld64 (memory s1) a = ld64 (memory s) a) \<and>
     (\<forall>x. outside s b n x \<longrightarrow> memory s1 x = memory s x \<and> (c_end (heap s1) \<le> x \<or> x < c_begin (heap s1)))"

lemma settled_refl: "gc_ok s os \<Longrightarrow> settled s os b n s os"
  by (auto simp: settled_def outside_def off_heap_def)

lemma settled_collected:
  assumes ok: "gc_ok s os" and col: "collected s os b n s1" and ok1: "gc_ok s1 os1"
    and f: "fresh_mapping s os b n" "live_size s os < n"
  shows "settled s os b n s1 os1"
proof -
  have C: "collection s os b n s1" using ok col f by (simp add: collection_def)
  note c = col [unfolded collected_def]
  have d: "denotes s1 t (ld64 (memory s1) a)" if "a \<in> set (fix_addrs s)" "denotes s t (ld64 (memory s) a)" for a t
    using collection_denotes [OF C that(2) collection_root_held [OF C that(1)]] c that(1) by simp
  have e: "ld64 (memory s1) a = ld64 (memory s) a"
    if "a \<in> set (fix_addrs s)" "\<not> is_valid_heap_pointer (heap s) (ld64 (memory s) a)" for a
    using c that by (simp add: gc_word_def)
  have o: "memory s1 x = memory s x \<and> (c_end (heap s1) \<le> x \<or> x < c_begin (heap s1))" if "outside s b n x" for x
    using c that by (auto simp: outside_def)
  have "s1 = s\<lparr>memory := memory s1, heap := heap s1\<rparr>" using c by blast
  then show ?thesis using ok1 d e o by (simp add: settled_def)
qed

lemma alloc_contract:
  assumes ok: "gc_ok s os" and can: "can_alloc mmap s os b t len"
  shows "\<exists>s1 os1. alloc_object mmap t len s = Inr (c_current (heap s1), with_object s1 t len) \<and>
    settled s os b (new_size s os t len) s1 os1 \<and> fits s1 t len"
proof (cases "c_current (heap s) + 8 * type_words t (unat len) \<le> c_end (heap s)")
  case True
  then have "fits s t len" using can by (simp add: fits_def can_alloc_def)
  then show ?thesis using alloc_object_room [OF ok _ True] settled_refl [OF ok] can
    by (intro exI [of _ s] exI [of _ os]) (simp add: can_alloc_def)
next
  case False
  let ?n = "new_size s os t len"
  have len: "unat len < 2 ^ 60" and full: "c_end (heap s) < c_current (heap s) + 8 * type_words t (unat len)"
    "c_current (heap s) + 8 * type_words t (unat len) < 2 ^ 64" and mf: "maps_fresh mmap s os b ?n"
    using can False by (simp_all add: can_alloc_def)
  obtain s1 where s1: "alloc_object mmap t len s = Inr (b + 8 * live_size s os, with_object s1 t len)"
    "collected s os b ?n s1" "gc_ok s1 (map (gc_addr b s os) (filter (live s) os))"
    "c_current (heap s1) = b + 8 * live_size s os"
    using alloc_object_collect [OF ok len full new_size_def mf] by blast
  have hp: "heap s1 = \<lparr>c_begin = b, c_end = b + 8 * ?n, c_current = b + 8 * live_size s os, c_size = ?n\<rparr>"
    using s1(2) by (simp add: collected_def)
  have n: "live_size s os < ?n" "live_size s os + type_words t (unat len) \<le> ?n"
    using next_heap_words_bounds(2,3) by (simp_all add: new_size_def)
  have "settled s os b ?n s1 (map (gc_addr b s os) (filter (live s) os))"
    using settled_collected [OF ok s1(2,3) _ n(1)] mf by (simp add: maps_fresh_def)
  moreover have "fits s1 t len" using len n(2) by (simp add: fits_def hp)
  ultimately show ?thesis using s1(1,4) by metis
qed

section \<open>The new object\<close>

lemma unat_new_pointer:
  assumes "gc_ok s os" "fits s t len"
  shows "unat (of_nat (c_current (heap s) + 16) :: u64) = c_current (heap s) + 16"
    and "even (of_nat (c_current (heap s) + 16) :: u64)" "16 \<le> 8 * type_words t (unat len)"
proof -
  have D: "c_current (heap s) + 8 * type_words t (unat len) < 2 ^ 64"
    using assms gc_okD(6) [OF assms(1)] by (simp add: fits_def)
  show w: "16 \<le> 8 * type_words t (unat len)" by (cases t) (simp_all add: type_words_def)
  show u: "unat (of_nat (c_current (heap s) + 16) :: u64) = c_current (heap s) + 16"
    by (rule unat_of_nat_u64) (use D w in linarith)
  have seg: "heap_seg m a os e \<Longrightarrow> a mod 8 = 0 \<Longrightarrow> e mod 8 = 0" for m a e
    by (induction os arbitrary: a) auto
  have "c_current (heap s) mod 8 = 0" by (rule seg [OF gc_okD(1,4) [OF assms(1)]])
  then have "even (c_current (heap s) + 16)" by presburger
  then show "even (of_nat (c_current (heap s) + 16) :: u64)" unfolding even_u64_iff u .
qed

lemma new_object_written:
  fixes s :: gc_state and os :: "addr list" and t :: lama_type and len :: u64 and m' :: mem
  defines "p \<equiv> c_current (heap s)" and "w \<equiv> type_words t (unat len)"
    and "s' \<equiv> with_object s t len\<lparr>memory := m'\<rparr>"
  assumes ok: "gc_ok s os" and fit: "fits s t len"
    and out: "\<forall>x. x < p + 8 \<or> p + 8 * w \<le> x \<longrightarrow> m' x = memory (with_object s t len) x"
  shows "grown s s' w" and "is_obj s' (of_nat (p + 16)) (tag_of t) len"
    and "\<And>a. a \<in> set (fix_addrs s) \<Longrightarrow> ld64 m' a = ld64 (memory s) a"
    and "\<not> marked m' p \<Longrightarrow> \<not> enqd m' p \<Longrightarrow>
      (\<And>a. a \<in> set (slots (memory (with_object s t len)) p) \<Longrightarrow> val_ok (whole (heap s)) (os @ [p]) (ld64 m' a)) \<Longrightarrow>
      gc_ok s' (os @ [p])"
proof -
  have len: "unat len < 2 ^ 60" and room: "p + 8 * w \<le> c_end (heap s)" using fit by (simp_all add: fits_def p_def w_def)
  note B = with_object_blank [OF len, where s = s and t = t, folded p_def w_def]
  note U = unat_new_pointer [OF ok fit, folded p_def w_def]
  have hp: "heap s' = (heap s)\<lparr>c_current := p + 8 * w\<rparr>" by (simp add: s'_def with_object_def Let_def p_def w_def)
  have me: "m' x = memory s x" if "x < p \<or> p + 8 * w \<le> x" for x using out B(5) [of x] that by auto
  show g: "grown s s' w" using me room by (auto simp: grown_def hp p_def [symmetric]) (simp add: s'_def)
  have hd: "ld64 m' p = ld64 (memory (with_object s t len)) p" using out by (intro ld64_cong) auto
  have h0: "ld64 (memory (with_object s t len)) p = mk_header (tag_of t) len"
    by (simp add: with_object_def p_def Let_def ld64_st64_other)
  have "is_valid_heap_pointer (heap s') (of_nat (p + 16))"
    using U gc_okD(3) [OF ok]
    by (simp add: is_valid_heap_pointer_def unboxed_iff hp p_def [symmetric] chunk_ok_def del: of_nat_add)
  moreover have "data_header m' (of_nat (p + 16)) = mk_header (tag_of t) len"
    unfolding data_header_def TO_DATA_def U(1) using hd h0 by simp
  ultimately show "is_obj s' (of_nat (p + 16)) (tag_of t) len"
    using TAG_header [OF tag_of_small] LEN_header [OF tag_of_small] len by (simp add: is_obj_def s'_def)
  show "ld64 m' a = ld64 (memory s) a" if "a \<in> set (fix_addrs s)" for a
    using gc_okD(10) [OF ok that] room gc_okD(3) [OF ok]
    by (intro ld64_cong me) (auto simp: root_word_ok_def off_heap_def chunk_ok_def p_def)
  have wh: "whole (heap (with_object s t len)) = whole (heap s)" by (simp add: with_object_def Let_def whole_def)
  show "gc_ok s' (os @ [p])"
    if "\<not> marked m' p" "\<not> enqd m' p"
      "\<And>a. a \<in> set (slots (memory (with_object s t len)) p) \<Longrightarrow> val_ok (whole (heap s)) (os @ [p]) (ld64 m' a)"
    unfolding s'_def
  proof (rule gc_ok_update)
    show "gc_ok (with_object s t len) (os @ [p])"
      using with_object_gc_ok [OF ok len] room by (simp add: p_def w_def)
    show "p \<in> set (os @ [p])" by simp
  qed (use out B(2) that wh in auto)
qed

text \<open>Usually the forward address stays as the allocation left it.\<close>

lemma new_object:
  fixes s :: gc_state and os :: "addr list" and t :: lama_type and len :: u64 and m' :: mem
  defines "p \<equiv> c_current (heap s)" and "w \<equiv> type_words t (unat len)"
    and "s' \<equiv> with_object s t len\<lparr>memory := m'\<rparr>"
  assumes ok: "gc_ok s os" and fit: "fits s t len"
    and out: "\<forall>x. x < p + 16 \<or> p + 8 * w \<le> x \<longrightarrow> m' x = memory (with_object s t len) x"
  shows "grown s s' w" and "is_obj s' (of_nat (p + 16)) (tag_of t) len"
    and "\<And>a. a \<in> set (fix_addrs s) \<Longrightarrow> ld64 m' a = ld64 (memory s) a"
    and "\<not> marked m' p" "\<not> enqd m' p"
proof -
  have out': "\<forall>x. x < p + 8 \<or> p + 8 * w \<le> x \<longrightarrow> m' x = memory (with_object s t len) x" using out by auto
  note N = new_object_written [OF ok fit out' [unfolded p_def w_def], folded p_def w_def s'_def]
  show "grown s s' w" "is_obj s' (of_nat (p + 16)) (tag_of t) len"
    "\<And>a. a \<in> set (fix_addrs s) \<Longrightarrow> ld64 m' a = ld64 (memory s) a" by (rule N(1), rule N(2), erule N(3))
  have len: "unat len < 2 ^ 60" using fit by (simp add: fits_def)
  have "ld64 m' (p + 8) = ld64 (memory (with_object s t len)) (p + 8)" using out by (intro ld64_cong) auto
  from fwd_word_cong(1,2) [OF this] show "\<not> marked m' p" "\<not> enqd m' p"
    using with_object_blank(3,4) [OF len, of s t] by (simp_all add: p_def)
qed

section \<open>The pool around an allocation\<close>

text \<open>
  The address of a word the collector may be given as an extra root: one of the words it scans, or
  one outside the two scanned regions (the words at the stack top and at the stack bottom are neither).
\<close>

definition scannable :: "gc_state \<Rightarrow> addr \<Rightarrow> bool" where
  "scannable s a \<longleftrightarrow> a \<in> set (words_between (gc_stack_top s + 8) (gc_stack_bottom s)
      @ words_between (start_custom_data s) (stop_custom_data s)) \<or>
     \<not> in_scanned_region s a \<and> a \<notin> set (words_between (gc_stack_top s + 8) (gc_stack_bottom s + 8))"

definition rootable :: "gc_state \<Rightarrow> addr list \<Rightarrow> addr \<Rightarrow> bool" where
  "rootable s os a \<longleftrightarrow> a mod 8 = 0 \<and> off_heap (heap s) a \<and> val_ok (whole (heap s)) os (ld64 (memory s) a) \<and> scannable s a"

lemma sans_pool_fields:
  assumes "sans_pool s = sans_pool s'"
  shows "heap s = heap s'" "memory s = memory s'" "gc_stack_top s = gc_stack_top s'"
    "gc_stack_bottom s = gc_stack_bottom s'" "start_custom_data s = start_custom_data s'"
    "stop_custom_data s = stop_custom_data s'"
  using assms by (auto simp: sans_pool_def dest: arg_cong [where f = heap] arg_cong [where f = memory]
      arg_cong [where f = gc_stack_top] arg_cong [where f = gc_stack_bottom]
      arg_cong [where f = start_custom_data] arg_cong [where f = stop_custom_data])

lemma words_in_region: "a \<in> set (words_between p e) \<Longrightarrow> p \<le> a \<and> a < e"
  by (auto simp: words_between_def)

lemma pool_fix_addrs:
  assumes "sans_pool s' = sans_pool s" "pool s' = pool s @ rs" "\<forall>a \<in> set rs. scannable s a"
  shows "set (fix_addrs s') = set (fix_addrs s) \<union> set rs" "set (root_addrs s') = set (root_addrs s) \<union> set rs"
proof -
  note F = sans_pool_fields [OF assms(1)]
  have sc: "in_scanned_region s' = in_scanned_region s" by (simp add: fun_eq_iff in_scanned_region_def F)
  have "set (words_between p e) \<subseteq> set (words_between p (e + 8))" for p e by (rule words_between_mono) simp
  then show "set (fix_addrs s') = set (fix_addrs s) \<union> set rs" "set (root_addrs s') = set (root_addrs s) \<union> set rs"
    using assms(3) by (auto simp: fix_addrs_def root_addrs_def F sc assms(2) scannable_def)
qed

lemma push_gc_ok:
  assumes "gc_ok s os" "sans_pool s' = sans_pool s" "pool s' = pool s @ rs" "\<forall>a \<in> set rs. rootable s os a"
  shows "gc_ok s' os"
proof -
  note F = sans_pool_fields [OF assms(2)]
  note A = pool_fix_addrs [OF assms(2,3)]
  have sc: "\<forall>a \<in> set rs. scannable s a" using assms(4) by (simp add: rootable_def)
  have "root_word_ok s' os a" if "a \<in> set (fix_addrs s')" for a
    using that assms(4) gc_okD(10) [OF assms(1)] A [OF sc] by (auto simp: root_word_ok_def rootable_def F)
  moreover have "set (root_addrs s') \<subseteq> set (fix_addrs s')" using A [OF sc] gc_okD(8) [OF assms(1)] by auto
  ultimately show ?thesis using assms(1) by (simp add: gc_ok_def F)
qed

lemma pop_gc_ok:
  assumes "gc_ok s' os" "sans_pool s' = sans_pool s" "pool s' = pool s @ rs" "\<forall>a \<in> set rs. scannable s a"
    and "set (root_addrs s) \<subseteq> set (fix_addrs s)"
  shows "gc_ok s os"
proof -
  note F = sans_pool_fields [OF assms(2)]
  note A = pool_fix_addrs [OF assms(2,3,4)]
  have "root_word_ok s os a" if a: "a \<in> set (fix_addrs s)" for a
  proof -
    have r: "root_word_ok s' os a" using gc_okD(10) [OF assms(1)] a A by blast
    have "a \<in> set (root_addrs s)" if "a \<in> set rs"
    proof (cases "in_scanned_region s a \<or> a \<in> set (words_between (gc_stack_top s + 8) (gc_stack_bottom s + 8))")
      case True
      then show ?thesis using that assms(4) by (auto simp: scannable_def root_addrs_def)
    next
      case False
      then have "a \<notin> set (words_between (start_custom_data s) (stop_custom_data s))"
        using words_in_region [of a "start_custom_data s"] by (fastforce simp: in_scanned_region_def)
      then show ?thesis using False a by (auto simp: fix_addrs_def root_addrs_def)
    qed
    then show ?thesis using r A by (auto simp: root_word_ok_def F)
  qed
  then show ?thesis using assms(1,5) by (simp add: gc_ok_def F)
qed

end
