(* ===== verification/Constructors_Correct.thy ===== *)
theory Constructors_Correct
  imports Alloc_Contract
begin

text \<open>
  The constructors build the tree of their arguments, whether or not the allocation collects: a
  constructor called in a state with a well-formed heap returns, its result denotes the array,
  S-expression or closure of the trees of the arguments, and everything else the program holds
  denotes what it denoted before.
\<close>

section \<open>Copying words\<close>

lemma copy_words_spec:
  assumes "\<And>i j. i < n \<Longrightarrow> j < n \<Longrightarrow> src + 8 * i + 8 \<le> dst + 8 * j \<or> dst + 8 * j + 8 \<le> src + 8 * i"
  shows "(\<forall>i < n. ld64 (copy_words m dst src n) (dst + 8 * i) = ld64 m (src + 8 * i)) \<and>
    (\<forall>x. x < dst \<or> dst + 8 * n \<le> x \<longrightarrow> copy_words m dst src n x = m x)"
  using assms
proof (induction n arbitrary: m dst src)
  case (Suc n)
  let ?m = "st64 m dst (ld64 m src)"
  have IH: "(\<forall>i < n. ld64 (copy_words ?m (dst + 8) (src + 8) n) (dst + 8 + 8 * i) = ld64 ?m (src + 8 + 8 * i)) \<and>
      (\<forall>x. x < dst + 8 \<or> dst + 8 + 8 * n \<le> x \<longrightarrow> copy_words ?m (dst + 8) (src + 8) n x = ?m x)"
  proof (rule Suc.IH)
    show "src + 8 + 8 * i + 8 \<le> dst + 8 + 8 * j \<or> dst + 8 + 8 * j + 8 \<le> src + 8 + 8 * i" if "i < n" "j < n" for i j
      using Suc.prems [of "Suc i" "Suc j"] that by simp
  qed
  have "ld64 (copy_words m dst src (Suc n)) (dst + 8 * i) = ld64 m (src + 8 * i)" if "i < Suc n" for i
  proof (cases i)
    case 0
    have "ld64 (copy_words ?m (dst + 8) (src + 8) n) dst = ld64 ?m dst" using IH by (intro ld64_cong) simp
    then show ?thesis using 0 by simp
  next
    case (Suc k)
    then have "ld64 (copy_words m dst src (Suc n)) (dst + 8 * i) = ld64 ?m (src + 8 + 8 * k)"
      using IH that by (simp add: add.assoc)
    also have "\<dots> = ld64 m (src + 8 + 8 * k)" using Suc.prems [of i 0] that Suc by (intro ld64_st64_other) auto
    finally show ?thesis using Suc by (simp add: add.assoc)
  qed
  moreover have "copy_words m dst src (Suc n) x = m x" if "x < dst \<or> dst + 8 * Suc n \<le> x" for x
    using IH that by (auto simp: st64_apply)
  ultimately show ?case by blast
qed simp

section \<open>The trees do not depend on the pool and the stack bounds\<close>

lemma denotes_cong:
  assumes "heap s' = heap s" "memory s' = memory s"
  shows "denotes s' t v = denotes s t v"
proof (induction t arbitrary: v)
  case (VArr ts)
  then show ?case by (simp add: is_obj_def assms denote_words_iff)
next
  case (VSexp tg ts)
  then show ?case by (simp add: is_obj_def assms denote_words_iff)
next
  case (VClo c ts)
  then show ?case by (simp add: is_obj_def assms denote_words_iff)
qed (simp_all add: is_obj_def assms)

section \<open>A constructor\<close>

text \<open>
  \<open>built s s' t v\<close>: coming from \<open>s\<close>, \<open>v\<close> denotes \<open>t\<close>, the heap is well formed, the pool and
  the bounds of the stack are as before and so are the trees of the words the collector knows.
\<close>

definition keeps_trees :: "gc_state \<Rightarrow> gc_state \<Rightarrow> bool" where
  "keeps_trees s s' \<longleftrightarrow> (\<forall>a \<in> set (fix_addrs s). \<forall>t. denotes s t (ld64 (memory s) a) \<longrightarrow> denotes s' t (ld64 (memory s') a))"

definition same_bounds :: "gc_state \<Rightarrow> gc_state \<Rightarrow> bool" where
  "same_bounds s s' \<longleftrightarrow> pool s' = pool s \<and> (pool_ok s \<longrightarrow> pool_ok s') \<and> gc_stack_top s' = gc_stack_top s \<and> gc_stack_bottom s' = gc_stack_bottom s \<and>
     start_custom_data s' = start_custom_data s \<and> stop_custom_data s' = stop_custom_data s"

definition built :: "gc_state \<Rightarrow> gc_state \<Rightarrow> vtree \<Rightarrow> u64 \<Rightarrow> bool" where
  "built s s' t v \<longleftrightarrow> denotes s' t v \<and> (\<exists>os'. gc_ok s' os' \<and> val_ok (whole (heap s')) os' v) \<and>
     same_bounds s s' \<and> keeps_trees s s'"

lemma push_all_SomeD:
  assumes "pool_ok s" "for_each push_extra_root rs s = Inr s2"
  shows "length (pool s) + length rs \<le> MAX_EXTRA_ROOTS_NUMBER" "pool_ok s2" "pool s2 = pool s @ rs" "sans_pool s2 = sans_pool s"
proof -
  have l: "length (pool s) \<le> MAX_EXTRA_ROOTS_NUMBER" using assms(1) by (simp add: pool_ok_def pool_def)
  show r: "length (pool s) + length rs \<le> MAX_EXTRA_ROOTS_NUMBER"
    using extra.push_all_overflow [OF assms(1) _ l, of rs] assms(2) by (cases "length (pool s) + length rs \<le> MAX_EXTRA_ROOTS_NUMBER") auto
  show "pool_ok s2" "pool s2 = pool s @ rs" "sans_pool s2 = sans_pool s"
    using extra.push_all [OF assms(1) r] assms(2) by auto
qed

text \<open>Pushing the roots, a body that keeps the pool, popping them again.\<close>

lemma rooted_run:
  assumes ok: "pool_ok s" "gc_ok s os" and push: "for_each push_extra_root rs s = Inr s2"
    and rs: "\<forall>a \<in> set rs. scannable s a"
    and f: "f s2 = Inr (v, s3)" "built s2 s3 t v"
  shows "\<exists>s'. rooted rs f s = Inr (v, s') \<and> built s s' t v"
proof -
  note P = push_all_SomeD [OF ok(1) push]
  note F2 = sans_pool_fields [OF P(4)]
  have b: "same_bounds s2 s3" "denotes s3 t v" "keeps_trees s2 s3" using f(2) by (simp_all add: built_def)
  then obtain s' where s': "for_each pop_extra_root (rev rs) s3 = Inr s'" "pool_ok s'" "pool s' = pool s" "sans_pool s' = sans_pool s3"
    using extra.pop_all [of s3 "pool s" rs] P(2,3) by (auto simp: same_bounds_def)
  note F3 = sans_pool_fields [OF s'(4)]
  obtain os3 where o: "gc_ok s3 os3" "val_ok (whole (heap s3)) os3 v" using f(2) by (auto simp: built_def)
  have sb: "same_bounds s s'" using s'(2,3) b(1) by (simp add: same_bounds_def F3 F2)
  have fx: "fix_addrs s' = fix_addrs s" "root_addrs s' = root_addrs s" "scannable s' = scannable s"
    using sb by (simp_all add: same_bounds_def fix_addrs_def root_addrs_def scannable_def in_scanned_region_def fun_eq_iff)
  have "gc_ok s' os3"
  proof (rule pop_gc_ok [OF o(1)])
    show "sans_pool s3 = sans_pool s'" "pool s3 = pool s' @ rs"
      using s'(3,4) b(1) P(3) by (simp_all add: same_bounds_def)
  qed (use rs gc_okD(8) [OF ok(2)] fx in simp_all)
  moreover have "keeps_trees s s'"
    unfolding keeps_trees_def
  proof (intro ballI allI impI)
    fix a u assume a: "a \<in> set (fix_addrs s)" "denotes s u (ld64 (memory s) a)"
    have "denotes s2 u (ld64 (memory s2) a)" using a(2) denotes_cong [of s2 s] by (simp add: F2)
    then have "denotes s3 u (ld64 (memory s3) a)"
      using b(3) a(1) pool_fix_addrs(1) [OF P(4,3) rs] by (simp add: keeps_trees_def)
    then show "denotes s' u (ld64 (memory s') a)" using denotes_cong [of s' s3] by (simp add: F3)
  qed
  moreover have "denotes s' t v" using b(2) denotes_cong [of s' s3] by (simp add: F3)
  ultimately have "built s s' t v" using o(2) sb by (auto simp: built_def F3)
  then show ?thesis using push f(1) s'(1) by (simp add: rooted_def)
qed

text \<open>What is left to show for a constructor: the contents of its object.\<close>

lemma settledD:
  assumes "settled s os b n s1 os1"
  shows "gc_ok s1 os1" "fix_addrs s1 = fix_addrs s" "pool s1 = pool s" "pool_ok s1 = pool_ok s"
    "gc_stack_top s1 = gc_stack_top s" "gc_stack_bottom s1 = gc_stack_bottom s"
    "start_custom_data s1 = start_custom_data s" "stop_custom_data s1 = stop_custom_data s"
    "extra_roots s1 = extra_roots s"
proof -
  have e: "s1 = s\<lparr>memory := memory s1, heap := heap s1\<rparr>" using assms by (simp add: settled_def)
  show "gc_ok s1 os1" using assms by (simp add: settled_def)
  show "fix_addrs s1 = fix_addrs s" by (subst e) (simp add: fix_addrs_def pool_def in_scanned_region_def)
  show "pool s1 = pool s" by (subst e) (simp add: pool_def)
  show "pool_ok s1 = pool_ok s" by (subst e) (simp add: pool_ok_def)
  show "gc_stack_top s1 = gc_stack_top s" by (subst e) simp
  show "gc_stack_bottom s1 = gc_stack_bottom s" by (subst e) simp
  show "start_custom_data s1 = start_custom_data s" by (subst e) simp
  show "stop_custom_data s1 = stop_custom_data s" by (subst e) simp
  show "extra_roots s1 = extra_roots s" by (subst e) simp
qed

lemma settled_built_written:
  fixes s s1 :: gc_state and os os1 :: "addr list" and t :: lama_type and len :: u64 and m' :: mem
  defines "p \<equiv> c_current (heap s1)" and "w \<equiv> type_words t (unat len)"
    and "s' \<equiv> with_object s1 t len\<lparr>memory := m'\<rparr>"
  assumes st: "settled s os b n s1 os1" and fit: "fits s1 t len"
    and out: "\<forall>x. x < p + 8 \<or> p + 8 * w \<le> x \<longrightarrow> m' x = memory (with_object s1 t len) x"
    and fw: "\<not> marked m' p" "\<not> enqd m' p"
    and slots: "\<And>a. a \<in> set (slots (memory (with_object s1 t len)) p) \<Longrightarrow> val_ok (whole (heap s1)) (os1 @ [p]) (ld64 m' a)"
    and den: "denotes s' T (of_nat (p + 16))"
  shows "built s s' T (of_nat (p + 16))"
proof -
  note D = settledD [OF st]
  note N = new_object_written [OF D(1) fit out [unfolded p_def w_def], folded p_def w_def s'_def]
  have ok: "gc_ok s' (os1 @ [p])" using N(4) [OF fw] slots by blast
  have v: "unat (of_nat (p + 16) :: u64) = p + 16" using unat_new_pointer(1) [OF D(1) fit] by (simp add: p_def)
  have "val_ok (whole (heap s')) (os1 @ [p]) (of_nat (p + 16))" unfolding val_ok_def v by auto
  moreover have "same_bounds s s'"
    using D by (simp add: same_bounds_def s'_def with_object_def Let_def pool_def pool_ok_def)
  moreover have "keeps_trees s s'"
    unfolding keeps_trees_def
  proof (intro ballI allI impI)
    fix a u assume a: "a \<in> set (fix_addrs s)" "denotes s u (ld64 (memory s) a)"
    have "denotes s1 u (ld64 (memory s1) a)" using st a by (simp add: settled_def)
    moreover have "val_ok (whole (heap s1)) os1 (ld64 (memory s1) a)"
      using gc_okD(10) [OF D(1)] a(1) D(2) by (simp add: root_word_ok_def)
    ultimately have "denotes s' u (ld64 (memory s1) a)" by (rule denotes_grown [OF D(1) N(1)])
    then show "denotes s' u (ld64 (memory s') a)" using N(3) [of a] a(1) D(2) by (simp add: s'_def)
  qed
  ultimately show ?thesis using den ok by (auto simp: built_def)
qed

lemma settled_built:
  fixes s s1 :: gc_state and os os1 :: "addr list" and t :: lama_type and len :: u64 and m' :: mem
  defines "p \<equiv> c_current (heap s1)" and "w \<equiv> type_words t (unat len)"
    and "s' \<equiv> with_object s1 t len\<lparr>memory := m'\<rparr>"
  assumes st: "settled s os b n s1 os1" and fit: "fits s1 t len"
    and out: "\<forall>x. x < p + 16 \<or> p + 8 * w \<le> x \<longrightarrow> m' x = memory (with_object s1 t len) x"
    and slots: "\<And>a. a \<in> set (slots (memory (with_object s1 t len)) p) \<Longrightarrow> val_ok (whole (heap s1)) (os1 @ [p]) (ld64 m' a)"
    and den: "denotes s' T (of_nat (p + 16))"
  shows "built s s' T (of_nat (p + 16))"
proof -
  have out': "\<forall>x. x < p + 8 \<or> p + 8 * w \<le> x \<longrightarrow> m' x = memory (with_object s1 t len) x" using out by auto
  note N = new_object(4,5) [OF settledD(1) [OF st] fit out [unfolded p_def w_def], folded p_def]
  show ?thesis
    unfolding p_def s'_def
    by (rule settled_built_written [OF st fit out' [unfolded p_def w_def] N [unfolded p_def]])
      (use slots den in \<open>simp_all add: p_def s'_def\<close>)
qed

text \<open>Fields copied from words the collector knows.\<close>

lemma fields_denote:
  fixes s1 :: gc_state and os1 :: "addr list" and t :: lama_type and len :: u64 and m' :: mem
  defines "p \<equiv> c_current (heap s1)" and "s' \<equiv> with_object s1 t len\<lparr>memory := m'\<rparr>"
  assumes ok: "gc_ok s1 os1" and g: "grown s1 s' w"
    and fld: "\<And>i. i < length ts \<Longrightarrow> ld64 m' (a + 8 * i) = ld64 (memory s1) (src + 8 * i) \<and>
      src + 8 * i \<in> set (fix_addrs s1) \<and> denotes s1 (ts ! i) (ld64 (memory s1) (src + 8 * i))"
  shows "denote_words s' ts a" "\<And>i. i < length ts \<Longrightarrow> val_ok (whole (heap s1)) (os1 @ [p]) (ld64 m' (a + 8 * i))"
proof -
  have v: "val_ok (whole (heap s1)) os1 (ld64 (memory s1) (src + 8 * i))" if "i < length ts" for i
    using gc_okD(10) [OF ok] fld [OF that] by (simp add: root_word_ok_def)
  show "denote_words s' ts a"
    unfolding denote_words_iff using denotes_grown [OF ok g _ v] fld by (simp add: s'_def)
  show "val_ok (whole (heap s1)) (os1 @ [p]) (ld64 m' (a + 8 * i))" if "i < length ts" for i
    using v [OF that] fld [OF that] val_ok_mono [of "whole (heap s1)" os1 _ "os1 @ [p]"] by auto
qed

lemma args_copied:
  fixes s1 :: gc_state and m :: mem and h :: u64 and src n :: nat
  defines "p \<equiv> c_current (heap s1)"
  assumes ok: "gc_ok s1 os1" and room: "p + off + 8 * n \<le> c_end (heap s1)"
    and args: "\<forall>i < n. src + 8 * i \<in> set (fix_addrs s1)"
  shows "i < n \<Longrightarrow> ld64 (copy_words m (p + off) src n) (p + off + 8 * i) = ld64 m (src + 8 * i)"
    and "x < p + off \<or> p + off + 8 * n \<le> x \<Longrightarrow> copy_words m (p + off) src n x = m x"
proof -
  have "src + 8 * i + 8 \<le> p + off + 8 * j \<or> p + off + 8 * j + 8 \<le> src + 8 * i" if "i < n" "j < n" for i j
  proof -
    have "off_heap (heap s1) (src + 8 * i)" using gc_okD(10) [OF ok] args that(1) by (simp add: root_word_ok_def)
    moreover have "c_begin (heap s1) \<le> p" using gc_okD(3) [OF ok] by (simp add: chunk_ok_def p_def)
    moreover have "p + off + 8 * j + 8 \<le> c_end (heap s1)" using room that(2) by linarith
    ultimately show ?thesis by (auto simp: off_heap_def)
  qed
  then have c: "(\<forall>i < n. ld64 (copy_words m (p + off) src n) (p + off + 8 * i) = ld64 m (src + 8 * i)) \<and>
      (\<forall>x. x < p + off \<or> p + off + 8 * n \<le> x \<longrightarrow> copy_words m (p + off) src n x = m x)"
    by (rule copy_words_spec)
  show "i < n \<Longrightarrow> ld64 (copy_words m (p + off) src n) (p + off + 8 * i) = ld64 m (src + 8 * i)" using c by blast
  show "x < p + off \<or> p + off + 8 * n \<le> x \<Longrightarrow> copy_words m (p + off) src n x = m x" using c by blast
qed

section \<open>Arrays, S-expressions, closures\<close>

lemma word_addrs_iff: "a \<in> set (word_addrs p n) \<longleftrightarrow> (\<exists>i < n. a = p + 8 * i)"
  by (auto simp: word_addrs_def)

lemma array_filled:
  assumes st: "settled s os b k s1 os1" and fit: "fits s1 ARRAY (of_nat (length ts))" and n: "length ts < 2 ^ 60"
    and args: "\<forall>a \<in> set (word_addrs args (length ts)). a \<in> set (fix_addrs s)" "denote_words s ts args"
  shows "built s (with_object s1 ARRAY (of_nat (length ts))\<lparr>memory :=
      copy_words (memory (with_object s1 ARRAY (of_nat (length ts)))) (c_current (heap s1) + 16) args (length ts)\<rparr>)
    (VArr ts) (of_nat (c_current (heap s1) + 16))"
proof -
  let ?p = "c_current (heap s1)" and ?n = "length ts" and ?o = "with_object s1 ARRAY (of_nat (length ts))"
  note D = settledD [OF st]
  have u: "unat (of_nat ?n :: u64) = ?n" by (rule unat_of_nat_u64) (use n in simp)
  have w: "type_words ARRAY (unat (of_nat ?n :: u64)) = ?n + 2" unfolding u by (simp add: type_words_def)
  have room: "?p + 16 + 8 * ?n \<le> c_end (heap s1)" using fit by (simp add: fits_def w)
  have A: "\<forall>i < ?n. args + 8 * i \<in> set (fix_addrs s1)" using args(1) D(2) by (auto simp: word_addrs_iff)
  then have a: "args + 8 * i \<in> set (fix_addrs s1)" if "i < ?n" for i using that by blast
  let ?m = "copy_words (memory ?o) (?p + 16) args ?n"
  have C: "ld64 ?m (?p + 16 + 8 * i) = ld64 (memory ?o) (args + 8 * i)" if "i < ?n" for i
    by (rule args_copied(1) [OF D(1) room A that])
  have out: "\<forall>x. x < ?p + 16 \<or> ?p + 8 * type_words ARRAY (unat (of_nat ?n :: u64)) \<le> x \<longrightarrow> ?m x = memory ?o x"
    using args_copied(2) [OF D(1) room A] unfolding w by simp
  note N = new_object [OF D(1) fit out]
  have O: "ld64 (memory ?o) (args + 8 * i) = ld64 (memory s1) (args + 8 * i)" if "i < ?n" for i
    using new_object(3) [OF D(1) fit _ a [OF that], of "memory ?o"] by simp
  have fld: "ld64 ?m (?p + 16 + 8 * i) = ld64 (memory s1) (args + 8 * i) \<and> args + 8 * i \<in> set (fix_addrs s1) \<and>
      denotes s1 (ts ! i) (ld64 (memory s1) (args + 8 * i))" if "i < ?n" for i
    using C [OF that] O [OF that] a [OF that] st args(2) that D(2) by (simp add: settled_def denote_words_iff)
  note V = fields_denote [OF D(1) N(1) fld]
  have sl: "slots (memory ?o) ?p = map (\<lambda>i. ?p + 16 + 8 * i) [0..<?n]"
    using with_object_blank(1) [of "of_nat ?n" s1 ARRAY] n u
    by (simp add: slots_def slot0_def nslots_def blank_object_def)
  show ?thesis
  proof (rule settled_built [OF st fit out])
    show "val_ok (whole (heap s1)) (os1 @ [?p]) (ld64 ?m x)" if "x \<in> set (slots (memory ?o) ?p)" for x
      using that V(2) by (auto simp: sl)
    show "denotes (?o\<lparr>memory := ?m\<rparr>) (VArr ts) (of_nat (?p + 16))"
      using N(2) V(1) n unat_new_pointer(1) [OF D(1) fit] by simp
  qed
qed

text \<open>
  A word that neither the collector nor the allocator changes: one the collector scans that is no
  heap pointer, or one outside of everything they write.
\<close>

definition plain_word :: "gc_state \<Rightarrow> addr \<Rightarrow> nat \<Rightarrow> addr \<Rightarrow> bool" where
  "plain_word s b n a \<longleftrightarrow>
     (a \<in> set (fix_addrs s) \<and> \<not> is_valid_heap_pointer (heap s) (ld64 (memory s) a)) \<or> (\<forall>i < 8. outside s b n (a + i))"

lemma plain_word_settled:
  assumes st: "settled s os b n s1 os1" and a: "plain_word s b n a"
    and m: "\<And>x. c_end (heap s1) \<le> x \<or> x < c_begin (heap s1) \<Longrightarrow> m' x = memory s1 x"
  shows "ld64 m' a = ld64 (memory s) a"
proof -
  note D = settledD [OF st]
  have "ld64 m' a = ld64 (memory s1) a"
  proof (rule ld64_cong, rule m)
    fix i :: nat assume i: "i < 8"
    have "c_end (heap s1) \<le> a + i \<or> a + i < c_begin (heap s1)" if "a \<in> set (fix_addrs s)"
      using gc_okD(10) [OF D(1), of a] D(2) that i by (auto simp: root_word_ok_def off_heap_def)
    then show "c_end (heap s1) \<le> a + i \<or> a + i < c_begin (heap s1)"
      using a st i unfolding plain_word_def settled_def by blast
  qed
  moreover have "ld64 (memory s1) a = ld64 (memory s) a"
  proof (cases "\<forall>i < 8. outside s b n (a + i)")
    case True
    then show ?thesis using st by (intro ld64_cong) (simp add: settled_def)
  qed (use a st in \<open>auto simp: plain_word_def settled_def\<close>)
  ultimately show ?thesis by simp
qed

lemma new_object_plain:
  assumes st: "settled s os b n s1 os1" and fit: "fits s1 t len" and a: "plain_word s b n a"
    and out: "\<forall>x. x < c_current (heap s1) + 16 \<or> c_current (heap s1) + 8 * type_words t (unat len) \<le> x \<longrightarrow>
      m' x = memory (with_object s1 t len) x"
  shows "ld64 m' a = ld64 (memory s) a"
proof (rule plain_word_settled [OF st a])
  fix x assume x: "c_end (heap s1) \<le> x \<or> x < c_begin (heap s1)"
  have "c_begin (heap s1) \<le> c_current (heap s1)" using gc_okD(3) [OF settledD(1) [OF st]] by (simp add: chunk_ok_def)
  then have "x < c_current (heap s1) \<or> c_current (heap s1) + 8 * type_words t (unat len) \<le> x"
    using x fit by (auto simp: fits_def)
  then show "m' x = memory s1 x"
    using out with_object_blank(5) [of len x s1 t] fit by (auto simp: fits_def)
qed

text \<open>An object whose fields follow a head word: the tag of an S-expression or the code of a closure.\<close>

definition headed :: "lama_type \<Rightarrow> u64 \<Rightarrow> vtree list \<Rightarrow> vtree" where
  "headed t h ts = (if t = SEXP then VSexp h ts else VClo h ts)"

lemma headed_filled:
  fixes s1 :: gc_state and m' :: mem and t :: lama_type and ts :: "vtree list"
  defines "p \<equiv> c_current (heap s1)" and "len \<equiv> (of_nat (if t = SEXP then length ts else Suc (length ts)) :: u64)"
  defines "o1 \<equiv> with_object s1 t len"
  assumes t: "t = SEXP \<or> t = CLOSURE"
    and st: "settled s os b k s1 os1" and fit: "fits s1 t len" and n: "length ts < 2 ^ 60"
    and args: "\<forall>a \<in> set (word_addrs args (length ts)). a \<in> set (fix_addrs s)" "denote_words s ts args"
    and out: "\<forall>x. x < p + 16 \<or> p + 24 + 8 * length ts \<le> x \<longrightarrow> m' x = memory o1 x"
    and hd: "ld64 m' (p + 16) = h"
    and fld: "\<forall>i < length ts. ld64 m' (p + 24 + 8 * i) = ld64 (memory o1) (args + 8 * i)"
  shows "built s (o1\<lparr>memory := m'\<rparr>) (headed t h ts) (of_nat (p + 16))"
proof -
  let ?n = "length ts"
  note D = settledD [OF st]
  have u: "unat len = (if t = SEXP then ?n else Suc ?n)" unfolding len_def by (rule unat_of_nat_u64) (use n in simp)
  have w: "type_words t (unat len) = ?n + 3" unfolding u using t by (auto simp: type_words_def)
  have out': "\<forall>x. x < p + 16 \<or> p + 8 * type_words t (unat len) \<le> x \<longrightarrow> m' x = memory o1 x"
    using out unfolding w by simp
  note N = new_object [OF D(1) fit out' [unfolded p_def o1_def], folded p_def o1_def]
  have a: "args + 8 * i \<in> set (fix_addrs s1)" if "i < ?n" for i using args(1) that D(2) by (auto simp: word_addrs_iff)
  have "ld64 (memory o1) (args + 8 * i) = ld64 (memory s1) (args + 8 * i)" if "i < ?n" for i
    using new_object(3) [OF D(1) fit _ a [OF that], of "memory o1"] by (simp add: o1_def)
  then have fld': "ld64 m' (p + 24 + 8 * i) = ld64 (memory s1) (args + 8 * i) \<and> args + 8 * i \<in> set (fix_addrs s1) \<and>
      denotes s1 (ts ! i) (ld64 (memory s1) (args + 8 * i))" if "i < ?n" for i
    using fld a [OF that] st args(2) that D(2) by (simp add: settled_def denote_words_iff)
  note V = fields_denote [OF D(1) N(1) [unfolded o1_def] fld', folded p_def o1_def]
  have len60: "unat len < 2 ^ 60" using fit by (simp add: fits_def)
  have sl: "slots (memory o1) p = map (\<lambda>i. p + 24 + 8 * i) [0..<?n]"
    using with_object_blank(1) [OF len60, of s1 t] t u
    by (auto simp: slots_def slot0_def nslots_def blank_object_def o1_def p_def)
  show ?thesis
    unfolding p_def o1_def
  proof (rule settled_built [OF st fit], fold p_def o1_def)
    show "val_ok (whole (heap s1)) (os1 @ [p]) (ld64 m' x)" if "x \<in> set (slots (memory o1) p)" for x
      using that V(2) by (auto simp: sl)
    show "denotes (o1\<lparr>memory := m'\<rparr>) (headed t h ts) (of_nat (p + 16))"
      using N(2) V(1) n t hd unat_new_pointer(1) [OF D(1) fit, folded p_def]
      by (auto simp: headed_def len_def sexp_tag_def TO_SEXP_def add.assoc)
  qed (rule out')
qed

section \<open>The functions\<close>

lemma boxed_count:
  assumes "n < 2 ^ 60"
  shows "UNBOX (BOX (of_nat n)) = (of_nat n :: u64)" "nat (sint (of_nat n :: u64)) = n"
proof -
  have "sint (of_nat n :: u64) = int n"
    using assms signed_take_bit_int_eq_self [of 63 "int n"] by (simp add: signed_of_nat)
  then show "UNBOX (BOX (of_nat n)) = (of_nat n :: u64)" "nat (sint (of_nat n :: u64)) = n"
    using assms by (auto intro!: UNBOX_BOX simp: fits63_def)
qed

lemma PRE_GC_top:
  "PRE_GC frame s = Inr (flag, s1) \<Longrightarrow>
     s1 = s\<lparr>gc_stack_top := gc_stack_top s1\<rparr> \<and> frame \<le> gc_stack_top s1 \<and> (flag \<longleftrightarrow> gc_stack_top s = 0) \<and>
     (gc_stack_top s \<noteq> 0 \<longrightarrow> s1 = s)"
  by (auto simp: PRE_GC_def Let_def split: if_splits)

lemma gc_section_run:
  assumes "PRE_GC frame s = Inr (flag, s1)" "f s1 = Inr (v, s2)" "built s1 s2 t v"
  shows "\<exists>s'. gc_section frame f s = Inr (v, s') \<and> gc_stack_top s' = gc_stack_top s \<and>
    built s1 (s'\<lparr>gc_stack_top := gc_stack_top s1\<rparr>) t v"
proof -
  note P = PRE_GC_top [OF assms(1)]
  have st: "gc_stack_top s2 = gc_stack_top s1" using assms(3) by (simp add: built_def same_bounds_def)
  let ?s' = "if flag then s2\<lparr>gc_stack_top := 0\<rparr> else s2"
  have "gc_section frame f s = Inr (v, ?s')"
    using assms(1,2) P st by (simp add: gc_section_def POST_GC_def)
  moreover have "gc_stack_top ?s' = gc_stack_top s" using P st by auto
  moreover have "?s'\<lparr>gc_stack_top := gc_stack_top s1\<rparr> = s2" using st by simp
  ultimately show ?thesis using assms(3) by auto
qed

text \<open>
  What every constructor with rooted arguments asks for: a state to start from, the pushes, the
  arguments' trees, and an allocation that is possible.
\<close>

definition ready :: "mmap_fun \<Rightarrow> addr \<Rightarrow> addr \<Rightarrow> nat \<Rightarrow> gc_state \<Rightarrow> addr list \<Rightarrow> gc_state \<Rightarrow> gc_state \<Rightarrow> lama_type \<Rightarrow> u64 \<Rightarrow> addr \<Rightarrow> bool" where
  "ready mmap frame args n s os s1 s2 t len b \<longleftrightarrow>
     (\<exists>flag. PRE_GC frame s = Inr (flag, s1)) \<and> pool_ok s1 \<and> gc_ok s1 os \<and>
     for_each push_extra_root (word_addrs args n) s1 = Inr s2 \<and>
     (\<forall>a \<in> set (word_addrs args n). rootable s1 os a) \<and> can_alloc mmap s2 os b t len"

lemma readyD:
  assumes "ready mmap frame args n s os s1 s2 t len b"
  shows "pool_ok s1" "gc_ok s1 os" "for_each push_extra_root (word_addrs args n) s1 = Inr s2" "n \<le> 32"
    "\<forall>a \<in> set (word_addrs args n). scannable s1 a" "\<forall>a \<in> set (word_addrs args n). a \<in> set (fix_addrs s2)"
    "gc_ok s2 os" "denotes s2 = denotes s1" "denote_words s2 = denote_words s1"
    "\<exists>flag. PRE_GC frame s = Inr (flag, s1)"
    "\<exists>s3 os3. alloc_object mmap t len s2 = Inr (c_current (heap s3), with_object s3 t len) \<and>
       settled s2 os b (new_size s2 os t len) s3 os3 \<and> fits s3 t len"
proof -
  have R: "\<forall>a \<in> set (word_addrs args n). rootable s1 os a" and C: "can_alloc mmap s2 os b t len"
    using assms by (simp_all add: ready_def)
  show o: "pool_ok s1" "gc_ok s1 os" "for_each push_extra_root (word_addrs args n) s1 = Inr s2"
    "\<exists>flag. PRE_GC frame s = Inr (flag, s1)" using assms by (simp_all add: ready_def)
  note P = push_all_SomeD [OF o(1,3)]
  note F = sans_pool_fields [OF P(4)]
  show "n \<le> 32" using P(1) by (simp add: MAX_EXTRA_ROOTS_NUMBER_def word_addrs_def)
  show sc: "\<forall>a \<in> set (word_addrs args n). scannable s1 a" using R by (simp add: rootable_def)
  show "\<forall>a \<in> set (word_addrs args n). a \<in> set (fix_addrs s2)" using pool_fix_addrs(1) [OF P(4,3) sc] by blast
  show g: "gc_ok s2 os" by (rule push_gc_ok [OF o(2) P(4,3) R])
  have d: "denotes s2 t v = denotes s1 t v" for t v using denotes_cong [of s2 s1] by (simp add: F)
  then show "denotes s2 = denotes s1" by (simp add: fun_eq_iff)
  show "denote_words s2 = denote_words s1" by (simp add: fun_eq_iff denote_words_iff d F)
  show "\<exists>s3 os3. alloc_object mmap t len s2 = Inr (c_current (heap s3), with_object s3 t len) \<and>
       settled s2 os b (new_size s2 os t len) s3 os3 \<and> fits s3 t len" by (rule alloc_contract [OF g C])
qed

text \<open>Running the body of a constructor between the macros and the pushes.\<close>

lemma rooted_constructor:
  assumes R: "ready mmap frame args n s os s1 s2 t len b"
    and f: "\<And>s3. gc_stack_top s3 = gc_stack_top s2 \<Longrightarrow> alloc_object mmap t len s2 = Inr (c_current (heap s3), with_object s3 t len) \<Longrightarrow> fits s3 t len \<Longrightarrow>
      f s2 = Inr (of_nat (c_current (heap s3) + 16), with_object s3 t len\<lparr>memory := g s3\<rparr>)"
    and g: "\<And>s3 os3. settled s2 os b (new_size s2 os t len) s3 os3 \<Longrightarrow> fits s3 t len \<Longrightarrow>
      built s2 (with_object s3 t len\<lparr>memory := g s3\<rparr>) T (of_nat (c_current (heap s3) + 16))"
  shows "\<exists>v s'. rooted (word_addrs args n) f s1 = Inr (v, s') \<and> built s1 s' T v"
proof -
  note D = readyD [OF R]
  obtain s3 os3 where s3: "alloc_object mmap t len s2 = Inr (c_current (heap s3), with_object s3 t len)"
    "settled s2 os b (new_size s2 os t len) s3 os3" "fits s3 t len" using D(11) by blast
  show ?thesis
    using rooted_run [where f = f, OF D(1,2,3,5) f [OF settledD(5) [OF s3(2)] s3(1,3)] g [OF s3(2,3)]] by blast
qed

lemma constructor_run:
  assumes R: "ready mmap frame args n s os s1 s2 t len b"
    and f: "\<And>s3. gc_stack_top s3 = gc_stack_top s2 \<Longrightarrow> alloc_object mmap t len s2 = Inr (c_current (heap s3), with_object s3 t len) \<Longrightarrow> fits s3 t len \<Longrightarrow>
      f s2 = Inr (of_nat (c_current (heap s3) + 16), with_object s3 t len\<lparr>memory := g s3\<rparr>)"
    and g: "\<And>s3 os3. settled s2 os b (new_size s2 os t len) s3 os3 \<Longrightarrow> fits s3 t len \<Longrightarrow>
      built s2 (with_object s3 t len\<lparr>memory := g s3\<rparr>) T (of_nat (c_current (heap s3) + 16))"
  shows "\<exists>v s'. gc_section frame (rooted (word_addrs args n) f) s = Inr (v, s') \<and> gc_stack_top s' = gc_stack_top s \<and>
    built s1 (s'\<lparr>gc_stack_top := gc_stack_top s1\<rparr>) T v"
proof -
  have "\<exists>v s'. rooted (word_addrs args n) f s1 = Inr (v, s') \<and> built s1 s' T v"
    by (rule rooted_constructor [where f = f and g = g, OF R]) (fact f, fact g)
  then obtain v s4 where s4: "rooted (word_addrs args n) f s1 = Inr (v, s4)" "built s1 s4 T v" by blast
  obtain flag where "PRE_GC frame s = Inr (flag, s1)" using readyD(10) [OF R] by blast
  then show ?thesis using gc_section_run [where f = "rooted (word_addrs args n) f", OF _ s4] by blast
qed

lemma Barray_built:
  assumes R: "ready mmap (fr 0) args (length ts) s os s1 s2 ARRAY (of_nat (length ts)) b"
    and args: "denote_words s1 ts args"
  shows "\<exists>v s'. Barray mmap fr args (BOX (of_nat (length ts))) s = Inr (v, s') \<and> gc_stack_top s' = gc_stack_top s \<and>
    built s1 (s'\<lparr>gc_stack_top := gc_stack_top s1\<rparr>) (VArr ts) v"
proof -
  note D = readyD [OF R]
  have n: "length ts < 2 ^ 60" using D(4) by simp
  show ?thesis
    unfolding Barray_def Let_def boxed_count [OF n]
  proof (rule constructor_run [OF R])
    fix s3 assume "alloc_object mmap ARRAY (of_nat (length ts)) s2 = Inr (c_current (heap s3), with_object s3 ARRAY (of_nat (length ts)))"
    then show "bindR (alloc_array mmap (of_nat (length ts)) s2) (\<lambda>(r, s).
        Inr (of_nat (r + 16), s\<lparr>memory := copy_words (memory s) (r + 16) args (length ts)\<rparr>)) =
      Inr (of_nat (c_current (heap s3) + 16), with_object s3 ARRAY (of_nat (length ts))\<lparr>memory :=
        copy_words (memory (with_object s3 ARRAY (of_nat (length ts)))) (c_current (heap s3) + 16) args (length ts)\<rparr>)"
      by simp
  qed (use array_filled [OF _ _ n D(6)] args D(9) in auto)
qed

text \<open>A head word stored, the fields copied after it: outside the object nothing changes.\<close>

lemma head_and_fields:
  fixes s1 :: gc_state and m :: mem and h :: u64 and src n :: nat
  defines "p \<equiv> c_current (heap s1)"
  assumes ok: "gc_ok s1 os" and room: "p + 24 + 8 * n \<le> c_end (heap s1)"
    and args: "\<forall>i < n. src + 8 * i \<in> set (fix_addrs s1)"
  defines "m' \<equiv> copy_words (st64 m (p + 16) h) (p + 24) src n"
  shows "\<forall>x. x < p + 16 \<or> p + 24 + 8 * n \<le> x \<longrightarrow> m' x = m x" "ld64 m' (p + 16) = h"
    "\<forall>i < n. ld64 m' (p + 24 + 8 * i) = ld64 m (src + 8 * i)"
proof -
  note C = args_copied [OF ok room [unfolded p_def] args, folded p_def]
  show "\<forall>x. x < p + 16 \<or> p + 24 + 8 * n \<le> x \<longrightarrow> m' x = m x" using C(2) by (auto simp: m'_def st64_apply)
  have "ld64 m' (p + 16) = ld64 (st64 m (p + 16) h) (p + 16)" unfolding m'_def by (intro ld64_cong C(2)) auto
  then show "ld64 m' (p + 16) = h" by simp
  show "\<forall>i < n. ld64 m' (p + 24 + 8 * i) = ld64 m (src + 8 * i)"
  proof (intro allI impI)
    fix i assume i: "i < n"
    have "off_heap (heap s1) (src + 8 * i)" using gc_okD(10) [OF ok] args i by (simp add: root_word_ok_def)
    moreover have "c_begin (heap s1) \<le> p" "p + 24 \<le> c_end (heap s1)" using gc_okD(3) [OF ok] room by (simp_all add: chunk_ok_def p_def)
    ultimately have "ld64 (st64 m (p + 16) h) (src + 8 * i) = ld64 m (src + 8 * i)"
      by (intro ld64_st64_other) (auto simp: off_heap_def)
    then show "ld64 m' (p + 24 + 8 * i) = ld64 m (src + 8 * i)" using C(1) [OF i] by (simp add: m'_def)
  qed
qed

lemma Bsexp_built:
  assumes R: "ready mmap (fr 0) args (length ts) s os s1 s2 SEXP (of_nat (length ts)) b"
    and args: "denote_words s1 ts args"
    and tag: "plain_word s2 b (new_size s2 os SEXP (of_nat (length ts))) (args + 8 * length ts)"
      "UNBOX (ld64 (memory s1) (args + 8 * length ts)) = h"
  shows "\<exists>v s'. Bsexp mmap fr args (BOX (of_nat (Suc (length ts)))) s = Inr (v, s') \<and> gc_stack_top s' = gc_stack_top s \<and>
    built s1 (s'\<lparr>gc_stack_top := gc_stack_top s1\<rparr>) (VSexp h ts) v"
proof -
  let ?n = "length ts"
  note D = readyD [OF R]
  have n: "?n < 2 ^ 60" "Suc ?n < 2 ^ 60" using D(4) by simp_all
  have cnt: "(of_nat (Suc ?n) :: u64) - 1 = of_nat ?n" "sint (of_nat ?n :: u64) = int ?n"
    using boxed_count(2) [OF n(1)] n(1) signed_take_bit_int_eq_self [of 63 "int ?n"] by (simp_all add: signed_of_nat)
  have tw: "nat (int args + 8 * int ?n) = args + 8 * ?n" by simp
  let ?f = "\<lambda>ob p. copy_words (st64 (memory ob) (p + 16) 0) (p + 24) args ?n"
  let ?g = "\<lambda>ob p. st64 (?f ob p) (p + 16) (UNBOX (ld64 (?f ob p) (args + 8 * ?n)))"
  let ?o = "\<lambda>s3. with_object s3 SEXP (of_nat ?n)"
  have built: "built s2 (?o s3\<lparr>memory := ?g (?o s3) (c_current (heap s3))\<rparr>) (VSexp h ts) (of_nat (c_current (heap s3) + 16))"
    if st: "settled s2 os b (new_size s2 os SEXP (of_nat ?n)) s3 os3" and fit: "fits s3 SEXP (of_nat ?n)" for s3 os3
  proof -
    let ?p = "c_current (heap s3)"
    note S = settledD [OF st]
    have u: "unat (of_nat ?n :: u64) = ?n" by (rule unat_of_nat_u64) (use n in simp)
    have w: "type_words SEXP (unat (of_nat ?n :: u64)) = ?n + 3" unfolding u by (simp add: type_words_def)
    have room: "?p + 24 + 8 * ?n \<le> c_end (heap s3)" using fit by (simp add: fits_def w)
    have a: "\<forall>i < ?n. args + 8 * i \<in> set (fix_addrs s3)" using D(6) S(2) by (auto simp: word_addrs_iff)
    note H = head_and_fields [OF S(1) room a, of "memory (?o s3)" 0]
    have "ld64 (?f (?o s3) ?p) (args + 8 * ?n) = ld64 (memory s2) (args + 8 * ?n)"
      using H(1) unfolding w by (intro new_object_plain [OF st fit tag(1)]) (simp add: w)
    also have "\<dots> = ld64 (memory s1) (args + 8 * ?n)"
      using sans_pool_fields(2) [OF push_all_SomeD(4) [OF D(1,3)]] by simp
    finally have h: "UNBOX (ld64 (?f (?o s3) ?p) (args + 8 * ?n)) = h" using tag(2) by simp
    have "built s2 (?o s3\<lparr>memory := ?g (?o s3) ?p\<rparr>) (headed SEXP h ts) (of_nat (?p + 16))"
    proof (rule headed_filled [OF _ st, where t = SEXP and ts = ts and args = args, simplified if_P simp_thms])
      show "\<forall>x. x < ?p + 16 \<or> ?p + 24 + 8 * ?n \<le> x \<longrightarrow> ?g (?o s3) ?p x = memory (?o s3) x"
        using H(1) by (auto simp: st64_apply)
      show "\<forall>i<?n. ld64 (?g (?o s3) ?p) (?p + 24 + 8 * i) = ld64 (memory (?o s3)) (args + 8 * i)"
        using H(3) by (simp add: ld64_st64_other)
    qed (use fit n(1) D(6,9) args h in simp_all)
    then show ?thesis by (simp add: headed_def)
  qed
  show ?thesis
    unfolding Bsexp_def Let_def boxed_count [OF n(2)] cnt tw nat_int
  proof (rule constructor_run [OF R])
    fix s3 assume "alloc_object mmap SEXP (of_nat ?n) s2 = Inr (c_current (heap s3), ?o s3)"
    then show "bindR (alloc_sexp mmap (of_nat ?n) s2) (\<lambda>(r, s). Inr (of_nat (r + 16), s\<lparr>memory := ?g s r\<rparr>)) =
      Inr (of_nat (c_current (heap s3) + 16), ?o s3\<lparr>memory := ?g (?o s3) (c_current (heap s3))\<rparr>)"
      by simp
  qed (rule built)
qed

lemma Bclosure_built:
  assumes R: "ready mmap (fr 0) (args + 8) (length ts) s os s1 s2 CLOSURE (of_nat (Suc (length ts))) b"
    and args: "denote_words s1 ts (args + 8)"
    and code: "plain_word s2 b (new_size s2 os CLOSURE (of_nat (Suc (length ts)))) args" "ld64 (memory s1) args = h"
  shows "\<exists>v s'. Bclosure mmap fr args (BOX (of_nat (length ts))) s = Inr (v, s') \<and> gc_stack_top s' = gc_stack_top s \<and>
    built s1 (s'\<lparr>gc_stack_top := gc_stack_top s1\<rparr>) (VClo h ts) v"
proof -
  let ?n = "length ts"
  note D = readyD [OF R]
  have n: "?n < 2 ^ 60" "Suc ?n < 2 ^ 60" using D(4) by simp_all
  have cnt: "of_nat ?n + 1 = (of_nat (Suc ?n) :: u64)" by simp
  let ?g = "\<lambda>ob p. copy_words (st64 (memory ob) (p + 16) (ld64 (memory ob) args)) (p + 24) (args + 8) ?n"
  let ?o = "\<lambda>s3. with_object s3 CLOSURE (of_nat (Suc ?n))"
  have built: "built s2 (?o s3\<lparr>memory := ?g (?o s3) (c_current (heap s3))\<rparr>) (VClo h ts) (of_nat (c_current (heap s3) + 16))"
    if st: "settled s2 os b (new_size s2 os CLOSURE (of_nat (Suc ?n))) s3 os3" and fit: "fits s3 CLOSURE (of_nat (Suc ?n))" for s3 os3
  proof -
    let ?p = "c_current (heap s3)"
    note S = settledD [OF st]
    have u: "unat (of_nat (Suc ?n) :: u64) = Suc ?n" by (rule unat_of_nat_u64) (use n in simp)
    have w: "type_words CLOSURE (unat (of_nat (Suc ?n) :: u64)) = ?n + 3" unfolding u by (simp add: type_words_def)
    have room: "?p + 24 + 8 * ?n \<le> c_end (heap s3)" using fit unfolding fits_def w by simp
    have a: "\<forall>i < ?n. args + 8 + 8 * i \<in> set (fix_addrs s3)" using D(6) S(2) by (auto simp: word_addrs_iff)
    note H = head_and_fields [OF S(1) room a]
    have "ld64 (memory (?o s3)) args = ld64 (memory s2) args" by (rule new_object_plain [OF st fit code(1)]) simp
    then have h: "ld64 (memory (?o s3)) args = h"
      using sans_pool_fields(2) [OF push_all_SomeD(4) [OF D(1,3)]] code(2) by simp
    have "built s2 (?o s3\<lparr>memory := ?g (?o s3) ?p\<rparr>) (headed CLOSURE h ts) (of_nat (?p + 16))"
      by (rule headed_filled [OF _ st, where t = CLOSURE and ts = ts and args = "args + 8", simplified lama_type.distinct if_False simp_thms])
        (use fit n(1) D(6,9) args h H in \<open>simp_all del: of_nat_Suc\<close>)
    then show ?thesis by (simp add: headed_def)
  qed
  show ?thesis
    unfolding Bclosure_def Let_def boxed_count [OF n(1)] cnt
  proof (rule constructor_run [OF R])
    fix s3 assume "alloc_object mmap CLOSURE (of_nat (Suc ?n)) s2 = Inr (c_current (heap s3), ?o s3)"
    then show "bindR (alloc_closure mmap (of_nat (Suc ?n)) s2) (\<lambda>(r, s). Inr (of_nat (r + 16), s\<lparr>memory := ?g s r\<rparr>)) =
      Inr (of_nat (c_current (heap s3) + 16), ?o s3\<lparr>memory := ?g (?o s3) (c_current (heap s3))\<rparr>)"
      by simp
  qed (rule built)
qed

section \<open>Writing outside the heap\<close>

text \<open>A write, to a local variable or a block of \<open>malloc\<close>, that is in nobody's way.\<close>

definition quiet :: "gc_state \<Rightarrow> mem \<Rightarrow> bool" where
  "quiet s m' \<longleftrightarrow> (\<forall>x. c_begin (heap s) \<le> x \<longrightarrow> x < c_end (heap s) \<longrightarrow> m' x = memory s x) \<and>
     (\<forall>a \<in> set (fix_addrs s). ld64 m' a = ld64 (memory s) a)"

lemma quiet_write:
  assumes ok: "gc_ok s os" and q: "quiet s m'"
  defines "s' \<equiv> s\<lparr>memory := m'\<rparr>"
  shows "gc_ok s' os" "same_bounds s s'" "keeps_trees s s'"
    "\<And>t v. denotes s t v \<Longrightarrow> val_ok (whole (heap s)) os v \<Longrightarrow> denotes s' t v"
proof -
  note D = gc_okD [OF ok]
  have c: "c_current (heap s) \<le> c_end (heap s)" using D(3) by (simp add: chunk_ok_def)
  have g: "grown s s' 0" using q c by (simp add: grown_def s'_def quiet_def)
  show d: "denotes s' t v" if "denotes s t v" "val_ok (whole (heap s)) os v" for t v
    by (rule denotes_grown [OF ok g that])
  have adr: "root_addrs s' = root_addrs s" "fix_addrs s' = fix_addrs s" "heap s' = heap s"
    by (simp_all add: s'_def root_addrs_def fix_addrs_def pool_def in_scanned_region_def)
  have ld: "ld64 (memory s') a = ld64 (memory s) a" if "h \<in> set os" "h \<le> a" "a + 8 \<le> h + 8 * obj_words (memory s) h" for h a
    by (rule grown_word [OF ok g that])
  have hd: "ld64 (memory s') h = ld64 (memory s) h" "ld64 (memory s') (h + 8) = ld64 (memory s) (h + 8)" if h: "h \<in> set os" for h
    using obj_words_ge_2 [OF heap_seg_ok [OF D(1) h]] by (auto intro!: ld [OF h])
  have rw: "ld64 (memory s') a = ld64 (memory s) a" if "a \<in> set (fix_addrs s)" for a
    using q that by (simp add: quiet_def s'_def)
  show "same_bounds s s'" by (simp add: same_bounds_def s'_def pool_def pool_ok_def)
  show "keeps_trees s s'"
    using d gc_okD(10) [OF ok] rw by (simp add: keeps_trees_def root_word_ok_def)
  have um: "unmarked_heap (memory s') os" using D(2) fwd_word_cong(1,2) [OF hd(2)] by (simp add: unmarked_heap_def)
  have sl: "val_ok (whole (heap s)) os (ld64 (memory s') a)" if "h \<in> set os" "a \<in> set (slots (memory s') h)" for h a
    using that D(9) [OF that(1)] slots_header_cong(3) [OF hd(1) [OF that(1)]] slot_in_object [of a "memory s" h] ld [OF that(1), of a] by simp
  have rt: "root_word_ok s' os a" if "a \<in> set (fix_addrs s)" for a
    using D(10) [OF that] rw [OF that] by (simp add: root_word_ok_def adr)
  show "gc_ok s' os"
    unfolding gc_ok_def adr
    using D(3-8) um sl rt heap_seg_cong [OF D(1) hd(1)] by (simp add: s'_def)
qed

lemma same_bounds_addrs: "same_bounds s s' \<Longrightarrow> fix_addrs s' = fix_addrs s"
  by (simp add: same_bounds_def fix_addrs_def in_scanned_region_def)

lemma built_after:
  assumes "same_bounds s s1" "keeps_trees s s1" "built s1 s2 t v"
  shows "built s s2 t v"
  using assms same_bounds_addrs [OF assms(1)] by (auto simp: built_def keeps_trees_def same_bounds_def)

lemma quiet_words:
  assumes "\<And>i. i < length vs \<Longrightarrow> off_heap (heap s) (a + 8 * i)"
    and "\<And>i b. i < length vs \<Longrightarrow> b \<in> set (fix_addrs s) \<Longrightarrow> b + 8 \<le> a + 8 * i \<or> a + 8 * i + 8 \<le> b"
  shows "quiet s (st_words (memory s) a vs)"
proof -
  have out: "st_words m p vs x = m x" if "\<And>i. i < length vs \<Longrightarrow> x < p + 8 * i \<or> p + 8 * i + 8 \<le> x" for m p x
    using that
  proof (induction vs arbitrary: m p)
    case (Cons v vs)
    have "x < p + 8 + 8 * i \<or> p + 8 + 8 * i + 8 \<le> x" if "i < length vs" for i using Cons.prems [of "Suc i"] that by auto
    then have "st_words (st64 m p v) (p + 8) vs x = st64 m p v x" by (rule Cons.IH)
    then show ?case using Cons.prems [of 0] by (auto simp: st64_apply)
  qed simp
  have "ld64 (st_words (memory s) a vs) b = ld64 (memory s) b" if b: "b \<in> set (fix_addrs s)" for b
  proof (rule ld64_cong, rule out)
    fix i j :: nat assume "i < 8" "j < length vs"
    then show "b + i < a + 8 * j \<or> a + 8 * j + 8 \<le> b + i" using assms(2) [OF _ b] by fastforce
  qed
  moreover have "st_words (memory s) a vs x = memory s x" if "c_begin (heap s) \<le> x" "x < c_end (heap s)" for x
    using assms(1) that by (intro out) (fastforce simp: off_heap_def)
  ultimately show ?thesis by (simp add: quiet_def)
qed

section \<open>Cons\<close>

text \<open>\<open>local_words s a n\<close>: room for \<open>n\<close> words of local variables at \<open>a\<close>.\<close>

definition local_words :: "gc_state \<Rightarrow> addr \<Rightarrow> nat \<Rightarrow> bool" where
  "local_words s a n \<longleftrightarrow> (\<forall>i < n. off_heap (heap s) (a + 8 * i) \<and>
     (\<forall>b \<in> set (fix_addrs s). b + 8 \<le> a + 8 * i \<or> a + 8 * i + 8 \<le> b))"

lemma local_words_quiet: "local_words s a (length vs) \<Longrightarrow> quiet s (st_words (memory s) a vs)"
  by (rule quiet_words) (auto simp: local_words_def)

lemma cons_hash: "\<exists>h. LtagHash ''cons'' = Inr (BOX h) \<and> fits63 (sint h) \<and> de_hash h = Some ''cons''"
proof -
  have t: "take 10 ''cons'' = ''cons''" by simp
  have "tag_ok (take 10 ''cons'')" by (simp add: tag_ok_def chars_def)
  then obtain h where h: "LtagHash ''cons'' = Inr (BOX h)" "de_hash h = Some ''cons''" "unat h < 2 ^ 60"
    using LtagHash_ok [of "''cons''"] unfolding t by blast
  have "fits63 (sint (of_nat n :: u64))" if "n < 2 ^ 60" for n
    using that signed_take_bit_int_eq_self [of 63 "int n"] by (simp add: signed_of_nat fits63_def)
  from this [OF h(3)] show ?thesis using h(1,2) by auto
qed

lemma nested_ready_top:
  assumes "ready mmap frame args n s os s1 s2 t sl b" "gc_stack_top s \<noteq> 0"
  shows "s1 = s"
  using readyD(10) [OF assms(1)] PRE_GC_top assms(2) by blast

lemma cons_built:
  assumes P: "PRE_GC (fr 0) s = Inr (flag, s1)" and ok: "gc_ok s1 os"
    and args: "args \<in> set (fix_addrs s1)" "args + 8 \<in> set (fix_addrs s1)"
      "denotes s1 t (ld64 (memory s1) args)" "denotes s1 u (ld64 (memory s1) (args + 8))"
    and h: "LtagHash ''cons'' = Inr (BOX h)" "UNBOX (BOX h) = h"
    and loc: "local_words s1 loc 3"
    and s2: "s2 = s1\<lparr>memory := st_words (memory s1) loc [ld64 (memory s1) args, ld64 (memory s1) (args + 8), BOX h]\<rparr>"
    and R: "ready mmap (fr 1) loc 2 s2 os s2 s3 SEXP 2 b" and tag: "plain_word s3 b (new_size s3 os SEXP 2) (loc + 16)"
  shows "\<exists>v s'. Ls__Infix_58 mmap fr loc args s = Inr (v, s') \<and> gc_stack_top s' = gc_stack_top s \<and>
    built s1 (s'\<lparr>gc_stack_top := gc_stack_top s1\<rparr>) (VSexp h [t, u]) v"
proof -
  let ?ws = "[ld64 (memory s1) args, ld64 (memory s1) (args + 8), BOX h]"
  have q: "quiet s1 (st_words (memory s1) loc ?ws)" by (rule local_words_quiet) (use loc in \<open>simp add: numeral_3_eq_3\<close>)
  note Q = quiet_write [OF ok q, folded s2]
  have v: "val_ok (whole (heap s1)) os (ld64 (memory s1) a)" if "a \<in> set (fix_addrs s1)" for a
    using gc_okD(10) [OF ok that] by (simp add: root_word_ok_def)
  have w: "ld64 (memory s2) loc = ld64 (memory s1) args" "ld64 (memory s2) (loc + 8) = ld64 (memory s1) (args + 8)"
    "ld64 (memory s2) (loc + 16) = BOX h" using ld64_st64_same [of _ "loc + 16"] by (simp_all add: s2 ld64_st64_other add.commute)
  have d: "denote_words s2 [t, u] loc"
    using Q(4) [OF args(3) v [OF args(1)]] Q(4) [OF args(4) v [OF args(2)]] by (simp add: denote_words.simps w)
  have n: "length [t, u] = 2" "(of_nat (length [t, u]) :: u64) = 2" "(of_nat (Suc (length [t, u])) :: u64) = 3" by simp_all
  have "\<exists>v s'. Bsexp mmap (below fr) loc (BOX 3) s2 = Inr (v, s') \<and> gc_stack_top s' = gc_stack_top s2 \<and>
      built s2 (s'\<lparr>gc_stack_top := gc_stack_top s2\<rparr>) (VSexp h [t, u]) v"
    using Bsexp_built [where fr = "below fr" and ts = "[t, u]" and args = loc and h = h, unfolded n] R d tag w(3) h(2)
    by (simp add: below_def)
  then obtain x s4 where s4: "Bsexp mmap (below fr) loc (BOX 3) s2 = Inr (x, s4)" "gc_stack_top s4 = gc_stack_top s2"
    "built s2 (s4\<lparr>gc_stack_top := gc_stack_top s2\<rparr>) (VSexp h [t, u]) x" by blast
  have "s4\<lparr>gc_stack_top := gc_stack_top s2\<rparr> = s4" using s4(2) by (cases s4) simp
  then have b: "built s1 s4 (VSexp h [t, u]) x" using built_after [OF Q(2,3)] s4(3) by simp
  show ?thesis
    unfolding Ls__Infix_58_def
    by (rule exI [of _ x], rule gc_section_run [OF P _ b]) (use s4(1) h(1) s2 in \<open>simp add: Let_def\<close>)
qed

end
