(* ===== verification/Strings_Correct.thy ===== *)
theory Strings_Correct
  imports Constructors_Correct Strings
begin

text \<open>
  The operations that make strings and copy values are functions of the trees: the string object they
  return holds exactly the characters the operation is to give, whether or not the allocation moves
  the strings they read.
\<close>

section \<open>C string functions\<close>

lemma cstring_bounds: "cstring m a = Some bs \<Longrightarrow> i < length bs \<Longrightarrow> m (a + i) = bs ! i \<and> m (a + i) \<noteq> 0"
  using cstring_SomeD [of m a bs] nth_mem [of i bs] by metis

lemma cstring_drop: "cstring m a = Some bs \<Longrightarrow> k \<le> length bs \<Longrightarrow> cstring m (a + k) = Some (drop k bs)"
  using cstring_SomeD [of m a bs] by (intro cstring_SomeI) (auto dest: in_set_dropD simp: add.assoc)

lemma strncpy_spec:
  assumes "cstring m src = Some bs" "\<forall>i j. i \<le> length bs \<longrightarrow> j < n \<longrightarrow> src + i \<noteq> dst + j"
  shows "strncpy m dst src n x =
    (if dst \<le> x \<and> x < dst + n then if x - dst < length bs then bs ! (x - dst) else 0 else m x)"
  using assms
proof (induction m dst src n arbitrary: bs rule: strncpy.induct)
  case (2 m dst src n)
  show ?case
  proof (cases bs)
    case Nil
    then have "m src = 0" using cstring_SomeD [OF "2.prems"(1)] by simp
    then show ?thesis using Nil by (simp add: memset_def)
  next
    case (Cons b cs)
    have b: "m src = b" "m src \<noteq> 0" using cstring_bounds [OF "2.prems"(1), of 0] Cons by auto
    have "cstring m (src + 1) = Some cs" using cstring_drop [OF "2.prems"(1), of 1] Cons by simp
    then have "cstring (m(dst := m src)) (src + 1) = Some cs"
    proof (rule cstring_cong)
      fix i assume "i \<le> length cs"
      then have "src + Suc i \<noteq> dst + 0" using "2.prems"(2) Cons by (metis Suc_le_mono length_Cons zero_less_Suc)
      then show "(m(dst := m src)) (src + 1 + i) = m (src + 1 + i)" by simp
    qed
    moreover have "\<forall>i j. i \<le> length cs \<longrightarrow> j < n \<longrightarrow> src + 1 + i \<noteq> dst + 1 + j"
      using "2.prems"(2) Cons by (auto dest!: spec [where x = "Suc _"])
    ultimately have "strncpy (m(dst := m src)) (dst + 1) (src + 1) n x =
        (if dst + 1 \<le> x \<and> x < dst + 1 + n then if x - (dst + 1) < length cs then cs ! (x - (dst + 1)) else 0
         else (m(dst := m src)) x)"
      using "2.IH" [OF b(2)] by blast
    moreover have "x - dst = Suc (x - (dst + 1))" if "dst + 1 \<le> x" using that by simp
    ultimately show ?thesis using b Cons by (cases "x = dst") auto
  qed
qed auto

section \<open>Work after the pops\<close>

lemma pop_memory: "pop_extra_root p (s\<lparr>memory := m\<rparr>) = bindR (pop_extra_root p s) (\<lambda>s. Inr (s\<lparr>memory := m\<rparr>))"
  by (simp add: pop_extra_root_def Let_def)

lemma pops_memory:
  "for_each pop_extra_root rs (s\<lparr>memory := m\<rparr>) = bindR (for_each pop_extra_root rs s) (\<lambda>s. Inr (s\<lparr>memory := m\<rparr>))"
proof (induction rs arbitrary: s)
  case (Cons r rs)
  then show ?case by (cases "pop_extra_root r s") (simp_all add: pop_memory)
qed simp

lemma pops_keep_memory: "for_each pop_extra_root rs s = Inr s' \<Longrightarrow> memory s' = memory s"
proof (induction rs arbitrary: s)
  case (Cons r rs)
  then obtain s1 where "pop_extra_root r s = Inr s1" "for_each pop_extra_root rs s1 = Inr s'" by (auto simp: res_simps)
  moreover from this have "memory s1 = memory s" by (auto simp: pop_extra_root_def Let_def split: if_splits)
  ultimately show ?case using Cons.IH [of s1] by simp
qed simp

text \<open>Writing to memory after the pops is the same as writing before them.\<close>

lemma rooted_then:
  "bindR (rooted rs f s) (\<lambda>(v, s). Inr (h v, s\<lparr>memory := g v (memory s)\<rparr>)) =
   rooted rs (\<lambda>s. bindR (f s) (\<lambda>(v, s). Inr (h v, s\<lparr>memory := g v (memory s)\<rparr>))) s"
proof (cases "for_each push_extra_root rs s")
  case (Inr s1)
  show ?thesis
  proof (cases "f s1")
    fix r assume r: "f s1 = Inr r"
    obtain v s2 where vs: "r = (v, s2)" by (cases r)
    show ?thesis
    proof (cases "for_each pop_extra_root (rev rs) s2")
      case (Inr s3)
      then show ?thesis using \<open>for_each push_extra_root rs s = Inr s1\<close> r vs pops_keep_memory [OF Inr]
        by (simp add: rooted_def pops_memory)
    qed (use Inr r vs in \<open>simp add: rooted_def pops_memory\<close>)
  qed (use Inr in \<open>simp add: rooted_def\<close>)
qed (simp add: rooted_def)

section \<open>A new string\<close>

lemma string_filled:
  fixes s3 :: gc_state and m' :: mem and sl :: u64
  defines "p \<equiv> c_current (heap s3)" and "o3 \<equiv> with_object s3 STRING sl"
  assumes st: "settled s os b k s3 os3" and fit: "fits s3 STRING sl" and bs: "length bs \<le> unat sl" "0 \<notin> set bs"
    and m': "\<forall>i < length bs. m' (p + 16 + i) = bs ! i" "m' (p + 16 + length bs) = 0"
      "\<forall>x. x < p + 16 \<or> p + 17 + unat sl \<le> x \<longrightarrow> m' x = memory o3 x"
  shows "built s (o3\<lparr>memory := m'\<rparr>) (VStr sl bs) (of_nat (p + 16))"
proof -
  have len60: "unat sl < 2 ^ 60" using fit by (simp add: fits_def)
  have w: "p + 17 + unat sl \<le> p + 8 * type_words STRING (unat sl)" by (simp add: type_words_def)
  have out: "\<forall>x. x < p + 16 \<or> p + 8 * type_words STRING (unat sl) \<le> x \<longrightarrow> m' x = memory o3 x"
    using w m'(3) by auto
  note N = new_object [OF settledD(1) [OF st] fit out [unfolded p_def o3_def], folded p_def o3_def]
  have u: "unat (of_nat (p + 16) :: u64) = p + 16" using unat_new_pointer(1) [OF settledD(1) [OF st] fit] by (simp add: p_def)
  have "cstring m' (p + 16) = Some bs"
    using m' by (intro cstring_SomeI [OF bs(2)]) simp_all
  then have den: "denotes (o3\<lparr>memory := m'\<rparr>) (VStr sl bs) (of_nat (p + 16))" using N(2) bs(1) u by simp
  have sl: "slots (memory o3) p = []"
    using with_object_blank(1) [OF len60, of s3 STRING] by (simp add: slots_def nslots_def blank_object_def p_def o3_def)
  show ?thesis
    unfolding p_def o3_def
    by (rule settled_built [OF st fit]) (use out den sl in \<open>simp_all add: p_def o3_def\<close>)
qed

section \<open>The characters to copy\<close>

text \<open>
  The word at \<open>a\<close> points to characters: those of a string of the heap, or others that neither the
  collector nor the allocator touches.
\<close>

definition source :: "gc_state \<Rightarrow> addr \<Rightarrow> nat \<Rightarrow> addr \<Rightarrow> byte list \<Rightarrow> bool" where
  "source s b n a bs \<longleftrightarrow>
     (\<exists>sl. denotes s (VStr sl bs) (ld64 (memory s) a)) \<or>
     \<not> is_valid_heap_pointer (heap s) (ld64 (memory s) a) \<and> cstring (memory s) (unat (ld64 (memory s) a)) = Some bs \<and>
     (\<forall>i \<le> length bs. outside s b n (unat (ld64 (memory s) a) + i))"

lemma string_end:
  assumes ok: "gc_ok s os" and v: "val_ok (whole (heap s)) os v" "is_obj s v STRING_TAG k"
  shows "unat v + unat k < c_current (heap s)"
proof -
  have "is_valid_heap_pointer (heap s) v" using v(2) by (simp add: is_obj_def)
  then obtain h where h: "h \<in> set os" "unat v = h + 16"
    using val_ok_whole [OF gc_okD(3) [OF ok] v(1)] by (auto simp: val_ok_def)
  have "obj_bytes (memory s) h = 17 + unat k"
    using v(2) header_fields(2,5) [OF h(2)] by (auto simp: is_obj_def obj_bytes_def)
  then show ?thesis
    using heap_seg_in [OF gc_okD(1) [OF ok] h(1)] obj_bytes_le_words [of "memory s" h] h(2) by linarith
qed

lemma source_settled:
  assumes st: "settled s os b n s3 os3" and fit: "fits s3 t sl" and a: "a \<in> set (fix_addrs s)" "source s b n a bs"
    and out: "\<forall>x. x < c_current (heap s3) + 16 \<or> c_current (heap s3) + 8 * type_words t (unat sl) \<le> x \<longrightarrow>
      m' x = memory (with_object s3 t sl) x"
  shows "ld64 m' a = ld64 (memory s3) a" "cstring m' (unat (ld64 (memory s3) a)) = Some bs"
    "\<And>i. i \<le> length bs \<Longrightarrow> unat (ld64 (memory s3) a) + i < c_current (heap s3) \<or>
      c_current (heap s3) + 8 * type_words t (unat sl) \<le> unat (ld64 (memory s3) a) + i"
proof -
  let ?p = "c_current (heap s3)" and ?v = "ld64 (memory s3) a" and ?w = "type_words t (unat sl)"
  note D = settledD [OF st]
  note C = gc_okD [OF D(1)]
  have len60: "unat sl < 2 ^ 60" and room: "?p + 8 * ?w \<le> c_end (heap s3)" using fit by (simp_all add: fits_def)
  have a3: "a \<in> set (fix_addrs s3)" using a(1) D(2) by simp
  show "ld64 m' a = ?v" by (rule new_object(3) [OF D(1) fit out a3])
  have cb: "c_begin (heap s3) \<le> ?p" using C(3) by (simp add: chunk_ok_def)
  have "cstring (memory s3) (unat ?v) = Some bs \<and> (\<forall>i \<le> length bs. unat ?v + i < ?p \<or> ?p + 8 * ?w \<le> unat ?v + i)"
  proof (cases "\<exists>k. denotes s (VStr k bs) (ld64 (memory s) a)")
    case True
    then obtain k where k: "denotes s3 (VStr k bs) ?v" using st a(1) unfolding settled_def by blast
    have "val_ok (whole (heap s3)) os3 ?v" using C(10) [OF a3] by (simp add: root_word_ok_def)
    then have "unat ?v + unat k < ?p" using k by (intro string_end [OF D(1)]) simp_all
    then have "unat ?v + i < ?p" if "i \<le> length bs" for i using k that by simp
    then show ?thesis using k by simp
  next
    case False
    then have nv: "\<not> is_valid_heap_pointer (heap s) (ld64 (memory s) a)"
      and cs: "cstring (memory s) (unat (ld64 (memory s) a)) = Some bs"
      and os: "\<forall>i \<le> length bs. outside s b n (unat (ld64 (memory s) a) + i)" using a(2) by (auto simp: source_def)
    have v: "?v = ld64 (memory s) a" using st a(1) nv by (simp add: settled_def)
    have o: "memory s3 (unat ?v + i) = memory s (unat ?v + i) \<and> (c_end (heap s3) \<le> unat ?v + i \<or> unat ?v + i < c_begin (heap s3))"
      if "i \<le> length bs" for i using st os that unfolding settled_def v by blast
    have "cstring (memory s3) (unat ?v) = Some bs" using o by (intro cstring_cong [OF cs]) (simp add: v)
    moreover have "unat ?v + i < ?p \<or> ?p + 8 * ?w \<le> unat ?v + i" if "i \<le> length bs" for i
      using o [OF that] cb room by linarith
    ultimately show ?thesis by blast
  qed
  then show "cstring m' (unat ?v) = Some bs"
    and "\<And>i. i \<le> length bs \<Longrightarrow> unat ?v + i < ?p \<or> ?p + 8 * ?w \<le> unat ?v + i"
  proof -
    assume c: "cstring (memory s3) (unat ?v) = Some bs \<and> (\<forall>i \<le> length bs. unat ?v + i < ?p \<or> ?p + 8 * ?w \<le> unat ?v + i)"
    have w: "16 \<le> 8 * ?w" by (cases t) (simp_all add: type_words_def)
    have "m' (unat ?v + i) = memory s3 (unat ?v + i)" if "i \<le> length bs" for i
    proof -
      have x: "unat ?v + i < ?p \<or> ?p + 8 * ?w \<le> unat ?v + i" using c that by blast
      then have "m' (unat ?v + i) = memory (with_object s3 t sl) (unat ?v + i)" using out w by auto
      then show ?thesis using with_object_blank(5) [OF len60 x] by simp
    qed
    then show "cstring m' (unat ?v) = Some bs" by (rule cstring_cong [OF conjunct1 [OF c]])
  qed blast
qed

section \<open>Bstring\<close>

lemma nested_section:
  assumes "gc_stack_top s \<noteq> 0" "gc_stack_top s mod 16 = 0" "frame \<le> gc_stack_top s"
    and "\<And>v s'. f s = Inr (v, s') \<Longrightarrow> gc_stack_top s' = gc_stack_top s"
  shows "gc_section frame f s = f s"
  using assms by (cases "f s") (auto simp: gc_section_def PRE_GC_def POST_GC_def)

lemma PRE_GC_aligned: "PRE_GC frame s = Inr (flag, s1) \<Longrightarrow> gc_stack_top s1 \<noteq> 0 \<and> gc_stack_top s1 mod 16 = 0"
  by (auto simp: PRE_GC_def Let_def split: if_splits)

lemma ready_top:
  assumes "ready mmap frame args n s os s1 s2 t sl b"
  shows "gc_stack_top s2 \<noteq> 0" "gc_stack_top s2 mod 16 = 0" "gc_stack_top s2 = gc_stack_top s1"
    "memory s2 = memory s1" "heap s2 = heap s1"
proof -
  note D = readyD [OF assms]
  note F = sans_pool_fields [OF push_all_SomeD(4) [OF D(1,3)]]
  obtain flag where "PRE_GC frame s = Inr (flag, s1)" using D(10) by blast
  then show "gc_stack_top s2 \<noteq> 0" "gc_stack_top s2 mod 16 = 0" using PRE_GC_aligned by (simp_all add: F)
  show "gc_stack_top s2 = gc_stack_top s1" "memory s2 = memory s1" "heap s2 = heap s1" by (rule F)+
qed

lemma PRE_GC_memory: "PRE_GC frame s = Inr (flag, s1) \<Longrightarrow> memory s1 = memory s \<and> heap s1 = heap s"
  by (auto simp: PRE_GC_def Let_def split: if_splits)

lemma LmakeString_run:
  assumes R: "ready mmap frame args n s os s1 s2 STRING (of_nat k) b" and fr: "fr 0 \<le> gc_stack_top s1" and k: "k < 2 ^ 60"
    and a: "alloc_object mmap STRING (of_nat k) s2 = Inr (c_current (heap s3), with_object s3 STRING (of_nat k))"
    and st: "gc_stack_top s3 = gc_stack_top s2"
  shows "LmakeString mmap fr (BOX (of_nat k)) s2 = Inr (of_nat (c_current (heap s3) + 16), with_object s3 STRING (of_nat k))"
proof -
  note T = ready_top [OF R]
  have "gc_section (fr 0) (\<lambda>s. bindR (alloc_string mmap (of_nat k) s) (\<lambda>(r, s). Inr (of_nat (r + 16), s))) s2 =
      bindR (alloc_string mmap (of_nat k) s2) (\<lambda>(r, s). Inr (of_nat (r + 16), s))"
    by (rule nested_section) (use T fr a st in \<open>simp_all add: with_object_def Let_def\<close>)
  then show ?thesis using a by (simp add: LmakeString_def boxed_count [OF k] assert_unboxed_def)
qed

lemma Bstring_built:
  assumes R: "ready mmap (fr 0) args 1 s os s1 s2 STRING (of_nat (length bs)) b" and fr: "fr 1 \<le> gc_stack_top s1"
    and src: "source s2 b (new_size s2 os STRING (of_nat (length bs))) args bs" and n: "length bs < 2 ^ 60"
  shows "\<exists>v s'. Bstring mmap fr args s = Inr (v, s') \<and> gc_stack_top s' = gc_stack_top s \<and>
    built s1 (s'\<lparr>gc_stack_top := gc_stack_top s1\<rparr>) (VStr (of_nat (length bs)) bs) v"
proof -
  let ?n = "of_nat (length bs) :: u64"
  note D = readyD [OF R]
  note T = ready_top [OF R]
  have u: "unat ?n = length bs" by (rule unat_of_nat_u64) (use n in simp)
  have a: "args \<in> set (fix_addrs s2)" using D(6) by (simp add: word_addrs_def)
  obtain flag where pre: "PRE_GC (fr 0) s = Inr (flag, s1)" using D(10) by blast
  have c2: "cstring (memory s2) (unat (ld64 (memory s2) args)) = Some bs" using src by (auto simp: source_def)
  then have cs: "cstring (memory s) (unat (ld64 (memory s) args)) = Some bs" using T(4) PRE_GC_memory [OF pre] by simp
  have z: "0 \<notin> set bs" using cstring_SomeD [OF c2] by blast
  let ?g = "\<lambda>v m. strncpy m (unat v) (unat (ld64 m args)) (length bs + 1)"
  let ?o = "\<lambda>s3. with_object s3 STRING ?n"
  let ?q = "\<lambda>s3. of_nat (c_current (heap s3) + 16) :: u64"
  have built: "built s2 (?o s3\<lparr>memory := ?g (?q s3) (memory (?o s3))\<rparr>) (VStr ?n bs) (?q s3)"
    if st: "settled s2 os b (new_size s2 os STRING ?n) s3 os3" and fit: "fits s3 STRING ?n" for s3 os3
  proof -
    let ?p = "c_current (heap s3)" and ?m = "memory (?o s3)"
    note S = source_settled [OF st fit a src, where m' = ?m, simplified]
    have q: "unat (?q s3) = ?p + 16" by (rule unat_new_pointer(1) [OF settledD(1) [OF st] fit])
    have "type_words STRING (length bs) * 8 \<ge> 17 + length bs" by (simp add: type_words_def)
    then have d: "\<forall>i j. i \<le> length bs \<longrightarrow> j < length bs + 1 \<longrightarrow> unat (ld64 (memory s3) args) + i \<noteq> ?p + 16 + j"
      using S(3) unfolding u by fastforce
    have c: "?g (?q s3) ?m x = (if ?p + 16 \<le> x \<and> x < ?p + 16 + (length bs + 1)
        then if x - (?p + 16) < length bs then bs ! (x - (?p + 16)) else 0 else ?m x)" for x
      unfolding q S(1) by (rule strncpy_spec [OF S(2) d])
    show ?thesis by (rule string_filled [OF st fit]) (use c z u in simp_all)
  qed
  have "\<exists>v s'. gc_section (fr 0) (rooted (word_addrs args 1) (\<lambda>s. bindR (LmakeString mmap (below fr) (BOX ?n) s)
      (\<lambda>(v, s). Inr (v, s\<lparr>memory := ?g v (memory s)\<rparr>)))) s = Inr (v, s') \<and> gc_stack_top s' = gc_stack_top s \<and>
    built s1 (s'\<lparr>gc_stack_top := gc_stack_top s1\<rparr>) (VStr ?n bs) v"
  proof (rule constructor_run [OF R])
    fix s3 assume s3: "gc_stack_top s3 = gc_stack_top s2"
      "alloc_object mmap STRING ?n s2 = Inr (c_current (heap s3), ?o s3)"
    have "below fr 0 \<le> gc_stack_top s1" using fr by (simp add: below_def)
    then show "bindR (LmakeString mmap (below fr) (BOX ?n) s2) (\<lambda>(v, s). Inr (v, s\<lparr>memory := ?g v (memory s)\<rparr>)) =
        Inr (?q s3, ?o s3\<lparr>memory := ?g (?q s3) (memory (?o s3))\<rparr>)"
      using LmakeString_run [OF R _ n s3(2,1)] by simp
  qed (rule built)
  moreover have "word_addrs args 1 = [args]" by (simp add: word_addrs_def)
  ultimately show ?thesis
    unfolding Bstring_def cs option.case Let_def rooted_then [where h = "\<lambda>v. v" and g = ?g] by simp
qed

section \<open>Concatenation\<close>

lemma object_length:
  assumes "gc_ok s os" "val_ok (whole (heap s)) os v" "is_obj s v t k"
  shows "unat k < 2 ^ 60"
proof -
  have k: "is_valid_heap_pointer (heap s) v" "LEN (data_header (memory s) v) = k" using assms(3) by (simp_all add: is_obj_def)
  then obtain h where h: "h \<in> set os" "unat v = h + 16"
    using val_ok_whole [OF gc_okD(3) [OF assms(1)] assms(2)] by (auto simp: val_ok_def)
  then show ?thesis
    using heap_seg_ok [OF gc_okD(1) [OF assms(1)] h(1)] header_fields(5) [OF h(2), of "memory s"] k(2)
    by (simp add: obj_ok_def obj_len_def)
qed

lemma string_header:
  assumes st: "settled s os b n s3 os3" and fit: "fits s3 t sl" and a: "a \<in> set (fix_addrs s)" "denotes s (VStr k bs) (ld64 (memory s) a)"
    and out: "\<forall>x. x < c_current (heap s3) + 16 \<or> c_current (heap s3) + 8 * type_words t (unat sl) \<le> x \<longrightarrow>
      m' x = memory (with_object s3 t sl) x"
  shows "LEN (data_header m' (ld64 (memory s3) a)) = k"
proof -
  note D = settledD [OF st]
  have d: "denotes s3 (VStr k bs) (ld64 (memory s3) a)" using st a unfolding settled_def by blast
  have "val_ok (whole (heap s3)) os3 (ld64 (memory s3) a)"
    using gc_okD(10) [OF D(1), of a] a(1) D(2) by (simp add: root_word_ok_def)
  then have "denotes (with_object s3 t sl\<lparr>memory := m'\<rparr>) (VStr k bs) (ld64 (memory s3) a)"
    by (rule denotes_grown [OF D(1) new_object(1) [OF D(1) fit out] d])
  then show ?thesis by (simp add: is_obj_def)
qed

text \<open>Two strings copied one after the other into a new one.\<close>

lemma concat_filled:
  fixes s3 :: gc_state and sl :: u64 and xs ys :: "byte list" and x y :: addr
  defines "p \<equiv> c_current (heap s3)" and "m \<equiv> memory (with_object s3 STRING sl)"
  defines "m1 \<equiv> strncpy m (p + 16) (unat (ld64 (memory s3) x)) (length xs)"
  defines "m2 \<equiv> strncpy m1 (p + 16 + length xs) (unat (ld64 (memory s3) y)) (length ys)"
  assumes st: "settled s os b n s3 os3" and fit: "fits s3 STRING sl" and sl: "unat sl = length xs + length ys"
    and a: "x \<in> set (fix_addrs s)" "source s b n x xs" and b: "y \<in> set (fix_addrs s)" "source s b n y ys"
  shows "built s (with_object s3 STRING sl\<lparr>memory := m2(p + 16 + (length xs + length ys) := 0)\<rparr>) (VStr sl (xs @ ys)) (of_nat (p + 16))"
    and "\<forall>z. z < p + 16 \<or> p + 8 * type_words STRING (unat sl) \<le> z \<longrightarrow> m2 z = m z"
proof -
  have w: "p + 17 + unat sl \<le> p + 8 * type_words STRING (unat sl)" by (simp add: type_words_def)
  note A = source_settled [OF st fit a, folded p_def m_def]
  note B = source_settled [OF st fit b, folded p_def m_def]
  have ca: "cstring m (unat (ld64 (memory s3) x)) = Some xs" by (rule A(2)) simp
  have da: "\<forall>i j. i \<le> length xs \<longrightarrow> j < length xs \<longrightarrow> unat (ld64 (memory s3) x) + i \<noteq> p + 16 + j"
    using A(3) [where m' = m] w unfolding sl by fastforce
  have m1: "m1 z = (if p + 16 \<le> z \<and> z < p + 16 + length xs then xs ! (z - (p + 16)) else m z)" for z
    unfolding m1_def strncpy_spec [OF ca da] by auto
  have o1: "\<forall>z. z < p + 16 \<or> p + 8 * type_words STRING (unat sl) \<le> z \<longrightarrow> m1 z = m z"
    using w by (simp add: m1 sl)
  have cb: "cstring m1 (unat (ld64 (memory s3) y)) = Some ys" by (rule B(2) [OF o1])
  have db: "\<forall>i j. i \<le> length ys \<longrightarrow> j < length ys \<longrightarrow> unat (ld64 (memory s3) y) + i \<noteq> p + 16 + length xs + j"
    using B(3) [OF o1] w unfolding sl by fastforce
  have m2: "m2 z = (if p + 16 + length xs \<le> z \<and> z < p + 16 + length xs + length ys
      then ys ! (z - (p + 16 + length xs)) else m1 z)" for z
    unfolding m2_def strncpy_spec [OF cb db] by auto
  show "\<forall>z. z < p + 16 \<or> p + 8 * type_words STRING (unat sl) \<le> z \<longrightarrow> m2 z = m z"
    using w by (simp add: m2 o1 sl)
  have z: "0 \<notin> set (xs @ ys)" using cstring_SomeD [OF ca] cstring_SomeD [OF cb] by simp
  note F = string_filled [OF st fit _ z, folded p_def m_def]
  show "built s (with_object s3 STRING sl\<lparr>memory := m2(p + 16 + (length xs + length ys) := 0)\<rparr>) (VStr sl (xs @ ys)) (of_nat (p + 16))"
    by (rule F) (auto simp: sl m2 m1 nth_append)
qed

lemma concat_built:
  assumes R: "ready mmap (fr 0) args 2 s os s1 s2 STRING (la + lb) b"
    and as: "denotes s1 (VStr la xs) (ld64 (memory s1) args)" "unat la = length xs"
    and bs: "denotes s1 (VStr lb ys) (ld64 (memory s1) (args + 8))" "unat lb = length ys"
  shows "\<exists>v s'. Li__Infix_4343 mmap fr args s = Inr (v, s') \<and> gc_stack_top s' = gc_stack_top s \<and>
    built s1 (s'\<lparr>gc_stack_top := gc_stack_top s1\<rparr>) (VStr (la + lb) (xs @ ys)) v"
proof -
  note D = readyD [OF R]
  note T = ready_top [OF R]
  obtain flag where pre: "PRE_GC (fr 0) s = Inr (flag, s1)" using D(10) by blast
  note M = PRE_GC_memory [OF pre]
  have w2: "word_addrs args 2 = [args, args + 8]" by (simp add: word_addrs_def numeral_2_eq_2)
  have x: "args \<in> set (fix_addrs s2)" "args + 8 \<in> set (fix_addrs s2)" using D(6) by (simp_all add: w2)
  have src: "denotes s2 (VStr la xs) (ld64 (memory s2) args)" "denotes s2 (VStr lb ys) (ld64 (memory s2) (args + 8))"
    using as(1) bs(1) by (simp_all add: D(8) T(4) del: denotes.simps)
  then have S: "source s2 b k args xs" "source s2 b k (args + 8) ys" for k unfolding source_def by blast+
  have "rootable s1 os args" "rootable s1 os (args + 8)" using R by (simp_all add: ready_def w2)
  then have "unat la < 2 ^ 60" "unat lb < 2 ^ 60"
    using object_length [OF D(2)] as(1) bs(1) by (auto simp: rootable_def)
  then have sl: "unat (la + lb) = length xs + length ys"
    unfolding as(2) [symmetric] bs(2) [symmetric] by (intro unat_add_lem [THEN iffD1]) simp
  have hdr: "LEN (data_header (memory s) (ld64 (memory s) args)) = la" "LEN (data_header (memory s) (ld64 (memory s) (args + 8))) = lb"
    "TAG (data_header (memory s) (ld64 (memory s) args)) = STRING_TAG" "TAG (data_header (memory s) (ld64 (memory s) (args + 8))) = STRING_TAG"
    using as(1) bs(1) M by (simp_all add: is_obj_def)
  let ?o = "\<lambda>s3. with_object s3 STRING (la + lb)"
  let ?q = "\<lambda>s3. of_nat (c_current (heap s3) + 16) :: u64"
  let ?l = "\<lambda>m a. LEN (data_header m (ld64 m a))"
  let ?m1 = "\<lambda>d m. strncpy m (d + 16) (unat (ld64 m args)) (unat (?l m args))"
  let ?m2 = "\<lambda>d m. strncpy (?m1 d m) (d + 16 + unat (?l m args)) (unat (ld64 m (args + 8))) (unat (?l m (args + 8)))"
  let ?g = "\<lambda>d m. (?m2 d m)(d + 16 + unat (LEN (data_header (?m2 d m) (ld64 m args)) + LEN (data_header (?m2 d m) (ld64 m (args + 8)))) := 0)"
  have built: "built s2 (?o s3\<lparr>memory := ?g (c_current (heap s3)) (memory (?o s3))\<rparr>) (VStr (la + lb) (xs @ ys)) (?q s3)"
    if st: "settled s2 os b (new_size s2 os STRING (la + lb)) s3 os3" and fit: "fits s3 STRING (la + lb)" for s3 os3
  proof -
    note L = string_header [OF st fit x(1) src(1)] string_header [OF st fit x(2) src(2)]
    note V = source_settled(1) [OF st fit x(1) S(1)] source_settled(1) [OF st fit x(2) S(2)]
    note C = concat_filled [OF st fit sl x(1) S(1) x(2) S(2)]
    have m: "ld64 (memory (?o s3)) args = ld64 (memory s3) args" "ld64 (memory (?o s3)) (args + 8) = ld64 (memory s3) (args + 8)"
      by (rule V; simp)+
    have l: "LEN (data_header (memory (?o s3)) (ld64 (memory s3) args)) = la"
      "LEN (data_header (memory (?o s3)) (ld64 (memory s3) (args + 8))) = lb" by (rule L; simp)+
    show ?thesis unfolding m l as(2) bs(2) L [OF C(2)] sl by (rule C(1))
  qed
  have "\<exists>v s'. gc_section (fr 0) (rooted (word_addrs args 2) (\<lambda>s. bindR (alloc_string mmap (la + lb) s)
      (\<lambda>(d, s). Inr (of_nat (d + 16), s\<lparr>memory := ?g d (memory s)\<rparr>)))) s = Inr (v, s') \<and> gc_stack_top s' = gc_stack_top s \<and>
    built s1 (s'\<lparr>gc_stack_top := gc_stack_top s1\<rparr>) (VStr (la + lb) (xs @ ys)) v"
    by (rule constructor_run [OF R]) (use built in auto)
  then show ?thesis
    unfolding Li__Infix_4343_def Let_def hdr assert_string_def w2
      rooted_then [where h = "\<lambda>d. of_nat (d + 16)" and g = ?g] by simp
qed

section \<open>Substrings\<close>

lemma unat_offset:
  assumes "unat v + k < 2 ^ 64"
  shows "unat (v + of_nat k :: u64) = unat v + k"
  using assms by (simp add: unat_word_ariths unat_of_nat_u64)

lemma substring_filled:
  fixes s3 :: gc_state and xs :: "byte list" and x :: addr and n pp :: nat
  defines "p \<equiv> c_current (heap s3)" and "m \<equiv> memory (with_object s3 STRING (of_nat n))"
  assumes st: "settled s os b k s3 os3" and fit: "fits s3 STRING (of_nat n)"
    and a: "x \<in> set (fix_addrs s)" "source s b k x xs" and n: "pp + n \<le> length xs" "n < 2 ^ 60"
  shows "built s (with_object s3 STRING (of_nat n)\<lparr>memory := strncpy m (p + 16) (unat (ld64 (memory s3) x) + pp) n\<rparr>)
    (VStr (of_nat n) (take n (drop pp xs))) (of_nat (p + 16))"
proof -
  have u: "unat (of_nat n :: u64) = n" by (rule unat_of_nat_u64) (use n in simp)
  have w: "p + 17 + n \<le> p + 8 * type_words STRING (unat (of_nat n :: u64))" unfolding u by (simp add: type_words_def)
  note A = source_settled [OF st fit a, folded p_def m_def]
  have c: "cstring m (unat (ld64 (memory s3) x)) = Some xs" by (rule A(2)) simp
  have cd: "cstring m (unat (ld64 (memory s3) x) + pp) = Some (drop pp xs)" by (rule cstring_drop [OF c]) (use n in simp)
  have d: "\<forall>i j. i \<le> length (drop pp xs) \<longrightarrow> j < n \<longrightarrow> unat (ld64 (memory s3) x) + pp + i \<noteq> p + 16 + j"
  proof (intro allI impI)
    fix i j assume ij: "i \<le> length (drop pp xs)" "j < n"
    then have "pp + i \<le> length xs" using n by simp
    then show "unat (ld64 (memory s3) x) + pp + i \<noteq> p + 16 + j"
      using A(3) [where m' = m, of "pp + i"] ij(2) w by fastforce
  qed
  let ?m' = "strncpy m (p + 16) (unat (ld64 (memory s3) x) + pp) n"
  have m': "?m' z = (if p + 16 \<le> z \<and> z < p + 16 + n then drop pp xs ! (z - (p + 16)) else m z)" for z
    unfolding strncpy_spec [OF cd d] using n by auto
  have z: "0 \<notin> set (take n (drop pp xs))" using cstring_SomeD [OF c] by (auto dest!: in_set_takeD in_set_dropD)
  have last: "m (p + 16 + n) = 0"
    using with_object_blank(1,2) [of "of_nat n" s3 STRING] fit w
    by (simp add: blank_object_def fits_def p_def m_def)
  note F = string_filled [OF st fit _ z, folded p_def m_def]
  show ?thesis by (rule F) (use n u last in \<open>auto simp: m'\<close>)
qed

lemma Lsubstring_built:
  assumes R: "ready mmap (fr 0) args 1 s os s1 s2 STRING (of_nat n) b"
    and xs: "denotes s1 (VStr sl xs) (ld64 (memory s1) args)" and n: "pp + n \<le> length xs"
    and a: "ld64 (memory s) (args + 8) = BOX (of_nat pp)" "ld64 (memory s) (args + 16) = BOX (of_nat n)"
  shows "\<exists>v s'. Lsubstring mmap fr args s = Inr (v, s') \<and> gc_stack_top s' = gc_stack_top s \<and>
    built s1 (s'\<lparr>gc_stack_top := gc_stack_top s1\<rparr>) (VStr (of_nat n) (take n (drop pp xs))) v"
proof -
  note D = readyD [OF R]
  note T = ready_top [OF R]
  obtain flag where pre: "PRE_GC (fr 0) s = Inr (flag, s1)" using D(10) by blast
  note M = PRE_GC_memory [OF pre]
  have x: "args \<in> set (fix_addrs s2)" using D(6) by (simp add: word_addrs_def)
  have w1: "word_addrs args 1 = [args]" by (simp add: word_addrs_def)
  have src: "denotes s2 (VStr sl xs) (ld64 (memory s2) args)" using xs by (simp add: D(8) T(4) del: denotes.simps)
  then have S: "source s2 b k args xs" for k unfolding source_def by blast
  have "\<forall>a \<in> set [args]. rootable s1 os a" using R unfolding ready_def w1 by blast
  then have sl: "unat sl < 2 ^ 60" using object_length [OF D(2)] xs by (auto simp: rootable_def)
  then have b60: "n < 2 ^ 60" "pp < 2 ^ 60" "pp + n \<le> unat sl" using n xs by auto
  have u: "UNBOX (BOX (of_nat pp)) = (of_nat pp :: u64)" "UNBOX (BOX (of_nat n)) = (of_nat n :: u64)"
    "\<not> sint (of_nat n :: u64) < 0" "unat (of_nat n :: u64) = n"
    using boxed_count [OF b60(1)] boxed_count [OF b60(2)] b60 signed_take_bit_int_eq_self [of 63 "int n"]
    by (simp_all add: signed_of_nat unat_of_nat_u64)
  have hdr: "LEN (data_header (memory s) (ld64 (memory s) args)) = sl" "TAG (data_header (memory s) (ld64 (memory s) args)) = STRING_TAG"
    using xs M by (simp_all add: is_obj_def)
  have le: "of_nat pp + of_nat n \<le> sl"
    using b60 sl by (simp add: word_le_nat_alt unat_word_ariths unat_of_nat_u64)
  let ?g = "\<lambda>r m. strncpy m (r + 16) (unat (ld64 m args + of_nat pp)) n"
  let ?o = "\<lambda>s3. with_object s3 STRING (of_nat n)"
  have built: "built s2 (?o s3\<lparr>memory := ?g (c_current (heap s3)) (memory (?o s3))\<rparr>)
      (VStr (of_nat n) (take n (drop pp xs))) (of_nat (c_current (heap s3) + 16))"
    if st: "settled s2 os b (new_size s2 os STRING (of_nat n)) s3 os3" and fit: "fits s3 STRING (of_nat n)" for s3 os3
  proof -
    note A = source_settled [OF st fit x S, where m' = "memory (?o s3)", simplified]
    have "denotes s3 (VStr sl xs) (ld64 (memory s3) args)" using st x src unfolding settled_def by blast
    moreover have "val_ok (whole (heap s3)) os3 (ld64 (memory s3) args)"
      using gc_okD(10) [OF settledD(1) [OF st], of args] x settledD(2) [OF st] by (simp add: root_word_ok_def)
    ultimately have "unat (ld64 (memory s3) args) + unat sl < c_current (heap s3)"
      by (intro string_end [OF settledD(1) [OF st]]) simp_all
    then have "unat (ld64 (memory s3) args) + pp < 2 ^ 64"
      using gc_okD(3,6) [OF settledD(1) [OF st]] b60(3) by (simp add: chunk_ok_def)
    then show ?thesis using substring_filled [OF st fit x S n b60(1)] A(1) by (simp add: unat_offset)
  qed
  have "\<exists>v s'. gc_section (fr 0) (rooted (word_addrs args 1) (\<lambda>s. bindR (alloc_string mmap (of_nat n) s)
      (\<lambda>(r, s). Inr (of_nat (r + 16), s\<lparr>memory := ?g r (memory s)\<rparr>)))) s = Inr (v, s') \<and> gc_stack_top s' = gc_stack_top s \<and>
    built s1 (s'\<lparr>gc_stack_top := gc_stack_top s1\<rparr>) (VStr (of_nat n) (take n (drop pp xs))) v"
    by (rule constructor_run [OF R]) (use built in auto)
  then show ?thesis
    unfolding Lsubstring_def Let_def hdr assert_string_def assert_unboxed_def a u(1,2,4) if_not_P [OF u(3)] w1
      rooted_then [where h = "\<lambda>d. of_nat (d + 16)" and g = ?g]
    using le by simp
qed

end
