(* ===== verification/Clone_Correct.thy ===== *)
theory Clone_Correct
  imports Strings_Correct
begin

text \<open>
  \<open>Lclone\<close> returns a new object that denotes the tree of its argument (for a string, up to its first
  NUL), and \<open>Lstring\<close> a string object that holds the text of the tree of its argument.
\<close>

section \<open>A string from a local pointer\<close>

lemma rooted_Bstring:
  assumes ok: "pool_ok s1" "gc_ok s1 os" and top: "gc_stack_top s1 \<noteq> 0"
    and push: "for_each push_extra_root [args] s1 = Inr s2" and args: "rootable s1 os args"
    and q: "quiet s2 m'" and s3: "s3 = s2\<lparr>memory := m'\<rparr>"
    and R: "ready mmap (fr 1) loc 1 s3 os s3 s4 STRING (of_nat (length bs)) b" and fr: "fr 2 \<le> gc_stack_top s1"
    and src: "source s4 b (new_size s4 os STRING (of_nat (length bs))) loc bs" and n: "length bs < 2 ^ 60"
    and f: "f s2 = Bstring mmap (below fr) loc s3"
  shows "\<exists>v s'. rooted [args] f s1 = Inr (v, s') \<and> built s1 s' (VStr (of_nat (length bs)) bs) v"
proof -
  note P = push_all_SomeD [OF ok(1) push]
  have rs: "\<forall>a \<in> set [args]. rootable s1 os a" "\<forall>a \<in> set [args]. scannable s1 a" using args by (simp_all add: rootable_def)
  have g2: "gc_ok s2 os" by (rule push_gc_ok [OF ok(2) P(4,3) rs(1)])
  note Q = quiet_write [OF g2 q, folded s3]
  have t: "gc_stack_top s3 = gc_stack_top s1" using sans_pool_fields(3) [OF P(4)] by (simp add: s3)
  have c: "below fr 0 = fr 1" "below fr 1 = fr 2" by (simp_all add: below_def numeral_2_eq_2)
  have fr': "below fr 1 \<le> gc_stack_top s3" unfolding c t by (rule fr)
  obtain v s5 where s5: "Bstring mmap (below fr) loc s3 = Inr (v, s5)" "gc_stack_top s5 = gc_stack_top s3"
    "built s3 (s5\<lparr>gc_stack_top := gc_stack_top s3\<rparr>) (VStr (of_nat (length bs)) bs) v"
    using Bstring_built [OF R [folded c(1)] fr' src n] by blast
  have "s5\<lparr>gc_stack_top := gc_stack_top s3\<rparr> = s5" using s5(2) by (cases s5) simp
  then have b: "built s2 s5 (VStr (of_nat (length bs)) bs) v" using built_after [OF Q(2,3)] s5(3) by simp
  have "f s2 = Inr (v, s5)" using f s5(1) by simp
  from rooted_run [where f = f, OF ok push rs(2) this b] show ?thesis by blast
qed

section \<open>A copy of an object\<close>

text \<open>The fields of a tree, and the kind and head word of its object.\<close>

fun tree_fields :: "vtree \<Rightarrow> vtree list" where
  "tree_fields (VArr ts) = ts" | "tree_fields (VSexp t ts) = ts" | "tree_fields (VClo c ts) = ts" | "tree_fields t = []"

fun tree_type :: "vtree \<Rightarrow> lama_type" where
  "tree_type (VArr ts) = ARRAY" | "tree_type (VSexp t ts) = SEXP" | "tree_type (VClo c ts) = CLOSURE" | "tree_type t = STRING"

fun tree_length :: "vtree \<Rightarrow> nat" where
  "tree_length (VClo c ts) = Suc (length ts)" | "tree_length t = length (tree_fields t)"

text \<open>An object with fields, word by word.\<close>

lemma denotes_fields:
  assumes "tree_type t \<noteq> STRING" "unat v = h + 16"
  shows "denotes s t v \<longleftrightarrow> is_obj s v (tag_of (tree_type t)) (of_nat (tree_length t)) \<and> length (tree_fields t) < 2 ^ 60 \<and>
    (tree_type t \<noteq> ARRAY \<longrightarrow> ld64 (memory s) (h + 16) = (case t of VSexp x ts \<Rightarrow> x | VClo x ts \<Rightarrow> x | _ \<Rightarrow> 0)) \<and>
    denote_words s (tree_fields t) (if tree_type t = ARRAY then h + 16 else h + 24)"
  using assms by (cases t) (auto simp: sexp_tag_def TO_SEXP_def add.assoc)

lemma tree_slots:
  assumes t: "tree_type t \<noteq> STRING" and d: "denotes s t v" and h: "unat v = h + 16"
  shows "slots (memory s) h = map (\<lambda>i. (if tree_type t = ARRAY then h + 16 else h + 24) + 8 * i) [0..<length (tree_fields t)]"
    and "obj_type (memory s) h = tree_type t" "obj_len (memory s) h = tree_length t" "tree_length t < 2 ^ 61"
proof -
  have o: "is_obj s v (tag_of (tree_type t)) (of_nat (tree_length t))" "length (tree_fields t) < 2 ^ 60"
    using d denotes_fields [OF t h] by auto
  show l: "tree_length t < 2 ^ 61" using o(2) by (cases t) simp_all
  have u: "unat (of_nat (tree_length t) :: u64) = tree_length t" by (rule unat_of_nat_u64) (use l in simp)
  show ty: "obj_type (memory s) h = tree_type t" "obj_len (memory s) h = tree_length t"
    using o(1) t header_fields [OF h, of "memory s"] u by (cases "tree_type t"; simp add: is_obj_def)+
  show "slots (memory s) h = map (\<lambda>i. (if tree_type t = ARRAY then h + 16 else h + 24) + 8 * i) [0..<length (tree_fields t)]"
    using t ty by (cases t) (simp_all add: slots_def slot0_def nslots_def)
qed

lemma header_eqI: "TAG x = TAG y \<Longrightarrow> LEN x = LEN y \<Longrightarrow> x = y"
proof (rule bit_word_eqI)
  fix n assume t: "TAG x = TAG y" and l: "LEN x = LEN y" and n: "n < LENGTH(64)"
  have "bit x n = bit y n" if "n < 3" using arg_cong [OF t, of "\<lambda>w. bit w n"] that by (simp add: bit_TAG)
  moreover have "bit x n = bit y n" if "\<not> n < 3"
    using arg_cong [OF l, of "\<lambda>w. bit w (n - 3)"] that by (simp add: LEN_eq bit_drop_bit_eq)
  ultimately show "bit x n = bit y n" by blast
qed

lemma byte_of_word: "ld64 m a = ld64 m' b \<Longrightarrow> i < 8 \<Longrightarrow> m (a + i) = m' (b + i)"
proof -
  assume e: "ld64 m a = ld64 m' b" and i: "i < 8"
  have "st64 k c (ld64 k c) (c + i) = k (c + i)" for k c by (simp only: st64_ld64)
  then have b: "ucast (drop_bit (8 * i) (ld64 k c)) = k (c + i)" for k c unfolding st64_apply using i by simp
  show ?thesis using b [of m a] b [of m' b] e by simp
qed

lemma header_of_object:
  fixes len :: u64
  assumes "is_obj s v (tag_of t) (of_nat n)" "unat v = h + 16" "unat len = n" "n < 2 ^ 60"
  shows "ld64 (memory s) h = mk_header (tag_of t) len"
proof (rule header_eqI)
  have o: "TAG (ld64 (memory s) h) = tag_of t" "LEN (ld64 (memory s) h) = of_nat n"
    using assms(1) by (simp_all add: is_obj_def data_header_def TO_DATA_def assms(2))
  show "TAG (ld64 (memory s) h) = TAG (mk_header (tag_of t) len)" using o(1) by (simp add: TAG_header [OF tag_of_small])
  show "LEN (ld64 (memory s) h) = LEN (mk_header (tag_of t) len)"
    using o(2) LEN_header [OF tag_of_small] assms(3,4) by auto
qed

text \<open>The words of an object copied over a new one of its type and length; its header word is not changed by that.\<close>

lemma copied_words:
  fixes s3 :: gc_state and t :: lama_type and len :: u64 and h :: addr
  defines "p \<equiv> c_current (heap s3)" and "m \<equiv> memory (with_object s3 t len)" and "sz \<equiv> type_size t (unat len)"
  defines "m' \<equiv> memmove m p h sz"
  assumes ok: "gc_ok s3 os3" and len: "unat len < 2 ^ 60" and h: "h \<in> set os3" "obj_bytes (memory s3) h = sz"
    and t: "t \<noteq> STRING" and hd: "ld64 (memory s3) h = mk_header (tag_of t) len"
  shows "j + 8 \<le> sz \<Longrightarrow> ld64 m' (p + j) = ld64 (memory s3) (h + j)"
    and "\<forall>x. x < p + 8 \<or> p + 8 * type_words t (unat len) \<le> x \<longrightarrow> m' x = m x" "\<not> marked m' p" "\<not> enqd m' p"
proof -
  note G = gc_okD [OF ok]
  have sz: "16 \<le> sz" "sz \<le> 8 * type_words t (unat len)" using t by (cases t; simp add: type_words_def sz_def)+
  have hp: "h + sz \<le> p" using heap_seg_in [OF G(1) h(1)] obj_bytes_le_words [of "memory s3" h] h(2) unfolding p_def by linarith
  have mb: "m' (p + j) = memory s3 (h + j)" if "j < sz" for j
    using that hp with_object_blank(5) [OF len, of "h + j" s3 t] by (simp add: m'_def memmove_def m_def p_def)
  have mw: "ld64 m' (p + j) = ld64 (memory s3) (h + j)" if "j + 8 \<le> sz" for j
  proof (rule ld64_cong)
    fix i :: nat assume "i < 8"
    then show "m' (p + j + i) = memory s3 (h + j + i)" using mb [of "j + i"] that by (simp add: add.assoc)
  qed
  then show "j + 8 \<le> sz \<Longrightarrow> ld64 m' (p + j) = ld64 (memory s3) (h + j)" .
  show "\<not> marked m' p" "\<not> enqd m' p"
    using fwd_word_cong(1,2) [OF mw [of 8]] sz(1) G(2) h(1) by (simp_all add: unmarked_heap_def)
  have "ld64 m p = mk_header (tag_of t) len" by (simp add: m_def p_def with_object_def Let_def ld64_st64_other)
  then have hw: "ld64 m' p = ld64 m p" using mw [of 0] sz(1) hd by simp
  show "\<forall>x. x < p + 8 \<or> p + 8 * type_words t (unat len) \<le> x \<longrightarrow> m' x = m x"
  proof (intro allI impI)
    fix x assume x: "x < p + 8 \<or> p + 8 * type_words t (unat len) \<le> x"
    show "m' x = m x"
    proof (cases "p \<le> x \<and> x < p + 8")
      case True
      then have "x - p < 8" "p + (x - p) = x" by linarith+
      then show ?thesis using byte_of_word [OF hw, of "x - p"] by simp
    next
      case False
      then show ?thesis using x sz(2) by (auto simp: m'_def memmove_def)
    qed
  qed
qed

lemma copied_filled:
  fixes s3 :: gc_state and T :: vtree and len :: u64
  defines "t \<equiv> tree_type T" and "p \<equiv> c_current (heap s3)"
  defines "m \<equiv> memory (with_object s3 t len)"
  assumes st: "settled s os b n s3 os3" and fit: "fits s3 t len" and a: "a \<in> set (fix_addrs s)" "denotes s T (ld64 (memory s) a)"
    and T: "t \<noteq> STRING" "unat len = tree_length T"
  defines "m' \<equiv> memmove m p (TO_DATA (unat (ld64 m a))) (type_size t (unat len))"
  shows "built s (with_object s3 t len\<lparr>memory := m'\<rparr>) T (of_nat (p + 16))"
proof -
  let ?v = "ld64 (memory s3) a" and ?w = "type_words t (unat len)" and ?sz = "type_size t (unat len)"
  note D = settledD [OF st]
  note G = gc_okD [OF D(1)]
  have len60: "unat len < 2 ^ 60" using fit by (simp add: fits_def)
  have d: "denotes s3 T ?v" using st a unfolding settled_def by blast
  have vo: "val_ok (whole (heap s3)) os3 ?v" using G(10) [of a] a(1) D(2) by (simp add: root_word_ok_def)
  have "is_valid_heap_pointer (heap s3) ?v" using d T(1) by (cases T) (auto simp: is_obj_def t_def)
  then obtain h where h: "h \<in> set os3" "unat ?v = h + 16" using val_ok_whole [OF G(3) vo] by (auto simp: val_ok_def)
  note S = tree_slots [OF T(1) [unfolded t_def] d h(2), folded t_def]
  have hs: "obj_bytes (memory s3) h = ?sz" by (simp add: obj_bytes_def S(2,3) T(2))
  have sz: "t \<noteq> ARRAY \<longrightarrow> 24 \<le> ?sz" using T by (cases T) (simp_all add: t_def)
  have src: "TO_DATA (unat (ld64 m a)) = h"
    using new_object(3) [OF D(1) fit, of m a] a(1) D(2) h(2) by (simp add: m_def TO_DATA_def)
  have io: "is_obj s3 ?v (tag_of t) (of_nat (tree_length T))" using d denotes_fields [OF T(1) [unfolded t_def] h(2)] t_def by blast
  note C = copied_words [OF D(1) len60 h(1) hs T(1) header_of_object [OF io h(2) T(2) len60 [unfolded T(2)]], folded p_def m_def,
      folded src, folded m'_def, unfolded src]
  note mw = C(1) and out = C(2) and fw = C(3,4)
  note N = new_object_written [OF D(1) fit out [unfolded p_def m_def], folded p_def m_def]
  let ?f = "if t = ARRAY then 16 else 24 :: nat"
  have fl: "?f + 8 * length (tree_fields T) \<le> ?sz" using T by (cases T) (simp_all add: t_def)
  have fld: "ld64 m' (p + ?f + 8 * i) = ld64 (memory s3) (h + ?f + 8 * i) \<and> val_ok (whole (heap s3)) os3 (ld64 (memory s3) (h + ?f + 8 * i))"
    if "i < length (tree_fields T)" for i
  proof -
    have "h + ?f + 8 * i \<in> set (slots (memory s3) h)" using that unfolding S(1) by auto
    then show ?thesis using G(9) [OF h(1)] mw [of "?f + 8 * i"] fl that by (simp add: add.assoc)
  qed
  let ?s' = "with_object s3 t len\<lparr>memory := m'\<rparr>"
  have q: "unat (of_nat (p + 16) :: u64) = p + 16" using unat_new_pointer(1) [OF D(1) fit] by (simp add: p_def)
  have sl: "slots m p = map (\<lambda>i. p + ?f + 8 * i) [0..<length (tree_fields T)]"
    using with_object_blank(1) [OF len60, of s3 t] T
    by (cases T) (simp_all add: slots_def slot0_def nslots_def blank_object_def m_def p_def t_def)
  have "denote_words ?s' (tree_fields T) (p + ?f)"
    unfolding denote_words_iff
  proof (intro allI impI)
    fix i assume i: "i < length (tree_fields T)"
    have "denotes s3 (tree_fields T ! i) (ld64 (memory s3) (h + ?f + 8 * i))"
      using d denotes_fields [OF T(1) [unfolded t_def] h(2)] i by (auto simp: denote_words_iff t_def)
    then show "denotes ?s' (tree_fields T ! i) (ld64 (memory ?s') (p + ?f + 8 * i))"
      using denotes_grown [OF D(1) N(1) _ conjunct2 [OF fld [OF i]]] fld [OF i] by simp
  qed
  moreover have "t \<noteq> ARRAY \<longrightarrow> ld64 m' (p + 16) = ld64 (memory s3) (h + 16)" using mw [of 16] sz by simp
  moreover have "of_nat (tree_length T) = len" using T(2) by (metis of_nat_unat_u64)
  ultimately have den: "denotes ?s' T (of_nat (p + 16))"
    using N(2) d denotes_fields [OF T(1) [unfolded t_def] h(2), of s3] denotes_fields [OF T(1) [unfolded t_def] q, of ?s']
    by (auto simp: t_def)
  show ?thesis
    unfolding p_def
  proof (rule settled_built_written [OF st fit out [unfolded p_def m_def] fw [unfolded p_def] _ den [unfolded p_def]], fold p_def m_def)
    fix x assume "x \<in> set (slots m p)"
    then obtain i where "i < length (tree_fields T)" "x = p + ?f + 8 * i" unfolding sl by auto
    then have "val_ok (whole (heap s3)) os3 (ld64 m' x)" using fld by simp
    then show "val_ok (whole (heap s3)) (os3 @ [p]) (ld64 m' x)" by (rule val_ok_mono) auto
  qed
qed

section \<open>Cloning\<close>

lemma clone_object_built:
  assumes R: "ready mmap (fr 0) args 1 s os s1 s2 (tree_type T) (of_nat (tree_length T)) b" and T: "tree_type T \<noteq> STRING"
    and d: "denotes s1 T (ld64 (memory s1) args)"
  shows "\<exists>v s'. Lclone mmap fr loc args s = Inr (v, s') \<and> gc_stack_top s' = gc_stack_top s \<and>
    built s1 (s'\<lparr>gc_stack_top := gc_stack_top s1\<rparr>) T v"
proof -
  let ?t = "tree_type T" and ?l = "of_nat (tree_length T) :: u64"
  note D = readyD [OF R]
  note S = ready_top [OF R]
  obtain flag where pre: "PRE_GC (fr 0) s = Inr (flag, s1)" using D(10) by blast
  have x: "args \<in> set (fix_addrs s2)" and w1: "word_addrs args 1 = [args]" using D(6) by (simp_all add: word_addrs_def)
  have d2: "denotes s2 T (ld64 (memory s2) args)" using d by (simp add: D(8) S(4))
  let ?v = "ld64 (memory s1) args"
  have v: "is_valid_heap_pointer (heap s1) ?v" "TAG (data_header (memory s1) ?v) = tag_of ?t" "LEN (data_header (memory s1) ?v) = ?l"
    "length (tree_fields T) < 2 ^ 60" using d T by (cases T; auto simp: is_obj_def)+
  have u: "unat ?l = tree_length T" using v(4) by (cases T) (simp_all add: unat_of_nat_u64 del: of_nat_Suc)
  have nb: "\<not> unboxed (ld64 (memory s) args)" using v(1) PRE_GC_memory [OF pre] by (simp add: is_valid_heap_pointer_def)
  let ?g = "\<lambda>s3 :: gc_state. memmove (memory (with_object s3 ?t ?l)) (c_current (heap s3))
      (TO_DATA (unat (ld64 (memory (with_object s3 ?t ?l)) args))) (type_size ?t (unat ?l))"
  let ?f = "\<lambda>s. bindR (alloc_object mmap ?t ?l s) (\<lambda>(obj, s). Inr (of_nat (obj + 16),
      s\<lparr>memory := memmove (memory s) obj (TO_DATA (unat (ld64 (memory s) args))) (unat (kind_size ?t ?l))\<rparr>))"
  have ks: "unat (kind_size ?t (of_nat (tree_length T))) = type_size ?t (unat ?l)" if "fits s3 ?t ?l" for s3
    using type_size_word [of ?l ?t] that by (cases ?t) (simp_all add: fits_def)
  obtain v' s' where r: "rooted [args] ?f s1 = Inr (v', s')" "built s1 s' T v'"
    using rooted_constructor [OF R, where f = ?f and g = ?g and T = T] ks copied_filled [OF _ _ x d2 T u] unfolding w1 by auto
  show ?thesis
    unfolding Lclone_def if_not_P [OF nb]
    by (rule exI [of _ v'], rule gc_section_run [OF pre _ r(2)])
      (use r(1) v(2,3) T in \<open>cases T; simp add: Let_def tag_defs\<close>)
qed

end
