(* ===== verification/Show_Correct.thy ===== *)
theory Show_Correct
  imports Clone_Correct
begin

text \<open>
  \<open>Lclone\<close> of a string and \<open>Lstring\<close>, the two functions that hand a local pointer to \<open>Bstring\<close>: the
  first copies the characters up to the first NUL, the second makes a string object of the text of a
  tree.
\<close>

section \<open>Texts have no NUL\<close>

lemma show_base_no_nul: "2 \<le> b \<Longrightarrow> b \<le> 16 \<Longrightarrow> CHR 0x00 \<notin> set (show_base b n)"
proof
  assume b: "2 \<le> b" "b \<le> 16" and "CHR 0x00 \<in> set (show_base b n)"
  then obtain d where d: "d < b" "CHR 0x00 = digit_char d" using show_base_chars [OF b(1)] by blast
  then have "(of_char (CHR 0x00) :: nat) = of_char (digit_char d)" by simp
  then show False using d(1) b(2) by (simp add: digit_char_def split: if_splits)
qed

lemma show_no_nul: "CHR 0x00 \<notin> set (show_int i)" "CHR 0x00 \<notin> set (hex_word w)"
  using show_base_no_nul [of 10] show_base_no_nul [of 16] by (auto simp: show_int_def show_nat_def hex_word_def show_hex_def)

lemma chars_of_no_nul: "0 \<notin> set bs \<Longrightarrow> CHR 0x00 \<notin> set (chars_of bs)"
proof
  assume z: "0 \<notin> set bs" and "CHR 0x00 \<in> set (chars_of bs)"
  then obtain x where x: "x \<in> set bs" "CHR 0x00 = (char_of (unat x) :: char)" by (auto simp: chars_of_def)
  then have "(of_char (CHR 0x00) :: nat) = of_char (char_of (unat x) :: char)" by simp
  then have "unat x mod 256 = 0" by simp
  moreover have "unat x < 2 ^ LENGTH(8)" by (rule unsigned_less)
  ultimately have "x = 0" by (simp add: unat_eq_zero)
  then show False using x(1) z by simp
qed

lemma commas_no_nul: "(\<And>x. x \<in> set xs \<Longrightarrow> CHR 0x00 \<notin> set x) \<Longrightarrow> CHR 0x00 \<notin> set (commas xs)"
  by (induction xs) (auto simp: commas_Cons)

lemma de_hash_loop_chars: "de_hash_loop k n cs = Some t \<Longrightarrow> set cs \<subseteq> set chars \<Longrightarrow> set t \<subseteq> set chars"
proof (induction k arbitrary: n cs)
  case (Suc k)
  have "n AND 63 \<le> 63" by (rule word_and_le1)
  then have "unat (n AND 63) < length chars" by (simp add: word_le_nat_alt)
  then have "chars ! unat (n AND 63) \<in> set chars" by (rule nth_mem)
  then show ?case using Suc.prems Suc.IH [of "signed_drop_bit 6 n" "chars ! unat (n AND 63) # cs"]
    by (subst (asm) de_hash_loop.simps) (auto split: if_splits)
qed (subst (asm) de_hash_loop.simps, auto split: if_splits)

lemma tag_text_no_nul: "CHR 0x00 \<notin> set (tag_text g)"
proof -
  have "CHR 0x00 \<notin> set chars" by (simp add: chars_def)
  then show ?thesis
    using de_hash_loop_chars [of MAX_SEXP_TAGLEN g "[]"]
    by (cases "de_hash_loop MAX_SEXP_TAGLEN g []") (auto simp: tag_text_def de_hash_def)
qed

lemma denote_words_in: "denote_words s ts a \<Longrightarrow> t \<in> set ts \<Longrightarrow> \<exists>w. denotes s t w"
  by (auto simp: denote_words_iff in_set_conv_nth)

lemma show_tree_no_nul:
  "denotes s t v \<Longrightarrow> CHR 0x00 \<notin> set (show_tree t)"
  "denotes s t v \<Longrightarrow> CHR 0x00 \<notin> set (show_elems t)"
proof (induction t and t arbitrary: v and v rule: show_tree_show_elems.induct)
  case (3 n bs)
  then show ?case using cstring_SomeD chars_of_no_nul by auto
next
  case (4 ts)
  have "CHR 0x00 \<notin> set (show_tree t)" if "t \<in> set ts" for t
    using that 4 by (auto simp: denote_words_iff in_set_conv_nth)
  then show ?case by (auto intro!: commas_no_nul)
next
  case (5 g ts)
  show ?case
  proof (cases "tag_text g = ''cons''")
    case True
    then show ?thesis using "5.IH"(1) [OF True "5.prems"] by simp
  next
    case False
    have "CHR 0x00 \<notin> set (show_tree t)" if t: "t \<in> set ts" for t
    proof -
      have "ts \<noteq> []" using t by auto
      moreover obtain w where "denotes s t w" using denote_words_in [OF _ t] "5.prems" by auto
      ultimately show ?thesis using "5.IH"(2) [OF False _ t] by blast
    qed
    then have "CHR 0x00 \<notin> set (commas (map show_tree ts))" by (auto intro!: commas_no_nul)
    then show ?thesis using False tag_text_no_nul by simp
  qed
next
  case (6 c ts)
  have "CHR 0x00 \<notin> set (show_tree t)" if "t \<in> set ts" for t
    using that 6 by (auto simp: denote_words_iff in_set_conv_nth)
  then have "CHR 0x00 \<notin> set (commas (hex_word c # map show_tree ts))" using show_no_nul by (intro commas_no_nul) auto
  then show ?case by simp
next
  case (7 g x y ts)
  then have "CHR 0x00 \<notin> set (show_tree x)" "\<not> is_int y \<Longrightarrow> CHR 0x00 \<notin> set (show_elems y)"
    by (auto simp: denote_words.simps)
  then show ?case by simp
qed (simp_all add: show_no_nul)

lemma bytes_of_no_nul: "CHR 0x00 \<notin> set cs \<Longrightarrow> 0 \<notin> set (bytes_of cs)"
proof
  assume c: "CHR 0x00 \<notin> set cs" and "0 \<in> set (bytes_of cs)"
  then have "CHR 0x00 \<in> set (chars_of (bytes_of cs))"
    by (force simp: chars_of_def char_of_def)
  then show False using c by simp
qed

section \<open>Cloning a string\<close>

text \<open>
  Around a call of \<open>Bstring\<close> on a local pointer: \<open>s1\<close> after \<open>PRE_GC\<close>, \<open>s2\<close> after the push of the
  argument, \<open>s3\<close> after the writes, \<open>s4\<close> after the push of \<open>Bstring\<close>.
\<close>

definition nested :: "mmap_fun \<Rightarrow> frames \<Rightarrow> addr \<Rightarrow> addr \<Rightarrow> gc_state \<Rightarrow> addr list \<Rightarrow> gc_state \<Rightarrow> gc_state \<Rightarrow> mem \<Rightarrow> gc_state \<Rightarrow> nat \<Rightarrow> addr \<Rightarrow> bool" where
  "nested mmap fr args loc s os s1 s2 m' s4 n b \<longleftrightarrow>
     (\<exists>flag. PRE_GC (fr 0) s = Inr (flag, s1)) \<and> pool_ok s1 \<and> gc_ok s1 os \<and>
     for_each push_extra_root [args] s1 = Inr s2 \<and> rootable s1 os args \<and> fr 2 \<le> gc_stack_top s1 \<and> n < 2 ^ 60 \<and>
     ready mmap (fr 1) loc 1 (s2\<lparr>memory := m'\<rparr>) os (s2\<lparr>memory := m'\<rparr>) s4 STRING (of_nat n) b"

lemma nested_run:
  assumes N: "nested mmap fr args loc s os s1 s2 m' s4 (length bs) b" and q: "quiet s2 m'"
    and src: "source s4 b (new_size s4 os STRING (of_nat (length bs))) loc bs"
    and f: "f s2 = Bstring mmap (below fr) loc (s2\<lparr>memory := m'\<rparr>)"
    and g: "g s1 = rooted [args] f s1"
  shows "\<exists>v s'. gc_section (fr 0) g s = Inr (v, s') \<and> gc_stack_top s' = gc_stack_top s \<and>
    built s1 (s'\<lparr>gc_stack_top := gc_stack_top s1\<rparr>) (VStr (of_nat (length bs)) bs) v"
proof -
  have n: "pool_ok s1" "gc_ok s1 os" "for_each push_extra_root [args] s1 = Inr s2" "rootable s1 os args"
    "fr 2 \<le> gc_stack_top s1" "length bs < 2 ^ 60"
    "ready mmap (fr 1) loc 1 (s2\<lparr>memory := m'\<rparr>) os (s2\<lparr>memory := m'\<rparr>) s4 STRING (of_nat (length bs)) b"
    using N by (simp_all add: nested_def)
  obtain flag where P: "PRE_GC (fr 0) s = Inr (flag, s1)" using N by (auto simp: nested_def)
  have t: "gc_stack_top s1 \<noteq> 0" using PRE_GC_aligned [OF P] by simp
  obtain v s' where r: "rooted [args] f s1 = Inr (v, s')" "built s1 s' (VStr (of_nat (length bs)) bs) v"
    using rooted_Bstring [OF n(1,2) t n(3,4) q refl n(7,5) src n(6), of f] f by blast
  then have "g s1 = Inr (v, s')" using g by simp
  from gc_section_run [where f = g, OF P this r(2)] show ?thesis by blast
qed

text \<open>The trees and words across the writes and the pushes.\<close>

lemma nested_frames:
  assumes N: "nested mmap fr args loc s os s1 s2 m' s4 n b"
  shows "memory s2 = memory s1" "memory s4 = m'" "heap s4 = heap s1" "memory s = memory s1" "heap s2 = heap s1"
    "gc_ok s2 os" "set (fix_addrs s2) \<subseteq> set (fix_addrs s4)" "loc \<in> set (fix_addrs s4)"
proof -
  have n: "pool_ok s1" "gc_ok s1 os" "for_each push_extra_root [args] s1 = Inr s2" "rootable s1 os args"
    "ready mmap (fr 1) loc 1 (s2\<lparr>memory := m'\<rparr>) os (s2\<lparr>memory := m'\<rparr>) s4 STRING (of_nat n) b"
    using N by (simp_all add: nested_def)
  obtain flag where P: "PRE_GC (fr 0) s = Inr (flag, s1)" using N by (auto simp: nested_def)
  note U = push_all_SomeD [OF n(1,3)]
  note F = sans_pool_fields [OF U(4)]
  note T = ready_top [OF n(5)]
  show "memory s2 = memory s1" "heap s2 = heap s1" by (rule F)+
  show "memory s = memory s1" using PRE_GC_memory [OF P] by simp
  show "memory s4 = m'" "heap s4 = heap s1" using T(4,5) F(1) by simp_all
  show "gc_ok s2 os" by (rule push_gc_ok [OF n(2) U(4,3)]) (use n(4) in simp)
  note R = readyD [OF n(5)]
  have "fix_addrs (s2\<lparr>memory := m'\<rparr>) = fix_addrs s2" by (simp add: fix_addrs_def pool_def in_scanned_region_def)
  then show "set (fix_addrs s2) \<subseteq> set (fix_addrs s4)"
    using pool_fix_addrs(1) [OF push_all_SomeD(4,3) [OF R(1,3)] R(5)] by auto
  show "loc \<in> set (fix_addrs s4)" using R(6) by (simp add: word_addrs_def)
qed

lemma nested_tree:
  assumes N: "nested mmap fr args loc s os s1 s2 m' s4 n b" and q: "quiet s2 m'"
    and v: "val_ok (whole (heap s1)) os v" "denotes s1 t v"
  shows "denotes s4 t v"
proof -
  note F = nested_frames [OF N]
  have "denotes s2 t v" using v(2) denotes_cong [of s2 s1] F by simp
  then have "denotes (s2\<lparr>memory := m'\<rparr>) t v" using quiet_write(4) [OF F(6) q] v(1) F(5) by simp
  then show ?thesis using denotes_cong [of s4 "s2\<lparr>memory := m'\<rparr>"] F by simp
qed

lemma clone_string_built:
  assumes N: "nested mmap fr args loc s os s1 s2 (st64 (memory s2) loc (ld64 (memory s1) args)) s4 (length xs) b"
    and loc: "local_words s2 loc 1" and d: "denotes s1 (VStr sl xs) (ld64 (memory s1) args)"
  shows "\<exists>v s'. Lclone mmap fr loc args s = Inr (v, s') \<and> gc_stack_top s' = gc_stack_top s \<and>
    built s1 (s'\<lparr>gc_stack_top := gc_stack_top s1\<rparr>) (VStr (of_nat (length xs)) xs) v"
proof -
  let ?v = "ld64 (memory s1) args"
  have q: "quiet s2 (st64 (memory s2) loc ?v)" using local_words_quiet [of s2 loc "[?v]"] loc by simp
  note S = nested_frames [OF N]
  have v: "is_valid_heap_pointer (heap s1) ?v" "TAG (data_header (memory s1) ?v) = STRING_TAG" using d by (simp_all add: is_obj_def)
  have nb: "\<not> unboxed (ld64 (memory s) args)" using v(1) S(4) by (simp add: is_valid_heap_pointer_def)
  have "val_ok (whole (heap s1)) os ?v" using N by (simp add: nested_def rootable_def)
  then have "denotes s4 (VStr sl xs) (ld64 (memory s4) loc)" using nested_tree [OF N q _ d] by (simp only: S(2) ld64_st64_same)
  then have src: "source s4 b k loc xs" for k unfolding source_def by blast
  show ?thesis
    unfolding Lclone_def if_not_P [OF nb]
    by (rule nested_run [OF N q src, where f = "\<lambda>s. Bstring mmap (below fr) loc (s\<lparr>memory := st64 (memory s) loc (ld64 (memory s) args)\<rparr>)"])
      (use S(1) v(2) in \<open>simp_all add: Let_def\<close>)
qed

section \<open>The text of a value\<close>

lemma store_bytes_apply:
  "store_bytes m a bs x = (if a \<le> x \<and> x < a + length bs then bs ! (x - a) else m x)"
proof (induction bs arbitrary: m a)
  case (Cons b bs)
  show ?case
  proof (cases "x = a")
    case False
    have "store_bytes m a (b # bs) x = (if a + 1 \<le> x \<and> x < a + 1 + length bs then bs ! (x - (a + 1)) else m x)"
      using Cons.IH [of "m(a := b)" "a + 1"] fun_upd_other [OF False, of m b] by (simp del: fun_upd_apply)
    moreover have "a \<le> x \<longleftrightarrow> a + 1 \<le> x" using False by linarith
    moreover have "(b # bs) ! (x - a) = bs ! (x - (a + 1))" if "a + 1 \<le> x" using that by (simp add: nth_Cons')
    ultimately show ?thesis by simp
  qed (use Cons.IH [of "m(a := b)" "Suc a"] in \<open>simp del: fun_upd_apply add: fun_upd_same\<close>)
qed auto

lemma cstring_stored:
  assumes "0 \<notin> set bs" "\<forall>i \<le> length bs. m' (a + i) = store_bytes m a (bs @ [0]) (a + i)"
  shows "cstring m' a = Some bs"
  using assms by (intro cstring_SomeI) (auto simp: store_bytes_apply nth_append)

text \<open>The text at \<open>buf\<close> and the pointer to it at \<open>loc\<close>.\<close>

lemma text_stored:
  assumes N: "nested mmap fr args loc s os s1 s2 m' s4 n b"
    and m': "m' = st64 (store_bytes (memory s2) buf (bs @ [0])) loc (of_nat buf)" and z: "0 \<notin> set bs"
    and loc: "local_words s2 loc 1"
    and buf: "\<forall>i \<le> length bs. outside s4 b k (buf + i)" "buf < 2 ^ 64" "\<not> is_valid_heap_pointer (heap s1) (of_nat buf)"
  shows "quiet s2 m'" "source s4 b k loc bs"
proof -
  note F = nested_frames [OF N]
  have o: "off_heap (heap s2) x \<and> (\<forall>p \<in> set (fix_addrs s2). x < p \<or> p + 8 \<le> x) \<and> (x < loc \<or> loc + 8 \<le> x)"
    if "buf \<le> x" "x < buf + length (bs @ [0])" for x
  proof -
    have "outside s4 b k (buf + (x - buf))" using buf(1) that by (intro buf(1) [rule_format]) simp
    then show ?thesis using that(1) F(3,5,7,8) by (auto simp: outside_def)
  qed
  have l: "off_heap (heap s2) loc" "\<forall>p \<in> set (fix_addrs s2). p + 8 \<le> loc \<or> loc + 8 \<le> p" using loc by (simp_all add: local_words_def)
  have out: "m' x = memory s2 x" if "\<not> (buf \<le> x \<and> x < buf + length (bs @ [0]))" "\<not> (loc \<le> x \<and> x < loc + 8)" for x
    using that unfolding m' st64_apply store_bytes_apply by (simp only: if_False)
  show "quiet s2 m'"
    unfolding quiet_def
  proof (intro conjI allI impI ballI)
    fix x assume x: "c_begin (heap s2) \<le> x" "x < c_end (heap s2)"
    show "m' x = memory s2 x" by (rule out) (use o [of x] l(1) x in \<open>auto simp: off_heap_def\<close>)
  next
    fix a assume a: "a \<in> set (fix_addrs s2)"
    show "ld64 m' a = ld64 (memory s2) a"
    proof (rule ld64_cong, rule out)
      fix i :: nat assume i: "i < 8"
      show "\<not> (buf \<le> a + i \<and> a + i < buf + length (bs @ [0]))" using o [of "a + i"] a i by force
      show "\<not> (loc \<le> a + i \<and> a + i < loc + 8)" using bspec [OF l(2) a] i by linarith
    qed
  qed
  have "ld64 m' loc = of_nat buf" by (simp add: m')
  moreover have "unat (of_nat buf :: u64) = buf" by (rule unat_of_nat_u64 [OF buf(2)])
  moreover have "cstring m' buf = Some bs"
  proof (rule cstring_stored [OF z])
    show "\<forall>i \<le> length bs. m' (buf + i) = store_bytes (memory s2) buf (bs @ [0]) (buf + i)"
    proof (intro allI impI)
      fix i assume i: "i \<le> length bs"
      have "\<not> (loc \<le> buf + i \<and> buf + i < loc + 8)" using o [of "buf + i"] i by force
      then show "m' (buf + i) = store_bytes (memory s2) buf (bs @ [0]) (buf + i)"
        unfolding m' st64_apply by (simp only: if_False)
    qed
  qed
  ultimately show "source s4 b k loc bs" using buf F(2,3) by (simp add: source_def)
qed

lemma Lstring_built:
  assumes tx: "16 \<le> c_begin (heap s1)" "printable t" "denotes s1 t (ld64 (memory s1) args)"
    and bs: "bs = bytes_of (show_tree t)" "m' = st64 (store_bytes (memory s2) buf (bs @ [0])) loc (of_nat buf)"
    and N: "nested mmap fr args loc s os s1 s2 m' s4 (length bs) b"
    and loc: "local_words s2 loc 1"
    and buf: "\<forall>i \<le> length bs. outside s4 b (new_size s4 os STRING (of_nat (length bs))) (buf + i)" "buf < 2 ^ 64"
      "\<not> is_valid_heap_pointer (heap s1) (of_nat buf)"
  shows "\<exists>v s'. Lstring mmap fr buf loc args s = Inr (v, s') \<and> gc_stack_top s' = gc_stack_top s \<and>
    built s1 (s'\<lparr>gc_stack_top := gc_stack_top s1\<rparr>) (VStr (of_nat (length bs)) bs) v"
proof -
  have z: "0 \<notin> set bs" unfolding bs(1) by (rule bytes_of_no_nul [OF show_tree_no_nul(1) [OF tx(3)]])
  note T = text_stored [OF N bs(2) z loc buf]
  obtain c where c: "printValue s1 (ld64 (memory s1) args) createStringBuf = Some c" "contents c = show_tree t"
    using print_tree(1) [OF tx] buf_ok_create by (auto simp: prints_def printValue_def)
  show ?thesis
    unfolding Lstring_def
    by (rule nested_run [OF N T, where f = "\<lambda>s. Bstring mmap (below fr) loc
        (s\<lparr>memory := st64 (store_bytes (memory s) buf (bytes_of (contents c) @ [0])) loc (of_nat buf)\<rparr>)"])
      (use c bs in \<open>simp_all add: string_of_buf_def\<close>)
qed

end
