(* ===== verification/Call_Sample.thy ===== *)
theory Call_Sample
  imports Gc_Properties Show_Correct
begin

text \<open>
  A sample state in which compiled code calls a constructor: the heap of three objects is full, so
  that every allocation collects. On the stack there are two pointers to the string \<open>''ab''\<close>, two
  small integers and a pointer to the array of that string; local variables are below 2000, the
  frame of the function that is called.
\<close>

section \<open>The state\<close>

definition call_mem :: mem where
  "call_mem = st64 (st_words (st_words (\<lambda>_. 0) 1000 [11, 0, 1040, 17, 0, 25185, 3, 0])
     2000 [777, 1040, 1040, 3, 3, 1016, 0]) 4000 26984"

definition call :: gc_state where
  "call = \<lparr>memory = call_mem,
           heap = \<lparr>c_begin = 1000, c_end = 1064, c_current = 1064, c_size = 8\<rparr>,
           extra_roots = \<lparr>current_free = 0, roots = replicate 32 0\<rparr>,
           gc_stack_top = 0, gc_stack_bottom = 2048,
           start_custom_data = 3000, stop_custom_data = 3000\<rparr>"

definition call_fr :: frames where "call_fr d = 2000 - 16 * d"

text \<open>The words that are registered: of the stack, and of two local variables.\<close>

abbreviation call_words :: "addr list" where
  "call_words \<equiv> [2008, 2016, 2024, 2032, 2040, 1968, 1976]"

definition tame :: "u64 \<Rightarrow> bool" where
  "tame v \<longleftrightarrow> v \<in> {1016, 1040} \<or> unboxed v \<or> unat v < 1000 \<or> 1064 < unat v \<and> unat v < 5000"

text \<open>The states that occur during a call.\<close>

definition during :: "gc_state \<Rightarrow> bool" where
  "during s \<longleftrightarrow> heap s = heap call \<and> gc_stack_top s \<in> {0, 2000} \<and> gc_stack_bottom s = 2048 \<and>
     start_custom_data s = 3000 \<and> stop_custom_data s = 3000 \<and>
     (\<forall>x. 1000 \<le> x \<and> x < 1064 \<or> 2000 \<le> x \<and> x < 2056 \<longrightarrow> memory s x = call_mem x) \<and>
     tame (ld64 (memory s) 1968) \<and> tame (ld64 (memory s) 1976) \<and>
     pool_ok s \<and> set (pool s) \<subseteq> set call_words \<and> length (pool s) \<le> 16"

lemma ld64_call_mem [simp]:
  "ld64 call_mem 1000 = 11" "ld64 call_mem 1008 = 0" "ld64 call_mem 1016 = 1040"
  "ld64 call_mem 1024 = 17" "ld64 call_mem 1032 = 0" "ld64 call_mem 1040 = 25185"
  "ld64 call_mem 1048 = 3" "ld64 call_mem 1056 = 0"
  "ld64 call_mem 2000 = 777" "ld64 call_mem 2008 = 1040" "ld64 call_mem 2016 = 1040" "ld64 call_mem 2024 = 3"
  "ld64 call_mem 2032 = 3" "ld64 call_mem 2040 = 1016" "ld64 call_mem 2048 = 0" "ld64 call_mem 4000 = 26984"
  by (simp_all add: call_mem_def ld64_st64_other)

lemma call_sel [simp]:
  "memory call = call_mem" "c_begin (heap call) = 1000" "c_end (heap call) = 1064"
  "c_current (heap call) = 1064" "c_size (heap call) = 8"
  by (simp_all add: call_def)

lemma duringD:
  assumes "during s"
  shows "heap s = heap call" "gc_stack_bottom s = 2048" "start_custom_data s = 3000" "stop_custom_data s = 3000"
    "pool_ok s" "set (pool s) \<subseteq> set call_words" "length (pool s) \<le> 16"
    "\<And>a. 1000 \<le> a \<and> a + 8 \<le> 1064 \<or> 2000 \<le> a \<and> a + 8 \<le> 2056 \<Longrightarrow> ld64 (memory s) a = ld64 call_mem a"
    "\<And>a. a \<in> set call_words \<Longrightarrow> tame (ld64 (memory s) a)"
proof -
  have m: "memory s x = call_mem x" if "1000 \<le> x \<and> x < 1064 \<or> 2000 \<le> x \<and> x < 2056" for x
    using assms that unfolding during_def by blast
  show *: "ld64 (memory s) a = ld64 call_mem a" if "1000 \<le> a \<and> a + 8 \<le> 1064 \<or> 2000 \<le> a \<and> a + 8 \<le> 2056" for a
    using that by (intro ld64_cong m) linarith
  have "tame (ld64 (memory s) 1968)" "tame (ld64 (memory s) 1976)" using assms by (simp_all add: during_def)
  moreover have "\<forall>a \<in> {2008, 2016, 2024, 2032, 2040}. tame (ld64 (memory s) a)"
    by (simp add: *) (simp add: tame_def unboxed_iff)
  ultimately show "tame (ld64 (memory s) a)" if "a \<in> set call_words" for a using that by auto
qed (insert assms, unfold during_def, blast+)

lemma during_headers:
  assumes "during s"
  shows "obj_ok (memory s) 1000" "obj_type (memory s) 1000 = ARRAY" "obj_len (memory s) 1000 = 1" "obj_words (memory s) 1000 = 3"
    "obj_ok (memory s) 1024" "obj_type (memory s) 1024 = STRING" "obj_len (memory s) 1024 = 2" "obj_words (memory s) 1024 = 3"
    "obj_ok (memory s) 1048" "obj_type (memory s) 1048 = ARRAY" "obj_len (memory s) 1048 = 0" "obj_words (memory s) 1048 = 2"
  by (simp_all add: duringD(8) [OF assms] obj_ok_def obj_type_def obj_len_def obj_words_def obj_bytes_def
      get_type_header_ptr_def TAG_def LEN_eq tag_defs drop_bit_eq_div)

lemma during_slots:
  assumes "during s"
  shows "slots (memory s) 1000 = [1016]" "slots (memory s) 1024 = []" "slots (memory s) 1048 = []"
  by (simp_all add: slots_def slot0_def nslots_def during_headers [OF assms])

lemma during_words:
  assumes "during s" "gc_stack_top s = 2000"
  shows "set (root_addrs s) = {2008, 2016, 2024, 2032, 2040} \<union> set (pool s)"
    "set (fix_addrs s) = {2008, 2016, 2024, 2032, 2040, 2048} \<union> set (pool s)"
proof -
  note D = duringD [OF assms(1)]
  show "set (root_addrs s) = {2008, 2016, 2024, 2032, 2040} \<union> set (pool s)"
    by (auto simp: root_addrs_def words_between_def D(2-4) assms(2) upt_rec)
  show "set (fix_addrs s) = {2008, 2016, 2024, 2032, 2040, 2048} \<union> set (pool s)"
    using D(6) by (auto simp: fix_addrs_def words_between_def in_scanned_region_def D(2-4) assms(2) upt_rec)
qed

lemma tame_val_ok: "tame v \<Longrightarrow> val_ok (whole (heap call)) sample_objects v"
  by (auto simp: tame_def val_ok_def whole_def is_valid_heap_pointer_def)

lemma during_gc_ok:
  assumes "during s" "gc_stack_top s = 2000"
  shows "gc_ok s sample_objects"
proof -
  note D = duringD [OF assms(1)]
  note W = during_words [OF assms]
  have "root_word_ok s sample_objects a" if "a \<in> set (fix_addrs s)" for a
  proof (cases "a = 2048")
    case True
    then show ?thesis
      by (simp add: root_word_ok_def off_heap_def D(1,8) val_ok_def is_valid_heap_pointer_def whole_def)
  next
    case False
    then have a: "a \<in> set call_words" using that W D(6) by auto
    have "a \<in> set (root_addrs s)" using that W False by auto
    then show ?thesis using tame_val_ok [OF D(9) [OF a]] a by (auto simp: root_word_ok_def D(1) off_heap_def)
  qed
  moreover have "val_ok (whole (heap s)) sample_objects 1040" by (simp add: D(1) tame_val_ok tame_def)
  moreover have "set (root_addrs s) \<subseteq> set (fix_addrs s)" unfolding W by auto
  ultimately show ?thesis
    by (simp add: gc_ok_def during_headers [OF assms(1)] during_slots [OF assms(1)] unmarked_heap_def marked_def enqd_def
        chunk_ok_def D(1-4,8))
qed

lemma during_can_alloc:
  assumes "during s" "gc_stack_top s = 2000" "unat k \<le> 16"
  shows "can_alloc sample_mmap s sample_objects 5000 t k" "new_size s sample_objects t k \<le> 1000"
proof -
  note D = duringD [OF assms(1)]
  note W = during_words [OF assms(1,2)]
  have "live_size s sample_objects \<le> 8" by (simp add: live_size_def during_headers [OF assms(1)])
  moreover have "type_words t (unat k) \<le> 20" using assms(3) by (cases t) (simp_all add: type_words_def)
  ultimately show n: "new_size s sample_objects t k \<le> 1000"
    by (simp add: new_size_def next_heap_words_def Let_def EXTRA_ROOM_HEAP_COEFFICIENT_def MINIMUM_HEAP_CAPACITY_def D(1))
  let ?n = "new_size s sample_objects t k"
  have v: "\<not> (5000 \<le> unat v \<and> is_valid_pointer v)" if "tame v" for v
    using that by (auto simp: tame_def is_valid_pointer_def)
  have "maps_fresh sample_mmap s sample_objects 5000 ?n"
    unfolding maps_fresh_def fresh_mapping_def fresh_region_def Let_def
  proof (intro conjI ballI allI)
    fix p assume p: "p \<in> set (fix_addrs s)"
    have pw: "p = 2048 \<or> p \<in> set call_words" using p W D(6) by auto
    then have m: "tame (ld64 (memory s) p)"
      using D(9) [of p] by (elim disjE) (simp_all add: D(8) tame_def unboxed_iff)
    show "\<not> (is_valid_pointer (ld64 (memory s) p) \<and> 5000 \<le> unat (ld64 (memory s) p) \<and> unat (ld64 (memory s) p) \<le> 5000 + 8 * ?n)"
      using v [OF m] by blast
    show "p + 8 \<le> 5000 \<or> 5000 + 8 * ?n \<le> p" using pw by auto
  next
    fix h a assume "h \<in> set sample_objects" "a \<in> set (slots (memory s) h)"
    then have "ld64 (memory s) a = 1040" using during_slots [OF assms(1)] D(8) by auto
    then show "\<not> (is_valid_pointer (ld64 (memory s) a) \<and> 5000 \<le> unat (ld64 (memory s) a) \<and> unat (ld64 (memory s) a) \<le> 5000 + 8 * ?n)"
      by simp
  qed (use n in \<open>simp_all add: sample_mmap_def D(1)\<close>)
  then show "can_alloc sample_mmap s sample_objects 5000 t k"
    using assms(3) \<open>type_words t (unat k) \<le> 20\<close> by (simp add: can_alloc_def D(1))
qed

section \<open>Pushing the arguments\<close>

lemma during_rootable:
  assumes "during s" "gc_stack_top s = 2000" "a \<in> set call_words"
  shows "rootable s sample_objects a"
  using assms(3) tame_val_ok [OF duringD(9) [OF assms(1,3)]]
  by (auto simp: rootable_def scannable_def off_heap_def in_scanned_region_def words_between_def upt_rec duringD(1-4) [OF assms(1)] assms(2))

lemma during_ready:
  assumes "during s" "set (word_addrs args n) \<subseteq> set call_words" "length (pool s) + n \<le> 16" "unat k \<le> 16"
    and "frame \<le> 2000" "gc_stack_top s = 2000 \<or> frame = 2000"
  shows "\<exists>s2. ready sample_mmap frame args n s sample_objects (s\<lparr>gc_stack_top := 2000\<rparr>) s2 t k 5000 \<and>
    during s2 \<and> gc_stack_top s2 = 2000 \<and> memory s2 = memory s \<and> pool s2 = pool s @ word_addrs args n"
proof -
  let ?s = "s\<lparr>gc_stack_top := 2000\<rparr>"
  have p: "pool ?s = pool s" "pool_ok s" "pool_ok ?s" using assms(1) by (auto simp: pool_def pool_ok_def during_def)
  have d: "during ?s" using assms(1) p by (simp add: during_def)
  note D = duringD [OF d]
  have "length (pool ?s) + length (word_addrs args n) \<le> MAX_EXTRA_ROOTS_NUMBER"
    using assms(3) p by (simp add: word_addrs_def MAX_EXTRA_ROOTS_NUMBER_def)
  from extra.push_all [OF D(5) this]
  obtain s2 where s2: "for_each push_extra_root (word_addrs args n) ?s = Inr s2" "pool_ok s2"
    "pool s2 = pool ?s @ word_addrs args n" "sans_pool s2 = sans_pool ?s" by blast
  note F = sans_pool_fields [OF s2(4)]
  have "length (pool s2) \<le> 16" using s2(3) assms(3) p(1) by (simp add: word_addrs_def)
  moreover have "set (pool s2) \<subseteq> set call_words" using D(6) assms(2) by (simp add: s2(3))
  ultimately have d2: "during s2" using d s2(2) F unfolding during_def by simp
  have t2: "gc_stack_top s2 = 2000" using F by simp
  have "\<exists>flag. PRE_GC frame s = Inr (flag, ?s)"
    using assms(1,5,6) by (auto simp: PRE_GC_def Let_def during_def)
  moreover have "\<forall>a \<in> set (word_addrs args n). rootable ?s sample_objects a"
    using assms(2) by (auto intro!: during_rootable [OF d] simp del: set_simps)
  ultimately have "ready sample_mmap frame args n s sample_objects ?s s2 t k 5000"
    using D(5) during_gc_ok [OF d] s2(1) during_can_alloc(1) [OF d2 t2 assms(4)] by (simp add: ready_def)
  then show ?thesis using d2 t2 F(2) s2(3) p by auto
qed

lemma ld64_blank: "ld64 (\<lambda>_. 0) a = 0"
  by (simp add: ld64_def eval_nat_numeral)

lemma call_during: "during call"
proof -
  have "ld64 call_mem 1968 = 0" "ld64 call_mem 1976 = 0" by (simp_all add: call_mem_def ld64_st64_other ld64_blank)
  then show ?thesis by (simp add: during_def tame_def) (simp add: call_def pool_ok_def pool_def MAX_EXTRA_ROOTS_NUMBER_def)
qed

lemma call_pool: "pool call = []"
  by (simp add: call_def pool_def)

lemma during_string: "during s \<Longrightarrow> denotes s (VStr 2 [97, 98]) 1040"
proof -
  assume d: "during s"
  note D = duringD [OF d]
  have "cstring call_mem 1040 = Some [97, 98]"
    by (simp add: cstring_step) (simp add: call_mem_def st64_apply unsigned_ucast_eq drop_bit_eq_div)
  then have "cstring (memory s) 1040 = Some [97, 98]"
    by (rule cstring_cong) (use d in \<open>simp add: during_def\<close>)
  then show ?thesis
    by (simp add: is_obj_def data_header_def TO_DATA_def is_valid_heap_pointer_def TAG_def LEN_eq tag_defs drop_bit_eq_div unboxed_iff D(1,8))
qed

lemma during_array: "during s \<Longrightarrow> denotes s (VArr [VStr 2 [97, 98]]) 1016"
  using during_string [of s]
  by (simp add: is_obj_def data_header_def TO_DATA_def is_valid_heap_pointer_def TAG_def LEN_eq tag_defs drop_bit_eq_div unboxed_iff
      duringD(1,8) denote_words.simps del: denotes.simps(3))

end
