(* ===== verification/Make_Array.thy ===== *)
theory Make_Array
  imports Constructors_Correct
begin

text \<open>\<open>LmakeArray\<close>: an array of zeros.\<close>

lemma settled_same_top: "settled s os b n s1 os1 \<Longrightarrow> gc_stack_top s1 = gc_stack_top s"
  by (rule settledD(5))

lemma zeros_filled:
  assumes st: "settled s os b k s1 os1" and fit: "fits s1 ARRAY (of_nat n)" and n: "n < 2 ^ 60"
  shows "built s (with_object s1 ARRAY (of_nat n)\<lparr>memory :=
      st_words (memory (with_object s1 ARRAY (of_nat n))) (c_current (heap s1) + 16) (replicate n (BOX 0))\<rparr>)
    (VArr (replicate n (VInt 0))) (of_nat (c_current (heap s1) + 16))"
proof -
  let ?p = "c_current (heap s1)" and ?o = "with_object s1 ARRAY (of_nat n)"
  let ?m = "st_words (memory ?o) (?p + 16) (replicate n (BOX 0))"
  note D = settledD [OF st]
  have u: "unat (of_nat n :: u64) = n" by (rule unat_of_nat_u64) (use n in simp)
  have w: "type_words ARRAY (unat (of_nat n :: u64)) = n + 2" unfolding u by (simp add: type_words_def)
  have out: "\<forall>x. x < ?p + 16 \<or> ?p + 8 * type_words ARRAY (unat (of_nat n :: u64)) \<le> x \<longrightarrow> ?m x = memory ?o x"
    unfolding w by (auto intro!: st_words_out)
  have z: "ld64 ?m (?p + 16 + 8 * i) = BOX 0" if "i < n" for i
    using ld64_st_words_in [of i "replicate n (BOX 0)" "memory ?o" "?p + 16"] that by simp
  have b: "unboxed (BOX 0)" "UNBOX (BOX 0) = 0" by (simp_all add: UNBOX_BOX fits63_def)
  have sl: "slots (memory ?o) ?p = map (\<lambda>i. ?p + 16 + 8 * i) [0..<n]"
    using with_object_blank(1) [of "of_nat n" s1 ARRAY] n u
    by (simp add: slots_def slot0_def nslots_def blank_object_def)
  show ?thesis
  proof (rule settled_built [OF st fit out])
    show "val_ok (whole (heap s1)) (os1 @ [?p]) (ld64 ?m x)" if "x \<in> set (slots (memory ?o) ?p)" for x
      using that z b by (auto simp: sl val_ok_def is_valid_heap_pointer_def)
    show "denotes (?o\<lparr>memory := ?m\<rparr>) (VArr (replicate n (VInt 0))) (of_nat (?p + 16))"
      using new_object(2) [OF D(1) fit out] z b n unat_new_pointer(1) [OF D(1) fit] by (simp add: denote_words_iff)
  qed
qed

lemma LmakeArray_built:
  assumes P: "PRE_GC (fr 0) s = Inr (flag, s1)" and ok: "gc_ok s1 os" and can: "can_alloc mmap s1 os b ARRAY (of_nat n)"
    and n: "n < 2 ^ 60"
  shows "\<exists>v s'. LmakeArray mmap fr (BOX (of_nat n)) s = Inr (v, s') \<and> gc_stack_top s' = gc_stack_top s \<and>
    built s1 (s'\<lparr>gc_stack_top := gc_stack_top s1\<rparr>) (VArr (replicate n (VInt 0))) v"
proof -
  obtain s2 os2 where s2: "alloc_object mmap ARRAY (of_nat n) s1 = Inr (c_current (heap s2), with_object s2 ARRAY (of_nat n))"
    "settled s1 os b (new_size s1 os ARRAY (of_nat n)) s2 os2" "fits s2 ARRAY (of_nat n)"
    using alloc_contract [OF ok can] by blast
  note B = boxed_count [OF n]
  have u: "unat (of_nat n :: u64) = n" by (rule unat_of_nat_u64) (use n in simp)
  have i: "0 \<le> sint (of_nat n :: u64)"
    using n signed_take_bit_int_eq_self [of 63 "int n"] by (simp add: signed_of_nat)
  let ?f = "\<lambda>s. bindR (alloc_array mmap (of_nat n) s) (\<lambda>(r, s).
       if sint (of_nat n :: u64) < 0 then Inl Undefined
       else Inr (of_nat (r + 16), s\<lparr>memory := st_words (memory s) (r + 16) (replicate (unat (of_nat n :: u64)) (BOX 0))\<rparr>))"
  have "?f s1 = Inr (of_nat (c_current (heap s2) + 16), with_object s2 ARRAY (of_nat n)\<lparr>memory :=
      st_words (memory (with_object s2 ARRAY (of_nat n))) (c_current (heap s2) + 16) (replicate n (BOX 0))\<rparr>)"
    using s2(1) i u by simp
  from gc_section_run [where f = ?f, OF P this zeros_filled [OF s2(2,3) n]]
  show ?thesis unfolding LmakeArray_def Let_def B by (auto simp: assert_unboxed_def)
qed

end
