(* ===== verification/Constructor_Properties.thy ===== *)
theory Constructor_Properties
  imports Call_Sample Make_Array
begin

text \<open>
  The properties of the constructors and of the string operations: each of them is called with its
  arguments in memory, may collect on the way, and returns a value that denotes the tree it is to
  make. The hypothesis \<open>ready\<close> collects what a call needs: a well-formed heap and pool after
  \<open>PRE_GC\<close>, room in the pool for the arguments, and either room in the heap or a fresh mapping. The
  witnesses are calls on a full heap: each of them collects.
\<close>

lemma built_denotes: "built s1 (s'\<lparr>gc_stack_top := k\<rparr>) t v \<Longrightarrow> denotes s' t v"
  using denotes_cong [of s' "s'\<lparr>gc_stack_top := k\<rparr>" t v] by (simp add: built_def)

lemma word_addrs_simps: "word_addrs a 0 = []" "word_addrs a (Suc n) = a # word_addrs (a + 8) n"
  by (simp_all add: word_addrs_def upt_conv_Cons map_Suc_upt [symmetric] del: upt_Suc)

lemma word_addrs_2: "word_addrs a 2 = [a, a + 8]"
  by (simp add: numeral_2_eq_2 word_addrs_simps)

abbreviation ab :: vtree where "ab \<equiv> VStr 2 [97, 98]"

abbreviation call1 :: gc_state where "call1 \<equiv> call\<lparr>gc_stack_top := 2000\<rparr>"

lemma call1_during: "during call1"
  using during_ready [OF call_during, of 2008 0 0 2000] call_during call_pool
  by (simp add: during_def pool_def) (auto simp: pool_ok_def call_def)

lemma call_ready:
  assumes "set (word_addrs args n) \<subseteq> set call_words" "n \<le> 16" "unat k \<le> 16"
  shows "\<exists>s2. ready sample_mmap (call_fr 0) args n call sample_objects call1 s2 t k 5000 \<and>
    during s2 \<and> gc_stack_top s2 = 2000 \<and> memory s2 = call_mem \<and> pool s2 = word_addrs args n"
  using during_ready [OF call_during assms(1) _ assms(3), of 2000 t] assms(2) call_pool by (simp add: call_fr_def)

section \<open>Arrays, S-expressions, closures, cons cells\<close>

text \<open>
  C6: \<open>Barray\<close> registers the addresses of its arguments, allocates, copies the arguments, which the
  collector may have redirected, and drops the registration. It returns, whether or not it collects;
  the result denotes the array of the trees of the arguments, every word that the collector knows
  denotes the same tree as before, and the heap is well formed.
\<close>

theorem array_built:
  assumes "ready mmap (fr 0) args (length ts) s os s1 s2 ARRAY (of_nat (length ts)) b"
    and "denote_words s1 ts args"
  shows "\<exists>v s'. Barray mmap fr args (BOX (of_nat (length ts))) s = Inr (v, s') \<and> gc_stack_top s' = gc_stack_top s \<and>
    built s1 (s'\<lparr>gc_stack_top := gc_stack_top s1\<rparr>) (VArr ts) v"
  by (rule Barray_built [where fr = fr, OF assms])

lemma call_denotes:
  "denotes call1 ab 1040" "denotes call1 (VInt 1) 3" "denotes call1 (VArr [ab]) 1016"
  using during_string [OF call1_during] during_array [OF call1_during] by (simp_all add: unboxed_iff UNBOX_def del: denotes.simps(3,4))

theorem array_built_witness:
  "\<exists>v s'. Barray sample_mmap call_fr 2008 (BOX 3) call = Inr (v, s') \<and> denotes s' (VArr [ab, ab, VInt 1]) v"
proof -
  let ?ts = "[ab, ab, VInt 1]"
  obtain s2 where "ready sample_mmap (call_fr 0) 2008 (length ?ts) call sample_objects call1 s2 ARRAY (of_nat (length ?ts)) 5000"
    using call_ready [of 2008 "length ?ts" "of_nat (length ?ts)" ARRAY] by (auto simp: word_addrs_simps)
  from array_built [where fr = call_fr, OF this] show ?thesis
    using call_denotes built_denotes by (auto simp: denote_words.simps simp del: denotes.simps) 
qed

text \<open>
  C25: More than 32 arguments end the program: the pool of extra roots has 32 entries.
\<close>

theorem array_too_long:
  assumes "PRE_GC (fr 0) s = Inr (flag, s1)" "pool_ok s1" "32 < length (pool s1) + n" "n < 2 ^ 60"
  shows "Barray mmap fr args (BOX (of_nat n)) s = Inl (Exit 1)"
proof -
  have "for_each push_extra_root (word_addrs args n) s1 = Inl (Exit 1)"
    using assms(2,3) by (intro extra.push_all_overflow) (auto simp: pool_ok_def MAX_EXTRA_ROOTS_NUMBER_def word_addrs_def)
  then show ?thesis using assms(1) by (simp add: Barray_def boxed_count [OF assms(4)] gc_section_def rooted_def)
qed

theorem array_too_long_witness: "Barray sample_mmap call_fr 1000 (BOX 33) call = Inl (Exit 1)"
proof -
  have "PRE_GC (call_fr 0) call = Inr (True, call1)" by (simp add: PRE_GC_def call_fr_def call_def)
  from array_too_long [where fr = call_fr, OF this, of 33] show ?thesis using call1_during by (simp add: during_def)
qed

lemma call1_pre: "PRE_GC (call_fr 0) call = Inr (True, call1)"
  by (simp add: PRE_GC_def call_fr_def call_def)

lemma during_outside:
  assumes "during s" "gc_stack_top s = 2000" "x + 8 \<le> 1000 \<or> 1064 \<le> x" "x < 5000"
    and "\<forall>p \<in> set (2048 # call_words). x < p \<or> p + 8 \<le> x"
  shows "outside s 5000 n x"
proof -
  have "set (fix_addrs s) \<subseteq> set (2048 # call_words)"
    using duringD(6) [OF assms(1)] unfolding during_words(2) [OF assms(1,2)] by auto
  then have "\<forall>p \<in> set (fix_addrs s). x < p \<or> p + 8 \<le> x" using assms(5) by blast
  then show ?thesis using assms(3,4) by (simp add: outside_def off_heap_def duringD(1) [OF assms(1)])
qed

text \<open>
  C8: \<open>Bsexp\<close> takes the tag hash as its last argument, boxed, and keeps it unboxed in the first
  field: the result denotes the S-expression of that tag and of the trees of the other arguments.
\<close>

theorem sexp_built:
  assumes "ready mmap (fr 0) args (length ts) s os s1 s2 SEXP (of_nat (length ts)) b"
    and "denote_words s1 ts args"
    and "plain_word s2 b (new_size s2 os SEXP (of_nat (length ts))) (args + 8 * length ts)"
    and "UNBOX (ld64 (memory s1) (args + 8 * length ts)) = h"
  shows "\<exists>v s'. Bsexp mmap fr args (BOX (of_nat (Suc (length ts)))) s = Inr (v, s') \<and> gc_stack_top s' = gc_stack_top s \<and>
    built s1 (s'\<lparr>gc_stack_top := gc_stack_top s1\<rparr>) (VSexp h ts) v"
  by (rule Bsexp_built [where fr = fr, OF assms])

theorem sexp_built_witness:
  "\<exists>v s'. Bsexp sample_mmap call_fr 2008 (BOX 3) call = Inr (v, s') \<and> denotes s' (VSexp 1 [ab, ab]) v"
proof -
  let ?ts = "[ab, ab]"
  obtain s2 where r: "ready sample_mmap (call_fr 0) 2008 (length ?ts) call sample_objects call1 s2 SEXP (of_nat (length ?ts)) 5000"
    and d: "during s2" "gc_stack_top s2 = 2000" "memory s2 = call_mem"
    using call_ready [of 2008 "length ?ts" "of_nat (length ?ts)" SEXP] by (auto simp: word_addrs_simps)
  have "plain_word s2 5000 n (2008 + 8 * length ?ts)" for n
    by (simp add: plain_word_def during_words(2) [OF d(1,2)] d(3) duringD(1) [OF d(1)] is_valid_heap_pointer_def unboxed_iff)
  from sexp_built [where fr = call_fr, OF r _ this refl] show ?thesis
    using call_denotes built_denotes by (auto simp: denote_words.simps UNBOX_def simp del: denotes.simps)
qed

text \<open>
  C22: \<open>Bclosure\<close> takes the code pointer first; it is copied as it is, the captured values after it
  are roots while the closure is allocated.
\<close>

theorem closure_built:
  assumes "ready mmap (fr 0) (args + 8) (length ts) s os s1 s2 CLOSURE (of_nat (Suc (length ts))) b"
    and "denote_words s1 ts (args + 8)"
    and "plain_word s2 b (new_size s2 os CLOSURE (of_nat (Suc (length ts)))) args"
    and "ld64 (memory s1) args = h"
  shows "\<exists>v s'. Bclosure mmap fr args (BOX (of_nat (length ts))) s = Inr (v, s') \<and> gc_stack_top s' = gc_stack_top s \<and>
    built s1 (s'\<lparr>gc_stack_top := gc_stack_top s1\<rparr>) (VClo h ts) v"
  by (rule Bclosure_built [where fr = fr, OF assms])

theorem closure_built_witness:
  "\<exists>v s'. Bclosure sample_mmap call_fr 2000 (BOX 2) call = Inr (v, s') \<and> denotes s' (VClo 777 [ab, ab]) v"
proof -
  let ?ts = "[ab, ab]"
  obtain s2 where r: "ready sample_mmap (call_fr 0) (2000 + 8) (length ?ts) call sample_objects call1 s2 CLOSURE (of_nat (Suc (length ?ts))) 5000"
    and d: "during s2" "gc_stack_top s2 = 2000"
    using call_ready [of "2000 + 8" "length ?ts" "of_nat (Suc (length ?ts))" CLOSURE] by (auto simp: word_addrs_simps)
  have "plain_word s2 5000 n 2000" for n
    unfolding plain_word_def by (auto intro!: during_outside [OF d])
  from closure_built [where fr = call_fr, OF r _ this refl] show ?thesis
    using call_denotes built_denotes by (auto simp: denote_words.simps simp del: denotes.simps)
qed

text \<open>
  C21: The operator \<open>:\<close>, which copies its arguments to a local array and calls \<open>Bsexp\<close> on it, builds
  the cons cell of its two arguments.
\<close>

theorem cons_cell_built:
  assumes "PRE_GC (fr 0) s = Inr (flag, s1)" "gc_ok s1 os"
    and "args \<in> set (fix_addrs s1)" "args + 8 \<in> set (fix_addrs s1)"
    and "denotes s1 t (ld64 (memory s1) args)" "denotes s1 u (ld64 (memory s1) (args + 8))"
    and "LtagHash ''cons'' = Inr (BOX h)" "UNBOX (BOX h) = h" "local_words s1 loc 3"
    and "s2 = s1\<lparr>memory := st_words (memory s1) loc [ld64 (memory s1) args, ld64 (memory s1) (args + 8), BOX h]\<rparr>"
    and "ready mmap (fr 1) loc 2 s2 os s2 s3 SEXP 2 b" "plain_word s3 b (new_size s3 os SEXP 2) (loc + 16)"
  shows "\<exists>v s'. Ls__Infix_58 mmap fr loc args s = Inr (v, s') \<and> gc_stack_top s' = gc_stack_top s \<and>
    built s1 (s'\<lparr>gc_stack_top := gc_stack_top s1\<rparr>) (VSexp h [t, u]) v"
  by (rule cons_built [where fr = fr, OF assms])

lemma during_ready_in:
  assumes "during s" "gc_stack_top s = 2000" "set (word_addrs args n) \<subseteq> set call_words" "length (pool s) + n \<le> 16" "unat k \<le> 16"
    "frame \<le> 2000"
  shows "\<exists>s2. ready sample_mmap frame args n s sample_objects s s2 t k 5000 \<and>
    during s2 \<and> gc_stack_top s2 = 2000 \<and> memory s2 = memory s \<and> pool s2 = pool s @ word_addrs args n"
proof -
  have e: "s\<lparr>gc_stack_top := 2000\<rparr> = s" by (simp add: assms(2) [symmetric])
  show ?thesis using during_ready [OF assms(1,3,4,5,6), of t] assms(2) unfolding e by blast
qed

lemma call1_locals: "n \<le> 4 \<Longrightarrow> local_words call1 1968 n"
  using during_words(2) [OF call1_during] call_pool
  by (auto simp: local_words_def off_heap_def) (auto simp: pool_def call_def)

lemma during_write:
  assumes "during s" "\<forall>x. 1000 \<le> x \<and> x < 1064 \<or> 2000 \<le> x \<and> x < 2056 \<longrightarrow> m' x = memory s x"
    "tame (ld64 m' 1968)" "tame (ld64 m' 1976)"
  shows "during (s\<lparr>memory := m'\<rparr>)"
  using assms by (auto simp: during_def pool_def pool_ok_def)

theorem cons_cell_built_witness:
  "\<exists>h v s'. LtagHash ''cons'' = Inr (BOX h) \<and> Ls__Infix_58 sample_mmap call_fr 1968 2032 call = Inr (v, s') \<and>
     denotes s' (VSexp h [VInt 1, VArr [ab]]) v"
proof -
  obtain h where h: "LtagHash ''cons'' = Inr (BOX h)" "UNBOX (BOX h) = h" using cons_hash UNBOX_BOX by blast
  let ?m = "st_words call_mem 1968 [3, 1016, BOX h]"
  let ?s2 = "call1\<lparr>memory := ?m\<rparr>"
  have "during ?s2"
    by (rule during_write [OF call1_during]) (simp_all add: ld64_st64_other tame_def unboxed_iff st64_apply)
  then obtain s3 where s3: "ready sample_mmap (call_fr 1) 1968 2 ?s2 sample_objects ?s2 s3 SEXP 2 5000" "during s3" "gc_stack_top s3 = 2000"
    using during_ready_in [of ?s2 1968 2 2 "call_fr 1" SEXP] call_pool by (auto simp: call_fr_def word_addrs_2 pool_def)
  have "plain_word s3 5000 n (1968 + 16)" for n
    unfolding plain_word_def by (auto intro!: during_outside [OF s3(2,3)])
  from cons_cell_built [where fr = call_fr and args = 2032 and t = "VInt 1" and u = "VArr [ab]",
      OF call1_pre during_gc_ok [OF call1_during] _ _ _ _ h call1_locals _ s3(1) this]
  obtain v s' where "Ls__Infix_58 sample_mmap call_fr 1968 2032 call = Inr (v, s')"
    "built call1 (s'\<lparr>gc_stack_top := 2000\<rparr>) (VSexp h [VInt 1, VArr [ab]]) v"
    using call_denotes during_words(2) [OF call1_during] by (auto simp del: denotes.simps)
  then show ?thesis using h(1) built_denotes by blast
qed

end
