(* ===== verification/String_Properties.thy ===== *)
theory String_Properties
  imports Constructor_Properties
begin

text \<open>
  The properties of the operations that make strings or copy values, over the sample calls of
  \<open>Call_Sample\<close>. In \<open>nested\<close> the two states around the inner call of \<open>Bstring\<close> are spelled out.
\<close>

section \<open>Strings\<close>

text \<open>
  C24: \<open>Bstring\<close> copies the characters its argument points to, be they a constant of the program or a
  string of the heap that the allocation moves.
\<close>

theorem string_built:
  assumes "ready mmap (fr 0) args 1 s os s1 s2 STRING (of_nat (length bs)) b" "fr 1 \<le> gc_stack_top s1"
    and "source s2 b (new_size s2 os STRING (of_nat (length bs))) args bs" "length bs < 2 ^ 60"
  shows "\<exists>v s'. Bstring mmap fr args s = Inr (v, s') \<and> gc_stack_top s' = gc_stack_top s \<and>
    built s1 (s'\<lparr>gc_stack_top := gc_stack_top s1\<rparr>) (VStr (of_nat (length bs)) bs) v"
  by (rule Bstring_built [where fr = fr, OF assms])

text \<open>The local variable at 1968 points to the constant \<open>''hi''\<close> at 4000.\<close>

abbreviation hi :: gc_state where "hi \<equiv> call\<lparr>memory := st64 call_mem 1968 4000\<rparr>"

lemma hi_during: "during hi"
proof (rule during_write [OF call_during])
  have "ld64 call_mem 1976 = 0" by (simp add: call_mem_def ld64_st64_other ld64_blank)
  then show "tame (ld64 (st64 call_mem 1968 4000) 1976)" by (simp add: ld64_st64_other tame_def)
qed (simp_all add: st64_apply tame_def)

lemma hi_text: "cstring call_mem 4000 = Some [104, 105]"
  by (simp add: cstring_step) (simp add: call_mem_def st64_apply unsigned_ucast_eq drop_bit_eq_div)

theorem string_built_witness:
  "\<exists>v s'. Bstring sample_mmap call_fr 1968 hi = Inr (v, s') \<and> denotes s' (VStr 2 [104, 105]) v"
proof -
  let ?bs = "[104, 105] :: byte list"
  obtain s2 where s2: "ready sample_mmap (call_fr 0) 1968 1 hi sample_objects (hi\<lparr>gc_stack_top := 2000\<rparr>) s2 STRING (of_nat (length ?bs)) 5000"
    "during s2" "gc_stack_top s2 = 2000" "memory s2 = st64 call_mem 1968 4000"
    using during_ready [OF hi_during, of 1968 1 "of_nat (length ?bs)" 2000 STRING] call_pool
    by (auto simp: word_addrs_simps call_fr_def pool_def)
  have "cstring (memory s2) 4000 = Some ?bs"
    by (rule cstring_cong [OF hi_text]) (simp add: s2(4) st64_apply)
  then have "source s2 5000 n 1968 ?bs" for n
    by (auto simp: source_def s2(4) is_valid_heap_pointer_def duringD(1) [OF s2(2)] intro!: during_outside [OF s2(2,3)])
  from string_built [where fr = call_fr, OF s2(1) _ this] show ?thesis
    using built_denotes by (auto simp: call_fr_def simp del: denotes.simps)
qed

text \<open>
  C10: The operator \<open>++\<close> on two strings of the heap returns the string of their characters, whose
  length is the sum of the lengths.
\<close>

theorem concat_correct:
  assumes "ready mmap (fr 0) args 2 s os s1 s2 STRING (la + lb) b"
    and "denotes s1 (VStr la xs) (ld64 (memory s1) args)" "unat la = length xs"
    and "denotes s1 (VStr lb ys) (ld64 (memory s1) (args + 8))" "unat lb = length ys"
  shows "\<exists>v s'. Li__Infix_4343 mmap fr args s = Inr (v, s') \<and> gc_stack_top s' = gc_stack_top s \<and>
    built s1 (s'\<lparr>gc_stack_top := gc_stack_top s1\<rparr>) (VStr (la + lb) (xs @ ys)) v"
  by (rule concat_built [where fr = fr, OF assms])

theorem concat_correct_witness:
  "\<exists>v s'. Li__Infix_4343 sample_mmap call_fr 2008 call = Inr (v, s') \<and> denotes s' (VStr 4 [97, 98, 97, 98]) v"
proof -
  obtain s2 where "ready sample_mmap (call_fr 0) 2008 2 call sample_objects call1 s2 STRING (2 + 2) 5000"
    using call_ready [of 2008 2 "2 + 2" STRING] by (auto simp: word_addrs_2)
  from concat_correct [where fr = call_fr and xs = "[97, 98]" and ys = "[97, 98]", OF this] show ?thesis
    using call_denotes built_denotes by (auto simp del: denotes.simps)
qed

text \<open>
  C23: \<open>Lsubstring\<close> with a position and a length inside the subject returns the characters from that
  position on, that many.
\<close>

theorem substring_correct:
  assumes "ready mmap (fr 0) args 1 s os s1 s2 STRING (of_nat n) b"
    and "denotes s1 (VStr sl xs) (ld64 (memory s1) args)" "p + n \<le> length xs"
    and "ld64 (memory s) (args + 8) = BOX (of_nat p)" "ld64 (memory s) (args + 16) = BOX (of_nat n)"
  shows "\<exists>v s'. Lsubstring mmap fr args s = Inr (v, s') \<and> gc_stack_top s' = gc_stack_top s \<and>
    built s1 (s'\<lparr>gc_stack_top := gc_stack_top s1\<rparr>) (VStr (of_nat n) (take n (drop p xs))) v"
  by (rule Lsubstring_built [where fr = fr, OF assms])

theorem substring_correct_witness:
  "\<exists>v s'. Lsubstring sample_mmap call_fr 2016 call = Inr (v, s') \<and> denotes s' (VStr 1 [98]) v"
proof -
  obtain s2 where "ready sample_mmap (call_fr 0) 2016 1 call sample_objects call1 s2 STRING (of_nat 1) 5000"
    using call_ready [of 2016 1 1 STRING] by (auto simp: word_addrs_simps)
  from substring_correct [where fr = call_fr and p = 1 and sl = 2 and xs = "[97, 98]", OF this] show ?thesis
    using call_denotes built_denotes by (auto simp: BOX_def simp del: denotes.simps)
qed

section \<open>Copies and texts\<close>



text \<open>
  C9: \<open>Lstring\<close> of a value returns the string of its printed text: the text goes to a buffer of
  \<open>malloc\<close>, at \<open>buf\<close>, the value is a root while the string is allocated.
\<close>

theorem text_built:
  assumes "16 \<le> c_begin (heap s1)" "printable t" "denotes s1 t (ld64 (memory s1) args)"
    and "bs = bytes_of (show_tree t)" "m' = st64 (store_bytes (memory s2) buf (bs @ [0])) loc (of_nat buf)"
    and "nested mmap fr args loc s os s1 s2 m' s4 (length bs) b"
    and "local_words s2 loc 1"
    and "\<forall>i \<le> length bs. outside s4 b (new_size s4 os STRING (of_nat (length bs))) (buf + i)" "buf < 2 ^ 64"
    and "\<not> is_valid_heap_pointer (heap s1) (of_nat buf)"
  shows "\<exists>v s'. Lstring mmap fr buf loc args s = Inr (v, s') \<and> gc_stack_top s' = gc_stack_top s \<and>
    built s1 (s'\<lparr>gc_stack_top := gc_stack_top s1\<rparr>) (VStr (of_nat (length bs)) bs) v"
  by (rule Lstring_built [where fr = fr, OF assms])

lemma call_nested:
  assumes "args \<in> set call_words - {1968}" "n \<le> 16"
    and m': "\<forall>x. 1000 \<le> x \<and> x < 1064 \<or> 2000 \<le> x \<and> x < 2056 \<longrightarrow> m' x = call_mem x" "tame (ld64 m' 1968)" "tame (ld64 m' 1976)"
  shows "\<exists>s2 s4. nested sample_mmap call_fr args 1968 call sample_objects call1 s2 m' s4 n 5000 \<and>
    memory s2 = call_mem \<and> during s2 \<and> gc_stack_top s2 = 2000 \<and> pool s2 = [args] \<and> during s4 \<and> gc_stack_top s4 = 2000"
proof -
  have a: "set (word_addrs args 1) \<subseteq> set call_words" using assms(1) by (auto simp: word_addrs_simps)
  obtain s2 where s2: "ready sample_mmap (call_fr 0) args 1 call sample_objects call1 s2 STRING (of_nat 0) 5000"
    "during s2" "gc_stack_top s2 = 2000" "memory s2 = call_mem" "pool s2 = [args]"
    using call_ready [OF a, of 0 STRING] by (auto simp: word_addrs_simps)
  let ?s3 = "s2\<lparr>memory := m'\<rparr>"
  have d3: "during ?s3" by (rule during_write [OF s2(2)]) (use m' s2(4) in simp_all)
  have p3: "pool ?s3 = [args]" using s2(5) by (simp add: pool_def)
  have "unat (of_nat n :: u64) \<le> 16" using assms(2) by (simp add: unat_of_nat_u64)
  then obtain s4 where s4: "ready sample_mmap (call_fr 1) 1968 1 ?s3 sample_objects ?s3 s4 STRING (of_nat n) 5000"
    "during s4" "gc_stack_top s4 = 2000"
    using during_ready_in [OF d3, of 1968 1 "of_nat n" "call_fr 1" STRING] s2(3) p3
    by (auto simp: word_addrs_simps call_fr_def)
  have "for_each push_extra_root [args] call1 = Inr s2" "rootable call1 sample_objects args"
    using s2(1) by (simp_all add: ready_def word_addrs_simps del: for_each.simps)
  then have "nested sample_mmap call_fr args 1968 call sample_objects call1 s2 m' s4 n 5000"
    using call1_pre call1_during during_gc_ok [OF call1_during] s4(1) assms(2)
    unfolding nested_def by (auto simp: during_def call_fr_def simp del: for_each.simps)
  then show ?thesis using s2(2-5) s4(2,3) by blast
qed

theorem text_built_witness:
  "\<exists>v s'. Lstring sample_mmap call_fr 4000 1968 2040 call = Inr (v, s') \<and>
     denotes s' (VStr 6 (bytes_of ''[\"ab\"]'')) v"
proof -
  let ?bs = "bytes_of ''[\"ab\"]''"
  let ?m = "st64 (store_bytes call_mem 4000 (?bs @ [0])) 1968 4000"
  have l: "length ?bs = 6" by (simp add: bytes_of_def)
  have m: "?m x = call_mem x" if "1976 \<le> x \<and> x < 4000 \<or> x < 1968" for x
    using that by (auto simp: st64_apply store_bytes_apply)
  have "ld64 ?m 1976 = ld64 call_mem 1976" by (rule ld64_cong) (simp add: m)
  moreover have "ld64 call_mem 1976 = 0" by (simp add: call_mem_def ld64_st64_other ld64_blank)
  ultimately obtain s2 s4 where N: "nested sample_mmap call_fr 2040 1968 call sample_objects call1 s2 ?m s4 6 5000"
    and d: "memory s2 = call_mem" "during s2" "gc_stack_top s2 = 2000" "pool s2 = [2040]" "during s4" "gc_stack_top s4 = 2000"
    using call_nested [of 2040 6 ?m] m by (auto simp: tame_def)
  have "local_words s2 1968 1"
    using during_words(2) [OF d(2,3)] by (auto simp: local_words_def off_heap_def duringD(1) [OF d(2)] d(4))
  moreover have "outside s4 5000 n (4000 + i)" if "i \<le> 6" for i n
    using that by (auto intro!: during_outside [OF d(5,6)])
  moreover have "?bs = bytes_of (show_tree (VArr [ab]))" by code_simp
  moreover have "printable (VArr [ab])" by code_simp
  ultimately show ?thesis
    using text_built [where fr = call_fr and mmap = sample_mmap and t = "VArr [ab]" and bs = ?bs and ?s4.0 = s4 and ?s2.0 = s2 and m' = ?m
        and b = 5000 and s = call and os = sample_objects and ?s1.0 = call1 and loc = 1968 and buf = 4000 and args = 2040] N d(1) l
      call_denotes built_denotes by (auto simp: is_valid_heap_pointer_def simp del: denotes.simps)
qed

end
