(* ===== verification/File_Properties.thy ===== *)
theory File_Properties
  imports Files String_Properties
begin

text \<open>
  The properties of formatted output and files, over the sample calls of \<open>Call_Sample\<close>.
\<close>

section \<open>A string filled after its allocation\<close>

lemma gc_section_then:
  "bindR (gc_section frame f s) (\<lambda>(v, s). Inr (v, s\<lparr>memory := g v (memory s)\<rparr>)) =
   gc_section frame (\<lambda>s. bindR (f s) (\<lambda>(v, s). Inr (v, s\<lparr>memory := g v (memory s)\<rparr>))) s"
proof (cases "PRE_GC frame s")
  case (Inr r)
  obtain flag s1 where r: "r = (flag, s1)" by (cases r)
  show ?thesis
  proof (cases "f s1")
    fix r' assume "f s1 = Inr r'"
    then show ?thesis using Inr r by (cases r') (auto simp: gc_section_def POST_GC_def)
  qed (use Inr r in \<open>simp add: gc_section_def\<close>)
qed (simp add: gc_section_def)

lemma rooted_none: "rooted [] f = f"
proof
  show "rooted [] f s = f s" for s by (cases "f s") (auto simp: rooted_def)
qed

text \<open>\<open>LmakeString\<close> of a length, then characters stored in it.\<close>

lemma stored_string:
  assumes R: "ready mmap (fr 0) args 0 s os s1 s2 STRING (of_nat (length bs)) b" and n: "length bs < 2 ^ 60" and z: "0 \<notin> set bs"
  shows "\<exists>v s'. bindR (LmakeString mmap fr (BOX (of_nat (length bs))) s) (\<lambda>(v, s).
      Inr (v, s\<lparr>memory := store_bytes (memory s) (unat v) bs\<rparr>)) = Inr (v, s') \<and> gc_stack_top s' = gc_stack_top s \<and>
    built s1 (s'\<lparr>gc_stack_top := gc_stack_top s1\<rparr>) (VStr (of_nat (length bs)) bs) v"
proof -
  let ?n = "of_nat (length bs) :: u64"
  let ?o = "\<lambda>s3. with_object s3 STRING ?n"
  let ?q = "\<lambda>s3. of_nat (c_current (heap s3) + 16) :: u64"
  let ?g = "\<lambda>(v :: u64) m. store_bytes m (unat v) bs"
  let ?f = "\<lambda>s. bindR (bindR (alloc_string mmap ?n s) (\<lambda>(r, s). Inr (of_nat (r + 16) :: u64, s))) (\<lambda>(v, s). Inr (v, s\<lparr>memory := ?g v (memory s)\<rparr>)) :: (u64 \<times> gc_state) res"
  have u: "unat ?n = length bs" by (rule unat_of_nat_u64) (use n in simp)
  have "\<exists>v s'. gc_section (fr 0) (rooted (word_addrs args 0) ?f) s = Inr (v, s') \<and> gc_stack_top s' = gc_stack_top s \<and>
    built s1 (s'\<lparr>gc_stack_top := gc_stack_top s1\<rparr>) (VStr ?n bs) v"
  proof (rule constructor_run [OF R])
    fix s3 assume "alloc_object mmap STRING ?n s2 = Inr (c_current (heap s3), ?o s3)"
    then show "?f s2 = Inr (?q s3, ?o s3\<lparr>memory := ?g (?q s3) (memory (?o s3))\<rparr>)" by simp
  next
    fix s3 os3 assume st: "settled s2 os b (new_size s2 os STRING ?n) s3 os3" and fit: "fits s3 STRING ?n"
    let ?p = "c_current (heap s3)"
    have q: "unat (?q s3) = ?p + 16" by (rule unat_new_pointer(1) [OF settledD(1) [OF st] fit])
    have l: "unat ?n < 2 ^ 60" using n u by simp
    have "memory (?o s3) (?p + 16 + length bs) = 0"
      using with_object_blank(1,2) [OF l, of s3 STRING] by (simp add: blank_object_def type_words_def u)
    then show "built s2 (?o s3\<lparr>memory := ?g (?q s3) (memory (?o s3))\<rparr>) (VStr ?n bs) (?q s3)"
      unfolding q by (intro string_filled [OF st fit _ z]) (simp_all add: u store_bytes_apply)
  qed
  moreover have "rooted (word_addrs args 0) ?f = ?f" by (simp add: word_addrs_def rooted_none)
  moreover have "bindR (LmakeString mmap fr (BOX ?n) s) (\<lambda>(v, s). Inr (v, s\<lparr>memory := ?g v (memory s)\<rparr>)) = gc_section (fr 0) ?f s"
    using gc_section_then [where g = ?g and f = "\<lambda>s. bindR (alloc_string mmap ?n s) (\<lambda>(r, s). Inr (of_nat (r + 16), s))"]
    unfolding LmakeString_def boxed_count [OF n] assert_unboxed_def Let_def by simp
  ultimately show ?thesis by (simp only:)
qed

section \<open>Formatted output\<close>

lemma string_value:
  assumes "denotes s (VStr n bs) v"
  shows "assert_string (memory s) memo v = Inr ()" "text_at (memory s) v = Inr (chars_of bs)" "cstring (memory s) (unat v) = Some bs"
  using assms by (auto simp: is_obj_def assert_string_def text_at_def)

text \<open>
  C37: \<open>Bsprintf\<close> returns the string of the formatted text, whether or not its allocation collects:
  the text is in a buffer of \<open>malloc\<close>, which grew as needed.
\<close>

theorem sprintf_built:
  assumes "denotes s (VStr k f) (ld64 (memory s) args)" "vformat (memory s) (chars_of f) vs = Inr tx"
    and "CHR 0x00 \<notin> set tx" "bs = bytes_of tx" "m' = st64 (store_bytes (memory s2) buf (bs @ [0])) loc (of_nat buf)"
    and "nested mmap fr args loc s os s1 s2 m' s4 (length bs) b"
    and "local_words s2 loc 1"
    and "\<forall>i \<le> length bs. outside s4 b (new_size s4 os STRING (of_nat (length bs))) (buf + i)" "buf < 2 ^ 64"
    and "\<not> is_valid_heap_pointer (heap s1) (of_nat buf)"
  shows "\<exists>v s'. Bsprintf mmap fr buf loc args vs s = Inr (v, s') \<and> gc_stack_top s' = gc_stack_top s \<and>
    built s1 (s'\<lparr>gc_stack_top := gc_stack_top s1\<rparr>) (VStr (of_nat (length bs)) bs) v"
proof -
  have z: "0 \<notin> set bs" unfolding assms(4) by (rule bytes_of_no_nul [OF assms(3)])
  note T = text_stored [OF assms(6,5) z assms(7,8,9,10)]
  obtain c where c: "vprintStringBuf tx createStringBuf = Some c" "contents c = tx"
    using printStringBuf_prints [of tx] buf_ok_create by (auto simp: prints_def printStringBuf_def)
  have "Bsprintf mmap fr buf loc args vs s = gc_section (fr 0) (string_of_buf mmap (below fr) buf loc args c) s"
    unfolding Bsprintf_def Let_def string_value [OF assms(1)] by (simp add: assms(2) c(1))
  then show ?thesis
    using nested_run [OF assms(6) T, where f = "\<lambda>s. Bstring mmap (below fr) loc
        (s\<lparr>memory := st64 (store_bytes (memory s) buf (bytes_of (contents c) @ [0])) loc (of_nat buf)\<rparr>)"
        and g = "string_of_buf mmap (below fr) buf loc args c"] c(2) assms(4,5)
    by (simp add: string_of_buf_def)
qed

theorem sprintf_built_witness:
  "\<exists>v s'. Bsprintf sample_mmap call_fr 4000 1968 2008 [7] call = Inr (v, s') \<and> denotes s' (VStr 2 (bytes_of ''ab'')) v"
proof -
  let ?bs = "bytes_of ''ab''"
  let ?m = "st64 (store_bytes call_mem 4000 (?bs @ [0])) 1968 4000"
  have l: "length ?bs = 2" by (simp add: bytes_of_def)
  have m: "?m x = call_mem x" if "1976 \<le> x \<and> x < 4000 \<or> x < 1968" for x
    using that by (auto simp: st64_apply store_bytes_apply)
  have "ld64 ?m 1976 = ld64 call_mem 1976" by (rule ld64_cong) (simp add: m)
  moreover have "ld64 call_mem 1976 = 0" by (simp add: call_mem_def ld64_st64_other ld64_blank)
  ultimately obtain s2 s4 where N: "nested sample_mmap call_fr 2008 1968 call sample_objects call1 s2 ?m s4 2 5000"
    and d: "memory s2 = call_mem" "during s2" "gc_stack_top s2 = 2000" "pool s2 = [2008]" "during s4" "gc_stack_top s4 = 2000"
    using call_nested [of 2008 2 ?m] m by (auto simp: tame_def)
  have "local_words s2 1968 1"
    using during_words(2) [OF d(2,3)] by (auto simp: local_words_def off_heap_def duringD(1) [OF d(2)] d(4))
  moreover have "outside s4 5000 n (4000 + i)" if "i \<le> 2" for i n
    using that by (auto intro!: during_outside [OF d(5,6)])
  moreover have "denotes call (VStr 2 [97, 98]) (ld64 (memory call) 2008)" using during_string [OF call_during] by simp
  moreover have "vformat (memory call) (chars_of [97, 98]) [7] = Inr ''ab''"
  proof -
    have c: "chars_of [97, 98] = ''ab''" by code_simp
    show ?thesis unfolding c by simp
  qed
  ultimately show ?thesis
    using sprintf_built [where fr = call_fr and mmap = sample_mmap and bs = ?bs and ?s4.0 = s4 and ?s2.0 = s2 and m' = ?m and vs = "[7]"
        and b = 5000 and s = call and os = sample_objects and ?s1.0 = call1 and loc = 1968 and buf = 4000 and args = 2008
        and tx = "''ab''" and f = "[97, 98]" and k = 2] N d(1) l built_denotes
    by (auto simp: is_valid_heap_pointer_def simp del: denotes.simps)
qed

text \<open>A boxed integer is not unboxed on its way: the number that is printed is the word.\<close>

lemma printf_boxed: "vformat m ''%ld'' [boxI i] = Inr (show_int (sint (boxI i)))"
  by (simp add: long_conversion_def)

section \<open>Files\<close>

text \<open>
  C36: A file reads back as it was written: after \<open>Lfwrite\<close> of a string, \<open>Lfread\<close> of the same name
  returns a new string of its characters, across a collection; no other file changes.
\<close>

theorem file_roundtrip:
  assumes "denotes s (VStr k nm) f" "denotes s (VStr l bs) str"
    and "may_open osys (chars_of nm) ''w''" "may_open osys (chars_of nm) ''r''" "may_write osys"
    and "ready mmap (fr 1) 0 0 s os s1 s2 STRING (of_nat (length bs)) b" "length bs < 2 ^ 60"
  shows "\<exists>fs' v s'. Lfwrite osys (memory s) f str fs = Inr fs' \<and> fs' = fs(chars_of nm := Some bs) \<and>
    Lfread osys mmap fr f fs' s = Inr (v, s') \<and> gc_stack_top s' = gc_stack_top s \<and>
    built s1 (s'\<lparr>gc_stack_top := gc_stack_top s1\<rparr>) (VStr (of_nat (length bs)) bs) v"
proof -
  note F = string_value [OF assms(1)] and V = string_value [OF assms(2)]
  let ?fs = "fs(chars_of nm := Some bs)"
  have w: "Lfwrite osys (memory s) f str fs = Inr ?fs"
    unfolding Lfwrite_def F V using assms(3,5) by (simp add: fopen_def)
  have z: "0 \<notin> set bs" using cstring_SomeD [OF V(3)] by blast
  have R: "ready mmap (below fr 0) 0 0 s os s1 s2 STRING (of_nat (length bs)) b" using assms(6) by (simp add: below_def)
  have "Lfread osys mmap fr f ?fs s = bindR (LmakeString mmap (below fr) (BOX (of_nat (length bs))) s) (\<lambda>(v, s).
      Inr (v, s\<lparr>memory := store_bytes (memory s) (unat v) bs\<rparr>))"
    unfolding Lfread_def F using assms(4) by (simp add: fopen_def)
  then show ?thesis using stored_string [where fr = "below fr", OF R assms(7) z] w by simp
qed

theorem file_roundtrip_witness:
  "\<exists>fs' v s'. Lfwrite \<lparr>may_open = (\<lambda>f m. True), may_write = True, stream = (\<lambda>f. 0), error_text = []\<rparr> (memory call) 1040 1040 (\<lambda>f. None) = Inr fs' \<and>
     Lfread \<lparr>may_open = (\<lambda>f m. True), may_write = True, stream = (\<lambda>f. 0), error_text = []\<rparr> sample_mmap (\<lambda>d. 2000) 1040 fs' call = Inr (v, s') \<and>
     denotes s' ab v"
proof -
  let ?os = "\<lparr>may_open = (\<lambda>f m. True), may_write = True, stream = (\<lambda>f. 0), error_text = []\<rparr>"
  obtain s2 where s2: "ready sample_mmap 2000 0 0 call sample_objects call1 s2 STRING 2 5000"
    using during_ready [OF call_during, of 0 0 2 2000 STRING] call_pool by (auto simp: word_addrs_simps)
  note a = during_string [OF call_during]
  show ?thesis
    using file_roundtrip [OF a a, of ?os sample_mmap "\<lambda>d. 2000" sample_objects call1 s2 5000 "\<lambda>f. None"] s2 built_denotes
    by (auto simp del: denotes.simps)
qed



end
