(* ===== verification/Spec2Isabelle.thy ===== *)
theory Spec2Isabelle
  imports Value_Properties Tag_Hash Compiled_File File_Properties
begin

text \<open>
  A verification library for the Lama RISC-V back end: the run-time system that Lama programs are
  linked with (\<open>src/runtime\<close>, C) and the compiler from Lama bytecode to RISC-V assembly
  (\<open>src/comp\<close>, C++).

  \<^bold>\<open>How the program works.\<close> \<open>main\<close> of \<open>comp/src/lama_rv.cpp\<close> reads a bytecode file
  (\<open>bytefile.cpp\<close>), decodes it (\<open>read.cpp\<close>) into instructions (\<open>instructions.h\<close>), and generates
  assembly from the public symbols on, following jumps and calls (\<open>lama_rv.cpp\<close>, \<open>compiler.h\<close>,
  \<open>emit.cpp\<close>); the operand stack is symbolic, in fifteen registers and then in memory
  (\<open>symb_stack.h\<close>). The assembly calls the run-time system: operators, constructors and printing in
  \<open>runtime.c\<close>, allocation and collection in \<open>gc.c\<close>. \<open>disasm.cpp\<close> and \<open>dump.cpp\<close> list a file.

  \<^bold>\<open>The run-time system.\<close> A state is a \<open>gc_state\<close>: memory, the heap's chunk, the pool of extra roots,
  the bounds of the Lama stack and of the global area, the variables of \<open>gc.c\<close>. A value is a machine
  word; \<open>denotes\<close> says which tree it stands for.
    \<^item> \<open>Prelude\<close>, \<open>Memory\<close>, \<open>Text\<close>: results, the little-endian byte memory, texts of numbers.
    \<^item> \<open>Values\<close> (\<open>runtime_common.h\<close>): boxing, header words, with the round trips between them.
    \<^item> \<open>Objects\<close> (\<open>gc.c\<close>, \<open>gc.h\<close>): object sizes, iterators over the heap and over fields, and the heap as
      a list of object headers.
    \<^item> \<open>Mark\<close>, \<open>Roots\<close>: \<open>mark\<close> with its queue in the forward words, the roots, the pool of extra roots;
      \<open>mark\<close> terminates and marks exactly what is reachable. The pool is an interpretation of the
      interface \<open>lifo\<close>.
    \<^item> \<open>Compact\<close>, \<open>Compact_Correct\<close>, \<open>Compact_Phase\<close>, \<open>Collect\<close>: the LISP2 compaction; it refines the
      abstract \<open>compacted\<close>, every object moved and every pointer redirected.
    \<^item> \<open>Alloc\<close>: the allocator, \<open>__init\<close>, and the invariant \<open>gc_ok\<close> that each operation keeps.
    \<^item> \<open>Gc_Properties\<close>: the properties of all of these over a sample heap.
    \<^item> \<open>Builtins\<close>, \<open>Tag_Hash\<close>, \<open>Structural\<close>, \<open>Printing\<close> (\<open>runtime.c\<close>): operators, checks, element access,
      tag hashes, \<open>Lcompare\<close>, \<open>Lhash\<close>, \<open>printValue\<close>; \<open>Trees\<close> and \<open>Value_Properties\<close>: they depend only on the
      trees of their arguments, which a collection keeps.
    \<^item> \<open>Constructors\<close>, \<open>Strings\<close>, \<open>Io\<close>, \<open>Files\<close> (\<open>runtime.c\<close>): the functions that allocate, between
      \<open>PRE_GC\<close> and \<open>POST_GC\<close>, with their arguments registered as extra roots; numbers read and written;
      formatted output, files, regular expressions.
      \<open>Alloc_Contract\<close> is what they rely on, \<open>Constructors_Correct\<close>, \<open>Make_Array\<close>, \<open>Strings_Correct\<close>,
      \<open>Clone_Correct\<close>, \<open>Show_Correct\<close> show that each returns the tree it is to make, whether or not it
      collects (\<open>built\<close>); \<open>Call_Sample\<close>, \<open>Constructor_Properties\<close>, \<open>String_Properties\<close>,
      \<open>File_Properties\<close> hold the properties and calls on a full heap that show each of them at work.

  \<^bold>\<open>The compiler.\<close> A state is a \<open>compiler\<close>: the members of the class \<open>Compiler\<close> and the lines written so
  far. An instruction is a constructor of \<open>instr\<close>, a line of assembly one of \<open>asm\<close>.
    \<^item> \<open>Instructions\<close>, \<open>Symb_Stack\<close>, \<open>Asm\<close>, \<open>Code_Buffer\<close>, \<open>Print_Inst\<close>, \<open>Comp_Tag_Hash\<close>, \<open>Compiler\<close>: the
      data and the code of each instruction (\<open>opcode.h\<close>, \<open>instructions.h\<close>, \<open>symb_stack.h\<close>,
      \<open>register.h\<close>, \<open>code_buffer.h\<close>, \<open>print.cpp\<close>, \<open>comp/src/runtime.cpp\<close>, \<open>compiler.h\<close>, \<open>emit.cpp\<close>). The
      symbolic stack is an interpretation of the interface \<open>symbolic_stack\<close>.
    \<^item> \<open>Driver\<close>, \<open>Driver_Correct\<close>, \<open>Driver_Properties\<close> (\<open>lama_rv.cpp\<close>): the loop over pending targets, as a
      program and as a step relation with an invariant: it terminates, the heights it records are
      consistent, and everything that control can reach is emitted.
    \<^item> \<open>Machine\<close>, \<open>Codegen_Correct\<close>, \<open>Frame_Code\<close>, \<open>Codegen_Properties\<close>: the meaning of the emitted lines
      on RV64IM, and what they do: arithmetic against the built-ins, calls, frames, variables.
    \<^item> \<open>Block_Correct\<close>: the code of a basic block simulates a stack machine, with calls of the run-time
      functions of \<open>Builtins\<close> through the interface \<open>runtime_code\<close>, the calling convention.
    \<^item> \<open>Run\<close>, \<open>Placement\<close>, \<open>Program_Correct\<close>, \<open>Calls_Correct\<close>: the machine with labels, jumps, calls and
      returns on the whole output, where the code of each instruction is in it, and the simulation of
      programs: of a function from its label to its \<open>ret\<close>, and of functions that call each other, to
      any depth. \<open>linked_code\<close> is the interface between the output of the driver and the simulation.
    \<^item> \<open>Bytefile\<close>, \<open>Reader\<close>, \<open>Reader_Correct\<close> (\<open>bytefile.h\<close>, \<open>bytefile.cpp\<close>, \<open>inst_reader.h\<close>, \<open>read.cpp\<close>): the
      file, the decoder, and its round trip with an encoder; \<open>Disasm\<close>, \<open>Disasm_Correct\<close> (\<open>disasm.cpp\<close>,
      \<open>dump.cpp\<close>): the listings and when they agree; \<open>Main_Properties\<close>: the programs on a file; \<open>Compiled_File\<close>: from
      the bytes of a file to the run of the code the compiler writes for it.

  \<^bold>\<open>Conventions.\<close> A failure of the program is a value: \<open>Failure\<close> with its message, \<open>AssertFailed\<close>,
  \<open>Exit\<close>, \<open>Killed\<close> when the process dies or a loop does not end, \<open>Undefined\<close> for behaviour C does not
  define. The assertions and the checks \<open>DCHECK\<close> are in force. Loops that may not end (\<open>mark\<close>, \<open>Lcompare\<close>,
  reading to a NUL, the driver's loop, the reader) are partial functions whose value is \<open>None\<close> when
  they do not return; that they return is proved, not assumed. Only \<open>inner_hash\<close> and \<open>de_hash\<close> run by a
  bound: the depth limit and the buffer of the code.

  \<^bold>\<open>Parameters.\<close> \<open>mmap\<close>, \<open>getenv\<close>, \<open>random\<close>, the clock, \<open>regcomp\<close> and \<open>regexec\<close>, the bytes of files and what
  the operating system allows with them (\<open>os\<close>) are arguments, and so is what the languages leave open: the frame addresses and the addresses of local variables
  (\<open>__builtin_frame_address\<close>, \<open>&\<close>), the element \<open>begin()\<close> of an unordered map, the order in which
  arguments are evaluated, the value of the uninitialised \<open>CBegin::offset\<close>. The machine is the RISC-V
  specification; \<open>ext\<close> stands for the linked functions, and a call of one is one step.

  \<^bold>\<open>Not modelled.\<close> The debugging aids of \<open>gc.c\<close> (\<open>DEBUG_VERSION\<close>, \<open>FULL_INVARIANT_CHECKS\<close>) and the
  tests; \<open>Lprintf\<close>, \<open>Lsprintf\<close>, \<open>Lfprintf\<close> and \<open>Lfailure\<close>, which are compiled on 32-bit machines only
  and edit a \<open>va_list\<close> in place; of the conversions of \<open>printf\<close>, only those \<open>conversion\<close> lists.

  \<^bold>\<open>Bounds of the simulation.\<close> It covers calls of functions by their offset with at most eight arguments,
  operands that stay in registers, functions with the same number of local variables (the compiler
  may generate an \<open>END\<close> with the frame of another function) and callees that leave alone the words
  their caller saved, one of which is a callee's first local variable if their number is even. It does not cover \<open>main\<close>,
  whose entry and exit are raw text, and calls of closures. The run-time functions it
  covers are those of \<open>runtime\<close> in \<open>Block_Correct\<close>, which do not allocate. \<open>Lstringcat\<close> and \<open>set_args\<close> have definitions only.
\<close>

end
